(* ===== verification/Prelude.thy ===== *)
theory Prelude
  imports Main "HOL-Library.Word"
begin

text \<open>
  Shared vocabulary of the development: the C integer types of makedumpfile as words, the
  rounding macros of \<^verbatim>\<open>src/common.h\<close>, little helpers on option-valued pointers and the
  generic list and word lemmas that the component theories rest on.
\<close>

unbundle bit_operations_syntax

section \<open>C integer types\<close>

type_synonym u8 = "8 word"
type_synonym u16 = "16 word"
type_synonym u32 = "32 word"
type_synonym u64 = "64 word"

text \<open>
  \<open>c_arith\<close> collects the facts that move word arithmetic to \<open>nat\<close>.
\<close>

named_theorems c_arith "reading word arithmetic as arithmetic on nat"

lemmas word_to_nat [c_arith] = word_le_nat_alt word_less_nat_alt

lemma unat_div64 [c_arith]: "unat ((x :: u64) div y) = unat x div unat y"
  by (rule unat_div_distrib)

lemma unat_mod64 [c_arith]: "unat ((x :: u64) mod y) = unat x mod unat y"
  by (rule unat_mod_distrib)

lemma unat64_less [simp]: "unat (x :: u64) < 18446744073709551616"
  using unsigned_less [of x] by simp

lemma unat_plus64: "unat x + unat y < 2 ^ 64 \<Longrightarrow> unat (x + y :: u64) = unat x + unat y"
  by (simp add: unat_word_ariths)

lemma unat_minus64: "y \<le> x \<Longrightarrow> unat (x - y :: u64) = unat x - unat y"
  by (rule unat_sub) (simp add: word_le_nat_alt)

lemma unat_mult64: "unat x * unat y < 2 ^ 64 \<Longrightarrow> unat (x * y :: u64) = unat x * unat y"
  by (simp add: unat_word_ariths)

lemma unat_of_nat64: "n < 2 ^ 64 \<Longrightarrow> unat (of_nat n :: u64) = n"
  by (rule of_nat_inverse [OF refl]) simp

lemma of_nat64_eq: "m < 2 ^ 64 \<Longrightarrow> n < 2 ^ 64 \<Longrightarrow> (of_nat m = (of_nat n :: u64)) = (m = n)"
  by (metis unat_of_nat64)

lemma unat32_less [simp]: "unat (x :: u32) < 4294967296"
  using unsigned_less [of x] by simp

lemma unat_ucast32 [simp]: "unat (ucast (x :: u32) :: u64) = unat x"
proof -
  have "unat x < 18446744073709551616" using unat32_less [of x] by linarith
  then show ?thesis by (simp add: unsigned_ucast_eq take_bit_nat_eq_self_iff)
qed

lemma sint_u64_nat: "unat (x :: u64) < 2 ^ 63 \<Longrightarrow> sint x = int (unat x)"
proof -
  assume "unat x < 2 ^ 63"
  then have "uint x < 2 ^ 63"
    by (simp only: unat_eq_nat_uint nat_less_iff uint_ge_0 of_nat_power of_nat_numeral)
  moreover have "- (2 ^ 63) \<le> uint x" by (rule order_trans [OF _ uint_ge_0]) simp
  ultimately show ?thesis by (simp add: sint_uint signed_take_bit_int_eq_self_iff)
qed

section \<open>The rounding macros of common.h\<close>

definition divideup :: "u64 \<Rightarrow> u64 \<Rightarrow> u64" where
  "divideup x y = (x + (y - 1)) div y"

definition round_c :: "u64 \<Rightarrow> u64 \<Rightarrow> u64" where
  "round_c x y = (x div y) * y"

definition roundup :: "u64 \<Rightarrow> u64 \<Rightarrow> u64" where
  "roundup x y = ((x + (y - 1)) div y) * y"

lemma unat_round_c: "unat (round_c x y) = unat x div unat y * unat y"
proof -
  have "unat x div unat y * unat y \<le> unat x" by simp
  also have "\<dots> < 2 ^ 64" by simp
  finally show ?thesis
    by (simp add: round_c_def unat_mult64 unat_div64)
qed

lemma round_c_le: "round_c x y \<le> x"
  by (simp add: word_le_nat_alt unat_round_c)

lemma round_c_dvd: "unat y dvd unat (round_c x y)"
  by (simp add: unat_round_c)

lemma less_round_c_plus: "0 < y \<Longrightarrow> unat x < unat (round_c x y) + unat y"
proof -
  assume "0 < y"
  then have "0 < unat y" by (simp add: word_less_nat_alt)
  then have "unat x < (unat x div unat y) * unat y + unat y"
    using dividend_less_div_times [of "unat y" "unat x"] by simp
  then show ?thesis by (simp add: unat_round_c)
qed

lemma unat_roundup:
  assumes "0 < y" "unat x + (unat y - 1) < 2 ^ 64"
  shows "unat (roundup x y) = ((unat x + (unat y - 1)) div unat y) * unat y"
proof -
  from assms(1) have y: "1 \<le> y"
    by (simp add: word_le_nat_alt word_less_nat_alt)
  then have m1: "unat (y - 1) = unat y - 1" by (simp add: unat_minus64)
  with assms(2) have s: "unat (x + (y - 1)) = unat x + (unat y - 1)"
    by (simp add: unat_plus64)
  have "unat (roundup x y) = unat (round_c (x + (y - 1)) y)"
    by (simp add: roundup_def round_c_def)
  then show ?thesis by (simp add: unat_round_c s)
qed

lemma roundup_ge:
  assumes "0 < y" "unat x + (unat y - 1) < 2 ^ 64"
  shows "x \<le> roundup x y"
proof -
  from assms(1) have y: "0 < unat y" by (simp add: word_less_nat_alt)
  let ?s = "unat x + (unat y - 1)"
  have "?s < (?s div unat y) * unat y + unat y"
    using dividend_less_div_times [OF y, of ?s] by simp
  with y have "unat x \<le> ((unat x + (unat y - 1)) div unat y) * unat y" by linarith
  with assms show ?thesis by (simp add: word_le_nat_alt unat_roundup)
qed

section \<open>Outcomes\<close>

text \<open>What a function does: it runs into undefined behaviour, returns FALSE, or returns a result.\<close>

datatype 'a outcome = Undefined | Failed | Done 'a

section \<open>Pointers as options, ends of lists\<close>

text \<open>Loops that follow a pointer until NULL: \<open>case\<close> on the pointer is monotone.\<close>

lemma case_option_mono_option [partial_function_mono]:
  assumes "mono_option F" and "\<And>x. mono_option (G x)"
  shows "mono_option (\<lambda>f. case p of None \<Rightarrow> F f | Some x \<Rightarrow> G x f)"
  using assms by (cases p) simp_all

definition hd_opt :: "'a list \<Rightarrow> 'a option" where
  "hd_opt xs = (case xs of [] \<Rightarrow> None | x # _ \<Rightarrow> Some x)"

definition last_opt :: "'a list \<Rightarrow> 'a option" where
  "last_opt xs = (if xs = [] then None else Some (last xs))"

lemma hd_opt_simps [simp]:
  "hd_opt [] = None" "hd_opt (x # xs) = Some x" "(hd_opt xs = None) = (xs = [])"
  by (simp_all add: hd_opt_def split: list.split)

lemma last_opt_simps [simp]:
  "last_opt [] = None" "last_opt (xs @ [x]) = Some x" "(last_opt xs = None) = (xs = [])"
  "last_opt (xs @ y # ys) = last_opt (y # ys)"
  "last_opt (x # y # ys) = last_opt (y # ys)"
  "last_opt [x] = Some x"
  by (simp_all add: last_opt_def)

lemma hd_opt_append: "hd_opt (xs @ ys) = (if xs = [] then hd_opt ys else hd_opt xs)"
  by (cases xs) simp_all

lemma last_opt_append: "last_opt (xs @ ys) = (if ys = [] then last_opt xs else last_opt ys)"
  by (simp add: last_opt_def)

lemma upt_append: "a \<le> b \<Longrightarrow> b \<le> c \<Longrightarrow> [a..<b] @ [b..<c] = [a..<c]"
  by (metis le_Suc_ex upt_add_eq_append)

text \<open>Fixed-size blocks: being inside block \<open>b\<close> is having block number \<open>b\<close>.\<close>

lemma div_block_iff:
  fixes B :: nat
  assumes "0 < B"
  shows "(B * b \<le> k \<and> k < B * b + B) = (k div B = b)"
proof
  assume "B * b \<le> k \<and> k < B * b + B"
  then show "k div B = b" by (intro div_nat_eqI) (auto simp: algebra_simps)
next
  assume "k div B = b"
  with dividend_less_times_div [OF assms, of k] times_div_less_eq_dividend [of B k]
  show "B * b \<le> k \<and> k < B * b + B" by auto
qed

section \<open>Loops over a range of page frames\<close>

text \<open>
  \<^verbatim>\<open>for (pfn = p; pfn < e; ++pfn)\<close>: the body threads a state, \<open>True\<close> continues the loop, \<open>False\<close>
  leaves it with that result, \<open>None\<close> is a fault.
\<close>

function for_pfns :: "u64 \<Rightarrow> u64 \<Rightarrow> (u64 \<Rightarrow> 's \<Rightarrow> (bool \<times> 's) option) \<Rightarrow> 's \<Rightarrow> (bool \<times> 's) option" where
  "for_pfns p e body s =
     (if p < e
      then (case body p s of None \<Rightarrow> None
            | Some (True, s') \<Rightarrow> for_pfns (p + 1) e body s'
            | Some (False, s') \<Rightarrow> Some (False, s'))
      else Some (True, s))"
  by pat_completeness auto

lemma unat_Suc_less: "p < (e :: u64) \<Longrightarrow> unat (p + 1) = Suc (unat p)"
proof -
  assume "p < e"
  then have "unat p < unat e" by (simp add: word_less_nat_alt)
  with unat64_less [of e] have "unat p < 18446744073709551615" by linarith
  then have "unat p + unat (1 :: u64) < 2 ^ 64" by simp
  from unat_plus64 [OF this] show ?thesis by simp
qed

termination for_pfns
  by (relation "measure (\<lambda>(p, e, _, _). unat e - unat p)")
    (auto simp: unat_Suc_less word_less_nat_alt)

declare for_pfns.simps [simp del]

lemma for_pfns_inv:
  assumes "p \<le> e" and "I (unat p) s"
    and "\<And>q s. p \<le> q \<Longrightarrow> q < e \<Longrightarrow> I (unat q) s \<Longrightarrow> \<exists>s'. body q s = Some (True, s') \<and> I (Suc (unat q)) s'"
  shows "\<exists>s'. for_pfns p e body s = Some (True, s') \<and> I (unat e) s'"
  using assms
proof (induction p e body s rule: for_pfns.induct)
  case (1 p e body s)
  show ?case
  proof (cases "p < e")
    case True
    then obtain s' where s': "body p s = Some (True, s')" "I (Suc (unat p)) s'" using 1(3,4) by blast
    have "p + 1 \<le> e" "p \<le> p + 1" using True by (simp_all add: word_le_nat_alt word_less_nat_alt unat_Suc_less)
    with 1(1) [OF True s'(1) refl refl] 1(4) s'(2) True
    have "\<exists>t. for_pfns (p + 1) e body s' = Some (True, t) \<and> I (unat e) t"
      by (simp add: unat_Suc_less order_trans [of p "p + 1"])
    with True s'(1) show ?thesis by (simp add: for_pfns.simps [of p])
  next
    case False
    with 1(2) have "p = e" by simp
    with 1(3) show ?thesis by (simp add: for_pfns.simps [of e])
  qed
qed

end
