(* ===== verification/Cache.thy ===== *)
theory Cache
  imports Prelude
begin

text \<open>
  The page cache of \<^verbatim>\<open>src/cache.c\<close>: eight statically allocated entries that move between
  a pool (a stack of free entries), a list of pending entries and a list of used entries kept
  in most-recently-used order. The two lists are doubly linked through the entries, so the
  model keeps the links: \<open>entries\<close> is the static array, a pointer into it is an index, NULL is
  \<open>None\<close>. \<open>cache_inv\<close> relates the links to three lists of indices that partition the
  array; every operation is shown to act on those lists as an LRU cache does.
\<close>

section \<open>Data\<close>

text \<open>The only function the program ever stores in \<^verbatim>\<open>discard\<close> is \<^verbatim>\<open>unmap_cache\<close>.\<close>

datatype discard_fn = Unmap_cache

record cache_entry =
  paddr :: u64
  bufptr :: u64
  buflen :: u64
  nxt :: "nat option"
  prv :: "nat option"
  discard :: "discard_fn option"

record cache_list =
  head :: "nat option"
  tail :: "nat option"

text \<open>
  The file-level variables of \<^verbatim>\<open>cache.c\<close>. \<open>munmaps\<close> is the trace of the \<^verbatim>\<open>munmap\<close> calls
  made by discarded entries: address and length.
\<close>

record cache_state =
  entries :: "nat \<Rightarrow> cache_entry"
  pool :: "nat \<Rightarrow> nat option"
  avail :: nat
  used :: cache_list
  pending :: cache_list
  cachebuf :: u64
  munmaps :: "(u64 \<times> u64) list"

definition CACHE_SIZE :: nat where
  "CACHE_SIZE = 8"

definition zero_entry :: cache_entry where
  "zero_entry = \<lparr>paddr = 0, bufptr = 0, buflen = 0, nxt = None, prv = None, discard = None\<rparr>"

text \<open>The state before \<^verbatim>\<open>cache_init\<close>: static storage is zero, \<^verbatim>\<open>avail\<close> is \<^verbatim>\<open>CACHE_SIZE\<close>.\<close>

definition static_state :: cache_state where
  "static_state = \<lparr>entries = (\<lambda>_. zero_entry), pool = (\<lambda>_. None), avail = CACHE_SIZE,
     used = \<lparr>head = None, tail = None\<rparr>, pending = \<lparr>head = None, tail = None\<rparr>,
     cachebuf = 0, munmaps = []\<rparr>"

section \<open>Operations\<close>

text \<open>
  \<^verbatim>\<open>cache_init\<close>: the argument is what \<^verbatim>\<open>malloc\<close> returned, \<open>None\<close> for NULL. Indices are
  below \<^verbatim>\<open>CACHE_SIZE\<close>, so the loop fills exactly the array.
\<close>

definition cache_init :: "u64 option \<Rightarrow> cache_state \<Rightarrow> bool \<times> cache_state" where
  "cache_init m s = (case m of
     None \<Rightarrow> (False, s\<lparr>cachebuf := 0\<rparr>)
   | Some b \<Rightarrow> (True, s\<lparr>cachebuf := b,
        pool := (\<lambda>i. if i < CACHE_SIZE then Some i else pool s i)\<rparr>))"

definition add_entry ::
  "(nat \<Rightarrow> cache_entry) \<Rightarrow> cache_list \<Rightarrow> nat \<Rightarrow> (nat \<Rightarrow> cache_entry) \<times> cache_list" where
  "add_entry E c e =
     (let E1 = E(e := (E e)\<lparr>nxt := head c, prv := None\<rparr>);
          E2 = (case head c of None \<Rightarrow> E1 | Some h \<Rightarrow> E1(h := (E1 h)\<lparr>prv := Some e\<rparr>));
          c1 = c\<lparr>head := Some e\<rparr>;
          c2 = (case tail c1 of None \<Rightarrow> c1\<lparr>tail := Some e\<rparr> | Some _ \<Rightarrow> c1)
      in (E2, c2))"

definition remove_entry ::
  "(nat \<Rightarrow> cache_entry) \<Rightarrow> cache_list \<Rightarrow> nat \<Rightarrow> (nat \<Rightarrow> cache_entry) \<times> cache_list" where
  "remove_entry E c e =
     (let (E1, c1) = (case nxt (E e) of
             Some n \<Rightarrow> (E(n := (E n)\<lparr>prv := prv (E e)\<rparr>), c)
           | None \<Rightarrow> (E, c\<lparr>tail := prv (E e)\<rparr>))
      in (case prv (E1 e) of
             Some p \<Rightarrow> (E1(p := (E1 p)\<lparr>nxt := nxt (E1 e)\<rparr>), c1)
           | None \<Rightarrow> (E1, c1\<lparr>head := nxt (E1 e)\<rparr>)))"

text \<open>The hit test of \<^verbatim>\<open>cache_search\<close>: unsigned 64-bit subtraction wraps.\<close>

definition entry_hit :: "cache_entry \<Rightarrow> u64 \<Rightarrow> u64 \<Rightarrow> bool" where
  "entry_hit en pa len =
     (let off = pa - paddr en in off < buflen en \<and> len \<le> buflen en - off)"

text \<open>
  The loop of \<^verbatim>\<open>cache_search\<close> follows \<^verbatim>\<open>next\<close> pointers. \<open>None\<close> is a loop that does not end;
  \<open>Some None\<close> a loop that reached NULL; \<open>Some (Some e)\<close> one that found entry \<open>e\<close>.
\<close>

partial_function (option) search_loop ::
  "(nat \<Rightarrow> cache_entry) \<Rightarrow> u64 \<Rightarrow> u64 \<Rightarrow> nat option \<Rightarrow> nat option option" where
  "search_loop E pa len p = (case p of
     None \<Rightarrow> Some None
   | Some e \<Rightarrow> if entry_hit (E e) pa len then Some (Some e)
               else search_loop E pa len (nxt (E e)))"

text \<open>\<^verbatim>\<open>cache_search\<close>: the returned pointer is \<open>None\<close> on a miss.\<close>

definition cache_search ::
  "cache_state \<Rightarrow> u64 \<Rightarrow> u64 \<Rightarrow> (u64 option \<times> cache_state) option" where
  "cache_search s pa len = (case search_loop (entries s) pa len (head (used s)) of
     None \<Rightarrow> None
   | Some None \<Rightarrow> Some (None, s)
   | Some (Some e) \<Rightarrow>
       (let ptr = bufptr (entries s e) + (pa - paddr (entries s e))
        in if Some e \<noteq> head (used s)
           then let (E1, u1) = remove_entry (entries s) (used s) e;
                    (E2, u2) = add_entry E1 u1 e
                in Some (Some ptr, s\<lparr>entries := E2, used := u2\<rparr>)
           else Some (Some ptr, s)))"

text \<open>\<^verbatim>\<open>entry->discard(entry)\<close>, with \<^verbatim>\<open>unmap_cache\<close> of \<^verbatim>\<open>src/makedumpfile.c\<close>.\<close>

definition unmap_cache :: "cache_entry \<Rightarrow> cache_state \<Rightarrow> cache_state" where
  "unmap_cache en s = s\<lparr>munmaps := munmaps s @ [(bufptr en, buflen en)]\<rparr>"

definition run_discard :: "nat \<Rightarrow> cache_state \<Rightarrow> cache_state" where
  "run_discard e s = (case discard (entries s e) of
     None \<Rightarrow> s
   | Some Unmap_cache \<Rightarrow> unmap_cache (entries s e) s)"

text \<open>
  The choice of an entry in \<^verbatim>\<open>cache_alloc\<close>: the top of the pool, else the tail of the used
  list, else none.
\<close>

definition take_entry :: "cache_state \<Rightarrow> nat option \<times> cache_state" where
  "take_entry s =
     (if avail s \<noteq> 0
      then (pool s (avail s - 1), s\<lparr>avail := avail s - 1\<rparr>)
      else (case tail (used s) of
        Some e \<Rightarrow>
          (let (E1, u1) = remove_entry (entries s) (used s) e;
               s1 = s\<lparr>entries := E1, used := u1\<rparr>
           in (Some e, run_discard e s1))
      | None \<Rightarrow> (None, s)))"

definition cache_alloc :: "u64 \<Rightarrow> cache_state \<Rightarrow> u64 \<Rightarrow> nat option \<times> cache_state" where
  "cache_alloc page_size s pa = (case take_entry s of
     (None, s1) \<Rightarrow> (None, s1)
   | (Some e, s1) \<Rightarrow>
       (let E1 = (entries s1)(e := (entries s1 e)
              \<lparr>paddr := pa, bufptr := cachebuf s1 + of_nat e * page_size,
               buflen := page_size, discard := None\<rparr>);
            (E2, p2) = add_entry E1 (pending s1) e
        in (Some e, s1\<lparr>entries := E2, pending := p2\<rparr>)))"

definition cache_add :: "cache_state \<Rightarrow> nat \<Rightarrow> cache_state" where
  "cache_add s e =
     (let (E1, p1) = remove_entry (entries s) (pending s) e;
          (E2, u2) = add_entry E1 (used s) e
      in s\<lparr>entries := E2, pending := p1, used := u2\<rparr>)"

definition cache_free :: "cache_state \<Rightarrow> nat \<Rightarrow> cache_state" where
  "cache_free s e =
     (let (E1, p1) = remove_entry (entries s) (pending s) e
      in s\<lparr>entries := E1, pending := p1,
           pool := (pool s)(avail s := Some e), avail := Suc (avail s)\<rparr>)"

section \<open>The doubly linked lists\<close>

text \<open>
  \<open>seg E p xs q\<close>: the entries \<open>xs\<close> are linked in this order, the first one's \<^verbatim>\<open>prev\<close> is \<open>p\<close>
  and the last one's \<^verbatim>\<open>next\<close> is \<open>q\<close>.
\<close>

fun seg :: "(nat \<Rightarrow> cache_entry) \<Rightarrow> nat option \<Rightarrow> nat list \<Rightarrow> nat option \<Rightarrow> bool" where
  "seg E p [] q = True"
| "seg E p (x # xs) q =
     (prv (E x) = p \<and> nxt (E x) = (if xs = [] then q else hd_opt xs) \<and> seg E (Some x) xs q)"

definition dll :: "(nat \<Rightarrow> cache_entry) \<Rightarrow> cache_list \<Rightarrow> nat list \<Rightarrow> bool" where
  "dll E c xs \<longleftrightarrow> distinct xs \<and> head c = hd_opt xs \<and> tail c = last_opt xs \<and> seg E None xs None"

lemma seg_append:
  "seg E p (xs @ ys) q \<longleftrightarrow>
     seg E p xs (if ys = [] then q else hd_opt ys) \<and>
     seg E (if xs = [] then p else last_opt xs) ys q"
  by (induction xs arbitrary: p) (auto simp: hd_opt_append last_opt_def)

text \<open>A segment only depends on the links of its own entries.\<close>

lemma seg_cong:
  "(\<And>x. x \<in> set xs \<Longrightarrow> nxt (E' x) = nxt (E x) \<and> prv (E' x) = prv (E x)) \<Longrightarrow>
   seg E' p xs q = seg E p xs q"
  by (induction xs arbitrary: p) auto

lemma seg_upd_other [simp]: "x \<notin> set xs \<Longrightarrow> seg (E(x := v)) p xs q = seg E p xs q"
  by (rule seg_cong) auto

lemma dll_cong:
  assumes "dll E c xs"
    and "\<And>x. x \<in> set xs \<Longrightarrow> nxt (E' x) = nxt (E x) \<and> prv (E' x) = prv (E x)"
  shows "dll E' c xs"
  using assms seg_cong [of xs E' E None None] by (simp add: dll_def)

lemma dll_frame:
  assumes "dll E c xs" and "\<And>z. z \<notin> A \<Longrightarrow> E' z = E z" and "set xs \<inter> A = {}"
  shows "dll E' c xs"
  using assms by (intro dll_cong [OF assms(1)]) (metis disjoint_iff)

lemma dll_Nil [simp]: "dll E c [] \<longleftrightarrow> head c = None \<and> tail c = None"
  by (auto simp: dll_def)

lemma dll_distinct: "dll E c xs \<Longrightarrow> distinct xs"
  by (simp add: dll_def)

text \<open>\<^verbatim>\<open>add_entry\<close> pushes at the front.\<close>

lemma add_entry_dll:
  assumes "dll E c xs" and "e \<notin> set xs" and "add_entry E c e = (E', c')"
  shows "dll E' c' (e # xs)"
proof (cases xs)
  case Nil
  with assms show ?thesis by (auto simp: add_entry_def dll_def)
next
  case (Cons h ys)
  with assms have c: "head c = Some h" "tail c \<noteq> None" "seg E (Some h) ys None"
      "nxt (E h) = (if ys = [] then None else hd_opt ys)" "h \<noteq> e" "h \<notin> set ys" "e \<notin> set ys"
    by (auto simp: dll_def)
  with assms Cons have E': "E' = (E(e := (E e)\<lparr>nxt := Some h, prv := None\<rparr>))
        (h := (E h)\<lparr>prv := Some e\<rparr>)" "head c' = Some e" "tail c' = tail c"
    by (auto simp: add_entry_def split: option.splits)
  with c Cons assms show ?thesis by (auto simp: dll_def)
qed

text \<open>\<^verbatim>\<open>add_entry\<close> changes the links of the new entry and of the old head, nothing else.\<close>

lemma add_entry_frame:
  assumes "add_entry E c e = (E', c')"
  shows "paddr (E' x) = paddr (E x)" "bufptr (E' x) = bufptr (E x)"
    "buflen (E' x) = buflen (E x)" "discard (E' x) = discard (E x)"
    and "x \<noteq> e \<Longrightarrow> head c \<noteq> Some x \<Longrightarrow> E' x = E x"
  using assms by (auto simp: add_entry_def Let_def split: option.splits)

lemma remove_entry_frame:
  assumes "remove_entry E c e = (E', c')"
  shows "paddr (E' x) = paddr (E x)" "bufptr (E' x) = bufptr (E x)"
    "buflen (E' x) = buflen (E x)" "discard (E' x) = discard (E x)"
  using assms by (auto simp: remove_entry_def split: option.splits)

text \<open>\<^verbatim>\<open>remove_entry\<close> unlinks an entry from anywhere in its list.\<close>

lemma remove_entry_split:
  assumes d: "dll E c (xs @ e # ys)" and r: "remove_entry E c e = (E', c')"
  shows "dll E' c' (xs @ ys)" and "\<And>z. z \<notin> set (xs @ ys) \<Longrightarrow> E' z = E z"
proof -
  from d have p: "prv (E e) = last_opt xs" and n: "nxt (E e) = hd_opt ys"
    and sx: "seg E None xs (Some e)" and sy: "seg E (Some e) ys None"
    and h: "head c = hd_opt (xs @ [e])" and t: "tail c = last_opt (e # ys)"
    and dis: "distinct (xs @ ys)" "e \<notin> set (xs @ ys)"
    by (auto simp: dll_def seg_append hd_opt_append split: if_splits)
  show "dll E' c' (xs @ ys)"
  proof (cases ys)
    case ys: Nil
    show ?thesis
    proof (cases xs rule: rev_cases)
      case Nil
      with ys r p n show ?thesis by (auto simp: remove_entry_def)
    next
      case (snoc as a)
      with ys r p n sx dis h show ?thesis
        by (auto simp: remove_entry_def dll_def seg_append hd_opt_append split: if_splits)
    qed
  next
    case ys: (Cons b bs)
    show ?thesis
    proof (cases xs rule: rev_cases)
      case Nil
      with ys r p n sy dis t show ?thesis
        by (auto simp: remove_entry_def dll_def)
    next
      case (snoc as a)
      with ys r p n sx sy dis h t show ?thesis
        by (auto simp: remove_entry_def dll_def seg_append hd_opt_append split: if_splits)
    qed
  qed
  show "E' z = E z" if "z \<notin> set (xs @ ys)" for z
  proof -
    have "nxt (E e) \<noteq> Some z" using n that by (cases ys) auto
    moreover have "prv (E e) \<noteq> Some z"
      using p that by (cases xs rule: rev_cases) auto
    ultimately show ?thesis using r dis
      by (auto simp: remove_entry_def split: option.splits if_splits)
  qed
qed

lemma remove_entry_dll:
  assumes "dll E c xs" and "e \<in> set xs" and "remove_entry E c e = (E', c')"
  shows "dll E' c' (remove1 e xs)" and "\<And>z. z \<notin> set xs \<Longrightarrow> E' z = E z"
proof -
  from assms(2) obtain as bs where xs: "xs = as @ e # bs" and e: "e \<notin> set as"
    by (meson split_list_first)
  then have r1: "remove1 e xs = as @ bs" by (simp add: remove1_append)
  from remove_entry_split [OF assms(1) [unfolded xs] assms(3)] xs
  show "dll E' c' (remove1 e xs)" and "\<And>z. z \<notin> set xs \<Longrightarrow> E' z = E z"
    unfolding r1 by auto
qed

section \<open>The cache as three lists\<close>

text \<open>
  \<open>cache_abs s us ps fs\<close>: \<open>us\<close> are the used entries, most recently used first, \<open>ps\<close> the
  pending ones and \<open>fs\<close> the pool, top last; together they are the array, each entry once.
\<close>

definition cache_abs :: "cache_state \<Rightarrow> nat list \<Rightarrow> nat list \<Rightarrow> nat list \<Rightarrow> bool" where
  "cache_abs s us ps fs \<longleftrightarrow>
     dll (entries s) (used s) us \<and> dll (entries s) (pending s) ps \<and>
     avail s = length fs \<and> (\<forall>i < length fs. pool s i = Some (fs ! i)) \<and>
     distinct (us @ ps @ fs) \<and> set (us @ ps @ fs) = {..<CACHE_SIZE}"

definition cache_inv :: "cache_state \<Rightarrow> bool" where
  "cache_inv s \<longleftrightarrow> (\<exists>us ps fs. cache_abs s us ps fs)"

text \<open>What an entry caches: everything but the links.\<close>

definition edata :: "cache_entry \<Rightarrow> u64 \<times> u64 \<times> u64 \<times> discard_fn option" where
  "edata en = (paddr en, bufptr en, buflen en, discard en)"

lemma edata_eqD:
  "edata a = edata b \<Longrightarrow> paddr a = paddr b \<and> bufptr a = bufptr b \<and> buflen a = buflen b \<and>
     discard a = discard b"
  by (simp add: edata_def)

lemma edata_add_entry: "add_entry E c e = (E', c') \<Longrightarrow> edata (E' x) = edata (E x)"
  by (auto simp: edata_def add_entry_frame)

lemma edata_remove_entry: "remove_entry E c e = (E', c') \<Longrightarrow> edata (E' x) = edata (E x)"
  by (auto simp: edata_def remove_entry_frame)

lemma entry_hit_edata: "edata a = edata b \<Longrightarrow> entry_hit a pa len = entry_hit b pa len"
  by (auto simp: entry_hit_def dest!: edata_eqD)

lemma cache_init_abs:
  "cache_abs (snd (cache_init (Some b) static_state)) [] [] [0..<CACHE_SIZE]"
  by (auto simp: cache_abs_def cache_init_def static_state_def)

text \<open>The search loop is \<^const>\<open>find\<close> on the represented list; in particular it ends.\<close>

lemma search_loop_seg:
  "seg E p us None \<Longrightarrow> search_loop E pa len (hd_opt us) = Some (find (\<lambda>e. entry_hit (E e) pa len) us)"
proof (induction us arbitrary: p)
  case Nil
  then show ?case by (simp add: search_loop.simps)
next
  case (Cons e us)
  then have "nxt (E e) = hd_opt us" by (auto split: if_splits)
  with Cons show ?case by (auto simp: search_loop.simps [of E pa len "Some e"])
qed

lemma cache_search_loop:
  "cache_abs s us ps fs \<Longrightarrow>
   search_loop (entries s) pa len (head (used s)) =
     Some (find (\<lambda>e. entry_hit (entries s e) pa len) us)"
  by (auto simp: cache_abs_def dll_def search_loop_seg)

text \<open>Moving an entry to the front of its list.\<close>

lemma move_to_front:
  assumes d: "dll E c xs" "e \<in> set xs"
    and r: "remove_entry E c e = (E1, c1)" and a: "add_entry E1 c1 e = (E2, c2)"
  shows "dll E2 c2 (e # remove1 e xs)"
    and "\<And>z. z \<notin> set xs \<Longrightarrow> E2 z = E z" and "\<And>z. edata (E2 z) = edata (E z)"
proof -
  note rem = remove_entry_dll [OF d r]
  have ne: "e \<notin> set (remove1 e xs)" using dll_distinct [OF d(1)] by simp
  show "dll E2 c2 (e # remove1 e xs)" by (rule add_entry_dll [OF rem(1) ne a])
  show "E2 z = E z" if "z \<notin> set xs" for z
  proof -
    have "z \<notin> set (remove1 e xs)" using that set_remove1_subset by fast
    then have "head c1 \<noteq> Some z" using rem(1) by (cases "remove1 e xs") (auto simp: dll_def)
    then show ?thesis using that d(2) rem(2) [OF that] add_entry_frame(5) [OF a, of z] by auto
  qed
  show "edata (E2 z) = edata (E z)" for z
    using edata_add_entry [OF a] edata_remove_entry [OF r] by simp
qed

lemma cache_search_miss:
  assumes "cache_abs s us ps fs" and "\<forall>e \<in> set us. \<not> entry_hit (entries s e) pa len"
  shows "cache_search s pa len = Some (None, s)"
proof -
  from assms(2) have "find (\<lambda>e. entry_hit (entries s e) pa len) us = None"
    by (simp add: find_None_iff)
  with assms(1) show ?thesis by (simp add: cache_search_def cache_search_loop)
qed

lemma cache_search_hit:
  assumes abs: "cache_abs s us ps fs"
    and f: "find (\<lambda>e. entry_hit (entries s e) pa len) us = Some e"
  shows "\<exists>s'. cache_search s pa len =
           Some (Some (bufptr (entries s e) + (pa - paddr (entries s e))), s') \<and>
         cache_abs s' (e # remove1 e us) ps fs \<and>
         (\<forall>z. edata (entries s' z) = edata (entries s z)) \<and> munmaps s' = munmaps s"
proof (cases "head (used s) = Some e")
  case True
  with abs have "us = e # remove1 e us"
    by (cases us) (auto simp: cache_abs_def dll_def)
  moreover have "search_loop (entries s) pa len (head (used s)) = Some (Some e)"
    using cache_search_loop [OF abs] f by simp
  ultimately show ?thesis using abs True by (simp add: cache_search_def)
next
  case False
  from f have e: "e \<in> set us" by (metis find_Some_iff nth_mem)
  obtain E1 u1 where r: "remove_entry (entries s) (used s) e = (E1, u1)" by fastforce
  obtain E2 u2 where a: "add_entry E1 u1 e = (E2, u2)" by fastforce
  from abs have du: "dll (entries s) (used s) us" and dp: "dll (entries s) (pending s) ps"
    and dis: "distinct (us @ ps @ fs)" by (auto simp: cache_abs_def)
  note mtf = move_to_front [OF du e r a]
  have "dll E2 (pending s) ps"
    by (rule dll_frame [OF dp mtf(2)]) (use dis in auto)
  with abs mtf e have "cache_abs (s\<lparr>entries := E2, used := u2\<rparr>) (e # remove1 e us) ps fs"
    by (auto simp: cache_abs_def)
  with abs False f r a mtf(3) show ?thesis
    by (auto simp: cache_search_def cache_search_loop)
qed


text \<open>Taking an entry: the top of the pool, else the least recently used entry.\<close>

lemma take_entry_pool:
  assumes "cache_abs s us ps fs" and "fs \<noteq> []"
  shows "take_entry s = (Some (last fs), s\<lparr>avail := length fs - 1\<rparr>)"
  using assms by (auto simp: take_entry_def cache_abs_def last_conv_nth)

lemma take_entry_evict:
  assumes abs: "cache_abs s us ps []" and "us \<noteq> []"
  shows "\<exists>E1 u1. remove_entry (entries s) (used s) (last us) = (E1, u1) \<and>
     take_entry s = (Some (last us), s\<lparr>entries := E1, used := u1,
       munmaps := munmaps s @ (if discard (entries s (last us)) = None then []
          else [(bufptr (entries s (last us)), buflen (entries s (last us)))])\<rparr>)"
proof -
  let ?e = "last us"
  obtain E1 u1 where r: "remove_entry (entries s) (used s) ?e = (E1, u1)" by fastforce
  from abs assms(2) have "avail s = 0" "tail (used s) = Some ?e"
    by (auto simp: cache_abs_def dll_def last_opt_def)
  moreover have "discard (E1 ?e) = discard (entries s ?e)" "bufptr (E1 ?e) = bufptr (entries s ?e)"
      "buflen (E1 ?e) = buflen (entries s ?e)"
    using remove_entry_frame [OF r] by simp_all
  ultimately show ?thesis using r
    by (auto simp: take_entry_def run_discard_def unmap_cache_def Let_def
        split: option.splits discard_fn.splits)
qed

text \<open>What \<^verbatim>\<open>cache_alloc\<close> writes into the entry it returns.\<close>

definition fresh_data :: "u64 \<Rightarrow> u64 \<Rightarrow> u64 \<Rightarrow> nat \<Rightarrow> u64 \<times> u64 \<times> u64 \<times> discard_fn option" where
  "fresh_data page_size buf pa e = (pa, buf + of_nat e * page_size, page_size, None)"

text \<open>The second half of \<^verbatim>\<open>cache_alloc\<close>: fill in an unlinked entry and make it pending.\<close>

lemma cache_alloc_from:
  assumes t: "take_entry s = (Some e, s1)"
    and du: "dll (entries s1) (used s1) us" and dp: "dll (entries s1) (pending s1) ps"
    and e: "e \<notin> set us" "e \<notin> set ps" and dis: "set us \<inter> set ps = {}"
  shows "\<exists>s'. cache_alloc page_size s pa = (Some e, s') \<and>
     dll (entries s') (used s') us \<and> dll (entries s') (pending s') (e # ps) \<and>
     edata (entries s' e) = fresh_data page_size (cachebuf s1) pa e \<and>
     (\<forall>z. z \<noteq> e \<longrightarrow> edata (entries s' z) = edata (entries s1 z)) \<and>
     pool s' = pool s1 \<and> avail s' = avail s1 \<and> munmaps s' = munmaps s1 \<and> cachebuf s' = cachebuf s1"
proof -
  let ?E = "(entries s1)(e := (entries s1 e)\<lparr>paddr := pa,
     bufptr := cachebuf s1 + of_nat e * page_size, buflen := page_size, discard := None\<rparr>)"
  obtain E2 p2 where a: "add_entry ?E (pending s1) e = (E2, p2)" by fastforce
  have dp': "dll ?E (pending s1) ps" by (rule dll_cong [OF dp]) (use e in auto)
  have "head (pending s1) \<noteq> Some z" if "z \<in> set us" for z
    using dp dis that by (cases ps) (auto simp: dll_def)
  then have "dll E2 (used s1) us"
    using e add_entry_frame(5) [OF a] by (intro dll_cong [OF du]) (metis fun_upd_other)
  moreover have "dll E2 p2 (e # ps)" by (rule add_entry_dll [OF dp' e(2) a])
  moreover have "edata (E2 z) = edata (?E z)" for z by (rule edata_add_entry [OF a])
  ultimately show ?thesis using t a
    by (auto simp: cache_alloc_def Let_def fresh_data_def edata_def)
qed

lemma cache_alloc_pool:
  assumes abs: "cache_abs s us ps fs" and fs: "fs \<noteq> []"
  shows "\<exists>s'. cache_alloc page_size s pa = (Some (last fs), s') \<and>
     cache_abs s' us (last fs # ps) (butlast fs) \<and>
     edata (entries s' (last fs)) = fresh_data page_size (cachebuf s) pa (last fs) \<and>
     (\<forall>z. z \<noteq> last fs \<longrightarrow> edata (entries s' z) = edata (entries s z)) \<and>
     munmaps s' = munmaps s \<and> cachebuf s' = cachebuf s"
proof -
  obtain gs g where g: "fs = gs @ [g]" using fs by (cases fs rule: rev_cases) auto
  from abs have "dll (entries s) (used s) us" "dll (entries s) (pending s) ps"
    "g \<notin> set us" "g \<notin> set ps" "set us \<inter> set ps = {}"
    by (auto simp: cache_abs_def g)
  with cache_alloc_from [OF take_entry_pool [OF abs fs], of us ps page_size pa] obtain s' where
    "cache_alloc page_size s pa = (Some g, s')" "dll (entries s') (used s') us"
    "dll (entries s') (pending s') (g # ps)" "pool s' = pool s" "avail s' = length gs"
    "edata (entries s' g) = fresh_data page_size (cachebuf s) pa g"
    "\<forall>z. z \<noteq> g \<longrightarrow> edata (entries s' z) = edata (entries s z)"
    "munmaps s' = munmaps s" "cachebuf s' = cachebuf s"
    by (auto simp: g)
  moreover from abs have "\<forall>i < length gs. pool s i = Some (gs ! i)"
    by (auto simp: cache_abs_def g nth_append)
  ultimately show ?thesis using abs by (auto simp: g cache_abs_def)
qed

lemma cache_alloc_evict:
  assumes abs: "cache_abs s us ps []" and us: "us \<noteq> []"
  shows "\<exists>s'. cache_alloc page_size s pa = (Some (last us), s') \<and>
     cache_abs s' (butlast us) (last us # ps) [] \<and>
     edata (entries s' (last us)) = fresh_data page_size (cachebuf s) pa (last us) \<and>
     (\<forall>z. z \<noteq> last us \<longrightarrow> edata (entries s' z) = edata (entries s z)) \<and>
     munmaps s' = munmaps s @ (if discard (entries s (last us)) = None then []
        else [(bufptr (entries s (last us)), buflen (entries s (last us)))]) \<and>
     cachebuf s' = cachebuf s"
proof -
  obtain ws g where g: "us = ws @ [g]" using us by (cases us rule: rev_cases) auto
  from take_entry_evict [OF abs us] obtain E1 u1 where
    r: "remove_entry (entries s) (used s) g = (E1, u1)" and
    t: "take_entry s = (Some g, s\<lparr>entries := E1, used := u1,
       munmaps := munmaps s @ (if discard (entries s g) = None then []
          else [(bufptr (entries s g), buflen (entries s g))])\<rparr>)" by (auto simp: g)
  from abs have du: "dll (entries s) (used s) (ws @ g # [])"
    and dp: "dll (entries s) (pending s) ps" and dis: "distinct (ws @ [g] @ ps)"
    by (auto simp: cache_abs_def g)
  note rs = remove_entry_split [OF du r]
  have "dll E1 (pending s) ps"
    by (rule dll_frame [OF dp rs(2)]) (use dis in auto)
  with cache_alloc_from [OF t, of ws ps page_size pa] rs(1) dis obtain s' where
    "cache_alloc page_size s pa = (Some g, s')" "dll (entries s') (used s') ws"
    "dll (entries s') (pending s') (g # ps)" "pool s' = pool s" "avail s' = avail s"
    "edata (entries s' g) = fresh_data page_size (cachebuf s) pa g"
    "\<forall>z. z \<noteq> g \<longrightarrow> edata (entries s' z) = edata (E1 z)"
    "munmaps s' = munmaps s @ (if discard (entries s g) = None then []
          else [(bufptr (entries s g), buflen (entries s g))])" "cachebuf s' = cachebuf s"
    by auto
  with edata_remove_entry [OF r] abs dis show ?thesis by (auto simp: g cache_abs_def)
qed

lemma cache_alloc_none:
  assumes "cache_abs s [] ps []"
  shows "cache_alloc page_size s pa = (None, s)"
  using assms by (simp add: cache_alloc_def take_entry_def cache_abs_def)

lemma cache_add_abs:
  assumes abs: "cache_abs s us ps fs" and e: "e \<in> set ps"
  shows "cache_abs (cache_add s e) (e # us) (remove1 e ps) fs"
    and "edata (entries (cache_add s e) z) = edata (entries s z)"
    and "munmaps (cache_add s e) = munmaps s" and "cachebuf (cache_add s e) = cachebuf s"
proof -
  obtain E1 p1 where r: "remove_entry (entries s) (pending s) e = (E1, p1)" by fastforce
  obtain E2 u2 where a: "add_entry E1 (used s) e = (E2, u2)" by fastforce
  from abs have du: "dll (entries s) (used s) us" and dp: "dll (entries s) (pending s) ps"
    and dis: "distinct (us @ ps @ fs)" by (auto simp: cache_abs_def)
  note rs = remove_entry_dll [OF dp e r]
  have du1: "dll E1 (used s) us" by (rule dll_frame [OF du rs(2)]) (use dis in auto)
  have "e \<notin> set us" using e dis by auto
  then have "dll E2 u2 (e # us)" by (rule add_entry_dll [OF du1 _ a])
  moreover have "dll E2 p1 (remove1 e ps)"
  proof (rule dll_cong [OF rs(1)])
    fix x assume x: "x \<in> set (remove1 e ps)"
    with dis have "x \<in> set ps" "x \<noteq> e" "x \<notin> set us" by auto
    moreover from this have "head (used s) \<noteq> Some x"
      using du by (cases us) (auto simp: dll_def)
    ultimately show "nxt (E2 x) = nxt (E1 x) \<and> prv (E2 x) = prv (E1 x)"
      using add_entry_frame(5) [OF a] by simp
  qed
  ultimately show "cache_abs (cache_add s e) (e # us) (remove1 e ps) fs"
    using abs r a e by (auto simp: cache_add_def cache_abs_def)
  show "edata (entries (cache_add s e) z) = edata (entries s z)"
    using r a edata_add_entry [OF a] edata_remove_entry [OF r] by (simp add: cache_add_def)
  show "munmaps (cache_add s e) = munmaps s" "cachebuf (cache_add s e) = cachebuf s"
    using r a by (simp_all add: cache_add_def)
qed

lemma cache_free_abs:
  assumes abs: "cache_abs s us ps fs" and e: "e \<in> set ps"
  shows "cache_abs (cache_free s e) us (remove1 e ps) (fs @ [e])"
    and "edata (entries (cache_free s e) z) = edata (entries s z)"
proof -
  obtain E1 p1 where r: "remove_entry (entries s) (pending s) e = (E1, p1)" by fastforce
  from abs have du: "dll (entries s) (used s) us" and dp: "dll (entries s) (pending s) ps"
    and dis: "distinct (us @ ps @ fs)" by (auto simp: cache_abs_def)
  note rs = remove_entry_dll [OF dp e r]
  have "dll E1 (used s) us" by (rule dll_frame [OF du rs(2)]) (use dis in auto)
  with rs(1) abs r e dis show "cache_abs (cache_free s e) us (remove1 e ps) (fs @ [e])"
    by (auto simp: cache_free_def cache_abs_def nth_append less_Suc_eq)
  show "edata (entries (cache_free s e) z) = edata (entries s z)"
    using r edata_remove_entry [OF r] by (simp add: cache_free_def)
qed


section \<open>The interface the readers rely on\<close>

text \<open>
  What \<^verbatim>\<open>readmem\<close> needs of the cache: a relation to the three lists, the effect of the four
  operations on them, and when an entry answers a search.
\<close>

locale lru_cache =
  fixes rel :: "'s \<Rightarrow> nat list \<Rightarrow> nat list \<Rightarrow> nat list \<Rightarrow> bool"
    and hit :: "'s \<Rightarrow> nat \<Rightarrow> u64 \<Rightarrow> u64 \<Rightarrow> bool"
    and search :: "'s \<Rightarrow> u64 \<Rightarrow> u64 \<Rightarrow> (u64 option \<times> 's) option"
    and alloc :: "'s \<Rightarrow> u64 \<Rightarrow> nat option \<times> 's"
    and add :: "'s \<Rightarrow> nat \<Rightarrow> 's" and free :: "'s \<Rightarrow> nat \<Rightarrow> 's"
    and psize :: u64
  assumes rel_nonempty: "rel s us ps fs \<Longrightarrow> us @ ps @ fs \<noteq> []"
    and search_find: "rel s us ps fs \<Longrightarrow> find (\<lambda>e. hit s e pa len) us = Some e \<Longrightarrow>
        \<exists>p s'. search s pa len = Some (Some p, s') \<and> rel s' (e # remove1 e us) ps fs"
    and search_none: "rel s us ps fs \<Longrightarrow> find (\<lambda>e. hit s e pa len) us = None \<Longrightarrow>
        search s pa len = Some (None, s)"
    and alloc_top: "rel s us ps fs \<Longrightarrow> fs \<noteq> [] \<Longrightarrow>
        \<exists>s'. alloc s pa = (Some (last fs), s') \<and> rel s' us (last fs # ps) (butlast fs) \<and>
          (len \<le> psize \<and> 0 < psize \<longrightarrow> hit s' (last fs) pa len)"
    and alloc_lru: "rel s us ps [] \<Longrightarrow> us \<noteq> [] \<Longrightarrow>
        \<exists>s'. alloc s pa = (Some (last us), s') \<and> rel s' (butlast us) (last us # ps) [] \<and>
          (len \<le> psize \<and> 0 < psize \<longrightarrow> hit s' (last us) pa len)"
    and add_rel: "rel s us ps fs \<Longrightarrow> e \<in> set ps \<Longrightarrow> rel (add s e) (e # us) (remove1 e ps) fs"
    and add_hit: "rel s us ps fs \<Longrightarrow> e \<in> set ps \<Longrightarrow> hit (add s e) z pa len = hit s z pa len"
    and free_rel: "rel s us ps fs \<Longrightarrow> e \<in> set ps \<Longrightarrow>
        rel (free s e) us (remove1 e ps) (fs @ [e])"
begin

text \<open>With nothing pending, an allocation succeeds: the readers never see it fail.\<close>

lemma fill_succeeds:
  assumes "rel s us [] fs"
  shows "\<exists>e s' us' fs'. alloc s pa = (Some e, s') \<and> rel s' us' [e] fs' \<and>
     (len \<le> psize \<and> 0 < psize \<longrightarrow> hit s' e pa len)"
proof (cases "fs = []")
  case True
  with rel_nonempty [OF assms] have "us \<noteq> []" by simp
  with alloc_lru [of s us "[]" pa len] assms True show ?thesis by fastforce
next
  case False
  with alloc_top [OF assms, of pa len] show ?thesis by fastforce
qed

text \<open>Read-through: what was allocated and added for an address is found for that address.\<close>

lemma fill_then_hit:
  assumes "rel s us [] fs" and "alloc s pa = (Some e, s')" and "len \<le> psize" "0 < psize"
  shows "\<exists>p s'' us' fs'. search (add s' e) pa len = Some (Some p, s'') \<and>
     rel s'' (e # us') [] fs'"
proof -
  from fill_succeeds [OF assms(1), of pa len] assms(2-4) obtain us' fs' where
    r: "rel s' us' [e] fs'" and h: "hit s' e pa len" by auto
  from add_rel [OF r] have ra: "rel (add s' e) (e # us') [] fs'" by simp
  from add_hit [OF r, of e e pa len] h
  have "find (\<lambda>z. hit (add s' e) z pa len) (e # us') = Some e" by simp
  from search_find [OF ra this] show ?thesis by fastforce
qed

text \<open>A failed fill gives the entry back and leaves nothing pending.\<close>

lemma fill_abort:
  assumes "rel s us [] fs" and "alloc s pa = (Some e, s')"
  shows "\<exists>us' fs'. rel (free s' e) us' [] (fs' @ [e])"
proof -
  from fill_succeeds [OF assms(1), of pa 0] assms(2) obtain us' fs' where "rel s' us' [e] fs'"
    by auto
  from free_rel [OF this, of e] show ?thesis by auto
qed

end

lemma fresh_data_hit:
  assumes "edata en = fresh_data psize b pa e" "len \<le> psize" "0 < psize"
  shows "entry_hit en pa len"
  using assms by (simp add: edata_def fresh_data_def entry_hit_def)

interpretation pc: lru_cache cache_abs "\<lambda>s e. entry_hit (entries s e)" cache_search
  "cache_alloc psize" cache_add cache_free psize for psize
proof unfold_locales
  fix s us ps fs
  assume abs: "cache_abs s us ps fs"
  then have "0 \<in> set (us @ ps @ fs)" by (simp add: cache_abs_def CACHE_SIZE_def)
  then show "us @ ps @ fs \<noteq> []" by auto
  fix pa len
  { fix e assume "find (\<lambda>e. entry_hit (entries s e) pa len) us = Some e"
    from cache_search_hit [OF abs this]
    show "\<exists>p s'. cache_search s pa len = Some (Some p, s') \<and> cache_abs s' (e # remove1 e us) ps fs"
      by blast }
  { assume "find (\<lambda>e. entry_hit (entries s e) pa len) us = None"
    then show "cache_search s pa len = Some (None, s)"
      by (intro cache_search_miss [OF abs]) (auto simp: find_None_iff) }
  { assume "fs \<noteq> []"
    from cache_alloc_pool [OF abs this, of psize pa]
    show "\<exists>s'. cache_alloc psize s pa = (Some (last fs), s') \<and>
        cache_abs s' us (last fs # ps) (butlast fs) \<and>
        (len \<le> psize \<and> 0 < psize \<longrightarrow> entry_hit (entries s' (last fs)) pa len)"
      by (auto intro: fresh_data_hit) }
  fix e assume "e \<in> set ps"
  note add = cache_add_abs [OF abs this] and fr = cache_free_abs [OF abs this]
  show "cache_abs (cache_add s e) (e # us) (remove1 e ps) fs" by (rule add(1))
  show "cache_abs (cache_free s e) us (remove1 e ps) (fs @ [e])" by (rule fr(1))
  show "entry_hit (entries (cache_add s e) z) pa len = entry_hit (entries s z) pa len" for z
    by (rule entry_hit_edata) (rule add(2))
next
  fix s us ps and pa len :: u64
  assume "cache_abs s us ps []" "us \<noteq> []"
  from cache_alloc_evict [OF this, of psize pa]
  show "\<exists>s'. cache_alloc psize s pa = (Some (last us), s') \<and>
      cache_abs s' (butlast us) (last us # ps) [] \<and>
      (len \<le> psize \<and> 0 < psize \<longrightarrow> entry_hit (entries s' (last us)) pa len)"
    by (auto intro: fresh_data_hit)
qed

section \<open>The cache under its caller's protocol\<close>

text \<open>
  A caller may add, free or re-target (as \<^verbatim>\<open>readmem\<close> does when it maps the file) an entry only
  while it holds it, that is between the \<^verbatim>\<open>cache_alloc\<close> that returned it and the \<^verbatim>\<open>cache_add\<close>
  or \<^verbatim>\<open>cache_free\<close> that gives it back. The second component of a configuration is the set of
  entries held.
\<close>

inductive cache_step :: "u64 \<Rightarrow> cache_state \<times> nat set \<Rightarrow> cache_state \<times> nat set \<Rightarrow> bool"
  for psize :: u64 where
  do_search: "cache_search s pa len = Some (r, s') \<Longrightarrow> cache_step psize (s, H) (s', H)"
| do_alloc: "cache_alloc psize s pa = (Some e, s') \<Longrightarrow> cache_step psize (s, H) (s', insert e H)"
| do_alloc_fail: "cache_alloc psize s pa = (None, s') \<Longrightarrow> cache_step psize (s, H) (s', H)"
| do_map: "e \<in> H \<Longrightarrow> cache_step psize (s, H) (s\<lparr>entries := (entries s)(e := (entries s e)
     \<lparr>paddr := a, bufptr := b, buflen := n, discard := Some Unmap_cache\<rparr>)\<rparr>, H)"
| do_add: "e \<in> H \<Longrightarrow> cache_step psize (s, H) (cache_add s e, H - {e})"
| do_free: "e \<in> H \<Longrightarrow> cache_step psize (s, H) (cache_free s e, H - {e})"

inductive cache_reach :: "u64 \<Rightarrow> cache_state \<times> nat set \<Rightarrow> bool" for psize :: u64 where
  init: "cache_init (Some b) static_state = (True, s) \<Longrightarrow> cache_reach psize (s, {})"
| step: "cache_reach psize c \<Longrightarrow> cache_step psize c d \<Longrightarrow> cache_reach psize d"

definition held_inv :: "cache_state \<times> nat set \<Rightarrow> bool" where
  "held_inv c = (\<exists>us ps fs. cache_abs (fst c) us ps fs \<and> set ps = snd c)"

lemma cache_step_held_inv: "cache_step psize c d \<Longrightarrow> held_inv c \<Longrightarrow> held_inv d"
proof (induction rule: cache_step.induct)
  case (do_search s pa len r s' H)
  then obtain us ps fs where abs: "cache_abs s us ps fs" "set ps = H" by (auto simp: held_inv_def)
  show ?case
  proof (cases "find (\<lambda>e. entry_hit (entries s e) pa len) us")
    case None
    with pc.search_none [OF abs(1)] do_search abs show ?thesis by (auto simp: held_inv_def)
  next
    case (Some e)
    with pc.search_find [OF abs(1)] do_search abs show ?thesis by (fastforce simp: held_inv_def)
  qed
next
  case (do_alloc s pa e s' H)
  then obtain us ps fs where abs: "cache_abs s us ps fs" "set ps = H" by (auto simp: held_inv_def)
  consider "fs \<noteq> []" | "fs = []" "us \<noteq> []" | "fs = []" "us = []" by blast
  then show ?case
  proof cases
    case 1
    from cache_alloc_pool [OF abs(1) this, of psize pa] do_alloc.hyps abs(2) show ?thesis
      by (force simp: held_inv_def)
  next
    case 2
    from cache_alloc_evict [of s us ps psize pa] 2 do_alloc.hyps abs show ?thesis
      by (force simp: held_inv_def)
  next
    case 3
    with cache_alloc_none [of s ps psize pa] do_alloc.hyps abs show ?thesis by simp
  qed
next
  case (do_alloc_fail s pa s' H)
  then obtain us ps fs where abs: "cache_abs s us ps fs" "set ps = H" by (auto simp: held_inv_def)
  have "fs = []" using cache_alloc_pool [OF abs(1), of psize pa] do_alloc_fail.hyps by auto
  moreover from this have "us = []"
    using cache_alloc_evict [of s us ps psize pa] abs(1) do_alloc_fail.hyps by auto
  ultimately show ?case
    using cache_alloc_none [of s ps psize pa] do_alloc_fail abs by (auto simp: held_inv_def)
next
  case (do_map e H s n b a)
  then obtain us ps fs where abs: "cache_abs s us ps fs" "set ps = H" by (auto simp: held_inv_def)
  let ?E = "(entries s)(e := (entries s e)\<lparr>paddr := a, bufptr := b, buflen := n,
     discard := Some Unmap_cache\<rparr>)"
  from abs(1) have "dll ?E (used s) us" "dll ?E (pending s) ps"
    by (auto simp: cache_abs_def intro: dll_cong)
  with abs show ?case by (auto simp: held_inv_def cache_abs_def)
next
  case (do_add e H s)
  then obtain us ps fs where abs: "cache_abs s us ps fs" "set ps = H" by (auto simp: held_inv_def)
  moreover from this have "distinct ps" by (auto simp: cache_abs_def)
  ultimately show ?case using pc.add_rel [OF abs(1)] do_add.hyps by (fastforce simp: held_inv_def)
next
  case (do_free e H s)
  then obtain us ps fs where abs: "cache_abs s us ps fs" "set ps = H" by (auto simp: held_inv_def)
  moreover from this have "distinct ps" by (auto simp: cache_abs_def)
  ultimately show ?case using pc.free_rel [OF abs(1)] do_free.hyps by (fastforce simp: held_inv_def)
qed

lemma cache_reach_held_inv: "cache_reach psize c \<Longrightarrow> held_inv c"
proof (induction rule: cache_reach.induct)
  case (init b s)
  then show ?case using cache_init_abs [of b] by (force simp: held_inv_def)
next
  case (step c d)
  then show ?case by (blast intro: cache_step_held_inv)
qed


section \<open>Properties\<close>

text \<open>
  C33. Invariant: whatever sequence of searches, allocations, re-targetings, adds and frees a
  caller runs after \<^verbatim>\<open>cache_init\<close>, the used list, the pending list and the pool partition the
  eight entries, both lists are well linked in both directions, and the pending list holds
  exactly the entries the caller holds.
\<close>

theorem cache_partition:
  assumes "cache_reach psize (s, H)"
  shows "\<exists>us ps fs. dll (entries s) (used s) us \<and> dll (entries s) (pending s) ps \<and>
     set ps = H \<and> avail s = length fs \<and> (\<forall>i < length fs. pool s i = Some (fs ! i)) \<and>
     distinct (us @ ps @ fs) \<and> set (us @ ps @ fs) = {..<CACHE_SIZE}"
  using cache_reach_held_inv [OF assms] by (auto simp: held_inv_def cache_abs_def)

theorem cache_partition_witness:
  "\<exists>us ps fs. let s = snd (cache_init (Some 4096) static_state) in
     dll (entries s) (used s) us \<and> dll (entries s) (pending s) ps \<and>
     set ps = {} \<and> avail s = length fs \<and> (\<forall>i < length fs. pool s i = Some (fs ! i)) \<and>
     distinct (us @ ps @ fs) \<and> set (us @ ps @ fs) = {..<CACHE_SIZE}"
proof -
  have "cache_reach 4096 (snd (cache_init (Some 4096) static_state), {})"
    by (rule cache_reach.init [of 4096]) (simp add: cache_init_def)
  from cache_partition [OF this] show ?thesis unfolding Let_def .
qed

text \<open>
  C35. Refinement: on a well-formed cache \<^verbatim>\<open>cache_search\<close> always returns; it answers with the
  first entry in most-recently-used order that covers the requested range, moves that entry to
  the front, keeps every entry's contents, and leaves the cache as it is on a miss.
\<close>

theorem cache_search_refines:
  assumes "cache_abs s us ps fs"
  shows "\<exists>r s'. cache_search s pa len = Some (r, s') \<and>
     (case find (\<lambda>e. entry_hit (entries s e) pa len) us of
        None \<Rightarrow> r = None \<and> s' = s
      | Some e \<Rightarrow> r = Some (bufptr (entries s e) + (pa - paddr (entries s e))) \<and>
          cache_abs s' (e # remove1 e us) ps fs \<and>
          (\<forall>z. edata (entries s' z) = edata (entries s z)))"
proof (cases "find (\<lambda>e. entry_hit (entries s e) pa len) us")
  case None
  with pc.search_none [OF assms] show ?thesis by simp
next
  case (Some e)
  with cache_search_hit [OF assms Some] show ?thesis by auto
qed

theorem cache_search_refines_witness:
  "\<exists>r s'. cache_search (snd (cache_init (Some 4096) static_state)) 0 8 = Some (r, s') \<and>
     r = None \<and> s' = snd (cache_init (Some 4096) static_state)"
  using cache_search_refines [OF cache_init_abs, of 4096 0 8] by simp

text \<open>
  Bounds: a pointer \<^verbatim>\<open>cache_search\<close> returns points into the buffer of a used entry with at
  least the requested number of bytes after it, although the offset is computed by wrapping
  64-bit subtraction.
\<close>

theorem cache_search_in_bounds:
  assumes "cache_abs s us ps fs" and "cache_search s pa len = Some (Some p, s')"
  shows "\<exists>e \<in> set us. unat (p - bufptr (entries s e)) < unat (buflen (entries s e)) \<and>
     unat (p - bufptr (entries s e)) + unat len \<le> unat (buflen (entries s e)) \<and>
     pa = paddr (entries s e) + (p - bufptr (entries s e))"
proof -
  from cache_search_refines [OF assms(1), of pa len] assms(2) obtain e where
    f: "find (\<lambda>e. entry_hit (entries s e) pa len) us = Some e" and
    p: "p = bufptr (entries s e) + (pa - paddr (entries s e))"
    by (auto split: option.splits)
  from f have e: "e \<in> set us" and h: "entry_hit (entries s e) pa len"
    by (auto simp: find_Some_iff)
  from h have "unat (pa - paddr (entries s e)) < unat (buflen (entries s e))"
    "unat (pa - paddr (entries s e)) + unat len \<le> unat (buflen (entries s e))"
    by (auto simp: entry_hit_def Let_def word_less_nat_alt word_le_nat_alt unat_minus64
        le_diff_conv2)
  moreover have "p - bufptr (entries s e) = pa - paddr (entries s e)" using p by simp
  ultimately show ?thesis using e by (intro bexI [of _ e]) simp_all
qed


theorem cache_search_in_bounds_witness:
  "\<exists>s p. let s2 = cache_add (snd (cache_alloc 4096 (snd (cache_init (Some 65536) static_state)) 8192)) 7
     in cache_search s2 8200 16 = Some (Some p, s) \<and>
        unat (p - bufptr (entries s2 7)) + 16 \<le> unat (buflen (entries s2 7))"
proof -
  let ?s0 = "snd (cache_init (Some 65536) static_state)"
  let ?s1 = "snd (cache_alloc 4096 ?s0 8192)"
  let ?s2 = "cache_add ?s1 7"
  have l: "last [0..<CACHE_SIZE] = 7" "[0..<CACHE_SIZE] \<noteq> []" by (simp_all add: CACHE_SIZE_def)
  from cache_alloc_pool [OF cache_init_abs [of 65536] l(2), of 4096 8192]
  have a1: "cache_abs ?s1 [] [7] (butlast [0..<CACHE_SIZE])"
    and d1: "edata (entries ?s1 7) = fresh_data 4096 (cachebuf ?s0) 8192 7"
    by (auto simp: l)
  have a2: "cache_abs ?s2 [7] [] (butlast [0..<CACHE_SIZE])"
    and d2: "edata (entries ?s2 7) = fresh_data 4096 (cachebuf ?s0) 8192 7"
    using cache_add_abs [OF a1, of 7] d1 by simp_all
  from d2 have "entry_hit (entries ?s2 7) 8200 16"
    by (simp add: edata_def fresh_data_def entry_hit_def)
  with cache_search_hit [OF a2, of 8200 16 7] obtain p s' where
    r: "cache_search ?s2 8200 16 = Some (Some p, s')" by auto
  with cache_search_in_bounds [OF a2 r] show ?thesis by (auto simp: Let_def)
qed

text \<open>
  Functional behaviour of \<^verbatim>\<open>cache_alloc\<close> on every branch: a free entry from the pool if
  there is one; otherwise the least recently used entry, whose \<^verbatim>\<open>discard\<close> callback (the unmap)
  runs exactly when it has one; failure only when every entry is pending. The entry returned
  becomes pending and is set up for the requested address with its own page of the buffer,
  and the contents of all other entries are kept.
\<close>

theorem cache_alloc_lru:
  assumes "cache_abs s us ps fs" and "cache_alloc psize s pa = (r, s')"
  shows "case r of
      None \<Rightarrow> fs = [] \<and> us = [] \<and> s' = s
    | Some e \<Rightarrow>
        (fs \<noteq> [] \<and> e = last fs \<and> cache_abs s' us (e # ps) (butlast fs) \<and> munmaps s' = munmaps s \<or>
         fs = [] \<and> us \<noteq> [] \<and> e = last us \<and> cache_abs s' (butlast us) (e # ps) [] \<and>
           munmaps s' = munmaps s @ (case discard (entries s e) of None \<Rightarrow> []
              | Some Unmap_cache \<Rightarrow> [(bufptr (entries s e), buflen (entries s e))])) \<and>
        edata (entries s' e) = (pa, cachebuf s + of_nat e * psize, psize, None) \<and>
        (\<forall>z. z \<noteq> e \<longrightarrow> edata (entries s' z) = edata (entries s z))"
proof -
  consider "fs \<noteq> []" | "fs = []" "us \<noteq> []" | "fs = []" "us = []" by blast
  then show ?thesis
  proof cases
    case 1
    with cache_alloc_pool [OF assms(1) 1, of psize pa] assms(2) show ?thesis
      by (auto simp: fresh_data_def)
  next
    case 2
    with cache_alloc_evict [of s us ps psize pa] assms show ?thesis
      by (auto simp: fresh_data_def split: option.splits discard_fn.splits)
  next
    case 3
    with cache_alloc_none [of s ps psize pa] assms show ?thesis by auto
  qed
qed

theorem cache_alloc_lru_witness:
  "\<exists>s'. cache_alloc 4096 (snd (cache_init (Some 65536) static_state)) 8192 = (Some 7, s') \<and>
     cache_abs s' [] [7] [0..<7]"
proof -
  let ?s0 = "snd (cache_init (Some 65536) static_state)"
  have "fst (cache_alloc 4096 ?s0 8192) = Some 7"
    by (simp add: cache_init_def static_state_def cache_alloc_def take_entry_def CACHE_SIZE_def
        add_entry_def)
  then obtain s' where "cache_alloc 4096 ?s0 8192 = (Some 7, s')" by (metis prod.collapse)
  with cache_alloc_lru [OF cache_init_abs this] show ?thesis
    by (simp add: CACHE_SIZE_def upt_rec)
qed

text \<open>
  The read-through protocol of \<^verbatim>\<open>readmem\<close>: when no entry is pending, an allocation never
  fails, and after the entry is added a search for the same address and any length up to a page
  is a hit that leaves nothing pending.
\<close>

theorem cache_fill_then_hit:
  assumes "cache_abs s us [] fs" and "len \<le> psize" and "0 < psize"
  shows "\<exists>e s'. cache_alloc psize s pa = (Some e, s') \<and>
     (\<exists>p s'' us' fs'. cache_search (cache_add s' e) pa len = Some (Some p, s'') \<and>
        cache_abs s'' (e # us') [] fs')"
proof -
  from pc.fill_succeeds [OF assms(1)] obtain e s' where
    "cache_alloc psize s pa = (Some e, s')" by metis
  with pc.fill_then_hit [OF assms(1) this assms(2,3)] show ?thesis by blast
qed

theorem cache_fill_then_hit_witness:
  "\<exists>e s'. cache_alloc 4096 (snd (cache_init (Some 65536) static_state)) 8192 = (Some e, s') \<and>
     (\<exists>p s'' us' fs'. cache_search (cache_add s' e) 8192 4096 = Some (Some p, s'') \<and>
        cache_abs s'' (e # us') [] fs')"
  by (rule cache_fill_then_hit [OF cache_init_abs]) simp_all

end
