(* ===== verification/Detect_Cycle.thy ===== *)
theory Detect_Cycle
  imports Prelude
begin

text \<open>
  \<^verbatim>\<open>src/detect_cycle.c\<close>: Brent's cycle detection over a list that is only known through a
  successor function (\<^verbatim>\<open>dc->next\<close>). makedumpfile uses it to walk the records of a damaged
  printk buffer (\<^verbatim>\<open>dump_dmesg\<close> in \<^verbatim>\<open>src/makedumpfile.c\<close>), so the claims that matter are that a walk is never cut short
  while it still visits new records, that every infinite walk is detected, and that the
  reported start and length are those of the cycle. \<^verbatim>\<open>length\<close> and \<^verbatim>\<open>power\<close> are
  \<^verbatim>\<open>unsigned long\<close>: 64-bit words.
\<close>

section \<open>The program\<close>

record 'p detect_cycle =
  head :: 'p
  fast_p :: 'p
  slow_p :: 'p
  length_dc :: u64
  power :: u64

text \<open>\<^verbatim>\<open>dc_init\<close>; the flag says whether \<^verbatim>\<open>malloc\<close> succeeded.\<close>

definition dc_init :: "bool \<Rightarrow> 'p \<Rightarrow> 'p detect_cycle option" where
  "dc_init ok h = (if \<not> ok then None
     else Some \<lparr>head = h, fast_p = h, slow_p = h, length_dc = 0, power = 2\<rparr>)"

text \<open>\<^verbatim>\<open>dc_next\<close>: \<open>None\<close> in the result is the return value 1, \<open>Some p\<close> is 0 with \<^verbatim>\<open>*next\<close> = \<open>p\<close>.\<close>

definition dc_next :: "('p \<Rightarrow> 'p) \<Rightarrow> 'p detect_cycle \<Rightarrow> 'p option \<times> 'p detect_cycle" where
  "dc_next next dc =
     (let dc1 = (if length_dc dc = power dc
                 then dc\<lparr>length_dc := 0, power := power dc * 2, slow_p := fast_p dc\<rparr> else dc);
          dc2 = dc1\<lparr>fast_p := next (fast_p dc1), length_dc := length_dc dc1 + 1\<rparr>
      in (if slow_p dc2 = fast_p dc2 then None else Some (fast_p dc2), dc2))"

fun advance :: "('p \<Rightarrow> 'p) \<Rightarrow> nat \<Rightarrow> 'p \<Rightarrow> 'p" where
  "advance next 0 p = p"
| "advance next (Suc n) p = advance next n (next p)"

partial_function (option) meet :: "('p \<Rightarrow> 'p) \<Rightarrow> 'p \<Rightarrow> 'p \<Rightarrow> 'p option" where
  "meet next slow fast =
     (if slow \<noteq> fast then meet next (next slow) (next fast) else Some slow)"

text \<open>\<^verbatim>\<open>dc_find_start\<close>: the first loop counts \<^verbatim>\<open>tmp\<close> down to zero; the second may not end.\<close>

definition dc_find_start :: "('p \<Rightarrow> 'p) \<Rightarrow> 'p detect_cycle \<Rightarrow> ('p \<times> u64) option" where
  "dc_find_start next dc =
     (case meet next (head dc) (advance next (unat (length_dc dc)) (head dc)) of
        None \<Rightarrow> None | Some p \<Rightarrow> Some (p, length_dc dc))"

text \<open>The caller's loop: take successors until a cycle is reported, at most \<open>n\<close> of them.\<close>

fun walk :: "('p \<Rightarrow> 'p) \<Rightarrow> nat \<Rightarrow> 'p detect_cycle \<Rightarrow> 'p list \<times> bool \<times> 'p detect_cycle" where
  "walk next 0 dc = ([], False, dc)"
| "walk next (Suc n) dc = (case dc_next next dc of
     (None, dc') \<Rightarrow> ([], True, dc')
   | (Some p, dc') \<Rightarrow> (case walk next n dc' of (ps, r) \<Rightarrow> (p # ps, r)))"


section \<open>Orbits with a cycle\<close>

text \<open>
  \<open>rho f x mu lam\<close>: the walk from \<open>x\<close> visits \<open>mu + lam\<close> different elements and then returns to
  element number \<open>mu\<close>: \<open>mu\<close> is the length of the tail, \<open>lam\<close> the length of the cycle.
\<close>

abbreviation orb :: "('p \<Rightarrow> 'p) \<Rightarrow> 'p \<Rightarrow> nat \<Rightarrow> 'p" where
  "orb f x i \<equiv> (f ^^ i) x"

definition rho :: "('p \<Rightarrow> 'p) \<Rightarrow> 'p \<Rightarrow> nat \<Rightarrow> nat \<Rightarrow> bool" where
  "rho f x mu lam \<longleftrightarrow> 0 < lam \<and> inj_on (orb f x) {..<mu + lam} \<and> orb f x (mu + lam) = orb f x mu"

lemma advance_funpow: "advance f n p = (f ^^ n) p"
  by (induction n arbitrary: p) (simp_all add: funpow_swap1)

lemma orb_add: "orb f x (m + n) = (f ^^ n) (orb f x m)"
  by (metis add.commute comp_apply funpow_add)

text \<open>The position of element \<open>i\<close> of the walk, folded into the first \<open>mu + lam\<close> ones.\<close>

definition fold_idx :: "nat \<Rightarrow> nat \<Rightarrow> nat \<Rightarrow> nat" where
  "fold_idx mu lam i = (if i < mu then i else mu + (i - mu) mod lam)"

lemma fold_idx_less: "0 < lam \<Longrightarrow> fold_idx mu lam i < mu + lam"
  by (simp add: fold_idx_def)

lemma orb_period:
  assumes "rho f x mu lam"
  shows "orb f x (mu + d + k * lam) = orb f x (mu + d)"
proof (induction k)
  case (Suc k)
  have "orb f x (mu + d + Suc k * lam) = orb f x ((mu + lam) + (d + k * lam))"
    by (simp add: ac_simps)
  also have "\<dots> = orb f x (mu + (d + k * lam))"
    using assms by (simp only: orb_add [of "mu + lam"] orb_add [of mu] rho_def)
  also have "\<dots> = orb f x (mu + d)" using Suc by (simp add: add.assoc)
  finally show ?case .
qed simp

lemma orb_fold_idx:
  assumes "rho f x mu lam"
  shows "orb f x i = orb f x (fold_idx mu lam i)"
proof (cases "i < mu")
  case False
  then have "i = mu + (i - mu) mod lam + (i - mu) div lam * lam" by simp
  with orb_period [OF assms, of "(i - mu) mod lam" "(i - mu) div lam"] False show ?thesis
    by (simp add: fold_idx_def)
qed (simp add: fold_idx_def)

lemma orb_eq_iff:
  assumes "rho f x mu lam"
  shows "orb f x i = orb f x j \<longleftrightarrow> fold_idx mu lam i = fold_idx mu lam j"
proof -
  have "0 < lam" "inj_on (orb f x) {..<mu + lam}" using assms by (simp_all add: rho_def)
  then have "orb f x (fold_idx mu lam i) = orb f x (fold_idx mu lam j) \<longleftrightarrow>
      fold_idx mu lam i = fold_idx mu lam j"
    by (intro inj_on_eq_iff) (auto simp: fold_idx_less)
  then show ?thesis using orb_fold_idx [OF assms] by metis
qed

text \<open>Two different positions hold the same element iff both are on the cycle, in phase.\<close>

lemma orb_meet_iff:
  assumes "rho f x mu lam" "0 < l"
  shows "orb f x t = orb f x (t + l) \<longleftrightarrow> mu \<le> t \<and> lam dvd l"
proof -
  have lam: "0 < lam" using assms by (simp add: rho_def)
  consider "mu \<le> t" | "t < mu" by linarith
  then show ?thesis
  proof cases
    case 1
    then have "fold_idx mu lam t = fold_idx mu lam (t + l) \<longleftrightarrow>
        (t - mu) mod lam = (t - mu + l) mod lam" by (simp add: fold_idx_def)
    also have "\<dots> \<longleftrightarrow> lam dvd l"
      using mod_eq_dvd_iff_nat [of "t - mu" "t - mu + l" lam] by auto
    finally show ?thesis using 1 orb_eq_iff [OF assms(1)] by simp
  next
    case 2
    with assms(2) lam have "fold_idx mu lam t \<noteq> fold_idx mu lam (t + l)"
      by (auto simp: fold_idx_def)
    with 2 show ?thesis using orb_eq_iff [OF assms(1)] by simp
  qed
qed

section \<open>The state of Brent's algorithm\<close>

text \<open>
  With power \<open>p\<close> and length \<open>l\<close>, the slow pointer is at position \<open>p - 2\<close> (the sum of the earlier
  powers) and the fast pointer \<open>l\<close> ahead of it.
\<close>

definition dc_at :: "('p \<Rightarrow> 'p) \<Rightarrow> 'p \<Rightarrow> nat \<Rightarrow> nat \<Rightarrow> 'p detect_cycle \<Rightarrow> bool" where
  "dc_at f x p l dc \<longleftrightarrow> 2 \<le> p \<and> l \<le> p \<and> p < 2 ^ 64 \<and>
     head dc = x \<and> slow_p dc = orb f x (p - 2) \<and> fast_p dc = orb f x (p - 2 + l) \<and>
     power dc = of_nat p \<and> length_dc dc = of_nat l"

lemma dc_init_at: "dc_init True x = Some dc \<Longrightarrow> dc_at f x 2 0 dc"
  by (auto simp: dc_init_def dc_at_def)

text \<open>One call of \<^verbatim>\<open>dc_next\<close>: the new power and length.\<close>

definition brent_step :: "nat \<Rightarrow> nat \<Rightarrow> nat \<times> nat" where
  "brent_step p l = (if l = p then (2 * p, 1) else (p, Suc l))"

lemma dc_next_at:
  assumes "dc_at f x p l dc" and "l = p \<longrightarrow> 2 * p < 2 ^ 64" and "brent_step p l = (p', l')"
  shows "\<exists>dc'. dc_at f x p' l' dc' \<and> 0 < l' \<and> p' - 2 + l' = Suc (p - 2 + l) \<and>
     dc_next f dc = (if orb f x (p' - 2) = orb f x (p' - 2 + l') then None
        else Some (orb f x (p' - 2 + l')), dc')"
proof -
  have l: "l < 2 ^ 64" and p: "2 \<le> p" "p < 2 ^ 64" using assms(1) by (auto simp: dc_at_def)
  have eq: "(length_dc dc = power dc) = (l = p)"
    using assms(1) of_nat64_eq [OF l p(2)] by (auto simp: dc_at_def)
  show ?thesis
  proof (cases "l = p")
    case True
    obtain q where q: "p = q + 2" using p(1) by (metis add.commute le_Suc_ex)
    have o: "orb f x (q + q) = orb f x (2 * q)" by (simp add: mult_2)
    let ?dc = "dc\<lparr>length_dc := 1, power := power dc * 2, slow_p := fast_p dc,
        fast_p := f (fast_p dc)\<rparr>"
    have "dc_next f dc = (if slow_p ?dc = fast_p ?dc then None else Some (fast_p ?dc), ?dc)"
      using True eq by (simp add: dc_next_def)
    moreover have "dc_at f x (2 * p) 1 ?dc"
      using assms(1,2) True o by (simp add: dc_at_def q)
    ultimately show ?thesis using True assms(1,3) o
      by (auto simp: brent_step_def dc_at_def q)
  next
    case False
    let ?dc = "dc\<lparr>fast_p := f (fast_p dc), length_dc := length_dc dc + 1\<rparr>"
    have "dc_next f dc = (if slow_p ?dc = fast_p ?dc then None else Some (fast_p ?dc), ?dc)"
      using False eq by (simp add: dc_next_def)
    moreover have "dc_at f x p (Suc l) ?dc"
      using assms(1) False by (simp add: dc_at_def)
    moreover have "slow_p ?dc = orb f x (p - 2)" "fast_p ?dc = orb f x (p - 2 + Suc l)"
      using assms(1) by (simp_all add: dc_at_def)
    moreover have "p' = p" "l' = Suc l" using False assms(3) by (simp_all add: brent_step_def)
    ultimately show ?thesis by (intro exI [of _ ?dc]) (simp del: funpow.simps)
  qed
qed

text \<open>
  The walk from a state in which no cycle was reported yet. \<open>m\<close> is a bound on both the tail and
  the cycle; the power never grows beyond \<open>2 * m\<close>.
\<close>

lemma walk_detects:
  assumes r: "rho f x mu lam" and m: "mu + 2 \<le> m" "lam \<le> m" "4 * m < 2 ^ 64"
    and at: "dc_at f x p l dc" and p: "p \<le> 2 * m" and quiet: "mu \<le> p - 2 \<longrightarrow> l < lam"
  shows "\<exists>k dc' q. 0 < k \<and> p - 2 + l + k \<le> 2 * m + lam \<and> q - 2 + lam = p - 2 + l + k \<and>
     mu \<le> q - 2 \<and> dc_at f x q lam dc' \<and>
     (\<forall>n \<ge> k. walk f n dc = (map (orb f x) [Suc (p - 2 + l) ..< p - 2 + l + k], True, dc'))"
  using at p quiet
proof (induction "2 * m + lam - (p - 2 + l)" arbitrary: p l dc rule: less_induct)
  case less
  have lam: "0 < lam" using r by (simp add: rho_def)
  have pl: "2 \<le> p" "l \<le> p" using less.prems(1) by (auto simp: dc_at_def)
  obtain p' l' where st: "brent_step p l = (p', l')" by fastforce
  have small: "p < m" if "l = p"
    using that less.prems(3) m pl by linarith
  then have "l = p \<longrightarrow> 2 * p < 2 ^ 64" using m by linarith
  from dc_next_at [OF less.prems(1) this st] obtain dc' where
    at': "dc_at f x p' l' dc'" and l': "0 < l'" and idx: "p' - 2 + l' = Suc (p - 2 + l)" and
    nx: "dc_next f dc = (if orb f x (p' - 2) = orb f x (p' - 2 + l') then None
        else Some (orb f x (p' - 2 + l')), dc')" by blast
  have p': "p' \<le> 2 * m" using st small less.prems(2) by (auto simp: brent_step_def split: if_splits)
  have bound: "p - 2 + l < 2 * m + lam"
  proof (cases "mu \<le> p - 2")
    case True with less.prems show ?thesis by linarith
  next
    case False with pl m show ?thesis by linarith
  qed
  show ?case
  proof (cases "mu \<le> p' - 2 \<and> lam dvd l'")
    case True
    have "l' \<le> lam"
    proof (cases "l = p")
      case True with st lam show ?thesis by (auto simp: brent_step_def)
    next
      case False
      with st less.prems(3) True show ?thesis by (auto simp: brent_step_def)
    qed
    with True l' have eq: "l' = lam" by (simp add: dvd_imp_le le_antisym)
    have "orb f x (p' - 2) = orb f x (p' - 2 + l')" using orb_meet_iff [OF r l'] True by blast
    then have "walk f n dc = ([], True, dc')" if "1 \<le> n" for n
      using that nx by (cases n) auto
    then show ?thesis using at' idx eq True bound
      by (intro exI [of _ 1] exI [of _ dc'] exI [of _ p']) auto
  next
    case False
    have "mu \<le> p' - 2 \<longrightarrow> l' < lam"
      using False st less.prems(3) lam
      by (auto simp: brent_step_def split: if_splits intro: Suc_lessI nat_neq_iff [THEN iffD1])
    moreover have "2 * m + lam - (p' - 2 + l') < 2 * m + lam - (p - 2 + l)"
      using bound idx by linarith
    ultimately obtain k dc'' q where k: "0 < k" "p' - 2 + l' + k \<le> 2 * m + lam"
      "q - 2 + lam = p' - 2 + l' + k" "mu \<le> q - 2" "dc_at f x q lam dc''"
      "\<And>n. k \<le> n \<Longrightarrow> walk f n dc' = (map (orb f x) [Suc (p' - 2 + l') ..< p' - 2 + l' + k], True, dc'')"
      using less.hyps [OF _ at' p'] by blast
    have ne: "orb f x (p' - 2) \<noteq> orb f x (p' - 2 + l')" using orb_meet_iff [OF r l'] False by blast
    have "walk f n dc = (map (orb f x) [Suc (p - 2 + l) ..< p - 2 + l + Suc k], True, dc'')"
      if "Suc k \<le> n" for n
    proof -
      let ?i = "p - 2 + l"
      from that obtain n' where n: "n = Suc n'" "k \<le> n'" by (cases n) auto
      have "[Suc ?i ..< ?i + Suc k] = Suc ?i # [Suc (Suc ?i) ..< Suc ?i + k]"
        using k(1) by (simp add: upt_conv_Cons del: upt_Suc)
      then show ?thesis using nx ne k(6) [OF n(2)] by (simp add: n(1) idx del: upt_Suc funpow.simps)
    qed
    with k idx show ?thesis by (intro exI [of _ "Suc k"] exI [of _ dc''] exI [of _ q]) auto
  qed
qed

text \<open>The second loop of \<^verbatim>\<open>dc_find_start\<close> stops at the first element of the cycle.\<close>

lemma meet_at_start:
  assumes r: "rho f x mu lam" and "i \<le> mu"
  shows "meet f (orb f x i) (orb f x (i + lam)) = Some (orb f x mu)"
  using assms(2)
proof (induction "mu - i" arbitrary: i)
  case 0
  then have "i = mu" by simp
  with r show ?case by (simp add: meet.simps rho_def)
next
  case (Suc d)
  have "0 < lam" using r by (simp add: rho_def)
  then have "orb f x i \<noteq> orb f x (i + lam)" using orb_meet_iff [OF r, of lam i] Suc.hyps(2) by auto
  with Suc.hyps(1) [of "Suc i"] Suc.hyps(2) show ?case by (simp add: meet.simps)
qed

lemma find_start_at:
  assumes "rho f x mu lam" "dc_at f x q lam dc"
  shows "dc_find_start f dc = Some (orb f x mu, of_nat lam)"
proof -
  from assms(2) have d: "head dc = x" "length_dc dc = of_nat lam" "lam < 2 ^ 64" by (auto simp: dc_at_def)
  then show ?thesis using meet_at_start [OF assms(1), of 0] by (simp add: dc_find_start_def advance_funpow unat_of_nat64)
qed

text \<open>While the walk only meets new elements, nothing is reported.\<close>

lemma walk_quiet:
  assumes "dc_at f x p l dc" and "p - 2 + l + n < 2 ^ 62" and "inj_on (orb f x) {..p - 2 + l + n}"
  shows "\<exists>dc'. walk f n dc = (map (orb f x) [Suc (p - 2 + l) ..< Suc (p - 2 + l + n)], False, dc')"
  using assms
proof (induction n arbitrary: p l dc)
  case 0
  then show ?case by simp
next
  case (Suc n)
  obtain p' l' where st: "brent_step p l = (p', l')" by fastforce
  have "l = p \<longrightarrow> 2 * p < 2 ^ 64" using Suc.prems(2) by auto
  from dc_next_at [OF Suc.prems(1) this st] obtain dc' where
    at': "dc_at f x p' l' dc'" and l': "0 < l'" and idx: "p' - 2 + l' = Suc (p - 2 + l)" and
    nx: "dc_next f dc = (if orb f x (p' - 2) = orb f x (p' - 2 + l') then None
        else Some (orb f x (p' - 2 + l')), dc')" by blast
  have "orb f x (p' - 2) \<noteq> orb f x (p' - 2 + l')"
    using inj_onD [OF Suc.prems(3), of "p' - 2" "p' - 2 + l'"] l' idx by auto
  moreover from Suc.IH [OF at'] Suc.prems idx obtain dc'' where
    "walk f n dc' = (map (orb f x) [Suc (p' - 2 + l') ..< Suc (p' - 2 + l' + n)], False, dc'')"
    by auto
  moreover have "[Suc (p - 2 + l) ..< Suc (p - 2 + l + Suc n)] =
      Suc (p - 2 + l) # [Suc (p' - 2 + l') ..< Suc (p' - 2 + l' + n)]"
    using idx by (simp add: upt_conv_Cons del: upt_Suc)
  ultimately show ?case using nx idx by (simp del: upt_Suc funpow.simps)
qed

section \<open>Properties\<close>

text \<open>
  C32. Brent's algorithm as the program runs it: if the records reachable from \<open>x\<close> form a tail of
  \<open>mu\<close> records and a cycle of \<open>lam\<close>, the caller's loop is told about the cycle after a bounded
  number \<open>k\<close> of steps, having been given every record of the walk before that in order
  (\<open>k \<ge> mu + lam\<close>, so each one at least once), and \<^verbatim>\<open>dc_find_start\<close> then terminates with the
  first record of the cycle and the exact cycle length. The bound on \<open>mu + lam\<close> keeps the
  64-bit counters from wrapping.
\<close>

theorem brent_detects_cycle:
  assumes "rho f x mu lam" and "4 * (mu + lam + 2) < 2 ^ 64" and "dc_init True x = Some dc"
  shows "\<exists>k dc'. mu + lam \<le> k \<and> k \<le> 2 * (mu + lam + 2) + lam \<and>
     (\<forall>n \<ge> k. walk f n dc = (map (orb f x) [1..<k], True, dc')) \<and>
     dc_find_start f dc' = Some (orb f x mu, of_nat lam)"
proof -
  have lam: "0 < lam" using assms(1) by (simp add: rho_def)
  have m: "mu + 2 \<le> mu + lam + 2" "lam \<le> mu + lam + 2" "(2::nat) \<le> 2 * (mu + lam + 2)"
    "mu \<le> 2 - 2 \<longrightarrow> 0 < lam" using lam by simp_all
  from walk_detects [OF assms(1) m(1,2) assms(2) dc_init_at [OF assms(3)] m(3,4)]
  obtain k dc' q where k: "k \<le> 2 * (mu + lam + 2) + lam" "q - 2 + lam = k" "mu \<le> q - 2"
    "dc_at f x q lam dc'" "\<forall>n \<ge> k. walk f n dc = (map (orb f x) [1..<k], True, dc')" by auto
  from find_start_at [OF assms(1) k(4)] have "dc_find_start f dc' = Some (orb f x mu, of_nat lam)" .
  with k show ?thesis by (intro exI [of _ k] exI [of _ dc']) auto
qed

text \<open>The four-element list \<open>0 \<rightarrow> 1 \<rightarrow> 2 \<rightarrow> 3 \<rightarrow> 1\<close>: tail 1, cycle 3.\<close>

definition ring_next :: "nat \<Rightarrow> nat" where
  "ring_next i = (if i = 3 then 1 else Suc i)"

lemma ring_rho: "rho ring_next 0 1 3"
  by (simp add: rho_def ring_next_def inj_on_def eval_nat_numeral lessThan_Suc)

theorem brent_detects_cycle_witness:
  "\<exists>dc k dc'. dc_init True (0::nat) = Some dc \<and> 4 \<le> k \<and> k \<le> 15 \<and>
     walk ring_next 15 dc = (map (orb ring_next 0) [1..<k], True, dc') \<and>
     dc_find_start ring_next dc' = Some (1, 3)"
proof -
  obtain dc where dc: "dc_init True (0::nat) = Some dc" by (simp add: dc_init_def)
  have "4 * (1 + 3 + 2) < (2::nat) ^ 64" by simp
  from brent_detects_cycle [OF ring_rho this dc] obtain k dc' where
    "4 \<le> k" "k \<le> 15" "\<forall>n \<ge> k. walk ring_next n dc = (map (orb ring_next 0) [1..<k], True, dc')"
    "dc_find_start ring_next dc' = Some (orb ring_next 0 1, of_nat 3)" by auto
  with dc show ?thesis by (auto simp: ring_next_def)
qed

text \<open>
  No false alarm: as long as the walk has met only distinct records, no cycle is reported
  and the caller has been given exactly the successors in order.
\<close>

theorem brent_no_false_alarm:
  assumes "dc_init True x = Some dc" and "n < 2 ^ 62" and "inj_on (orb f x) {..n}"
  shows "\<exists>dc'. walk f n dc = (map (orb f x) [1..<Suc n], False, dc')"
  using walk_quiet [OF dc_init_at [OF assms(1)], of n] assms(2,3) by simp

theorem brent_no_false_alarm_witness:
  "\<exists>dc dc'. dc_init True (0::nat) = Some dc \<and>
     walk Suc 3 dc = (map (orb Suc 0) [1..<Suc 3], False, dc')"
proof -
  obtain dc where dc: "dc_init True (0::nat) = Some dc" by (simp add: dc_init_def)
  have "inj_on (orb Suc 0) {..3}" by (simp add: inj_on_def)
  moreover have "(3::nat) < 2 ^ 62" by simp
  ultimately show ?thesis using brent_no_false_alarm [OF dc] dc by blast
qed

end
