(* ===== verification/File_IO.thy ===== *)
theory File_IO
  imports Prelude
begin

text \<open>
  Files as the program sees them through \<^verbatim>\<open>lseek\<close>, \<^verbatim>\<open>read\<close> and \<^verbatim>\<open>write\<close>: a list of bytes and
  a capacity. A read that would pass the end of the file is short and a write that would pass
  the capacity is short (the file system is full); the callers modelled in this development
  treat both as failures, so both are \<open>None\<close> here.
\<close>

record fstate =
  content :: "u8 list"
  capacity :: nat

definition pread :: "fstate \<Rightarrow> nat \<Rightarrow> nat \<Rightarrow> u8 list option" where
  "pread f off n = (if off + n \<le> length (content f) then Some (take n (drop off (content f))) else None)"

text \<open>Writing behind the end fills the gap with zeros, as POSIX prescribes.\<close>

definition splice :: "u8 list \<Rightarrow> nat \<Rightarrow> u8 list \<Rightarrow> u8 list" where
  "splice xs off bs = take off (xs @ replicate (off - length xs) 0) @ bs @ drop (off + length bs) xs"

definition pwrite :: "fstate \<Rightarrow> nat \<Rightarrow> u8 list \<Rightarrow> fstate option" where
  "pwrite f off bs =
     (if off + length bs \<le> capacity f then Some (f\<lparr>content := splice (content f) off bs\<rparr>) else None)"

lemma length_splice: "length (splice xs off bs) = max (length xs) (off + length bs)"
  by (simp add: splice_def)

lemma nth_splice:
  "i < length (splice xs off bs) \<Longrightarrow> splice xs off bs ! i =
     (if off \<le> i \<and> i < off + length bs then bs ! (i - off)
      else if i < length xs then xs ! i else 0)"
  by (auto simp: splice_def nth_append min_def not_less nth_Cons' split: if_splits)

lemma splice_inside:
  "off + length bs \<le> length xs \<Longrightarrow> length (splice xs off bs) = length xs"
  by (simp add: length_splice)

lemma pread_Some_iff:
  "pread f off n = Some bs \<longleftrightarrow> off + n \<le> length (content f) \<and> bs = take n (drop off (content f))"
  by (auto simp: pread_def)

lemma pread_length: "pread f off n = Some bs \<Longrightarrow> length bs = n"
  by (auto simp: pread_def split: if_splits)

lemma pread_nth: "pread f off n = Some bs \<Longrightarrow> i < n \<Longrightarrow> bs ! i = content f ! (off + i)"
  by (auto simp: pread_def split: if_splits)

text \<open>Reading back what was just written, and reading elsewhere.\<close>

lemma pread_pwrite:
  assumes "pwrite f off bs = Some f'"
  shows "pread f' off (length bs) = Some bs"
proof -
  from assms have f': "content f' = splice (content f) off bs"
    by (auto simp: pwrite_def split: if_splits)
  have "take (length bs) (drop off (splice (content f) off bs)) = bs"
    by (rule nth_equalityI) (auto simp: length_splice nth_splice)
  then show ?thesis by (simp add: pread_def f' length_splice)
qed

text \<open>Consecutive writes are one write of the joined bytes.\<close>

lemma splice_splice: "splice (splice xs off as) (off + length as) bs = splice xs off (as @ bs)"
  by (rule nth_equalityI) (auto simp: length_splice nth_splice nth_append)

lemma splice_Nil: "off \<le> length xs \<Longrightarrow> splice xs off [] = xs"
  by (simp add: splice_def)

end
