(* ===== verification/Cyclic.thy ===== *)
theory Cyclic
  imports Prelude
begin

text \<open>
  The cyclic mode of \<^verbatim>\<open>src/makedumpfile.c\<close>: the physical page frames are processed in cycles of
  \<^verbatim>\<open>info->pfn_cyclic\<close> frames so that one bitmap buffer suffices. \<^verbatim>\<open>first_cycle\<close>, \<^verbatim>\<open>update_cycle\<close>
  and \<^verbatim>\<open>end_cycle\<close> drive every \<^verbatim>\<open>for_each_cycle\<close> loop; \<^verbatim>\<open>mdf_pfn_t\<close> is a 64-bit word.
\<close>

section \<open>Data\<close>

text \<open>\<^verbatim>\<open>struct cycle\<close>; the counter to charge for a pending exclusion is named, not pointed to.\<close>

datatype counter = Pfn_zero | Pfn_memhole | Pfn_cache | Pfn_cache_private | Pfn_user
  | Pfn_free | Pfn_hwpoison | Pfn_offline | Pfn_elf_excluded

record cycle =
  start_pfn :: u64
  end_pfn :: u64
  exclude_pfn_start :: u64
  exclude_pfn_end :: u64
  exclude_pfn_counter :: "counter option"

text \<open>The two members of \<^verbatim>\<open>struct DumpInfo\<close> these functions read.\<close>

record cyclic_info =
  pfn_cyclic :: u64
  flag_elf_dumpfile :: bool

definition BITPERBYTE :: u64 where
  "BITPERBYTE = 8"

section \<open>Operations\<close>

definition first_cycle :: "cyclic_info \<Rightarrow> u64 \<Rightarrow> u64 \<Rightarrow> cycle \<Rightarrow> cycle" where
  "first_cycle info start mx cycle =
     (let c1 = cycle\<lparr>start_pfn := round_c start (pfn_cyclic info)\<rparr>;
          c2 = c1\<lparr>end_pfn := start_pfn c1 + pfn_cyclic info\<rparr>;
          c3 = (if end_pfn c2 > mx then c2\<lparr>end_pfn := mx\<rparr> else c2);
          c4 = (if flag_elf_dumpfile info \<and> start_pfn c3 < start
                then c3\<lparr>start_pfn := round_c start BITPERBYTE\<rparr> else c3)
      in c4\<lparr>exclude_pfn_start := 0, exclude_pfn_end := 0\<rparr>)"

definition update_cycle :: "cyclic_info \<Rightarrow> u64 \<Rightarrow> cycle \<Rightarrow> cycle" where
  "update_cycle info mx cycle =
     (let c1 = cycle\<lparr>start_pfn := end_pfn cycle\<rparr>;
          c2 = c1\<lparr>end_pfn := start_pfn c1 + pfn_cyclic info\<rparr>
      in if end_pfn c2 > mx then c2\<lparr>end_pfn := mx\<rparr> else c2)"

definition end_cycle :: "u64 \<Rightarrow> cycle \<Rightarrow> bool" where
  "end_cycle mx cycle \<longleftrightarrow> start_pfn cycle \<ge> mx"

definition is_cyclic_region :: "u64 \<Rightarrow> cycle option \<Rightarrow> bool" where
  "is_cyclic_region pfn co = (case co of None \<Rightarrow> False
     | Some c \<Rightarrow> \<not> (pfn < start_pfn c \<or> end_pfn c \<le> pfn))"

text \<open>
  The macro \<^verbatim>\<open>for_each_cycle\<close>: \<open>for_each_from\<close> is the loop from its current cycle on. The body
  threads a state through the cycles and may itself change the \<^verbatim>\<open>exclude\<close> members; \<open>None\<close> is a
  loop that does not end.
\<close>

partial_function (option) for_each_from ::
  "cyclic_info \<Rightarrow> u64 \<Rightarrow> (cycle \<Rightarrow> 's \<Rightarrow> cycle \<times> 's) \<Rightarrow> cycle \<Rightarrow> 's \<Rightarrow> (cycle \<times> 's) option" where
  "for_each_from info mx body c s =
     (if end_cycle mx c then Some (c, s)
      else for_each_from info mx body (update_cycle info mx (fst (body c s))) (snd (body c s)))"

definition for_each_cycle ::
  "cyclic_info \<Rightarrow> u64 \<Rightarrow> u64 \<Rightarrow> (cycle \<Rightarrow> 's \<Rightarrow> cycle \<times> 's) \<Rightarrow> cycle \<Rightarrow> 's \<Rightarrow> (cycle \<times> 's) option" where
  "for_each_cycle info start mx body c s =
     for_each_from info mx body (first_cycle info start mx c) s"

text \<open>The body that only records the range of each cycle it sees.\<close>

definition record_range :: "cycle \<Rightarrow> (u64 \<times> u64) list \<Rightarrow> cycle \<times> (u64 \<times> u64) list" where
  "record_range c rs = (c, rs @ [(start_pfn c, end_pfn c)])"

section \<open>The ranges of the cycles\<close>

lemmas cycle_defs = first_cycle_def update_cycle_def end_cycle_def

text \<open>The frames a range stands for, as numbers.\<close>

definition range_pfns :: "u64 \<times> u64 \<Rightarrow> nat list" where
  "range_pfns r = [unat (fst r) ..< unat (snd r)]"

text \<open>
  With a positive cycle size and no wrap-around at the end of memory, one step moves the range
  to the next frames.
\<close>

lemma update_cycle_range:
  assumes "end_pfn c < mx" and "unat mx + unat (pfn_cyclic info) < 2 ^ 64"
  shows "start_pfn (update_cycle info mx c) = end_pfn c"
    and "unat (end_pfn (update_cycle info mx c)) =
           min (unat (end_pfn c) + unat (pfn_cyclic info)) (unat mx)"
  using assms
  by (auto simp: update_cycle_def Let_def word_less_nat_alt unat_plus64 min_def)

lemma update_cycle_done:
  assumes "end_pfn c = mx"
  shows "start_pfn (update_cycle info mx c) = mx"
  using assms by (auto simp: update_cycle_def Let_def)

lemma for_each_ranges:
  assumes "0 < pfn_cyclic info" and "unat mx + unat (pfn_cyclic info) < 2 ^ 64"
    and "end_pfn c \<le> mx" and "start_pfn c < mx \<longrightarrow> start_pfn c < end_pfn c"
    and "unat (end_pfn c) \<le> unat (start_pfn c) + unat (pfn_cyclic info)"
  shows "\<exists>c' rs. for_each_from info mx record_range c acc = Some (c', acc @ rs) \<and>
     concat (map range_pfns rs) = [unat (start_pfn c) ..< unat mx] \<and>
     (\<forall>r \<in> set rs. unat (fst r) < unat (snd r) \<and>
        unat (snd r) - unat (fst r) \<le> unat (pfn_cyclic info))"
  using assms(3-5)
proof (induction "unat mx - unat (start_pfn c)" arbitrary: c acc rule: less_induct)
  case less
  let ?c = "update_cycle info mx c"
  show ?case
  proof (cases "end_cycle mx c")
    case True
    then show ?thesis
      by (auto simp: for_each_from.simps end_cycle_def word_le_nat_alt intro!: exI [of _ "[]"])
  next
    case False
    then have se: "start_pfn c < end_pfn c" using less.prems by (simp add: end_cycle_def not_le)
    have unf: "for_each_from info mx record_range c acc =
        for_each_from info mx record_range ?c (acc @ [(start_pfn c, end_pfn c)])"
      using False by (simp add: for_each_from.simps record_range_def)
    have st: "start_pfn ?c = end_pfn c"
      using update_cycle_range(1) [OF _ assms(2), of c] update_cycle_done [of c mx info] less.prems(1)
      by (cases "end_pfn c = mx") auto
    have le: "end_pfn ?c \<le> mx" by (auto simp: update_cycle_def Let_def not_less)
    have p: "0 < unat (pfn_cyclic info)" using assms(1) by (simp add: word_less_nat_alt)
    have en: "start_pfn ?c < mx \<longrightarrow> start_pfn ?c < end_pfn ?c"
      using update_cycle_range [OF _ assms(2), of c] p by (auto simp: st word_less_nat_alt)
    have sz: "unat (end_pfn ?c) \<le> unat (start_pfn ?c) + unat (pfn_cyclic info)"
    proof (cases "end_pfn c < mx")
      case True
      then show ?thesis using update_cycle_range [OF True assms(2)] by simp
    next
      case False
      then have "end_pfn c = mx" using less.prems(1) by simp
      then show ?thesis using le st by (simp add: word_le_nat_alt)
    qed
    have "unat mx - unat (start_pfn ?c) < unat mx - unat (start_pfn c)"
      using se False by (simp add: st end_cycle_def word_less_nat_alt word_le_nat_alt)
    from less.hyps [OF this le en sz, of "acc @ [(start_pfn c, end_pfn c)]"] obtain c' rs where
      r: "for_each_from info mx record_range ?c (acc @ [(start_pfn c, end_pfn c)]) =
        Some (c', acc @ [(start_pfn c, end_pfn c)] @ rs)"
        "concat (map range_pfns rs) = [unat (end_pfn c) ..< unat mx]"
        "\<forall>r \<in> set rs. unat (fst r) < unat (snd r) \<and>
          unat (snd r) - unat (fst r) \<le> unat (pfn_cyclic info)"
      by (auto simp: st)
    have "[unat (start_pfn c) ..< unat (end_pfn c)] @ [unat (end_pfn c) ..< unat mx] =
        [unat (start_pfn c) ..< unat mx]"
      using se less.prems(1) by (intro upt_append) (auto simp: word_less_nat_alt word_le_nat_alt)
    then show ?thesis using r unf se less.prems(3)
      by (intro exI [of _ c'] exI [of _ "(start_pfn c, end_pfn c) # rs"])
         (auto simp: range_pfns_def word_less_nat_alt)
  qed
qed

text \<open>
  The first cycle starts at or below the requested frame, within the size of a cycle. The cycle
  size is a whole number of bitmap bytes, so the ELF adjustment to a byte boundary does not
  start below it.
\<close>

lemma dvd_le_round:
  fixes a m d :: nat
  assumes "d dvd m"
  shows "a div m * m \<le> a div d * d"
proof -
  have "d dvd a div m * m" using assms by simp
  then have "a div m * m = (a div m * m) div d * d" by simp
  also have "\<dots> \<le> a div d * d" by (intro mult_le_mono1 div_le_mono) simp
  finally show ?thesis .
qed

lemma first_cycle_range:
  assumes "0 < pfn_cyclic info" and "8 dvd unat (pfn_cyclic info)"
    and "unat mx + unat (pfn_cyclic info) < 2 ^ 64" and "start < mx"
    and c1: "c1 = first_cycle info start mx c"
  shows "start_pfn c1 \<le> start" "end_pfn c1 \<le> mx" "start < end_pfn c1"
    "unat (end_pfn c1) \<le> unat (start_pfn c1) + unat (pfn_cyclic info)"
    "8 dvd unat (start_pfn c1)"
proof -
  let ?r = "round_c start (pfn_cyclic info)"
  let ?r8 = "round_c start BITPERBYTE"
  have r: "?r \<le> start" and r8: "?r8 \<le> start" by (rule round_c_le)+
  have le: "unat ?r \<le> unat ?r8"
    using dvd_le_round [OF assms(2), of "unat start"] by (simp add: unat_round_c BITPERBYTE_def)
  have lt: "unat start < unat ?r + unat (pfn_cyclic info)"
    by (rule less_round_c_plus [OF assms(1)])
  have nw: "unat (?r + pfn_cyclic info) = unat ?r + unat (pfn_cyclic info)"
    using r assms(3,4) by (intro unat_plus64) (auto simp: word_le_nat_alt word_less_nat_alt)
  show "start_pfn c1 \<le> start" using r r8 by (auto simp: c1 first_cycle_def Let_def)
  show e: "end_pfn c1 \<le> mx" by (auto simp: c1 first_cycle_def Let_def not_less)
  show "start < end_pfn c1"
    using assms(4) lt nw by (auto simp: c1 first_cycle_def Let_def word_less_nat_alt)
  show "unat (end_pfn c1) \<le> unat (start_pfn c1) + unat (pfn_cyclic info)"
    using nw le by (auto simp: c1 first_cycle_def Let_def word_less_nat_alt not_less)
  have "8 dvd unat ?r" "8 dvd unat ?r8"
    using assms(2) round_c_dvd [of BITPERBYTE start]
    by (simp_all add: unat_round_c BITPERBYTE_def)
  then show "8 dvd unat (start_pfn c1)" by (auto simp: c1 first_cycle_def Let_def)
qed

section \<open>Properties\<close>

text \<open>
  C26. Every \<^verbatim>\<open>for_each_cycle\<close> loop terminates, and the cycles it runs cover the page frames from
  a first frame at or below \<open>start\<close> up to \<open>mx\<close> contiguously and without overlap: the
  concatenation of their ranges is the interval. Each cycle is non-empty and no longer than the
  bitmap buffer, and the first one starts on a byte of the bitmap.
\<close>

theorem for_each_cycle_covers:
  assumes "0 < pfn_cyclic info" and "8 dvd unat (pfn_cyclic info)"
    and "unat mx + unat (pfn_cyclic info) < 2 ^ 64" and "start < mx"
  shows "\<exists>c' rs s0. for_each_cycle info start mx record_range c [] = Some (c', rs) \<and>
     s0 \<le> start \<and> 8 dvd unat s0 \<and> concat (map range_pfns rs) = [unat s0 ..< unat mx] \<and>
     (\<forall>r \<in> set rs. unat (fst r) < unat (snd r) \<and>
        unat (snd r) - unat (fst r) \<le> unat (pfn_cyclic info))"
proof -
  let ?c = "first_cycle info start mx c"
  note fc = first_cycle_range [OF assms refl, of c]
  have lt: "start_pfn ?c < mx \<longrightarrow> start_pfn ?c < end_pfn ?c" 
    using le_less_trans [OF fc(1,3)] by simp
  from for_each_ranges [OF assms(1,3) fc(2) lt fc(4), of "[]"] fc(1,5) show ?thesis
    by (auto simp: for_each_cycle_def)
qed

theorem for_each_cycle_covers_witness:
  "\<exists>c' rs s0. for_each_cycle \<lparr>pfn_cyclic = 8, flag_elf_dumpfile = True\<rparr> 13 30 record_range
       \<lparr>start_pfn = 0, end_pfn = 0, exclude_pfn_start = 0, exclude_pfn_end = 0,
        exclude_pfn_counter = None\<rparr> [] = Some (c', rs) \<and>
     s0 \<le> (13::u64) \<and> 8 dvd unat s0 \<and> concat (map range_pfns rs) = [unat s0 ..< unat (30::u64)] \<and>
     (\<forall>r \<in> set rs. unat (fst r) < unat (snd r) \<and> unat (snd r) - unat (fst r) \<le>
        unat (pfn_cyclic \<lparr>pfn_cyclic = 8, flag_elf_dumpfile = True\<rparr>))"
  by (rule for_each_cycle_covers) simp_all

end
