(* ===== verification/Bitmap.thy ===== *)
theory Bitmap
  imports File_IO Cyclic
begin

text \<open>
  The dump bitmaps of \<^verbatim>\<open>src/makedumpfile.c\<close> and \<^verbatim>\<open>src/makedumpfile.h\<close>: one bit per page frame,
  either in a buffer that covers the current cycle or in a temporary file accessed through a
  one-block write-back buffer. Both bitmaps share the temporary file; the second one starts at
  half of it.
\<close>

section \<open>Data\<close>

text \<open>\<^verbatim>\<open>struct dump_bitmap\<close> without the name used in messages.\<close>

record dump_bitmap =
  fd :: int
  no_block :: int
  buf :: "u8 list"
  offset :: nat

text \<open>The members of \<^verbatim>\<open>struct DumpInfo\<close> the bitmap code uses.\<close>

record bitmap_info =
  fd_bitmap :: int
  bufsize_cyclic :: nat
  len_bitmap :: nat

definition BUFSIZE_BITMAP :: nat where
  "BUFSIZE_BITMAP = 4096"

definition PFN_BUFBITMAP :: u64 where
  "PFN_BUFBITMAP = 32768"

text \<open>
  C's \<^verbatim>\<open>int\<close>: \<open>to_int\<close> is the conversion of a 64-bit value, \<open>mul_int\<close> the 32-bit product. An
  overflowing product is undefined in C; the model wraps, as the compilers do.
\<close>

definition to_int :: "u64 \<Rightarrow> int" where
  "to_int x = sint (ucast x :: 32 word)"

definition mul_int :: "int \<Rightarrow> int \<Rightarrow> int" where
  "mul_int a b = sint (of_int (a * b) :: 32 word)"

lemma to_int_small: "unat x < 2 ^ 31 \<Longrightarrow> to_int x = int (unat x)"
proof -
  assume "unat x < 2 ^ 31"
  then have "uint x < 2 ^ 31" by (metis of_nat_less_iff of_nat_numeral of_nat_power uint_nat)
  moreover have "to_int x = signed_take_bit 31 (uint x)"
    by (simp add: to_int_def signed_ucast_eq)
  ultimately have "to_int x = uint x"
    using signed_take_bit_int_eq_self [of 31 "uint x"] uint_nonnegative [of x] by linarith
  then show ?thesis by simp
qed

lemma mul_int_small: "0 \<le> a * b \<Longrightarrow> a * b < 2 ^ 31 \<Longrightarrow> mul_int a b = a * b"
  by (simp add: mul_int_def signed_of_int signed_take_bit_int_eq_self del: of_int_mult)

section \<open>Operations\<close>

definition initialize_bitmap :: "bitmap_info \<Rightarrow> dump_bitmap \<Rightarrow> dump_bitmap" where
  "initialize_bitmap info bm =
     (if fd_bitmap info \<ge> 0
      then bm\<lparr>fd := fd_bitmap info, no_block := -1,
              buf := replicate BUFSIZE_BITMAP 0 @ drop BUFSIZE_BITMAP (buf bm)\<rparr>
      else bm\<lparr>fd := -1, no_block := -1,
              buf := replicate (bufsize_cyclic info) 0 @ drop (bufsize_cyclic info) (buf bm)\<rparr>)"

definition initialize_1st_bitmap :: "bitmap_info \<Rightarrow> dump_bitmap \<Rightarrow> dump_bitmap" where
  "initialize_1st_bitmap info bm = (initialize_bitmap info bm)\<lparr>offset := 0\<rparr>"

definition initialize_2nd_bitmap :: "bitmap_info \<Rightarrow> dump_bitmap \<Rightarrow> dump_bitmap" where
  "initialize_2nd_bitmap info bm = (initialize_bitmap info bm)\<lparr>offset := len_bitmap info div 2\<rparr>"

text \<open>\<^verbatim>\<open>fd_par\<close> is \<^verbatim>\<open>FD_BITMAP_PARALLEL(thread_num)\<close>.\<close>

definition initialize_2nd_bitmap_parallel :: "bitmap_info \<Rightarrow> int \<Rightarrow> dump_bitmap \<Rightarrow> dump_bitmap" where
  "initialize_2nd_bitmap_parallel info fd_par bm =
     bm\<lparr>fd := fd_par, no_block := -1,
        buf := replicate BUFSIZE_BITMAP 0 @ drop BUFSIZE_BITMAP (buf bm),
        offset := len_bitmap info div 2\<rparr>"

text \<open>Setting or clearing a bit; \<open>None\<close> is a write outside the buffer.\<close>

definition put_bit :: "u8 list \<Rightarrow> int \<Rightarrow> nat \<Rightarrow> bool \<Rightarrow> u8 list option" where
  "put_bit b byte bt val =
     (if 0 \<le> byte \<and> nat byte < length b
      then Some (b[nat byte := if val then b ! nat byte OR push_bit bt 1
                               else b ! nat byte AND NOT (push_bit bt 1)])
      else None)"

text \<open>A block read: a short read fills the front of the buffer only.\<close>

definition read_block :: "fstate \<Rightarrow> nat \<Rightarrow> u8 list \<Rightarrow> u8 list \<times> bool" where
  "read_block f off b =
     (let got = take BUFSIZE_BITMAP (drop off (content f))
      in (got @ drop (length got) b, length got = BUFSIZE_BITMAP))"

text \<open>
  \<^verbatim>\<open>set_bitmap_file\<close>: write the block back if another one is needed, read that one, change the
  bit in the buffer. The result is the return value, the bitmap and the file.
\<close>

definition set_bitmap_file ::
  "dump_bitmap \<Rightarrow> fstate \<Rightarrow> u64 \<Rightarrow> bool \<Rightarrow> (bool \<times> dump_bitmap \<times> fstate) option" where
  "set_bitmap_file bm f pfn val =
     (let old_offset = int (offset bm) + mul_int (int BUFSIZE_BITMAP) (no_block bm);
          new_offset = int (offset bm) + int (BUFSIZE_BITMAP * unat (pfn div PFN_BUFBITMAP));
          byte = to_int (drop_bit 3 (pfn mod PFN_BUFBITMAP));
          bt = unat ((pfn mod PFN_BUFBITMAP) AND 7);
          flushed = (if 0 \<le> no_block bm \<and> old_offset \<noteq> new_offset
                     then if old_offset < 0 then None else pwrite f (nat old_offset) (buf bm)
                     else Some f)
      in case flushed of
           None \<Rightarrow> Some (False, bm, f)
         | Some f1 \<Rightarrow>
             (let (b1, ok) = (if old_offset \<noteq> new_offset
                              then read_block f1 (nat new_offset) (buf bm) else (buf bm, True))
              in if \<not> ok then Some (False, bm\<lparr>buf := b1\<rparr>, f1)
                 else (let bm1 = (if old_offset \<noteq> new_offset
                                  then bm\<lparr>buf := b1, no_block := to_int (pfn div PFN_BUFBITMAP)\<rparr>
                                  else bm)
                       in map_option (\<lambda>b2. (True, bm1\<lparr>buf := b2\<rparr>, f1)) (put_bit (buf bm1) byte bt val))))"

text \<open>
  \<^verbatim>\<open>set_bitmap_buffer\<close>: a frame outside the cycle is refused with a warning; the warning prints
  the members of the cycle, so that a null cycle is a fault.
\<close>

definition set_bitmap_buffer ::
  "dump_bitmap \<Rightarrow> u64 \<Rightarrow> bool \<Rightarrow> cycle option \<Rightarrow> (bool \<times> dump_bitmap) option" where
  "set_bitmap_buffer bm pfn val co = (case co of
     None \<Rightarrow> None
   | Some c \<Rightarrow>
       if \<not> is_cyclic_region pfn co then Some (False, bm)
       else (let byte = to_int (drop_bit 3 (pfn - start_pfn c));
                 bt = unat ((pfn - start_pfn c) AND 7)
             in map_option (\<lambda>b. (True, bm\<lparr>buf := b\<rparr>)) (put_bit (buf bm) byte bt val)))"

definition set_bitmap ::
  "dump_bitmap \<Rightarrow> fstate \<Rightarrow> u64 \<Rightarrow> bool \<Rightarrow> cycle option \<Rightarrow> (bool \<times> dump_bitmap \<times> fstate) option" where
  "set_bitmap bm f pfn val co =
     (if fd bm \<ge> 0 then set_bitmap_file bm f pfn val
      else map_option (\<lambda>(r, bm'). (r, bm', f)) (set_bitmap_buffer bm pfn val co))"

definition sync_bitmap :: "dump_bitmap \<Rightarrow> fstate \<Rightarrow> bool \<times> fstate" where
  "sync_bitmap bm f =
     (let off = int (offset bm) + mul_int (int BUFSIZE_BITMAP) (no_block bm)
      in if fd bm < 0 then (True, f)
         else if no_block bm < 0 then (True, f)
         else if off < 0 then (False, f)
         else (case pwrite f (nat off) (buf bm) of None \<Rightarrow> (False, f) | Some f' \<Rightarrow> (True, f')))"

definition is_on :: "u8 list \<Rightarrow> u64 \<Rightarrow> bool" where
  "is_on b i \<longleftrightarrow> b ! unat (drop_bit 3 i) AND push_bit (unat (i AND 7)) 1 \<noteq> 0"

definition is_dumpable_buffer :: "dump_bitmap \<Rightarrow> u64 \<Rightarrow> cycle option \<Rightarrow> bool" where
  "is_dumpable_buffer bm pfn co = (case co of None \<Rightarrow> False
     | Some c \<Rightarrow> if \<not> is_cyclic_region pfn co then False else is_on (buf bm) (pfn - start_pfn c))"

text \<open>\<^verbatim>\<open>is_dumpable_file\<close>: a short read is reported but the buffer is used all the same.\<close>

definition is_dumpable_file :: "dump_bitmap \<Rightarrow> fstate \<Rightarrow> u64 \<Rightarrow> bool \<times> dump_bitmap" where
  "is_dumpable_file bm f pfn =
     (let bm1 = (if pfn = 0 \<or> of_int (no_block bm) \<noteq> pfn div PFN_BUFBITMAP
                 then bm\<lparr>buf := fst (read_block f (offset bm + BUFSIZE_BITMAP * unat (pfn div PFN_BUFBITMAP)) (buf bm)),
                         no_block := (if pfn = 0 then 0 else to_int (pfn div PFN_BUFBITMAP))\<rparr>
                 else bm)
      in (is_on (buf bm1) (pfn mod PFN_BUFBITMAP), bm1))"

definition is_dumpable :: "dump_bitmap \<Rightarrow> fstate \<Rightarrow> u64 \<Rightarrow> cycle option \<Rightarrow> bool \<times> dump_bitmap" where
  "is_dumpable bm f pfn co =
     (if fd bm < 0 then (is_dumpable_buffer bm pfn co, bm) else is_dumpable_file bm f pfn)"

section \<open>Bits of buffers\<close>

lemma unat_and7: "unat (x AND 7 :: u64) = unat x mod 8"
proof -
  have "x AND 7 = x mod 8" using take_bit_eq_mask [of 3 x] by (simp add: mask_eq_exp_minus_1 take_bit_eq_mod)
  then show ?thesis by (simp add: unat_mod64)
qed

lemma unat_drop3: "unat (drop_bit 3 x :: u64) = unat x div 8"
  by (simp add: drop_bit_eq_div unat_div64)

lemma and_push_bit_nonzero: "(w AND push_bit n 1 \<noteq> 0) = bit (w :: u8) n"
proof -
  have "w AND push_bit n 1 = (if bit w n then push_bit n 1 else 0)"
    by (rule bit_eqI) (auto simp: bit_and_iff bit_exp_iff)
  moreover have "push_bit n 1 \<noteq> (0 :: u8)" if "bit w n"
    using bit_imp_le_length [OF that] exp_eq_zero_iff [where 'a = 8, of n] by simp
  ultimately show ?thesis by (cases "bit w n") simp_all
qed


text \<open>Bit number \<open>i\<close> of a list of bytes.\<close>

definition nbit :: "u8 list \<Rightarrow> nat \<Rightarrow> bool" where
  "nbit b i = bit (b ! (i div 8)) (i mod 8)"

lemma is_on_nbit: "is_on b i = nbit b (unat i)"
  by (simp add: is_on_def nbit_def unat_and7 unat_drop3 and_push_bit_nonzero del: push_bit_of_1)

lemma bit_put:
  assumes "m < 8" "n < 8"
  shows "bit (if v then w OR push_bit n 1 else w AND NOT (push_bit n 1) :: u8) m =
     (if m = n then v else bit w m)"
  using assms by (auto simp: bit_or_iff bit_and_iff bit_not_iff bit_exp_iff)

lemma put_bit_Some:
  assumes "k < length b" "n < 8"
  shows "\<exists>b'. put_bit b (int k) n v = Some b' \<and> length b' = length b \<and>
     (\<forall>i. nbit b' i = (if i = 8 * k + n then v else nbit b i)) \<and>
     (\<forall>j. j \<noteq> k \<longrightarrow> b' ! j = b ! j)"
proof -
  let ?b = "b[k := if v then b ! k OR push_bit n 1 else b ! k AND NOT (push_bit n 1)]"
  have "nbit ?b i = (if i = 8 * k + n then v else nbit b i)" for i
  proof (cases "i div 8 = k")
    case True
    then have "?b ! (i div 8) = (if v then b ! k OR push_bit n 1 else b ! k AND NOT (push_bit n 1))"
      using assms(1) by simp
    moreover have "i = 8 * k + n \<longleftrightarrow> i mod 8 = n" using True assms(2) by presburger
    ultimately show ?thesis unfolding nbit_def using bit_put [of "i mod 8" n v "b ! k"] assms(2) True
      by (simp del: push_bit_of_1)
  next
    case False
    then show ?thesis using assms(2) by (auto simp: nbit_def)
  qed
  moreover have "put_bit b (int k) n v = Some ?b" using assms(1) by (simp add: put_bit_def)
  moreover have "length ?b = length b" "\<forall>j. j \<noteq> k \<longrightarrow> ?b ! j = b ! j" by simp_all
  ultimately show ?thesis by blast
qed

section \<open>File-backed bitmaps\<close>

text \<open>
  The bytes a file-backed bitmap stands for: the block in the buffer is newer than the file.
\<close>

definition bm_byte :: "dump_bitmap \<Rightarrow> fstate \<Rightarrow> nat \<Rightarrow> u8" where
  "bm_byte bm f k = (if int (k div BUFSIZE_BITMAP) = no_block bm then buf bm ! (k mod BUFSIZE_BITMAP)
     else content f ! (offset bm + k))"

definition bm_bit :: "dump_bitmap \<Rightarrow> fstate \<Rightarrow> nat \<Rightarrow> bool" where
  "bm_bit bm f i = bit (bm_byte bm f (i div 8)) (i mod 8)"

text \<open>
  A bitmap of \<open>n\<close> blocks whose file is long enough. The bound on \<open>n\<close> (bitmaps of less than
  2 GiB, \<open>2 ^ 34\<close> page frames) is where the 32-bit product in \<^verbatim>\<open>set_bitmap_file\<close> and
  \<^verbatim>\<open>sync_bitmap\<close> is still exact.
\<close>

definition bm_wf :: "nat \<Rightarrow> dump_bitmap \<Rightarrow> fstate \<Rightarrow> bool" where
  "bm_wf n bm f \<longleftrightarrow> 0 \<le> fd bm \<and> length (buf bm) = BUFSIZE_BITMAP \<and>
     offset bm + BUFSIZE_BITMAP * n \<le> length (content f) \<and> length (content f) \<le> capacity f \<and>
     -1 \<le> no_block bm \<and> no_block bm < int n \<and> n \<le> 2 ^ 19"

text \<open>The buffer agrees with the file, as after \<^verbatim>\<open>sync_bitmap\<close>.\<close>

definition bm_clean :: "dump_bitmap \<Rightarrow> fstate \<Rightarrow> bool" where
  "bm_clean bm f \<longleftrightarrow> (\<forall>k. int (k div BUFSIZE_BITMAP) = no_block bm \<longrightarrow>
     content f ! (offset bm + k) = buf bm ! (k mod BUFSIZE_BITMAP))"

lemma old_offset_eq:
  assumes "bm_wf n bm f" and "0 \<le> no_block bm"
  shows "mul_int (int BUFSIZE_BITMAP) (no_block bm) = int (BUFSIZE_BITMAP * nat (no_block bm))"
  using assms mul_int_small [of "int BUFSIZE_BITMAP" "no_block bm"]
  by (simp add: bm_wf_def BUFSIZE_BITMAP_def)

lemma old_offset_unset:
  "no_block bm = -1 \<Longrightarrow> mul_int (int BUFSIZE_BITMAP) (no_block bm) = - int BUFSIZE_BITMAP"
  by (simp add: mul_int_def BUFSIZE_BITMAP_def)

text \<open>Writing the buffered block back moves it to the file and changes nothing else.\<close>

lemma flush_block:
  assumes wf: "bm_wf n bm f" and nb: "0 \<le> no_block bm"
  shows "\<exists>f'. pwrite f (offset bm + BUFSIZE_BITMAP * nat (no_block bm)) (buf bm) = Some f' \<and>
     length (content f') = length (content f) \<and> capacity f' = capacity f \<and>
     (\<forall>k < BUFSIZE_BITMAP * n. content f' ! (offset bm + k) = bm_byte bm f k) \<and>
     (\<forall>j < length (content f). j < offset bm \<or> offset bm + BUFSIZE_BITMAP * n \<le> j \<longrightarrow>
        content f' ! j = content f ! j)"
proof -
  let ?b = "nat (no_block bm)" and ?B = "BUFSIZE_BITMAP"
  let ?off = "offset bm + ?B * ?b"
  let ?c = "splice (content f) ?off (buf bm)"
  have B: "0 < ?B" by (simp add: BUFSIZE_BITMAP_def)
  have lb: "length (buf bm) = ?B" and len: "offset bm + ?B * n \<le> length (content f)"
    and cap: "length (content f) \<le> capacity f" and b: "?b < n"
    using wf nb by (auto simp: bm_wf_def)
  have "?B * ?b + ?B \<le> ?B * n" using b by (metis Suc_leI mult_Suc_right mult_le_mono2 add.commute)
  with len lb have fit: "?off + length (buf bm) \<le> length (content f)" by linarith
  have lc: "length ?c = length (content f)" by (rule splice_inside [OF fit])
  have "?c ! (offset bm + k) = bm_byte bm f k" if k: "k < ?B * n" for k
  proof -
    have "(?off \<le> offset bm + k \<and> offset bm + k < ?off + ?B) = (k div ?B = ?b)"
      using div_block_iff [OF B, of ?b k] by auto
    then show ?thesis using k len lb nb b
      by (auto simp: nth_splice lc bm_byte_def modulo_nat_def algebra_simps)
  qed
  moreover have "?c ! j = content f ! j"
    if "j < length (content f)" "j < offset bm \<or> offset bm + ?B * n \<le> j" for j
    using that \<open>?B * ?b + ?B \<le> ?B * n\<close> lb by (auto simp: nth_splice lc)
  ultimately show ?thesis using fit cap lc by (simp add: pwrite_def)
qed


text \<open>Reading a block that the file has.\<close>

lemma read_block_full:
  assumes "off + BUFSIZE_BITMAP \<le> length (content f)"
  shows "read_block f off b = (take BUFSIZE_BITMAP (drop off (content f)) @ drop BUFSIZE_BITMAP b, True)"
proof -
  from assms have "min (length (content f) - off) BUFSIZE_BITMAP = BUFSIZE_BITMAP" by simp
  then show ?thesis by (simp add: read_block_def Let_def)
qed

lemma nth_block:
  assumes "off + BUFSIZE_BITMAP \<le> length (content f)" "j < BUFSIZE_BITMAP"
  shows "(take BUFSIZE_BITMAP (drop off (content f)) @ drop BUFSIZE_BITMAP b) ! j = content f ! (off + j)"
  using assms by (simp add: nth_append)

lemma block_bound: "k < n \<Longrightarrow> BUFSIZE_BITMAP * k + BUFSIZE_BITMAP \<le> BUFSIZE_BITMAP * n"
  by (metis Suc_leI add.commute mult_Suc_right mult_le_mono2)

text \<open>
  Loading block \<open>k\<close> from a file that already holds the bitmap's bytes.
\<close>

lemma load_block_byte:
  assumes len: "offset bm + BUFSIZE_BITMAP * n \<le> length (content f)" and k: "k < n"
    and bm': "no_block bm' = int k" "offset bm' = offset bm"
      "buf bm' = take BUFSIZE_BITMAP (drop (offset bm + BUFSIZE_BITMAP * k) (content f)) @ drop BUFSIZE_BITMAP b"
    and j: "j < BUFSIZE_BITMAP * n"
  shows "bm_byte bm' f j = content f ! (offset bm + j)"
proof (cases "j div BUFSIZE_BITMAP = k")
  case True
  have B: "0 < BUFSIZE_BITMAP" by (simp add: BUFSIZE_BITMAP_def)
  have "offset bm + BUFSIZE_BITMAP * k + BUFSIZE_BITMAP \<le> length (content f)"
    using len block_bound [OF k] by linarith
  from nth_block [OF this, of "j mod BUFSIZE_BITMAP" b] B
  have "buf bm' ! (j mod BUFSIZE_BITMAP) =
      content f ! (offset bm + (BUFSIZE_BITMAP * k + j mod BUFSIZE_BITMAP))"
    by (simp add: bm'(3) add.assoc)
  then show ?thesis using True bm'(1) by (auto simp: bm_byte_def)
next
  case False
  then show ?thesis using bm' by (simp add: bm_byte_def)
qed

lemma pfn_block:
  "unat (pfn div PFN_BUFBITMAP) = unat pfn div 32768"
  "unat (drop_bit 3 (pfn mod PFN_BUFBITMAP)) = unat pfn mod 32768 div 8"
  "unat ((pfn mod PFN_BUFBITMAP) AND 7) = unat pfn mod 8"
proof -
  show "unat (pfn div PFN_BUFBITMAP) = unat pfn div 32768"
    by (simp add: PFN_BUFBITMAP_def unat_div64)
  show "unat (drop_bit 3 (pfn mod PFN_BUFBITMAP)) = unat pfn mod 32768 div 8"
    unfolding unat_drop3 by (simp add: PFN_BUFBITMAP_def unat_mod64)
  have "unat pfn mod 32768 mod 8 = unat pfn mod 8" by (rule mod_mod_cancel) simp
  then show "unat ((pfn mod PFN_BUFBITMAP) AND 7) = unat pfn mod 8"
    unfolding unat_and7 by (simp add: PFN_BUFBITMAP_def unat_mod64)
qed

lemma pfn_index:
  fixes p :: nat
  shows "p div 8 div 4096 = p div 32768" "p mod 32768 = 8 * (p div 8 mod 4096) + p mod 8"
    "p mod 32768 div 8 = p div 8 mod 4096" "p mod 32768 mod 8 = p mod 8"
proof -
  show "p div 8 div 4096 = p div 32768" using div_mult2_eq [of p 8 4096] by simp
  show m: "p mod 32768 = 8 * (p div 8 mod 4096) + p mod 8" using mod_mult2_eq [of p 8 4096] by simp
  show "p mod 32768 div 8 = p div 8 mod 4096" "p mod 32768 mod 8 = p mod 8"
    by (simp_all add: m)
qed

text \<open>Changing a bit of the buffered block.\<close>

lemma set_in_block:
  assumes wf: "bm_wf n bm f" and nb: "no_block bm = int (unat pfn div 32768)"
  shows "\<exists>b2. put_bit (buf bm) (int (unat pfn mod 32768 div 8)) (unat pfn mod 8) val = Some b2 \<and>
     bm_wf n (bm\<lparr>buf := b2\<rparr>) f \<and>
     (\<forall>i. bm_bit (bm\<lparr>buf := b2\<rparr>) f i = (if i = unat pfn then val else bm_bit bm f i))"
proof -
  have "unat pfn mod 32768 div 8 < length (buf bm)" "unat pfn mod 8 < 8"
    using wf by (simp_all add: bm_wf_def BUFSIZE_BITMAP_def less_mult_imp_div_less)
  from put_bit_Some [OF this, of val] obtain b2 where
    b2: "put_bit (buf bm) (int (unat pfn mod 32768 div 8)) (unat pfn mod 8) val = Some b2"
      "length b2 = length (buf bm)"
      "\<And>i. nbit b2 i = (if i = 8 * (unat pfn mod 32768 div 8) + unat pfn mod 8 then val else nbit (buf bm) i)"
    by blast
  have "bm_bit (bm\<lparr>buf := b2\<rparr>) f i = (if i = unat pfn then val else bm_bit bm f i)" for i
  proof (cases "i div 32768 = unat pfn div 32768")
    case True
    then have hit: "int (i div 8 div BUFSIZE_BITMAP) = no_block bm"
      using nb by (simp add: BUFSIZE_BITMAP_def pfn_index)
    let ?r = "i mod 32768"
    note r = pfn_index(3,4) [of i]
    have "8 * (unat pfn mod 32768 div 8) + unat pfn mod 8 = unat pfn mod 32768"
      unfolding pfn_index(3) by (rule pfn_index(2) [symmetric])
    then have eq: "?r = 8 * (unat pfn mod 32768 div 8) + unat pfn mod 8 \<longleftrightarrow> i = unat pfn"
      using True by (metis div_mult_mod_eq)
    have "bm_bit (bm\<lparr>buf := b2\<rparr>) f i = nbit b2 ?r" "bm_bit bm f i = nbit (buf bm) ?r"
      using hit by (simp_all add: bm_bit_def bm_byte_def nbit_def r BUFSIZE_BITMAP_def)
    then show ?thesis using b2(3) [of ?r] eq by simp
  next
    case False
    then have "int (i div 8 div BUFSIZE_BITMAP) \<noteq> no_block bm"
      using nb by (simp add: BUFSIZE_BITMAP_def pfn_index)
    moreover have "i \<noteq> unat pfn" using False by auto
    ultimately show ?thesis by (simp add: bm_bit_def bm_byte_def)
  qed
  moreover have "bm_wf n (bm\<lparr>buf := b2\<rparr>) f" using wf b2(2) by (simp add: bm_wf_def)
  ultimately show ?thesis using b2(1) by blast
qed


text \<open>The two offsets of \<^verbatim>\<open>set_bitmap_file\<close> agree iff the wanted block is in the buffer.\<close>

lemma offsets_eq_iff:
  assumes "bm_wf n bm f"
  shows "(int (offset bm) + mul_int (int BUFSIZE_BITMAP) (no_block bm) =
      int (offset bm) + int (BUFSIZE_BITMAP * unat (pfn div PFN_BUFBITMAP))) =
     (no_block bm = int (unat pfn div 32768))"
proof (cases "0 \<le> no_block bm")
  case True
  with old_offset_eq [OF assms True] show ?thesis by (auto simp: pfn_block BUFSIZE_BITMAP_def)
next
  case False
  then have "no_block bm = -1" using assms by (simp add: bm_wf_def)
  with old_offset_unset [OF this] show ?thesis by (simp add: pfn_block BUFSIZE_BITMAP_def)
qed

lemma to_int_byte: "to_int (drop_bit 3 (pfn mod PFN_BUFBITMAP)) = int (unat pfn mod 32768 div 8)"
proof -
  have "unat (drop_bit 3 (pfn mod PFN_BUFBITMAP)) = unat pfn mod 32768 div 8" by (rule pfn_block(2))
  moreover have "unat pfn mod 32768 div 8 < 4096" by (rule less_mult_imp_div_less) simp
  ultimately show ?thesis using to_int_small [of "drop_bit 3 (pfn mod PFN_BUFBITMAP)"] by simp
qed

lemma to_int_block:
  "unat pfn < 32768 * n \<Longrightarrow> n \<le> 2 ^ 19 \<Longrightarrow> to_int (pfn div PFN_BUFBITMAP) = int (unat pfn div 32768)"
  using to_int_small [of "pfn div PFN_BUFBITMAP"] less_mult_imp_div_less [of "unat pfn" n 32768]
  by (simp add: pfn_block mult.commute)

lemma set_bitmap_file_same:
  assumes wf: "bm_wf n bm f" and nb: "no_block bm = int (unat pfn div 32768)"
  shows "set_bitmap_file bm f pfn val =
     map_option (\<lambda>b2. (True, bm\<lparr>buf := b2\<rparr>, f))
       (put_bit (buf bm) (int (unat pfn mod 32768 div 8)) (unat pfn mod 8) val)"
  using offsets_eq_iff [OF wf, of pfn] nb
  by (simp add: set_bitmap_file_def Let_def to_int_byte pfn_block(3))

text \<open>Switching blocks: what reaches the file and the buffer before the bit is changed.\<close>

lemma set_bitmap_file_switch:
  assumes wf: "bm_wf n bm f" and pfn: "unat pfn < 32768 * n"
    and nb: "no_block bm \<noteq> int (unat pfn div 32768)"
  shows "\<exists>bm1 f1. set_bitmap_file bm f pfn val =
       map_option (\<lambda>b2. (True, bm1\<lparr>buf := b2\<rparr>, f1))
         (put_bit (buf bm1) (int (unat pfn mod 32768 div 8)) (unat pfn mod 8) val) \<and>
     bm_wf n bm1 f1 \<and> no_block bm1 = int (unat pfn div 32768) \<and> offset bm1 = offset bm \<and>
     (\<forall>k < BUFSIZE_BITMAP * n. bm_byte bm1 f1 k = bm_byte bm f k) \<and>
     length (content f1) = length (content f) \<and> capacity f1 = capacity f \<and>
     (\<forall>j < length (content f). j < offset bm \<or> offset bm + BUFSIZE_BITMAP * n \<le> j \<longrightarrow>
        content f1 ! j = content f ! j)"
proof -
  let ?k = "unat pfn div 32768" and ?B = BUFSIZE_BITMAP
  have k: "?k < n" using pfn by (intro less_mult_imp_div_less) (simp add: mult.commute)
  obtain f1 where f1: "(if 0 \<le> no_block bm
        then if int (offset bm) + mul_int (int ?B) (no_block bm) < 0 then None
             else pwrite f (nat (int (offset bm) + mul_int (int ?B) (no_block bm))) (buf bm)
        else Some f) = Some f1"
      and same: "length (content f1) = length (content f)" "capacity f1 = capacity f"
        "\<forall>k < ?B * n. content f1 ! (offset bm + k) = bm_byte bm f k"
        "\<forall>j < length (content f). j < offset bm \<or> offset bm + ?B * n \<le> j \<longrightarrow> content f1 ! j = content f ! j"
  proof (cases "0 \<le> no_block bm")
    case True
    have o: "int (offset bm) + mul_int (int ?B) (no_block bm) =
        int (offset bm + ?B * nat (no_block bm))"
      using old_offset_eq [OF wf True] by simp
    from flush_block [OF wf True] obtain f' where
      f': "pwrite f (offset bm + ?B * nat (no_block bm)) (buf bm) = Some f'"
      "length (content f') = length (content f)" "capacity f' = capacity f"
      "\<forall>k < ?B * n. content f' ! (offset bm + k) = bm_byte bm f k"
      "\<forall>j < length (content f). j < offset bm \<or> offset bm + ?B * n \<le> j \<longrightarrow> content f' ! j = content f ! j"
      by blast
    show ?thesis using that [OF _ f'(2-5)] f'(1) True unfolding o
      by (simp del: of_nat_add of_nat_mult)
  next
    case False
    then have "bm_byte bm f j = content f ! (offset bm + j)" for j by (auto simp: bm_byte_def)
    with False that show ?thesis by simp
  qed
  let ?b1 = "take ?B (drop (offset bm + ?B * ?k) (content f1)) @ drop ?B (buf bm)"
  let ?bm1 = "bm\<lparr>buf := ?b1, no_block := int ?k\<rparr>"
  have len: "offset bm + ?B * n \<le> length (content f1)" and n: "n \<le> 2 ^ 19"
    using wf same by (auto simp: bm_wf_def)
  have fit: "offset bm + ?B * ?k + ?B \<le> length (content f1)" using len block_bound [OF k] by linarith
  have wf1: "bm_wf n ?bm1 f1" using wf same k fit by (auto simp: bm_wf_def)
  have byte: "bm_byte ?bm1 f1 j = bm_byte bm f j" if "j < ?B * n" for j
    using load_block_byte [OF len k, of ?bm1 "buf bm" j] same(3) that by simp
  have "set_bitmap_file bm f pfn val = map_option (\<lambda>b2. (True, ?bm1\<lparr>buf := b2\<rparr>, f1))
      (put_bit (buf ?bm1) (int (unat pfn mod 32768 div 8)) (unat pfn mod 8) val)"
    using offsets_eq_iff [OF wf, of pfn] nb f1 read_block_full [OF fit, of "buf bm"]
      to_int_block [OF pfn n]
    by (simp add: set_bitmap_file_def Let_def to_int_byte pfn_block nat_int_add del: of_nat_mult)
  with wf1 byte same show ?thesis by (intro exI [of _ ?bm1] exI [of _ f1]) simp
qed

lemma set_bitmap_file_correct:
  assumes wf: "bm_wf n bm f" and pfn: "unat pfn < 32768 * n"
  shows "\<exists>bm' f'. set_bitmap_file bm f pfn val = Some (True, bm', f') \<and> bm_wf n bm' f' \<and>
     offset bm' = offset bm \<and> length (content f') = length (content f) \<and> capacity f' = capacity f \<and>
     (\<forall>i < 32768 * n. bm_bit bm' f' i = (if i = unat pfn then val else bm_bit bm f i)) \<and>
     (\<forall>j < length (content f). j < offset bm \<or> offset bm + BUFSIZE_BITMAP * n \<le> j \<longrightarrow>
        content f' ! j = content f ! j)"
proof (cases "no_block bm = int (unat pfn div 32768)")
  case True
  with set_in_block [OF wf True, of val] set_bitmap_file_same [OF wf True, of val] wf
  show ?thesis by auto
next
  case False
  from set_bitmap_file_switch [OF wf pfn False, of val] obtain bm1 f1 where
    s: "set_bitmap_file bm f pfn val = map_option (\<lambda>b2. (True, bm1\<lparr>buf := b2\<rparr>, f1))
         (put_bit (buf bm1) (int (unat pfn mod 32768 div 8)) (unat pfn mod 8) val)"
      "bm_wf n bm1 f1" "no_block bm1 = int (unat pfn div 32768)" "offset bm1 = offset bm"
      "\<forall>k < BUFSIZE_BITMAP * n. bm_byte bm1 f1 k = bm_byte bm f k"
      "length (content f1) = length (content f)" "capacity f1 = capacity f"
      "\<forall>j < length (content f). j < offset bm \<or> offset bm + BUFSIZE_BITMAP * n \<le> j \<longrightarrow>
        content f1 ! j = content f ! j" by blast
  have "bm_bit bm1 f1 i = bm_bit bm f i" if "i < 32768 * n" for i
    using s(5) that by (simp add: bm_bit_def BUFSIZE_BITMAP_def less_mult_imp_div_less)
  with set_in_block [OF s(2,3), of val] s show ?thesis by auto
qed


lemma sync_bitmap_correct:
  assumes wf: "bm_wf n bm f"
  shows "\<exists>f'. sync_bitmap bm f = (True, f') \<and> bm_wf n bm f' \<and> bm_clean bm f' \<and>
     length (content f') = length (content f) \<and> capacity f' = capacity f \<and>
     (\<forall>k < BUFSIZE_BITMAP * n. bm_byte bm f' k = bm_byte bm f k) \<and>
     (\<forall>j < length (content f). j < offset bm \<or> offset bm + BUFSIZE_BITMAP * n \<le> j \<longrightarrow>
        content f' ! j = content f ! j)"
proof (cases "no_block bm < 0")
  case True
  with wf show ?thesis by (auto simp: sync_bitmap_def Let_def bm_clean_def bm_wf_def)
next
  case False
  then have nb: "0 \<le> no_block bm" by simp
  from flush_block [OF wf nb] obtain f' where
    f': "pwrite f (offset bm + BUFSIZE_BITMAP * nat (no_block bm)) (buf bm) = Some f'"
    "length (content f') = length (content f)" "capacity f' = capacity f"
    "\<forall>k < BUFSIZE_BITMAP * n. content f' ! (offset bm + k) = bm_byte bm f k"
    "\<forall>j < length (content f). j < offset bm \<or> offset bm + BUFSIZE_BITMAP * n \<le> j \<longrightarrow>
        content f' ! j = content f ! j" by blast
  have "int (offset bm) + mul_int (int BUFSIZE_BITMAP) (no_block bm) =
      int (offset bm + BUFSIZE_BITMAP * nat (no_block bm))"
    using old_offset_eq [OF wf nb] by simp
  then have "sync_bitmap bm f = (True, f')"
    using f'(1) nb wf by (simp add: sync_bitmap_def bm_wf_def del: of_nat_add of_nat_mult)
  moreover have "bm_byte bm f' k = bm_byte bm f k" if "k < BUFSIZE_BITMAP * n" for k
    using f'(4) that by (simp add: bm_byte_def)
  moreover have "bm_clean bm f'"
    unfolding bm_clean_def
  proof (intro allI impI)
    fix k assume k: "int (k div BUFSIZE_BITMAP) = no_block bm"
    then have "k div BUFSIZE_BITMAP < n" using wf by (simp add: bm_wf_def)
    then have "k < BUFSIZE_BITMAP * n" using div_less_iff_less_mult [of BUFSIZE_BITMAP k n]
      by (simp add: BUFSIZE_BITMAP_def mult.commute)
    with f'(4) k show "content f' ! (offset bm + k) = buf bm ! (k mod BUFSIZE_BITMAP)"
      by (simp add: bm_byte_def)
  qed
  moreover have "bm_wf n bm f'" using wf f' by (simp add: bm_wf_def)
  ultimately show ?thesis using f'(2,3,5) by blast
qed

text \<open>
  A query of a clean bitmap answers with the bit; the buffer may switch blocks but the bitmap
  stays what it was, and clean.
\<close>

lemma is_on_block:
  assumes "no_block bm = int (unat pfn div 32768)"
  shows "is_on (buf bm) (pfn mod PFN_BUFBITMAP) = bm_bit bm f (unat pfn)"
proof -
  have "unat (pfn mod PFN_BUFBITMAP) = unat pfn mod 32768" by (simp add: PFN_BUFBITMAP_def unat_mod64)
  then show ?thesis using assms
    by (simp add: is_on_nbit nbit_def bm_bit_def bm_byte_def pfn_index(1,3,4) BUFSIZE_BITMAP_def)
qed

lemma no_block_word:
  assumes "bm_wf n bm f" "unat pfn < 32768 * n"
  shows "(of_int (no_block bm) = pfn div PFN_BUFBITMAP) = (no_block bm = int (unat pfn div 32768))"
proof (cases "0 \<le> no_block bm")
  case True
  have "nat (no_block bm) < n" "n \<le> 2 ^ 19" using assms True by (auto simp: bm_wf_def)
  then have "nat (no_block bm) < 2 ^ 64" by simp
  then have "unat (of_int (no_block bm) :: u64) = nat (no_block bm)"
    using True unat_of_nat64 [of "nat (no_block bm)"] by simp
  with True show ?thesis by (auto simp: word_unat_eq_iff pfn_block)
next
  case False
  then have nb: "no_block bm = -1" using assms by (simp add: bm_wf_def)
  have "pfn div PFN_BUFBITMAP \<noteq> -1"
  proof
    assume "pfn div PFN_BUFBITMAP = -1"
    then have "unat (pfn div PFN_BUFBITMAP) = unat (-1 :: u64)" by simp
    moreover have "unat pfn div 32768 < n" using assms(2) by (intro less_mult_imp_div_less) (simp add: mult.commute)
    moreover have "n \<le> 524288" using assms(1) by (simp add: bm_wf_def)
    moreover have "unat (-1 :: u64) = 18446744073709551615"
      by (simp add: unsigned_minus_1_eq_mask mask_eq_exp_minus_1)
    ultimately show False by (simp add: pfn_block)
  qed
  with nb show ?thesis by auto
qed

lemma is_dumpable_file_correct:
  assumes wf: "bm_wf n bm f" and cl: "bm_clean bm f" and pfn: "unat pfn < 32768 * n"
  shows "\<exists>bm'. is_dumpable_file bm f pfn = (bm_bit bm f (unat pfn), bm') \<and> bm_wf n bm' f \<and>
     bm_clean bm' f \<and> offset bm' = offset bm \<and>
     (\<forall>k < BUFSIZE_BITMAP * n. bm_byte bm' f k = bm_byte bm f k)"
proof (cases "pfn = 0 \<or> no_block bm \<noteq> int (unat pfn div 32768)")
  case False
  then have "is_dumpable_file bm f pfn = (is_on (buf bm) (pfn mod PFN_BUFBITMAP), bm)"
    using no_block_word [OF wf pfn] by (simp add: is_dumpable_file_def)
  with False is_on_block [of bm pfn f] wf cl show ?thesis by simp
next
  case True
  let ?k = "unat pfn div 32768" and ?B = BUFSIZE_BITMAP
  have k: "?k < n" using pfn by (intro less_mult_imp_div_less) (simp add: mult.commute)
  let ?b = "take ?B (drop (offset bm + ?B * ?k) (content f)) @ drop ?B (buf bm)"
  let ?bm = "bm\<lparr>buf := ?b, no_block := int ?k\<rparr>"
  have len: "offset bm + ?B * n \<le> length (content f)" and n: "n \<le> 2 ^ 19" using wf by (auto simp: bm_wf_def)
  have fit: "offset bm + ?B * ?k + ?B \<le> length (content f)" using len block_bound [OF k] by linarith
  have onf: "bm_byte bm f j = content f ! (offset bm + j)" for j
    using cl by (auto simp: bm_byte_def bm_clean_def)
  have byte: "bm_byte ?bm f j = bm_byte bm f j" if "j < ?B * n" for j
    using load_block_byte [OF len k, of ?bm "buf bm" j] that by (simp add: onf)
  have "is_dumpable_file bm f pfn = (is_on (buf ?bm) (pfn mod PFN_BUFBITMAP), ?bm)"
  proof -
    have go: "pfn = 0 \<or> of_int (no_block bm) \<noteq> pfn div PFN_BUFBITMAP"
      using True no_block_word [OF wf pfn] by blast
    have nb: "(if pfn = 0 then 0 else to_int (pfn div PFN_BUFBITMAP)) = int ?k"
      using to_int_block [OF pfn n] by simp
    have rd: "fst (read_block f (offset bm + ?B * unat (pfn div PFN_BUFBITMAP)) (buf bm)) = ?b"
      unfolding pfn_block(1) read_block_full [OF fit] by simp
    show ?thesis unfolding is_dumpable_file_def if_P [OF go] Let_def nb rd ..
  qed
  moreover have "is_on (buf ?bm) (pfn mod PFN_BUFBITMAP) = bm_bit ?bm f (unat pfn)"
    by (rule is_on_block) simp
  moreover have "bm_bit ?bm f (unat pfn) = bm_bit bm f (unat pfn)"
    using byte [of "unat pfn div 8"] pfn
    by (simp add: bm_bit_def BUFSIZE_BITMAP_def less_mult_imp_div_less)
  moreover have "bm_clean ?bm f"
    unfolding bm_clean_def
  proof (intro allI impI)
    fix j assume j: "int (j div ?B) = no_block ?bm"
    then have "j < ?B * n" using k div_less_iff_less_mult [of ?B j n]
      by (simp add: BUFSIZE_BITMAP_def mult.commute)
    from byte [OF this] have "bm_byte ?bm f j = content f ! (offset bm + j)" unfolding onf .
    moreover have "bm_byte ?bm f j = buf ?bm ! (j mod ?B)" unfolding bm_byte_def if_P [OF j] ..
    ultimately show "content f ! (offset ?bm + j) = buf ?bm ! (j mod ?B)" by simp
  qed
  moreover have "bm_wf n ?bm f" using wf k fit by (auto simp: bm_wf_def)
  ultimately show ?thesis using byte by (intro exI [of _ ?bm]) simp
qed

section \<open>The two bitmaps of a dump\<close>

text \<open>\<^verbatim>\<open>info->bitmap1\<close>, \<^verbatim>\<open>info->bitmap2\<close> and the temporary file behind them.\<close>

record bitmaps =
  bitmap1 :: dump_bitmap
  bitmap2 :: dump_bitmap
  bmfile :: fstate

definition upd_1st :: "u64 \<Rightarrow> bool \<Rightarrow> cycle option \<Rightarrow> bitmaps \<Rightarrow> (bool \<times> bitmaps) option" where
  "upd_1st pfn val co st = map_option (\<lambda>(r, bm, f). (r, st\<lparr>bitmap1 := bm, bmfile := f\<rparr>))
     (set_bitmap (bitmap1 st) (bmfile st) pfn val co)"

definition upd_2nd :: "u64 \<Rightarrow> bool \<Rightarrow> cycle option \<Rightarrow> bitmaps \<Rightarrow> (bool \<times> bitmaps) option" where
  "upd_2nd pfn val co st = map_option (\<lambda>(r, bm, f). (r, st\<lparr>bitmap2 := bm, bmfile := f\<rparr>))
     (set_bitmap (bitmap2 st) (bmfile st) pfn val co)"

definition set_bit_on_1st_bitmap :: "u64 \<Rightarrow> cycle option \<Rightarrow> bitmaps \<Rightarrow> (bool \<times> bitmaps) option" where
  "set_bit_on_1st_bitmap pfn co st = upd_1st pfn True co st"

definition clear_bit_on_1st_bitmap :: "u64 \<Rightarrow> cycle option \<Rightarrow> bitmaps \<Rightarrow> (bool \<times> bitmaps) option" where
  "clear_bit_on_1st_bitmap pfn co st = upd_1st pfn False co st"

definition set_bit_on_2nd_bitmap :: "u64 \<Rightarrow> cycle option \<Rightarrow> bitmaps \<Rightarrow> (bool \<times> bitmaps) option" where
  "set_bit_on_2nd_bitmap pfn co st = upd_2nd pfn True co st"

definition clear_bit_on_2nd_bitmap :: "u64 \<Rightarrow> cycle option \<Rightarrow> bitmaps \<Rightarrow> (bool \<times> bitmaps) option" where
  "clear_bit_on_2nd_bitmap pfn co st = upd_2nd pfn False co st"

definition sync_1st_bitmap :: "bitmaps \<Rightarrow> bool \<times> bitmaps" where
  "sync_1st_bitmap st = (let (r, f) = sync_bitmap (bitmap1 st) (bmfile st) in (r, st\<lparr>bmfile := f\<rparr>))"

definition sync_2nd_bitmap :: "bitmaps \<Rightarrow> bool \<times> bitmaps" where
  "sync_2nd_bitmap st = (let (r, f) = sync_bitmap (bitmap2 st) (bmfile st) in (r, st\<lparr>bmfile := f\<rparr>))"

text \<open>
  What either kind of bitmap stands for, and when the frames \<open>D\<close> can be represented: by a file
  of \<open>n\<close> blocks or by a buffer that covers the cycle.
\<close>

definition pbit :: "cycle option \<Rightarrow> dump_bitmap \<Rightarrow> fstate \<Rightarrow> nat \<Rightarrow> bool" where
  "pbit co bm f i = (if 0 \<le> fd bm then bm_bit bm f i
     else case co of None \<Rightarrow> False | Some c \<Rightarrow> nbit (buf bm) (i - unat (start_pfn c)))"

definition bm_ok :: "nat set \<Rightarrow> nat \<Rightarrow> cycle option \<Rightarrow> dump_bitmap \<Rightarrow> fstate \<Rightarrow> bool" where
  "bm_ok D n co bm f \<longleftrightarrow>
     (if 0 \<le> fd bm then bm_wf n bm f \<and> D \<subseteq> {..<32768 * n}
      else case co of None \<Rightarrow> False
        | Some c \<Rightarrow> D \<subseteq> {unat (start_pfn c)..<unat (end_pfn c)} \<and>
            unat (end_pfn c) - unat (start_pfn c) \<le> 8 * length (buf bm) \<and> length (buf bm) < 2 ^ 31)"

definition bms_ok :: "nat set \<Rightarrow> nat \<Rightarrow> cycle option \<Rightarrow> bitmaps \<Rightarrow> bool" where
  "bms_ok D n co st \<longleftrightarrow> bm_ok D n co (bitmap1 st) (bmfile st) \<and> bm_ok D n co (bitmap2 st) (bmfile st) \<and>
     (0 \<le> fd (bitmap1 st) \<longrightarrow> 0 \<le> fd (bitmap2 st) \<longrightarrow>
        offset (bitmap1 st) + BUFSIZE_BITMAP * n \<le> offset (bitmap2 st))"

definition bit1 :: "cycle option \<Rightarrow> bitmaps \<Rightarrow> nat \<Rightarrow> bool" where
  "bit1 co st = pbit co (bitmap1 st) (bmfile st)"

definition bit2 :: "cycle option \<Rightarrow> bitmaps \<Rightarrow> nat \<Rightarrow> bool" where
  "bit2 co st = pbit co (bitmap2 st) (bmfile st)"

lemma set_bitmap_buffer_correct:
  assumes ok: "bm_ok D n (Some c) bm f" and buf: "fd bm < 0" and pfn: "unat pfn \<in> D"
  shows "\<exists>bm'. set_bitmap_buffer bm pfn val (Some c) = Some (True, bm') \<and> bm_ok D n (Some c) bm' f \<and>
     fd bm' = fd bm \<and> offset bm' = offset bm \<and>
     (\<forall>i\<in>D. pbit (Some c) bm' f i = (if i = unat pfn then val else pbit (Some c) bm f i))"
proof -
  let ?s = "unat (start_pfn c)" and ?j = "unat pfn - unat (start_pfn c)"
  have r: "?s \<le> unat pfn" "unat pfn < unat (end_pfn c)" and D: "D \<subseteq> {?s..<unat (end_pfn c)}"
    and len: "unat (end_pfn c) - ?s \<le> 8 * length (buf bm)" "length (buf bm) < 2 ^ 31"
    using ok buf pfn by (auto simp: bm_ok_def)
  have reg: "is_cyclic_region pfn (Some c)" using r by (simp add: is_cyclic_region_def word_less_nat_alt not_le)
  have d: "unat (pfn - start_pfn c) = ?j" using r by (simp add: unat_minus64 word_le_nat_alt)
  have k: "?j div 8 < length (buf bm)" using r len by (intro less_mult_imp_div_less) linarith
  have b: "to_int (drop_bit 3 (pfn - start_pfn c)) = int (?j div 8)"
    using to_int_small [of "drop_bit 3 (pfn - start_pfn c)"] k len(2) by (simp add: unat_drop3 d)
  from put_bit_Some [OF k, of "?j mod 8" val] obtain b' where
    b': "put_bit (buf bm) (int (?j div 8)) (?j mod 8) val = Some b'" "length b' = length (buf bm)"
      "\<And>i. nbit b' i = (if i = 8 * (?j div 8) + ?j mod 8 then val else nbit (buf bm) i)" by auto
  have "set_bitmap_buffer bm pfn val (Some c) = Some (True, bm\<lparr>buf := b'\<rparr>)"
    using b'(1) reg by (simp add: set_bitmap_buffer_def Let_def b unat_and7 d del: drop_bit_numeral_minus_bit1)
  moreover have "i - ?s = ?j \<longleftrightarrow> i = unat pfn" if "i \<in> D" for i
  proof -
    have "?s \<le> i" using that D by auto
    with r show ?thesis by auto
  qed
  ultimately show ?thesis using b' ok buf by (auto simp: bm_ok_def pbit_def)
qed

lemma set_bitmap_correct:
  assumes ok: "bm_ok D n co bm f" and pfn: "unat pfn \<in> D"
  shows "\<exists>bm' f'. set_bitmap bm f pfn val co = Some (True, bm', f') \<and> bm_ok D n co bm' f' \<and>
     (0 \<le> fd bm') = (0 \<le> fd bm) \<and> offset bm' = offset bm \<and> length (content f') = length (content f) \<and> capacity f' = capacity f \<and>
     (fd bm < 0 \<longrightarrow> f' = f) \<and>
     (\<forall>i\<in>D. pbit co bm' f' i = (if i = unat pfn then val else pbit co bm f i)) \<and>
     (\<forall>j < length (content f). j < offset bm \<or> offset bm + BUFSIZE_BITMAP * n \<le> j \<longrightarrow>
        content f' ! j = content f ! j)"
proof (cases "0 \<le> fd bm")
  case True
  then have wf: "bm_wf n bm f" and D: "D \<subseteq> {..<32768 * n}" using ok by (auto simp: bm_ok_def)
  with pfn have "unat pfn < 32768 * n" by auto
  from set_bitmap_file_correct [OF wf this, of val] obtain bm' f' where
    r: "set_bitmap_file bm f pfn val = Some (True, bm', f')" "bm_wf n bm' f'"
     "offset bm' = offset bm" "length (content f') = length (content f)" "capacity f' = capacity f"
     "\<forall>i < 32768 * n. bm_bit bm' f' i = (if i = unat pfn then val else bm_bit bm f i)"
     "\<forall>j < length (content f). j < offset bm \<or> offset bm + BUFSIZE_BITMAP * n \<le> j \<longrightarrow>
        content f' ! j = content f ! j" by blast
  have "0 \<le> fd bm'" using r(2) by (simp add: bm_wf_def)
  then show ?thesis using True r D by (auto simp: set_bitmap_def bm_ok_def pbit_def)
next
  case False
  then obtain c where c: "co = Some c" using ok by (auto simp: bm_ok_def split: option.splits)
  from set_bitmap_buffer_correct [OF ok [unfolded c] _ pfn, of val] False
  show ?thesis unfolding c by (auto simp: set_bitmap_def)
qed

section \<open>Stores of bits\<close>

text \<open>A sequence of updates, up to the first one that fails.\<close>

fun put_all :: "(u64 \<Rightarrow> bool \<Rightarrow> 's \<Rightarrow> (bool \<times> 's) option) \<Rightarrow> (u64 \<times> bool) list \<Rightarrow> 's \<Rightarrow> (bool \<times> 's) option" where
  "put_all put [] s = Some (True, s)"
| "put_all put ((p, v) # us) s = (case put p v s of None \<Rightarrow> None
     | Some (True, s') \<Rightarrow> put_all put us s' | Some (False, s') \<Rightarrow> Some (False, s'))"

text \<open>
  What the clients of a bitmap rely on: over a set \<open>D\<close> of frames an update succeeds, changes
  that one bit and leaves everything \<open>other\<close> observes alone.
\<close>

locale bit_store =
  fixes ok :: "'s \<Rightarrow> bool" and bits :: "'s \<Rightarrow> nat \<Rightarrow> bool" and D :: "nat set"
    and put :: "u64 \<Rightarrow> bool \<Rightarrow> 's \<Rightarrow> (bool \<times> 's) option" and other :: "'s \<Rightarrow> 'o"
  assumes put_ok: "ok s \<Longrightarrow> unat p \<in> D \<Longrightarrow> \<exists>s'. put p v s = Some (True, s') \<and> ok s' \<and>
      (\<forall>i\<in>D. bits s' i = (if i = unat p then v else bits s i)) \<and> other s' = other s"
begin

text \<open>A loop over consecutive frames sets exactly their bits.\<close>

lemma put_range:
  assumes "ok s" and "p \<le> e" and "{unat p..<unat e} \<subseteq> D"
  shows "\<exists>s'. for_pfns p e (\<lambda>q. put q v) s = Some (True, s') \<and> ok s' \<and> other s' = other s \<and>
     (\<forall>i\<in>D. bits s' i = (if unat p \<le> i \<and> i < unat e then v else bits s i))"
proof -
  let ?I = "\<lambda>k t. ok t \<and> other t = other s \<and>
      (\<forall>i\<in>D. bits t i = (if unat p \<le> i \<and> i < k then v else bits s i))"
  have "\<exists>s'. for_pfns p e (\<lambda>q. put q v) s = Some (True, s') \<and> ?I (unat e) s'"
  proof (rule for_pfns_inv [OF assms(2), of ?I])
    show "?I (unat p) s" using assms(1) by auto
    fix q t assume q: "p \<le> q" "q < e" and I: "?I (unat q) t"
    then have "unat q \<in> D" using assms(3) by (auto simp: word_le_nat_alt word_less_nat_alt)
    with put_ok [of t q v] I obtain t' where t': "put q v t = Some (True, t')" "ok t'"
      "\<forall>i\<in>D. bits t' i = (if i = unat q then v else bits t i)" "other t' = other t" by blast
    then have "?I (Suc (unat q)) t'" using I q(1) by (auto simp: word_le_nat_alt less_Suc_eq)
    with t'(1) show "\<exists>s'. put q v t = Some (True, s') \<and> ?I (Suc (unat q)) s'" by blast
  qed
  then show ?thesis by blast
qed

text \<open>After any sequence of updates a bit has the value written last.\<close>

lemma put_seq:
  assumes "ok s" and "\<forall>(p, v)\<in>set us. unat p \<in> D"
  shows "\<exists>s'. put_all put us s = Some (True, s') \<and> ok s' \<and> other s' = other s \<and>
     (\<forall>q. unat q \<in> D \<longrightarrow> bits s' (unat q) =
        (case map_of (rev us) q of Some v \<Rightarrow> v | None \<Rightarrow> bits s (unat q)))"
  using assms
proof (induction us arbitrary: s)
  case Nil
  then show ?case by simp
next
  case (Cons u us)
  obtain p v where u: "u = (p, v)" by (cases u)
  from put_ok [OF Cons.prems(1), of p v] Cons.prems(2) u obtain t where
    t: "put p v s = Some (True, t)" "ok t" "other t = other s"
      "\<forall>i\<in>D. bits t i = (if i = unat p then v else bits s i)" by auto
  from Cons.IH [OF t(2)] Cons.prems(2) obtain s' where
    s': "put_all put us t = Some (True, s')" "ok s'" "other s' = other t"
      "\<forall>q. unat q \<in> D \<longrightarrow> bits s' (unat q) =
        (case map_of (rev us) q of Some v \<Rightarrow> v | None \<Rightarrow> bits t (unat q))" by auto
  have "bits s' (unat q) = (case map_of (rev (u # us)) q of Some v \<Rightarrow> v | None \<Rightarrow> bits s (unat q))"
    if "unat q \<in> D" for q
    using s'(4) t(4) that word_unat_eq_iff [of q p] by (auto simp: u map_add_def split: option.splits)
  with s' t u show ?case by auto
qed

end

lemma pbit_frame:
  assumes "bm_ok D n co bm f" "length (content f') = length (content f)" "capacity f' = capacity f"
    and "0 \<le> fd bm \<longrightarrow> (\<forall>k < BUFSIZE_BITMAP * n. content f' ! (offset bm + k) = content f ! (offset bm + k))"
  shows "bm_ok D n co bm f' \<and> (\<forall>i\<in>D. pbit co bm f' i = pbit co bm f i)"
proof -
  have ok: "bm_ok D n co bm f'" using assms(1,2,3) by (auto simp: bm_ok_def bm_wf_def)
  have "pbit co bm f' i = pbit co bm f i" if i: "i \<in> D" for i
  proof (cases "0 \<le> fd bm")
    case True
    then have "i < 32768 * n" using assms(1) i by (auto simp: bm_ok_def)
    then have "i div 8 < BUFSIZE_BITMAP * n" by (simp add: BUFSIZE_BITMAP_def less_mult_imp_div_less)
    then show ?thesis using assms(4) True by (simp add: pbit_def bm_bit_def bm_byte_def)
  qed (simp add: pbit_def)
  with ok show ?thesis by blast
qed

interpretation first_map: bit_store "bms_ok D n co" "bit1 co" D "\<lambda>p v. upd_1st p v co"
  "\<lambda>s. {i\<in>D. bit2 co s i}" for D n co
proof unfold_locales
  fix s v and p :: u64 assume ok: "bms_ok D n co s" and p: "unat p \<in> D"
  let ?b1 = "bitmap1 s" and ?b2 = "bitmap2 s" and ?f = "bmfile s"
  from ok have o1: "bm_ok D n co ?b1 ?f" and o2: "bm_ok D n co ?b2 ?f" by (simp_all add: bms_ok_def)
  from set_bitmap_correct [OF o1 p, of v] obtain bm' f' where
    r: "set_bitmap ?b1 ?f p v co = Some (True, bm', f')" "bm_ok D n co bm' f'"
      "(0 \<le> fd bm') = (0 \<le> fd ?b1)" "offset bm' = offset ?b1" "length (content f') = length (content ?f)" "capacity f' = capacity ?f"
      "fd ?b1 < 0 \<longrightarrow> f' = ?f"
      "\<forall>i\<in>D. pbit co bm' f' i = (if i = unat p then v else pbit co ?b1 ?f i)"
      "\<forall>j < length (content ?f). j < offset ?b1 \<or> offset ?b1 + BUFSIZE_BITMAP * n \<le> j \<longrightarrow>
        content f' ! j = content ?f ! j" by blast
  have "0 \<le> fd ?b2 \<longrightarrow> (\<forall>k < BUFSIZE_BITMAP * n. content f' ! (offset ?b2 + k) = content ?f ! (offset ?b2 + k))"
  proof (cases "0 \<le> fd ?b1")
    case True
    then show ?thesis using ok r(9) o2 by (auto simp: bms_ok_def bm_ok_def bm_wf_def)
  qed (use r(7) in simp)
  from pbit_frame [OF o2 r(5,6) this] r ok
  show "\<exists>s'. upd_1st p v co s = Some (True, s') \<and> bms_ok D n co s' \<and>
      (\<forall>i\<in>D. bit1 co s' i = (if i = unat p then v else bit1 co s i)) \<and>
      {i\<in>D. bit2 co s' i} = {i\<in>D. bit2 co s i}"
    by (intro exI [of _ "s\<lparr>bitmap1 := bm', bmfile := f'\<rparr>"])
      (auto simp: upd_1st_def bms_ok_def bit1_def bit2_def)
qed

interpretation second_map: bit_store "bms_ok D n co" "bit2 co" D "\<lambda>p v. upd_2nd p v co"
  "\<lambda>s. {i\<in>D. bit1 co s i}" for D n co
proof unfold_locales
  fix s v and p :: u64 assume ok: "bms_ok D n co s" and p: "unat p \<in> D"
  let ?b1 = "bitmap1 s" and ?b2 = "bitmap2 s" and ?f = "bmfile s"
  from ok have o1: "bm_ok D n co ?b1 ?f" and o2: "bm_ok D n co ?b2 ?f" by (simp_all add: bms_ok_def)
  from set_bitmap_correct [OF o2 p, of v] obtain bm' f' where
    r: "set_bitmap ?b2 ?f p v co = Some (True, bm', f')" "bm_ok D n co bm' f'"
      "(0 \<le> fd bm') = (0 \<le> fd ?b2)" "offset bm' = offset ?b2" "length (content f') = length (content ?f)" "capacity f' = capacity ?f"
      "fd ?b2 < 0 \<longrightarrow> f' = ?f"
      "\<forall>i\<in>D. pbit co bm' f' i = (if i = unat p then v else pbit co ?b2 ?f i)"
      "\<forall>j < length (content ?f). j < offset ?b2 \<or> offset ?b2 + BUFSIZE_BITMAP * n \<le> j \<longrightarrow>
        content f' ! j = content ?f ! j" by blast
  have "0 \<le> fd ?b1 \<longrightarrow> (\<forall>k < BUFSIZE_BITMAP * n. content f' ! (offset ?b1 + k) = content ?f ! (offset ?b1 + k))"
  proof (cases "0 \<le> fd ?b2")
    case True
    then show ?thesis using ok r(9) o1 by (auto simp: bms_ok_def bm_ok_def bm_wf_def)
  qed (use r(7) in simp)
  from pbit_frame [OF o1 r(5,6) this] r ok
  show "\<exists>s'. upd_2nd p v co s = Some (True, s') \<and> bms_ok D n co s' \<and>
      (\<forall>i\<in>D. bit2 co s' i = (if i = unat p then v else bit2 co s i)) \<and>
      {i\<in>D. bit1 co s' i} = {i\<in>D. bit1 co s i}"
    by (intro exI [of _ "s\<lparr>bitmap2 := bm', bmfile := f'\<rparr>"])
      (auto simp: upd_2nd_def bms_ok_def bit1_def bit2_def)
qed

section \<open>Queries and whole sequences\<close>

lemma byte_bound: "i < 32768 * n \<Longrightarrow> i div 8 < BUFSIZE_BITMAP * n"
  by (simp add: BUFSIZE_BITMAP_def less_mult_imp_div_less)

lemma sync_bitmap_ok:
  assumes ok: "bm_ok D n co bm f"
  shows "\<exists>f'. sync_bitmap bm f = (True, f') \<and> bm_ok D n co bm f' \<and> (0 \<le> fd bm \<longrightarrow> bm_clean bm f') \<and>
     length (content f') = length (content f) \<and> capacity f' = capacity f \<and> (fd bm < 0 \<longrightarrow> f' = f) \<and>
     (\<forall>i\<in>D. pbit co bm f' i = pbit co bm f i) \<and>
     (\<forall>j < length (content f). j < offset bm \<or> offset bm + BUFSIZE_BITMAP * n \<le> j \<longrightarrow>
        content f' ! j = content f ! j)"
proof (cases "0 \<le> fd bm")
  case True
  then have wf: "bm_wf n bm f" and D: "D \<subseteq> {..<32768 * n}" using ok by (auto simp: bm_ok_def)
  from sync_bitmap_correct [OF wf] obtain f' where
    f': "sync_bitmap bm f = (True, f')" "bm_wf n bm f'" "bm_clean bm f'"
      "length (content f') = length (content f)" "capacity f' = capacity f"
      "\<forall>k < BUFSIZE_BITMAP * n. bm_byte bm f' k = bm_byte bm f k"
      "\<forall>j < length (content f). j < offset bm \<or> offset bm + BUFSIZE_BITMAP * n \<le> j \<longrightarrow>
        content f' ! j = content f ! j" by blast
  have "pbit co bm f' i = pbit co bm f i" if "i \<in> D" for i
    using f'(6) True byte_bound [of i n] D that by (auto simp: pbit_def bm_bit_def)
  with f' True D show ?thesis by (auto simp: bm_ok_def)
next
  case False
  with ok show ?thesis by (auto simp: sync_bitmap_def Let_def)
qed

lemma is_dumpable_ok:
  assumes ok: "bm_ok D n co bm f" and cl: "0 \<le> fd bm \<longrightarrow> bm_clean bm f" and pfn: "unat pfn \<in> D"
  shows "fst (is_dumpable bm f pfn co) = pbit co bm f (unat pfn)"
proof (cases "0 \<le> fd bm")
  case True
  then have "bm_wf n bm f" "unat pfn < 32768 * n" using ok pfn by (auto simp: bm_ok_def)
  from is_dumpable_file_correct [OF this(1) _ this(2)] cl True
  show ?thesis by (auto simp: is_dumpable_def pbit_def)
next
  case False
  then obtain c where c: "co = Some c" and D: "D \<subseteq> {unat (start_pfn c)..<unat (end_pfn c)}"
    using ok by (auto simp: bm_ok_def split: option.splits)
  then have "start_pfn c \<le> pfn" "pfn < end_pfn c" using pfn by (auto simp: word_le_nat_alt word_less_nat_alt)
  with False c show ?thesis
    by (auto simp: is_dumpable_def is_dumpable_buffer_def is_cyclic_region_def pbit_def is_on_nbit unat_minus64)
qed

text \<open>
  C5. Writing the second bitmap and reading it back: after any sequence of set and clear
  operations on frames of the bitmap and a \<^verbatim>\<open>sync_2nd_bitmap\<close>, \<^verbatim>\<open>is_dumpable\<close> answers for
  every frame with the value written last, or with the old value of a frame that was not
  written, and no bit of the first bitmap changes although both may share the temporary file.
  This holds for bitmaps in memory as for bitmaps in a file.
\<close>

theorem bitmap_updates_roundtrip:
  assumes "bms_ok D n co st" and "\<forall>(p, v)\<in>set us. unat p \<in> D"
  shows "\<exists>st1 st2.
     put_all (\<lambda>p v. if v then set_bit_on_2nd_bitmap p co else clear_bit_on_2nd_bitmap p co) us st
       = Some (True, st1) \<and>
     sync_2nd_bitmap st1 = (True, st2) \<and>
     (\<forall>q. unat q \<in> D \<longrightarrow> fst (is_dumpable (bitmap2 st2) (bmfile st2) q co) =
        (case map_of (rev us) q of Some v \<Rightarrow> v | None \<Rightarrow> bit2 co st (unat q))) \<and>
     {i\<in>D. bit1 co st2 i} = {i\<in>D. bit1 co st i}"
proof -
  have "(\<lambda>p v. if v then set_bit_on_2nd_bitmap p co else clear_bit_on_2nd_bitmap p co) =
      (\<lambda>p v. upd_2nd p v co)"
    by (auto simp: fun_eq_iff set_bit_on_2nd_bitmap_def clear_bit_on_2nd_bitmap_def)
  with second_map.put_seq [OF assms] obtain st1 where
    s1: "put_all (\<lambda>p v. if v then set_bit_on_2nd_bitmap p co else clear_bit_on_2nd_bitmap p co) us st
        = Some (True, st1)" "bms_ok D n co st1" "{i\<in>D. bit1 co st1 i} = {i\<in>D. bit1 co st i}"
      "\<forall>q. unat q \<in> D \<longrightarrow> bit2 co st1 (unat q) =
        (case map_of (rev us) q of Some v \<Rightarrow> v | None \<Rightarrow> bit2 co st (unat q))" by auto
  then have o1: "bm_ok D n co (bitmap1 st1) (bmfile st1)" and o2: "bm_ok D n co (bitmap2 st1) (bmfile st1)"
    by (simp_all add: bms_ok_def)
  from sync_bitmap_ok [OF o2] obtain f' where
    f': "sync_bitmap (bitmap2 st1) (bmfile st1) = (True, f')" "bm_ok D n co (bitmap2 st1) f'"
      "0 \<le> fd (bitmap2 st1) \<longrightarrow> bm_clean (bitmap2 st1) f'"
      "length (content f') = length (content (bmfile st1))" "capacity f' = capacity (bmfile st1)"
      "fd (bitmap2 st1) < 0 \<longrightarrow> f' = bmfile st1"
      "\<forall>i\<in>D. pbit co (bitmap2 st1) f' i = pbit co (bitmap2 st1) (bmfile st1) i"
      "\<forall>j < length (content (bmfile st1)). j < offset (bitmap2 st1) \<or>
        offset (bitmap2 st1) + BUFSIZE_BITMAP * n \<le> j \<longrightarrow> content f' ! j = content (bmfile st1) ! j" by blast
  have "0 \<le> fd (bitmap1 st1) \<longrightarrow> (\<forall>k < BUFSIZE_BITMAP * n.
      content f' ! (offset (bitmap1 st1) + k) = content (bmfile st1) ! (offset (bitmap1 st1) + k))"
    using s1(2) f'(6,8) o1 by (cases "0 \<le> fd (bitmap2 st1)") (auto simp: bms_ok_def bm_ok_def bm_wf_def)
  from pbit_frame [OF o1 f'(4,5) this] is_dumpable_ok [OF f'(2,3)] f'(1,7) s1
  show ?thesis
    by (intro exI [of _ st1] exI [of _ "st1\<lparr>bmfile := f'\<rparr>"])
      (auto simp: sync_2nd_bitmap_def bit1_def bit2_def)
qed

text \<open>Two one-block bitmaps in one file of 8192 zero bytes.\<close>

definition two_maps :: bitmaps where
  "two_maps = \<lparr>
     bitmap1 = \<lparr>fd = 3, no_block = -1, buf = replicate 4096 0, offset = 0\<rparr>,
     bitmap2 = \<lparr>fd = 3, no_block = -1, buf = replicate 4096 0, offset = 4096\<rparr>,
     bmfile = \<lparr>content = replicate 8192 0, capacity = 8192\<rparr>\<rparr>"

theorem bitmap_updates_roundtrip_witness:
  "\<exists>st1 st2.
     put_all (\<lambda>p v. if v then set_bit_on_2nd_bitmap p None else clear_bit_on_2nd_bitmap p None)
       [(17, True), (40, True), (17, False)] two_maps = Some (True, st1) \<and>
     sync_2nd_bitmap st1 = (True, st2) \<and>
     fst (is_dumpable (bitmap2 st2) (bmfile st2) 40 None) \<and>
     \<not> fst (is_dumpable (bitmap2 st2) (bmfile st2) 17 None)"
proof -
  have ok: "bms_ok {..<32768} 1 None two_maps"
    by (simp add: two_maps_def bms_ok_def bm_ok_def bm_wf_def BUFSIZE_BITMAP_def)
  show ?thesis
    using bitmap_updates_roundtrip [OF ok, of "[(17, True), (40, True), (17, False)]"]
    by (fastforce dest: spec [of _ "40 :: u64"] spec [of _ "17 :: u64"])
qed

text \<open>
  Where the bitmap code stops working: once block 524288 of a file-backed bitmap is in the
  buffer (frames from \<open>2 ^ 34\<close> on, 64 TiB of 4 KiB pages), the 32-bit product in
  \<^verbatim>\<open>sync_bitmap\<close> is negative, the seek is refused and the block cannot be written back.
\<close>

theorem sync_bitmap_overflow:
  assumes "0 \<le> fd bm" and "no_block bm = 2 ^ 19" and "offset bm < 2 ^ 31"
  shows "sync_bitmap bm f = (False, f)"
proof -
  have "mul_int (int BUFSIZE_BITMAP) (2 ^ 19) = - (2 ^ 31)" by (simp add: mul_int_def BUFSIZE_BITMAP_def)
  with assms show ?thesis by (simp add: sync_bitmap_def Let_def)
qed

theorem sync_bitmap_overflow_witness:
  "sync_bitmap \<lparr>fd = 3, no_block = 524288, buf = [], offset = 4096\<rparr> \<lparr>content = [], capacity = 0\<rparr>
     = (False, \<lparr>content = [], capacity = 0\<rparr>)"
  using sync_bitmap_overflow [of "\<lparr>fd = 3, no_block = 524288, buf = [], offset = 4096\<rparr>"] by simp

end
