(* ===== verification/Bytes.thy ===== *)
theory Bytes
  imports Prelude
begin

text \<open>
  Structures in files and in memory images as bytes: little-endian and big-endian fields of a
  byte list, C strings, and \<^verbatim>\<open>strncmp\<close>. Structures the program reads with one \<^verbatim>\<open>read\<close> or \<^verbatim>\<open>readmem\<close>
  have the layout of a little-endian 64-bit host.
\<close>

section \<open>Integers as bytes\<close>

fun le_nat :: "u8 list \<Rightarrow> nat" where
  "le_nat [] = 0"
| "le_nat (b # bs) = unat b + 256 * le_nat bs"

fun le_bytes :: "nat \<Rightarrow> nat \<Rightarrow> u8 list" where
  "le_bytes 0 n = []"
| "le_bytes (Suc k) n = of_nat (n mod 256) # le_bytes k (n div 256)"

definition be_nat :: "u8 list \<Rightarrow> nat" where
  "be_nat bs = le_nat (rev bs)"

definition be_bytes :: "nat \<Rightarrow> nat \<Rightarrow> u8 list" where
  "be_bytes k n = rev (le_bytes k n)"

lemma length_le_bytes [simp]: "length (le_bytes k n) = k"
  by (induction k arbitrary: n) simp_all

lemma length_be_bytes [simp]: "length (be_bytes k n) = k"
  by (simp add: be_bytes_def)

lemma unat_byte: "n < 256 \<Longrightarrow> unat (of_nat n :: u8) = n"
  by (rule of_nat_inverse [OF refl]) simp

lemma le_nat_le_bytes: "le_nat (le_bytes k n) = n mod 256 ^ k"
proof (induction k arbitrary: n)
  case (Suc k)
  have "le_nat (le_bytes (Suc k) n) = n mod 256 + 256 * (n div 256 mod 256 ^ k)"
    by (simp add: Suc unat_byte)
  also have "\<dots> = n mod (256 * 256 ^ k)" using mod_mult2_eq [of n 256 "256 ^ k"] by simp
  finally show ?case by simp
qed simp

lemma le_bytes_inverse [simp]: "n < 256 ^ k \<Longrightarrow> le_nat (le_bytes k n) = n"
  by (simp add: le_nat_le_bytes)

lemma be_bytes_inverse [simp]: "n < 256 ^ k \<Longrightarrow> be_nat (be_bytes k n) = n"
  by (simp add: be_nat_def be_bytes_def)

lemma le_nat_less: "le_nat bs < 256 ^ length bs"
proof (induction bs)
  case (Cons b bs)
  have "unat b < 256" using unsigned_less [of b] by simp
  with Cons show ?case by simp
qed simp

lemma le_nat_append: "le_nat (xs @ ys) = le_nat xs + 256 ^ length xs * le_nat ys"
  by (induction xs) (simp_all add: algebra_simps)

text \<open>A field of \<open>k\<close> bytes at offset \<open>off\<close>.\<close>

definition get_le :: "nat \<Rightarrow> u8 list \<Rightarrow> nat \<Rightarrow> nat" where
  "get_le k bs off = le_nat (take k (drop off bs))"

definition get16 :: "u8 list \<Rightarrow> nat \<Rightarrow> u16" where "get16 bs off = of_nat (get_le 2 bs off)"
definition get32 :: "u8 list \<Rightarrow> nat \<Rightarrow> u32" where "get32 bs off = of_nat (get_le 4 bs off)"
definition get64 :: "u8 list \<Rightarrow> nat \<Rightarrow> u64" where "get64 bs off = of_nat (get_le 8 bs off)"

lemma get_le_here: "length pre = off \<Longrightarrow> length mid = k \<Longrightarrow> get_le k (pre @ mid @ post) off = le_nat mid"
  by (simp add: get_le_def)

section \<open>C strings\<close>

definition cstr :: "string \<Rightarrow> u8 list" where
  "cstr s = map of_char s @ [0]"

text \<open>\<^verbatim>\<open>!strncmp(a, b, n)\<close>.\<close>

fun strneq :: "nat \<Rightarrow> u8 list \<Rightarrow> u8 list \<Rightarrow> bool" where
  "strneq 0 as bs = True"
| "strneq (Suc n) (a # as) (b # bs) = (a = b \<and> (a = 0 \<or> strneq n as bs))"
| "strneq (Suc n) as bs = False"

lemma strneq_terminated:
  assumes "0 \<notin> set k" "0 \<notin> set s"
  shows "strneq (Suc (length k)) (k @ [0]) (s @ 0 # rest) = (k = s)"
  using assms
proof (induction k arbitrary: s)
  case Nil
  then show ?case by (cases s) auto
next
  case (Cons a k)
  then show ?case by (cases s) auto
qed

text \<open>The string in a buffer, up to its terminator.\<close>

definition c_take :: "u8 list \<Rightarrow> u8 list" where
  "c_take bs = takeWhile (\<lambda>b. b \<noteq> 0) bs"

text \<open>The decimal digits of a number as \<^verbatim>\<open>printf\<close> writes them, and padding to a width.\<close>

fun decimal_digits :: "nat \<Rightarrow> u8 list" where
  "decimal_digits n = (if n < 10 then [of_nat (48 + n)] else decimal_digits (n div 10) @ [of_nat (48 + n mod 10)])"

declare decimal_digits.simps [simp del]

definition pad_left :: "u8 \<Rightarrow> nat \<Rightarrow> u8 list \<Rightarrow> u8 list" where
  "pad_left c n s = replicate (n - length s) c @ s"

lemma length_decimal_digits: "0 < k \<Longrightarrow> n < 10 ^ k \<Longrightarrow> length (decimal_digits n) \<le> k"
proof (induction k arbitrary: n)
  case (Suc k)
  show ?case
  proof (cases "n < 10")
    case False
    with Suc.prems have "0 < k" by (cases k) auto
    moreover have "n div 10 < 10 ^ k" using Suc.prems by auto
    ultimately show ?thesis using Suc.IH [of "n div 10"] False by (simp add: decimal_digits.simps [of n])
  qed (simp add: decimal_digits.simps)
qed simp

lemma length_pad_left [simp]: "length (pad_left c n s) = max n (length s)"
  by (simp add: pad_left_def)

end
