(* ===== verification/Elf_Info.thy ===== *)
theory Elf_Info
  imports File_IO Bytes
begin

text \<open>
  \<^verbatim>\<open>src/elf_info.c\<close>: the ELF headers of the input file, its PT_LOAD segments with the address
  translations over them, and the PT_NOTE segment. \<^verbatim>\<open>off_t\<close> and \<^verbatim>\<open>unsigned long long\<close> are 64-bit
  words; where C compares two \<^verbatim>\<open>off_t\<close> the comparison is on \<^verbatim>\<open>sint\<close>.
\<close>

section \<open>Data\<close>

record pt_load_segment =
  file_offset :: u64
  file_size :: u64
  phys_start :: u64
  phys_end :: u64
  virt_start :: u64
  virt_end :: u64

text \<open>The static variables of the file; \<open>pt_loads\<close> has \<^verbatim>\<open>num_pt_loads\<close> elements.\<close>

record elf_state =
  nr_cpus :: int
  max_file_offset :: u64
  memory_elf64 :: bool
  memory_xen :: bool
  pt_loads :: "pt_load_segment list"
  offset_pt_note_memory :: u64
  size_pt_note_memory :: u64
  offset_vmcoreinfo :: u64
  size_vmcoreinfo :: u64
  offset_vmcoreinfo_xen :: u64
  size_vmcoreinfo_xen :: u64
  offset_eraseinfo :: u64
  size_eraseinfo :: u64
  offset_xen_crash_info :: u64
  size_xen_crash_info :: u64

text \<open>The ELF structures of \<^verbatim>\<open>elf.h\<close>.\<close>

record Elf_Phdr =
  p_type :: u32
  p_flags :: u32
  p_offset :: u64
  p_vaddr :: u64
  p_paddr :: u64
  p_filesz :: u64
  p_memsz :: u64
  p_align :: u64

datatype elf_class = ELF32 | ELF64

definition PT_LOAD :: u32 where "PT_LOAD = 1"
definition PT_NOTE :: u32 where "PT_NOTE = 4"
definition NOT_PADDR :: u64 where "NOT_PADDR = -1"

section \<open>Headers\<close>

definition get_elf64_phdr :: "fstate \<Rightarrow> nat \<Rightarrow> Elf_Phdr option" where
  "get_elf64_phdr f index = map_option (\<lambda>b.
     \<lparr>p_type = get32 b 0, p_flags = get32 b 4, p_offset = get64 b 8, p_vaddr = get64 b 16,
      p_paddr = get64 b 24, p_filesz = get64 b 32, p_memsz = get64 b 40, p_align = get64 b 48\<rparr>)
     (pread f (64 + 56 * index) 56)"

text \<open>The 32-bit header, widened as \<^verbatim>\<open>get_phdr_memory\<close> does.\<close>

definition get_elf32_phdr :: "fstate \<Rightarrow> nat \<Rightarrow> Elf_Phdr option" where
  "get_elf32_phdr f index = map_option (\<lambda>b.
     \<lparr>p_type = get32 b 0, p_flags = get32 b 24, p_offset = ucast (get32 b 4), p_vaddr = ucast (get32 b 8),
      p_paddr = ucast (get32 b 12), p_filesz = ucast (get32 b 16), p_memsz = ucast (get32 b 20),
      p_align = ucast (get32 b 28)\<rparr>)
     (pread f (52 + 32 * index) 32)"

definition get_elf64_ehdr :: "fstate \<Rightarrow> u8 list option" where
  "get_elf64_ehdr f = (case pread f 0 64 of None \<Rightarrow> None
     | Some eh \<Rightarrow> if eh ! 4 \<noteq> 2 then None else Some eh)"

definition get_elf32_ehdr :: "fstate \<Rightarrow> u8 list option" where
  "get_elf32_ehdr f = (case pread f 0 52 of None \<Rightarrow> None
     | Some eh \<Rightarrow> if eh ! 4 \<noteq> 1 then None else Some eh)"

text \<open>
  \<^verbatim>\<open>get_elf64_phnum\<close>: with \<^verbatim>\<open>PN_XNUM\<close> the number is in the first section header, of which
  \<^verbatim>\<open>e_shentsize\<close> bytes are read. A size above 64 would write past the variable and one below 48
  would leave \<^verbatim>\<open>sh_info\<close> unset; the model counts both as failures. The number is an \<^verbatim>\<open>int\<close>.
\<close>

definition get_elf64_phnum :: "fstate \<Rightarrow> u8 list \<Rightarrow> int option" where
  "get_elf64_phnum f eh =
     (let e_phnum = get16 eh 56; e_shoff = get64 eh 40; e_shentsize = unat (get16 eh 58)
      in if e_phnum = 0xffff
         then if unat e_shoff \<ge> 2 ^ 63 then None
              else case pread f (unat e_shoff) e_shentsize of None \<Rightarrow> None
                | Some sh \<Rightarrow> if 48 \<le> e_shentsize \<and> e_shentsize \<le> 64
                            then Some (sint (get32 sh 44)) else None
         else Some (uint e_phnum))"

definition read_phdrs :: "(nat \<Rightarrow> Elf_Phdr option) \<Rightarrow> int \<Rightarrow> Elf_Phdr list option" where
  "read_phdrs rd phnum = those (map rd [0..<nat phnum])"

definition num_load :: "Elf_Phdr list \<Rightarrow> nat" where
  "num_load ps = length (filter (\<lambda>p. p_type p = PT_LOAD) ps)"

text \<open>\<^verbatim>\<open>check_elf_format\<close>: the class, \<^verbatim>\<open>phnum\<close> and the number of PT_LOAD headers.\<close>

definition check_elf_format :: "fstate \<Rightarrow> (elf_class \<times> int \<times> nat) option" where
  "check_elf_format f = (case pread f 0 64 of None \<Rightarrow> None
     | Some eh64 \<Rightarrow> (case pread f 0 52 of None \<Rightarrow> None
       | Some eh32 \<Rightarrow>
           if eh64 ! 4 = 2 \<and> eh32 ! 4 \<noteq> 1
           then (case get_elf64_phnum f eh64 of None \<Rightarrow> None
                 | Some phnum \<Rightarrow> map_option (\<lambda>ps. (ELF64, phnum, num_load ps))
                     (read_phdrs (get_elf64_phdr f) phnum))
           else if eh64 ! 4 \<noteq> 2 \<and> eh32 ! 4 = 1
           then (let phnum = uint (get16 eh32 44)
                 in map_option (\<lambda>ps. (ELF32, phnum, num_load ps)) (read_phdrs (get_elf32_phdr f) phnum))
           else None))"

definition get_phnum_memory :: "fstate \<Rightarrow> elf_state \<Rightarrow> int" where
  "get_phnum_memory f st =
     (if memory_elf64 st
      then (case get_elf64_ehdr f of None \<Rightarrow> 0
            | Some eh \<Rightarrow> (case get_elf64_phnum f eh of None \<Rightarrow> 0 | Some n \<Rightarrow> n))
      else (case get_elf32_ehdr f of None \<Rightarrow> 0 | Some eh \<Rightarrow> uint (get16 eh 44)))"

definition get_phdr_memory :: "fstate \<Rightarrow> elf_state \<Rightarrow> nat \<Rightarrow> Elf_Phdr option" where
  "get_phdr_memory f st index =
     (if memory_elf64 st then get_elf64_phdr f index else get_elf32_phdr f index)"

text \<open>\<^verbatim>\<open>vaddr_to_offset_slow\<close>: 32-bit sums wrap at 32 bits.\<close>

definition load_covers :: "elf_class \<Rightarrow> Elf_Phdr \<Rightarrow> u64 \<Rightarrow> bool" where
  "load_covers cls p vaddr \<longleftrightarrow>
     (let e = (case cls of ELF64 \<Rightarrow> p_vaddr p + p_filesz p
               | ELF32 \<Rightarrow> ucast (ucast (p_vaddr p + p_filesz p) :: u32))
      in p_type p = PT_LOAD \<and> \<not> (vaddr < p_vaddr p \<or> e \<le> vaddr))"

fun find_load :: "elf_class \<Rightarrow> (nat \<Rightarrow> Elf_Phdr option) \<Rightarrow> u64 \<Rightarrow> nat list \<Rightarrow> u64" where
  "find_load cls rd vaddr [] = 0"
| "find_load cls rd vaddr (i # is) = (case rd i of None \<Rightarrow> 0
     | Some p \<Rightarrow> if load_covers cls p vaddr then p_offset p + (vaddr - p_vaddr p)
                else find_load cls rd vaddr is)"

definition vaddr_to_offset_slow :: "fstate \<Rightarrow> u64 \<Rightarrow> u64" where
  "vaddr_to_offset_slow f vaddr = (case check_elf_format f of None \<Rightarrow> 0
     | Some (cls, phnum, _) \<Rightarrow>
         find_load cls (case cls of ELF64 \<Rightarrow> get_elf64_phdr f | ELF32 \<Rightarrow> get_elf32_phdr f) vaddr
           [0..<nat phnum])"

section \<open>Segments\<close>

definition dump_Elf_load :: "Elf_Phdr \<Rightarrow> pt_load_segment option" where
  "dump_Elf_load prog = (if p_type prog \<noteq> PT_LOAD then None
     else Some \<lparr>file_offset = p_offset prog, file_size = p_filesz prog,
       phys_start = p_paddr prog, phys_end = p_paddr prog + p_memsz prog,
       virt_start = p_vaddr prog, virt_end = p_vaddr prog + p_memsz prog\<rparr>)"

fun paddr_to_offset :: "pt_load_segment list \<Rightarrow> u64 \<Rightarrow> u64" where
  "paddr_to_offset [] paddr = 0"
| "paddr_to_offset (p # ps) paddr =
     (if phys_start p \<le> paddr \<and> paddr < phys_start p + file_size p
      then (paddr - phys_start p) + file_offset p
      else paddr_to_offset ps paddr)"

fun paddr_to_offset2 :: "pt_load_segment list \<Rightarrow> u64 \<Rightarrow> u64 \<Rightarrow> u64" where
  "paddr_to_offset2 [] paddr hint = 0"
| "paddr_to_offset2 (p # ps) paddr hint =
     (if phys_start p \<le> paddr \<and> paddr < phys_start p + file_size p
         \<and> sint (file_offset p) \<le> sint hint \<and> sint hint < sint (file_offset p + file_size p)
      then (paddr - phys_start p) + file_offset p
      else paddr_to_offset2 ps paddr hint)"

fun offset_to_pt_load_end :: "pt_load_segment list \<Rightarrow> u64 \<Rightarrow> u64" where
  "offset_to_pt_load_end [] off = 0"
| "offset_to_pt_load_end (p # ps) off =
     (if sint (file_offset p) \<le> sint off \<and> off < file_offset p + (phys_end p - phys_start p)
      then file_offset p + (phys_end p - phys_start p)
      else offset_to_pt_load_end ps off)"

text \<open>\<^verbatim>\<open>page_is_fractional\<close>; \<^verbatim>\<open>off_t\<close> and \<^verbatim>\<open>page_size\<close> are signed, an offset is not negative.\<close>

definition page_is_fractional :: "pt_load_segment list \<Rightarrow> u64 \<Rightarrow> u64 \<Rightarrow> bool" where
  "page_is_fractional ps page_size page_offset \<longleftrightarrow>
     page_offset mod page_size \<noteq> 0 \<or>
     sint (offset_to_pt_load_end ps page_offset - page_offset) < sint page_size"

fun vaddr_to_paddr_general :: "pt_load_segment list \<Rightarrow> u64 \<Rightarrow> u64" where
  "vaddr_to_paddr_general [] vaddr = NOT_PADDR"
| "vaddr_to_paddr_general (p # ps) vaddr =
     (if virt_start p \<le> vaddr \<and> vaddr < virt_end p
      then (vaddr - virt_start p) + phys_start p
      else vaddr_to_paddr_general ps vaddr)"

definition get_max_paddr :: "pt_load_segment list \<Rightarrow> u64" where
  "get_max_paddr ps = fold (\<lambda>p m. if phys_start p \<noteq> NOT_PADDR \<and> m < phys_end p then phys_end p else m) ps 0"

fun closest_loop :: "pt_load_segment list \<Rightarrow> u64 \<Rightarrow> nat \<Rightarrow> u64 \<Rightarrow> int \<Rightarrow> int" where
  "closest_loop [] paddr i bestdist bestidx = bestidx"
| "closest_loop (p # ps) paddr i bestdist bestidx =
     (if phys_end p \<le> paddr then closest_loop ps paddr (Suc i) bestdist bestidx
      else if phys_start p \<le> paddr then int i
      else if bestdist > phys_start p - paddr
      then closest_loop ps paddr (Suc i) (phys_start p - paddr) (int i)
      else closest_loop ps paddr (Suc i) bestdist bestidx)"

definition closest_pt_load :: "pt_load_segment list \<Rightarrow> u64 \<Rightarrow> u64 \<Rightarrow> int" where
  "closest_pt_load ps paddr distance = closest_loop ps paddr 0 distance (-1)"

definition get_pt_load :: "pt_load_segment list \<Rightarrow> nat \<Rightarrow> (u64 \<times> u64 \<times> u64 \<times> u64) option" where
  "get_pt_load ps idx = (if length ps \<le> idx then None
     else Some (phys_start (ps ! idx), phys_end (ps ! idx), virt_start (ps ! idx), virt_end (ps ! idx)))"

definition get_pt_load_extents :: "pt_load_segment list \<Rightarrow> nat \<Rightarrow> (u64 \<times> u64 \<times> u64 \<times> u64) option" where
  "get_pt_load_extents ps idx = (if length ps \<le> idx then None
     else Some (phys_start (ps ! idx), phys_end (ps ! idx), file_offset (ps ! idx), file_size (ps ! idx)))"

text \<open>
  \<^verbatim>\<open>exclude_segment\<close>: cut the physical range \<open>st\<close> to \<open>en\<close> out of the segments. \<open>exclude_one\<close> is the body
  of the loop for one segment: what is left of it and the piece behind the hole, if it is split.
\<close>

definition exclude_one :: "u64 \<Rightarrow> u64 \<Rightarrow> u64 \<Rightarrow> u64 \<Rightarrow> pt_load_segment \<Rightarrow> pt_load_segment \<times> pt_load_segment option" where
  "exclude_one kvstart kvend st en p =
     (if kvstart < virt_end p \<and> kvend > virt_start p
      then if kvstart \<noteq> virt_start p \<and> kvend \<noteq> virt_end p
           then (let t = \<lparr>file_offset = file_offset p + kvend - virt_start p, file_size = phys_end p - en,
                         phys_start = en, phys_end = phys_end p, virt_start = kvend, virt_end = virt_end p\<rparr>
                 in (p\<lparr>virt_end := kvstart, phys_end := st, file_size := file_size p - file_size t - (en - st)\<rparr>, Some t))
           else if kvstart \<noteq> virt_start p
           then (p\<lparr>phys_end := st, virt_end := kvstart, file_size := file_size p - (en - st)\<rparr>, None)
           else (p\<lparr>phys_start := en, virt_start := kvend, file_size := file_size p - (en - st)\<rparr>, None)
      else (p, None))"

text \<open>The loop remembers only the last split.\<close>

fun exclude_loop :: "(pt_load_segment \<Rightarrow> pt_load_segment \<times> pt_load_segment option) \<Rightarrow> nat \<Rightarrow>
    pt_load_segment list \<Rightarrow> pt_load_segment list \<times> (nat \<times> pt_load_segment) option \<Rightarrow>
    pt_load_segment list \<times> (nat \<times> pt_load_segment) option" where
  "exclude_loop ex i [] (acc, sp) = (acc, sp)"
| "exclude_loop ex i (p # ps) (acc, sp) =
     (let (p', t) = ex p
      in exclude_loop ex (Suc i) ps (acc @ [p'], case t of None \<Rightarrow> sp | Some s \<Rightarrow> Some (Suc i, s)))"

definition exclude_segment :: "(u64 \<Rightarrow> u64) \<Rightarrow> u64 \<Rightarrow> u64 \<Rightarrow> pt_load_segment list \<Rightarrow> pt_load_segment list" where
  "exclude_segment paddr_to_vaddr st en ps =
     (case exclude_loop (exclude_one (paddr_to_vaddr st) (paddr_to_vaddr en) st en) 0 ps ([], None) of
        (ps', None) \<Rightarrow> ps'
      | (ps', Some (tidx, t)) \<Rightarrow> take tidx ps' @ t # drop tidx ps')"

definition seg_file_end :: "pt_load_segment \<Rightarrow> u64" where
  "seg_file_end p = file_offset p + phys_end p - phys_start p"

definition compute_max_file_offset :: "pt_load_segment list \<Rightarrow> u64" where
  "compute_max_file_offset ps = fold (\<lambda>p m. if m > seg_file_end p then m else seg_file_end p) ps 0"

text \<open>
  \<^verbatim>\<open>get_kcore_dump_loads\<close>: keep the segments with a physical address, cut out the reserved
  ranges (given with inclusive ends).
\<close>

definition get_kcore_dump_loads ::
  "(u64 \<Rightarrow> u64) \<Rightarrow> (u64 \<Rightarrow> bool) \<Rightarrow> (u64 \<times> u64) list \<Rightarrow> elf_state \<Rightarrow> bool \<times> elf_state" where
  "get_kcore_dump_loads paddr_to_vaddr is_phys_addr crash_reserved_mem st =
     (let pls = filter (\<lambda>p. \<not> (phys_start p = NOT_PADDR \<or> \<not> is_phys_addr (phys_start p))) (pt_loads st)
      in if pls = [] then (False, st)
         else (let pls' = fold (\<lambda>(a, b). exclude_segment paddr_to_vaddr a (b + 1)) crash_reserved_mem pls
               in (True, st\<lparr>pt_loads := pls', max_file_offset := compute_max_file_offset pls'\<rparr>)))"

section \<open>Notes\<close>

definition roundup4 :: "u32 \<Rightarrow> u32" where
  "roundup4 x = ((x + 3) div 4) * 4"

definition note_namesz :: "u8 list \<Rightarrow> u32" where "note_namesz note = get32 note 0"
definition note_descsz :: "u8 list \<Rightarrow> u32" where "note_descsz note = get32 note 4"
definition note_type :: "u8 list \<Rightarrow> u32" where "note_type note = get32 note 8"

definition offset_note_desc :: "u8 list \<Rightarrow> u64" where
  "offset_note_desc note = 12 + ucast (roundup4 (note_namesz note))"

definition offset_next_note :: "u8 list \<Rightarrow> u64" where
  "offset_next_note note = 12 + ucast (roundup4 (note_namesz note)) + ucast (roundup4 (note_descsz note))"

definition set_vmcoreinfo :: "u64 \<Rightarrow> u64 \<Rightarrow> elf_state \<Rightarrow> elf_state" where
  "set_vmcoreinfo off sz st = st\<lparr>offset_vmcoreinfo := off, size_vmcoreinfo := sz\<rparr>"

definition set_eraseinfo :: "u64 \<Rightarrow> u64 \<Rightarrow> elf_state \<Rightarrow> elf_state" where
  "set_eraseinfo off sz st = st\<lparr>offset_eraseinfo := off, size_eraseinfo := sz\<rparr>"

definition set_pt_note :: "u64 \<Rightarrow> u64 \<Rightarrow> elf_state \<Rightarrow> elf_state" where
  "set_pt_note off sz st = st\<lparr>offset_pt_note_memory := off, size_pt_note_memory := sz\<rparr>"

definition has_pt_note :: "bool \<Rightarrow> elf_state \<Rightarrow> bool" where
  "has_pt_note flag_sadump st = (if flag_sadump then size_pt_note_memory st \<noteq> 0
     else offset_pt_note_memory st \<noteq> 0 \<and> size_pt_note_memory st \<noteq> 0)"

definition has_vmcoreinfo :: "elf_state \<Rightarrow> bool" where
  "has_vmcoreinfo st = (offset_vmcoreinfo st \<noteq> 0 \<and> size_vmcoreinfo st \<noteq> 0)"

definition has_vmcoreinfo_xen :: "elf_state \<Rightarrow> bool" where
  "has_vmcoreinfo_xen st = (offset_vmcoreinfo_xen st \<noteq> 0 \<and> size_vmcoreinfo_xen st \<noteq> 0)"

definition has_eraseinfo :: "elf_state \<Rightarrow> bool" where
  "has_eraseinfo st = (offset_eraseinfo st \<noteq> 0 \<and> size_eraseinfo st \<noteq> 0)"

text \<open>What \<^verbatim>\<open>get_pt_note_info\<close> does with one note; \<open>sz\<close> is the \<^verbatim>\<open>int\<close> size, sign-extended.\<close>

definition classify_note :: "u8 list \<Rightarrow> u32 \<Rightarrow> u64 \<Rightarrow> u64 \<Rightarrow> elf_state \<Rightarrow> elf_state" where
  "classify_note nm n_type offset_desc sz st =
     (if strneq 5 (cstr ''CORE'') nm
      then if n_type = 1 then st\<lparr>nr_cpus := nr_cpus st + 1\<rparr> else st
      else if strneq 11 (cstr ''VMCOREINFO'') nm
      then if n_type = 0 then set_vmcoreinfo offset_desc sz st else st
      else if strneq 15 (cstr ''VMCOREINFO_XEN'') nm
      then if n_type = 0 then st\<lparr>offset_vmcoreinfo_xen := offset_desc, size_vmcoreinfo_xen := sz\<rparr> else st
      else if strneq 4 (cstr ''Xen'') nm
      then if n_type = 0x1000001
           then st\<lparr>memory_xen := True, offset_xen_crash_info := offset_desc, size_xen_crash_info := sz\<rparr> else st
      else if strneq 10 (cstr ''ERASEINFO'') nm
      then if n_type = 0 then set_eraseinfo offset_desc sz st else st
      else st)"

text \<open>
  The loop of \<^verbatim>\<open>get_pt_note_info\<close>: seeking to a negative offset fails; the name is read behind
  the header into a buffer of 15 bytes, whatever its own length.
\<close>

function note_loop :: "fstate \<Rightarrow> u64 \<Rightarrow> u64 \<Rightarrow> elf_state \<Rightarrow> bool \<times> elf_state" where
  "note_loop f en off st =
     (if \<not> off < en then (True, st)
      else if unat off \<ge> 2 ^ 63 then (False, st)
      else case pread f (unat off) 12 of None \<Rightarrow> (False, st)
        | Some note \<Rightarrow>
            if note_namesz note = 0 \<or> note_namesz note > 15
            then note_loop f en (off + offset_next_note note) st
            else case pread f (unat off + 12) 15 of None \<Rightarrow> (False, st)
              | Some nm \<Rightarrow> note_loop f en (off + offset_next_note note)
                  (classify_note nm (note_type note) (off + offset_note_desc note)
                    (scast (note_descsz note)) st))"
  by pat_completeness auto

lemma unat_next_note:
  "unat (offset_next_note note) =
     12 + unat (roundup4 (note_namesz note)) + unat (roundup4 (note_descsz note))"
  using unat32_less [of "roundup4 (note_namesz note)"] unat32_less [of "roundup4 (note_descsz note)"]
  by (simp add: offset_next_note_def unat_plus64 del: unat32_less)

lemma unat_off_next:
  "unat off < 2 ^ 63 \<Longrightarrow> unat (off + offset_next_note note) = unat off + unat (offset_next_note note)"
  using unat32_less [of "roundup4 (note_namesz note)"] unat32_less [of "roundup4 (note_descsz note)"]
  by (intro unat_plus64) (simp add: unat_next_note del: unat32_less)

termination note_loop
  by (relation "measure (\<lambda>(f, en, off, st). length (content f) - unat off)")
    (auto simp: unat_off_next unat_next_note pread_Some_iff)

declare note_loop.simps [simp del]

definition get_pt_note_info :: "fstate \<Rightarrow> elf_state \<Rightarrow> bool \<times> elf_state" where
  "get_pt_note_info f st =
     note_loop f (offset_pt_note_memory st + size_pt_note_memory st) (offset_pt_note_memory st)
       (st\<lparr>nr_cpus := 0\<rparr>)"

text \<open>\<^verbatim>\<open>set_kcore_vmcoreinfo\<close>: locate the note through the segments' virtual addresses.\<close>

definition set_kcore_vmcoreinfo :: "(u64 \<Rightarrow> u64) \<Rightarrow> fstate \<Rightarrow> u64 \<Rightarrow> elf_state \<Rightarrow> bool \<times> elf_state" where
  "set_kcore_vmcoreinfo paddr_to_vaddr f vmcoreinfo_addr st =
     (let kvaddr = paddr_to_vaddr vmcoreinfo_addr
      in case find (\<lambda>p. virt_start p \<le> kvaddr \<and> kvaddr < virt_end p) (pt_loads st) of
           None \<Rightarrow> (False, st)
         | Some p \<Rightarrow>
             (let off = (kvaddr - virt_start p) + file_offset p
              in if off = -1 \<or> unat off \<ge> 2 ^ 63 then (False, st)
                 else case pread f (unat off) 12 of None \<Rightarrow> (False, st)
                   | Some note \<Rightarrow> (True, set_vmcoreinfo (off + offset_note_desc note) (scast (note_descsz note)) st)))"

section \<open>Getting the ELF information\<close>

text \<open>The loop of \<^verbatim>\<open>get_elf_info\<close> over the program headers; \<open>n\<close> is the size of the segment table.\<close>

fun phdr_loop :: "fstate \<Rightarrow> nat \<Rightarrow> nat list \<Rightarrow> elf_state \<Rightarrow> bool \<times> elf_state" where
  "phdr_loop f n [] st = (True, st)"
| "phdr_loop f n (i # is) st = (case get_phdr_memory f st i of None \<Rightarrow> (False, st)
     | Some phdr \<Rightarrow>
         (let st1 = (if p_type phdr = PT_NOTE then set_pt_note (p_offset phdr) (p_filesz phdr) st else st)
          in if p_type phdr \<noteq> PT_LOAD then phdr_loop f n is st1
             else if n \<le> length (pt_loads st1) then (False, st1)
             else case dump_Elf_load phdr of None \<Rightarrow> (False, st1)
               | Some pls \<Rightarrow> phdr_loop f n is (st1\<lparr>pt_loads := pt_loads st1 @ [pls]\<rparr>)))"

definition get_elf_info :: "bool \<Rightarrow> fstate \<Rightarrow> elf_state \<Rightarrow> bool \<times> elf_state" where
  "get_elf_info flag_sadump f st = (case check_elf_format f of None \<Rightarrow> (False, st)
     | Some (cls, phnum, n) \<Rightarrow>
         (let st1 = (if cls = ELF64 then st\<lparr>memory_elf64 := True\<rparr> else st)
          in if n = 0 then (False, st1)
             else (case phdr_loop f n [0..<nat phnum] (st1\<lparr>pt_loads := []\<rparr>) of
                     (False, st2) \<Rightarrow> (False, st2)
                   | (True, st2) \<Rightarrow>
                       (let st3 = st2\<lparr>max_file_offset := compute_max_file_offset (pt_loads st2)\<rparr>
                        in if \<not> has_pt_note flag_sadump st3 then (False, st3)
                           else get_pt_note_info f st3))))"

definition free_elf_info :: "elf_state \<Rightarrow> elf_state" where
  "free_elf_info st = st\<lparr>pt_loads := []\<rparr>"

section \<open>Address translation\<close>

text \<open>A segment holds the bytes of \<open>a\<close>; no segment wraps around the address space or the file.\<close>

definition covers :: "pt_load_segment \<Rightarrow> u64 \<Rightarrow> bool" where
  "covers p a \<longleftrightarrow> unat (phys_start p) \<le> unat a \<and> unat a < unat (phys_start p) + unat (file_size p)"

definition seg_wf :: "pt_load_segment \<Rightarrow> bool" where
  "seg_wf p \<longleftrightarrow> unat (phys_start p) + unat (file_size p) < 2 ^ 64 \<and>
     unat (file_offset p) + unat (file_size p) < 2 ^ 63 \<and> 0 < file_offset p"

definition off_in :: "pt_load_segment \<Rightarrow> u64 \<Rightarrow> nat" where
  "off_in p a = unat (file_offset p) + (unat a - unat (phys_start p))"

lemma covers_word:
  assumes "seg_wf p"
  shows "(phys_start p \<le> a \<and> a < phys_start p + file_size p) = covers p a"
  using assms by (auto simp: seg_wf_def covers_def word_le_nat_alt word_less_nat_alt unat_plus64)

lemma unat_off_in:
  assumes "seg_wf p" "covers p a"
  shows "unat ((a - phys_start p) + file_offset p) = off_in p a"
proof -
  have d: "unat (a - phys_start p) = unat a - unat (phys_start p)"
    using assms(2) by (simp add: covers_def unat_minus64 word_le_nat_alt)
  moreover have "unat a - unat (phys_start p) < unat (file_size p)" using assms(2) by (auto simp: covers_def)
  ultimately show ?thesis using assms(1) unat_plus64 [of "a - phys_start p" "file_offset p"]
    by (simp add: seg_wf_def off_in_def)
qed

text \<open>The translation takes the first segment that covers the address.\<close>

lemma paddr_to_offset_find:
  assumes "\<forall>p\<in>set ps. seg_wf p"
  shows "unat (paddr_to_offset ps a) = (case find (\<lambda>p. covers p a) ps of None \<Rightarrow> 0 | Some p \<Rightarrow> off_in p a)"
  using assms by (induction ps) (auto simp: covers_word unat_off_in)

lemma paddr_to_offset_append:
  assumes "\<forall>p\<in>set (xs @ ys). seg_wf p"
  shows "paddr_to_offset (xs @ ys) a =
     (if \<exists>p\<in>set xs. covers p a then paddr_to_offset xs a else paddr_to_offset ys a)"
  using assms by (induction xs) (auto simp: covers_word)

text \<open>
  C9. \<^verbatim>\<open>paddr_to_offset\<close> is exact: for an address covered by a segment (the first one in the
  table) it is the file offset of that byte, not 0, and lies inside the part of the file the
  segment occupies; for an address no segment covers it is 0.
\<close>

theorem paddr_to_offset_exact:
  assumes "\<forall>p\<in>set ps. seg_wf p"
  shows "(case find (\<lambda>p. covers p a) ps of
       None \<Rightarrow> paddr_to_offset ps a = 0
     | Some p \<Rightarrow> p \<in> set ps \<and> covers p a \<and> paddr_to_offset ps a \<noteq> 0 \<and>
         unat (paddr_to_offset ps a) = unat (file_offset p) + (unat a - unat (phys_start p)) \<and>
         unat (paddr_to_offset ps a) < unat (file_offset p) + unat (file_size p))"
proof (cases "find (\<lambda>p. covers p a) ps")
  case None
  then show ?thesis using paddr_to_offset_find [OF assms, of a] by (simp add: unat_eq_0)
next
  case (Some p)
  then have p: "p \<in> set ps" "covers p a" by (auto simp: find_Some_iff)
  have "unat (paddr_to_offset ps a) = off_in p a" using paddr_to_offset_find [OF assms, of a] Some by simp
  moreover have "0 < unat (file_offset p)" using assms p(1) by (auto simp: seg_wf_def word_less_nat_alt)
  moreover have "paddr_to_offset ps a \<noteq> 0" using calculation by (auto simp: off_in_def unat_eq_0 [symmetric])
  ultimately show ?thesis using p Some by (auto simp: off_in_def covers_def)
qed

definition sample_loads :: "pt_load_segment list" where
  "sample_loads =
     [\<lparr>file_offset = 0x1000, file_size = 0x9f000, phys_start = 0x1000, phys_end = 0xa0000,
       virt_start = 0x80001000, virt_end = 0x800a0000\<rparr>,
      \<lparr>file_offset = 0xa0000, file_size = 0x700000, phys_start = 0x100000, phys_end = 0x800000,
       virt_start = 0x80100000, virt_end = 0x80800000\<rparr>]"

theorem paddr_to_offset_exact_witness:
  "unat (paddr_to_offset sample_loads 0x123456) = 0xc3456 \<and> paddr_to_offset sample_loads 0xa8000 = 0"
proof -
  have wf: "\<forall>p\<in>set sample_loads. seg_wf p" by (simp add: sample_loads_def seg_wf_def)
  show ?thesis
    using paddr_to_offset_exact [OF wf, of "0x123456"] paddr_to_offset_exact [OF wf, of "0xa8000"]
    by (simp add: sample_loads_def covers_def)
qed

text \<open>\<^verbatim>\<open>closest_pt_load\<close>: the invariant of its loop.\<close>

definition contains :: "pt_load_segment \<Rightarrow> u64 \<Rightarrow> bool" where
  "contains p a \<longleftrightarrow> phys_start p \<le> a \<and> a < phys_end p"

text \<open>A segment that lies entirely above the address, and how far.\<close>

definition above :: "pt_load_segment \<Rightarrow> u64 \<Rightarrow> bool" where
  "above p a \<longleftrightarrow> a < phys_start p \<and> a < phys_end p"

lemma closest_loop_contains:
  "\<exists>p\<in>set ps. contains p a \<Longrightarrow>
     \<exists>j < length ps. closest_loop ps a i bd bi = int (i + j) \<and> contains (ps ! j) a"
proof (induction ps arbitrary: i bd bi)
  case (Cons p ps)
  show ?case
  proof (cases "contains p a")
    case True
    then show ?thesis by (intro exI [of _ 0]) (auto simp: contains_def)
  next
    case False
    with Cons.prems have ex: "\<exists>p\<in>set ps. contains p a" by simp
    have "closest_loop (p # ps) a i bd bi = closest_loop ps a (Suc i) bd bi \<or>
        closest_loop (p # ps) a i bd bi = closest_loop ps a (Suc i) (phys_start p - a) (int i)"
      using False by (auto simp: contains_def)
    with Cons.IH [OF ex, of "Suc i" bd bi] Cons.IH [OF ex, of "Suc i" "phys_start p - a" "int i"]
    show ?thesis by auto
  qed
qed simp

lemma closest_loop_nearest:
  assumes "\<forall>p\<in>set ps. \<not> contains p a"
  shows "(closest_loop ps a i bd bi = bi \<and> (\<forall>p\<in>set ps. above p a \<longrightarrow> bd \<le> phys_start p - a)) \<or>
    (\<exists>j < length ps. closest_loop ps a i bd bi = int (i + j) \<and> above (ps ! j) a \<and>
       phys_start (ps ! j) - a < bd \<and>
       (\<forall>p\<in>set ps. above p a \<longrightarrow> phys_start (ps ! j) - a \<le> phys_start p - a))"
  using assms
proof (induction ps arbitrary: i bd bi)
  case (Cons p ps)
  show ?case
  proof (cases "above p a \<and> phys_start p - a < bd")
    case True
    then have "closest_loop (p # ps) a i bd bi = closest_loop ps a (Suc i) (phys_start p - a) (int i)"
      by (auto simp: above_def)
    moreover note Cons.IH [of "Suc i" "phys_start p - a" "int i"] Cons.prems
    ultimately consider
        "closest_loop (p # ps) a i bd bi = int i" "\<forall>q\<in>set ps. above q a \<longrightarrow> phys_start p - a \<le> phys_start q - a"
      | j where "j < length ps" "closest_loop (p # ps) a i bd bi = int (i + Suc j)" "above (ps ! j) a"
        "phys_start (ps ! j) - a < phys_start p - a"
        "\<forall>q\<in>set ps. above q a \<longrightarrow> phys_start (ps ! j) - a \<le> phys_start q - a" by auto
    then show ?thesis
    proof cases
      case 1
      then show ?thesis using True by (intro disjI2 exI [of _ 0]) simp
    next
      case (2 j)
      then show ?thesis using True by (intro disjI2 exI [of _ "Suc j"]) auto
    qed
  next
    case False
    then have "closest_loop (p # ps) a i bd bi = closest_loop ps a (Suc i) bd bi"
      using Cons.prems by (auto simp: above_def contains_def)
    moreover note Cons.IH [of "Suc i" bd bi] Cons.prems
    ultimately consider
        "closest_loop (p # ps) a i bd bi = bi" "\<forall>q\<in>set ps. above q a \<longrightarrow> bd \<le> phys_start q - a"
      | j where "j < length ps" "closest_loop (p # ps) a i bd bi = int (i + Suc j)" "above (ps ! j) a"
        "phys_start (ps ! j) - a < bd"
        "\<forall>q\<in>set ps. above q a \<longrightarrow> phys_start (ps ! j) - a \<le> phys_start q - a" by auto
    then show ?thesis
    proof cases
      case 1
      then show ?thesis using False by auto
    next
      case (2 j)
      then show ?thesis using False by (intro disjI2 exI [of _ "Suc j"]) auto
    qed
  qed
qed simp

text \<open>
  \<^verbatim>\<open>closest_pt_load\<close> finds the segment that contains the address if there is one; otherwise the
  segment above the address with the least distance, if that is below the limit; otherwise -1.
\<close>

theorem closest_pt_load_optimal:
  "(if \<exists>p\<in>set ps. contains p a
    then \<exists>j < length ps. closest_pt_load ps a d = int j \<and> contains (ps ! j) a
    else (closest_pt_load ps a d = -1 \<and> (\<forall>p\<in>set ps. above p a \<longrightarrow> d \<le> phys_start p - a)) \<or>
         (\<exists>j < length ps. closest_pt_load ps a d = int j \<and> above (ps ! j) a \<and> phys_start (ps ! j) - a < d \<and>
            (\<forall>p\<in>set ps. above p a \<longrightarrow> phys_start (ps ! j) - a \<le> phys_start p - a)))"
  using closest_loop_contains [of ps a 0 d "-1"] closest_loop_nearest [of ps a 0 d "-1"]
  unfolding closest_pt_load_def by auto

theorem closest_pt_load_optimal_witness:
  "closest_pt_load sample_loads 0xb0000 0x1000000 = 1 \<and> closest_pt_load sample_loads 0xb0000 0x1000 = -1"
  using closest_pt_load_optimal [of sample_loads "0xb0000" "0x1000000"]
    closest_pt_load_optimal [of sample_loads "0xb0000" "0x1000"]
  by (simp add: sample_loads_def contains_def above_def less_Suc_eq closest_pt_load_def)

section \<open>Cutting out reserved memory\<close>

definition paddr_to_vaddr_general :: "u64 \<Rightarrow> u64 \<Rightarrow> u64" where
  "paddr_to_vaddr_general page_offset x = x + page_offset"

text \<open>A segment whose bytes are all in the file, mapped at a constant distance \<open>k\<close>.\<close>

definition seg_lin :: "u64 \<Rightarrow> pt_load_segment \<Rightarrow> bool" where
  "seg_lin k p \<longleftrightarrow> seg_wf p \<and> unat (phys_end p) = unat (phys_start p) + unat (file_size p) \<and>
     virt_start p = phys_start p + k \<and> virt_end p = phys_end p + k \<and> unat (phys_end p) + unat k < 2 ^ 64"

definition hole_misses :: "u64 \<Rightarrow> u64 \<Rightarrow> pt_load_segment \<Rightarrow> bool" where
  "hole_misses st en p \<longleftrightarrow> phys_end p \<le> st \<or> en \<le> phys_start p"

lemma add_less_add: "unat a + unat k < 2 ^ 64 \<Longrightarrow> unat b + unat k < 2 ^ 64 \<Longrightarrow>
    (a + k < b + k) = (a < b) \<and> (a + k = b + k) = (a = (b :: u64))"
  by (simp add: word_less_nat_alt unat_plus64)

lemma exclude_one_misses:
  assumes "seg_lin k p" "hole_misses st en p" "unat en + unat k < 2 ^ 64" "st < en"
  shows "exclude_one (st + k) (en + k) st en p = (p, None)"
proof -
  have b: "unat st + unat k < 2 ^ 64" "unat (phys_start p) + unat k < 2 ^ 64" "unat (phys_end p) + unat k < 2 ^ 64"
    using assms by (auto simp: seg_lin_def word_less_nat_alt)
  show ?thesis using assms(1,2) add_less_add [OF b(1,3)] add_less_add [OF b(2) assms(3)]
    by (auto simp: exclude_one_def seg_lin_def hole_misses_def)
qed

lemma exclude_loop_skip:
  "\<forall>q\<in>set xs. ex q = (q, None) \<Longrightarrow>
     exclude_loop ex i (xs @ ys) (acc, sp) = exclude_loop ex (i + length xs) ys (acc @ xs, sp)"
  by (induction xs arbitrary: i acc) auto

lemma exclude_segment_at:
  assumes "\<forall>q\<in>set (pre @ post). seg_lin k q \<and> hole_misses st en q"
    and "unat en + unat k < 2 ^ 64" "st < en"
  shows "exclude_segment (paddr_to_vaddr_general k) st en (pre @ p # post) =
     (case exclude_one (st + k) (en + k) st en p of
        (p', None) \<Rightarrow> pre @ p' # post
      | (p', Some t) \<Rightarrow> pre @ p' # t # post)"
proof -
  let ?ex = "exclude_one (st + k) (en + k) st en"
  have "\<forall>q\<in>set pre. ?ex q = (q, None)" "\<forall>q\<in>set post. ?ex q = (q, None)"
    using assms exclude_one_misses by auto
  then have "exclude_loop ?ex 0 (pre @ p # post) ([], None) =
      (pre @ fst (?ex p) # post, map_option (\<lambda>t. (Suc (length pre), t)) (snd (?ex p)))"
    using exclude_loop_skip [of post ?ex _ "[]"] exclude_loop_skip [of pre ?ex 0 "p # post" "[]" None]
    by (cases "?ex p") (auto split: option.split)
  then show ?thesis
    by (cases "?ex p") (auto simp: exclude_segment_def paddr_to_vaddr_general_def split: option.split)
qed

text \<open>The part of a segment from \<open>a\<close> to \<open>b\<close>.\<close>

definition part_of :: "pt_load_segment \<Rightarrow> u64 \<Rightarrow> u64 \<Rightarrow> pt_load_segment \<Rightarrow> bool" where
  "part_of p a b q \<longleftrightarrow> phys_start q = a \<and> phys_start p \<le> a \<and> a \<le> b \<and> b \<le> phys_end p \<and>
     file_size q = b - a \<and> file_offset q = file_offset p + (a - phys_start p)"

lemma part_of_unat:
  assumes "seg_lin k p" "part_of p a b q"
  shows "unat (file_offset q) = unat (file_offset p) + (unat a - unat (phys_start p))"
    and "unat (file_size q) = unat b - unat a"
proof -
  have le: "unat (phys_start p) \<le> unat a" "unat a \<le> unat b" "unat b \<le> unat (phys_end p)"
    using assms(2) by (simp_all add: part_of_def word_le_nat_alt)
  have "unat (a - phys_start p) = unat a - unat (phys_start p)"
    using assms(2) by (simp add: part_of_def unat_minus64)
  moreover have "unat a - unat (phys_start p) \<le> unat (file_size p)"
    using le assms(1) by (simp add: seg_lin_def)
  ultimately show "unat (file_offset q) = unat (file_offset p) + (unat a - unat (phys_start p))"
    using assms unat_plus64 [of "file_offset p" "a - phys_start p"] by (simp add: part_of_def seg_lin_def seg_wf_def)
  show "unat (file_size q) = unat b - unat a" using assms(2) by (simp add: part_of_def unat_minus64)
qed

lemma part_of_props:
  assumes "seg_lin k p" "part_of p a b q"
  shows "seg_wf q" "covers q x \<longleftrightarrow> unat a \<le> unat x \<and> unat x < unat b"
    "covers q x \<Longrightarrow> covers p x \<and> off_in q x = off_in p x"
proof -
  note u = part_of_unat [OF assms]
  have le: "unat (phys_start p) \<le> unat a" "unat a \<le> unat b" "unat b \<le> unat (phys_end p)" and q: "phys_start q = a"
    using assms(2) by (simp_all add: part_of_def word_le_nat_alt)
  show "seg_wf q" using assms(1) le u q by (auto simp: seg_wf_def seg_lin_def word_less_nat_alt)
  show c: "covers q x \<longleftrightarrow> unat a \<le> unat x \<and> unat x < unat b" using u(2) le q by (auto simp: covers_def)
  assume "covers q x"
  with c le assms(1) u(1) q show "covers p x \<and> off_in q x = off_in p x"
    by (auto simp: covers_def off_in_def seg_lin_def)
qed

lemma exclude_one_inside:
  assumes lin: "seg_lin k p" and h: "phys_start p < st" "st < en" "en \<le> phys_end p"
  shows "\<exists>q. part_of p (phys_start p) st q \<and>
     (if en = phys_end p then exclude_one (st + k) (en + k) st en p = (q, None)
      else \<exists>t. part_of p en (phys_end p) t \<and> exclude_one (st + k) (en + k) st en p = (q, Some t))"
proof -
  have b: "unat st + unat k < 2 ^ 64" "unat en + unat k < 2 ^ 64" "unat (phys_start p) + unat k < 2 ^ 64"
    "unat (phys_end p) + unat k < 2 ^ 64"
    using lin h by (auto simp: seg_lin_def word_less_nat_alt word_le_nat_alt)
  note cmp = add_less_add [OF b(1,4)] add_less_add [OF b(3,2)] add_less_add [OF b(1,3)] add_less_add [OF b(2,4)]
  have fs: "file_size p = phys_end p - phys_start p"
    using lin by (auto simp: seg_lin_def word_unat_eq_iff unat_minus64 word_le_nat_alt)
  have o: "phys_start p \<le> st" "st \<le> phys_end p" "phys_start p \<le> en" using h by auto
  show ?thesis
  proof (cases "en = phys_end p")
    case True
    then show ?thesis using h lin cmp o
      by (intro exI [of _ "p\<lparr>phys_end := st, virt_end := st + k, file_size := file_size p - (en - st)\<rparr>"])
        (auto simp: exclude_one_def seg_lin_def part_of_def fs)
  next
    case False
    let ?t = "\<lparr>file_offset = file_offset p + (en + k) - virt_start p, file_size = phys_end p - en,
        phys_start = en, phys_end = phys_end p, virt_start = en + k, virt_end = virt_end p\<rparr>"
    let ?q = "p\<lparr>virt_end := st + k, phys_end := st, file_size := file_size p - file_size ?t - (en - st)\<rparr>"
    have "part_of p (phys_start p) st ?q" using o by (simp add: part_of_def fs)
    moreover have "part_of p en (phys_end p) ?t" using o h lin by (simp add: part_of_def seg_lin_def)
    moreover have "exclude_one (st + k) (en + k) st en p = (?q, Some ?t)"
      using h lin cmp o False by (auto simp: exclude_one_def seg_lin_def Let_def)
    ultimately show ?thesis using False by auto
  qed
qed

lemma paddr_to_offset_replace:
  assumes wf: "\<forall>r\<in>set (pre @ p # post). seg_wf r" "\<forall>r\<in>set qs. seg_wf r"
    and agree: "(\<exists>q\<in>set qs. covers q a) = covers p a"
      "\<And>q. q \<in> set qs \<Longrightarrow> covers q a \<Longrightarrow> off_in q a = off_in p a"
  shows "paddr_to_offset (pre @ qs @ post) a = paddr_to_offset (pre @ p # post) a"
proof -
  have "unat (paddr_to_offset qs a) = off_in p a" if "covers p a"
  proof -
    from that agree(1) have "find (\<lambda>q. covers q a) qs \<noteq> None" by (auto simp: find_None_iff)
    then obtain q where q: "find (\<lambda>q. covers q a) qs = Some q" by auto
    then have "q \<in> set qs" "covers q a" by (auto simp: find_Some_iff)
    with agree(2) q paddr_to_offset_find [OF wf(2), of a] show ?thesis by simp
  qed
  moreover have "unat (paddr_to_offset [p] a) = off_in p a" if "covers p a"
    using paddr_to_offset_find [of "[p]" a] wf(1) that by simp
  ultimately have "paddr_to_offset qs a = paddr_to_offset [p] a" if "covers p a"
    using that by (simp add: word_unat_eq_iff)
  moreover have "paddr_to_offset ([p] @ post) a = (if covers p a then paddr_to_offset [p] a else paddr_to_offset post a)"
    using paddr_to_offset_append [of "[p]" post a] wf(1) by simp
  moreover have "paddr_to_offset (qs @ post) a = (if covers p a then paddr_to_offset qs a else paddr_to_offset post a)"
  proof -
    have "\<forall>r\<in>set (qs @ post). seg_wf r" using wf by auto
    from paddr_to_offset_append [OF this, of a] show ?thesis by (simp add: agree(1))
  qed
  moreover have "\<forall>r\<in>set (pre @ [p] @ post). seg_wf r" "\<forall>r\<in>set (pre @ qs @ post). seg_wf r" using wf by auto
  note paddr_to_offset_append [OF this(1), of a] paddr_to_offset_append [OF this(2), of a]
  ultimately show ?thesis by simp
qed

text \<open>
  C28. Cutting a reserved range out of a segment, at its end or in its middle: the function
  \<^verbatim>\<open>exclude_segment\<close> makes exactly the addresses of the range unreachable, and every other address keeps its
  place in the file, also behind a split.
\<close>

theorem exclude_segment_exact:
  assumes "\<forall>q\<in>set (pre @ p # post). seg_lin k q" and "\<forall>q\<in>set (pre @ post). hole_misses st en q"
    and "phys_start p < st" "st < en" "en \<le> phys_end p"
  shows "paddr_to_offset (exclude_segment (paddr_to_vaddr_general k) st en (pre @ p # post)) a =
     (if st \<le> a \<and> a < en then 0 else paddr_to_offset (pre @ p # post) a)"
proof -
  have lin: "seg_lin k p" using assms(1) by simp
  have wf: "\<forall>r\<in>set (pre @ p # post). seg_wf r" using assms(1) by (auto simp: seg_lin_def)
  have ek: "unat en + unat k < 2 ^ 64" using lin assms(5) by (auto simp: seg_lin_def word_le_nat_alt)
  obtain qs where qs: "exclude_segment (paddr_to_vaddr_general k) st en (pre @ p # post) = pre @ qs @ post"
    "\<forall>q\<in>set qs. seg_wf q \<and> (covers q a \<longrightarrow> covers p a \<and> off_in q a = off_in p a)"
    "(\<exists>q\<in>set qs. covers q a) = (covers p a \<and> \<not> (st \<le> a \<and> a < en))"
  proof -
    obtain q where q: "part_of p (phys_start p) st q"
      and ex: "if en = phys_end p then exclude_one (st + k) (en + k) st en p = (q, None)
        else \<exists>t. part_of p en (phys_end p) t \<and> exclude_one (st + k) (en + k) st en p = (q, Some t)"
      using exclude_one_inside [OF lin assms(3,4,5)] by blast
    note at = exclude_segment_at [OF _ ek assms(4), of pre post p] and pq = part_of_props [OF lin q]
    have cp: "covers p a \<longleftrightarrow> unat (phys_start p) \<le> unat a \<and> unat a < unat (phys_end p)"
      using lin by (auto simp: seg_lin_def covers_def)
    show thesis
    proof (cases "en = phys_end p")
      case True
      have "covers q a = (covers p a \<and> \<not> (st \<le> a \<and> a < en))"
        using pq(2) [of a] cp assms(3,4,5) True by (auto simp: word_le_nat_alt word_less_nat_alt)
      with that [of "[q]"] at pq(1,3) ex True assms(1,2) show thesis by simp
    next
      case False
      with ex obtain t where t: "part_of p en (phys_end p) t"
        "exclude_one (st + k) (en + k) st en p = (q, Some t)" by auto
      note pt = part_of_props [OF lin t(1)]
      have "(covers q a \<or> covers t a) = (covers p a \<and> \<not> (st \<le> a \<and> a < en))"
        using pq(2) [of a] pt(2) [of a] cp assms(3,4,5) by (auto simp: word_le_nat_alt word_less_nat_alt)
      with that [of "[q, t]"] at pq(1,3) pt(1,3) t(2) assms(1,2) show thesis by simp
    qed
  qed
  show ?thesis
  proof (cases "st \<le> a \<and> a < en")
    case True
    then have "\<not> covers r a" if "r \<in> set (pre @ qs @ post)" for r
    proof -
      have "\<not> covers r a" if "r \<in> set (pre @ post)"
        using that assms(1,2) True
        by (auto simp: hole_misses_def covers_def seg_lin_def word_le_nat_alt word_less_nat_alt dest!: bspec)
      with that qs(3) True show ?thesis by auto
    qed
    moreover have "\<forall>r\<in>set (pre @ qs @ post). seg_wf r" using wf qs(2) by auto
    moreover note paddr_to_offset_find [OF this, of a]
    ultimately show ?thesis using True qs(1) find_None_iff [of "\<lambda>p. covers p a" "pre @ qs @ post"]
      by (auto simp: unat_eq_0)
  next
    case False
    with qs paddr_to_offset_replace [OF wf, of qs a] show ?thesis by auto
  qed
qed

theorem exclude_segment_exact_witness:
  "let ps = exclude_segment (paddr_to_vaddr_general 0x80000000) 0x200000 0x300000 sample_loads
   in paddr_to_offset ps 0x250000 = 0 \<and> paddr_to_offset ps 0x345678 = 0x2e5678"
  using exclude_segment_exact [of "[hd sample_loads]" "sample_loads ! 1" "[]" "0x80000000" "0x200000" "0x300000" "0x250000"]
    exclude_segment_exact [of "[hd sample_loads]" "sample_loads ! 1" "[]" "0x80000000" "0x200000" "0x300000" "0x345678"]
  by (simp add: sample_loads_def seg_lin_def seg_wf_def hole_misses_def)

text \<open>
  At the start of a segment the cut goes wrong: \<^verbatim>\<open>file_offset\<close> stays what it was, so that
  every address left in the segment is translated to a file offset that is too small by the
  size of the hole.
\<close>

theorem exclude_prefix_shifts:
  assumes "seg_lin k p" and "phys_start p < en" "en \<le> a" "a < phys_end p"
  shows "paddr_to_offset (exclude_segment (paddr_to_vaddr_general k) (phys_start p) en [p]) a =
     paddr_to_offset [p] a - (en - phys_start p)"
proof -
  let ?q = "p\<lparr>phys_start := en, virt_start := en + k, file_size := file_size p - (en - phys_start p)\<rparr>"
  have le: "unat (phys_start p) < unat en" "unat en \<le> unat a" "unat a < unat (phys_end p)"
    using assms by (simp_all add: word_le_nat_alt word_less_nat_alt)
  have b: "unat en + unat k < 2 ^ 64" "unat (phys_start p) + unat k < 2 ^ 64" "unat (phys_end p) + unat k < 2 ^ 64"
    using assms(1) le by (auto simp: seg_lin_def)
  have "exclude_one (phys_start p + k) (en + k) (phys_start p) en p = (?q, None)"
    using assms(1) add_less_add [OF b(2,3)] add_less_add [OF b(2,1)] le
    by (auto simp: exclude_one_def seg_lin_def word_less_nat_alt)
  then have ex: "exclude_segment (paddr_to_vaddr_general k) (phys_start p) en [p] = [?q]"
    using exclude_segment_at [of "[]" "[]" k "phys_start p" en p] b(1) le by (simp add: word_less_nat_alt)
  have sz: "unat (file_size ?q) = unat (phys_end p) - unat en"
    using assms(1) le unat_minus64 [of "phys_start p" en] unat_minus64 [of "en - phys_start p" "file_size p"]
    by (simp add: seg_lin_def word_le_nat_alt)
  have "seg_wf ?q" using assms(1) sz le by (auto simp: seg_wf_def seg_lin_def)
  then have "paddr_to_offset [?q] a = (a - en) + file_offset p"
    using covers_word [of ?q a] sz le by (auto simp: covers_def)
  moreover have "paddr_to_offset [p] a = (a - phys_start p) + file_offset p"
    using covers_word [of p a] assms(1) le by (auto simp: covers_def seg_lin_def)
  ultimately show ?thesis by (simp add: ex)
qed

theorem exclude_prefix_shifts_witness:
  "paddr_to_offset (exclude_segment (paddr_to_vaddr_general 0x80000000) 0x100000 0x180000 [sample_loads ! 1]) 0x200000
     = 0x120000 \<and> paddr_to_offset [sample_loads ! 1] 0x200000 = 0x1a0000"
  using exclude_prefix_shifts [of "0x80000000" "sample_loads ! 1" "0x180000" "0x200000"]
  by (simp add: sample_loads_def seg_lin_def seg_wf_def)

section \<open>Note segments\<close>

text \<open>A note with its name (without terminator), type and descriptor, and its encoding.\<close>

type_synonym elf_note = "u8 list \<times> nat \<times> u8 list"

definition pad4 :: "u8 list \<Rightarrow> u8 list" where
  "pad4 bs = bs @ replicate ((length bs + 3) div 4 * 4 - length bs) 0"

definition enc_note :: "elf_note \<Rightarrow> u8 list" where
  "enc_note n = (case n of (s, ty, d) \<Rightarrow>
     le_bytes 4 (length s + 1) @ le_bytes 4 (length d) @ le_bytes 4 ty @ pad4 (s @ [0]) @ pad4 d)"

definition note_ok :: "elf_note \<Rightarrow> bool" where
  "note_ok n = (case n of (s, ty, d) \<Rightarrow>
     0 \<notin> set s \<and> length s < 2 ^ 31 \<and> ty < 2 ^ 32 \<and> length d < 2 ^ 31)"

abbreviation asc :: "string \<Rightarrow> u8 list" where
  "asc s \<equiv> map of_char s"

definition note_effect :: "u64 \<Rightarrow> elf_note \<Rightarrow> elf_state \<Rightarrow> elf_state" where
  "note_effect off n st = (case n of (s, ty, d) \<Rightarrow>
     (let od = off + of_nat (12 + length (pad4 (s @ [0]))); sz = of_nat (length d)
      in if s = asc ''CORE'' then if ty = 1 then st\<lparr>nr_cpus := nr_cpus st + 1\<rparr> else st
         else if s = asc ''VMCOREINFO'' then if ty = 0 then set_vmcoreinfo od sz st else st
         else if s = asc ''VMCOREINFO_XEN''
         then if ty = 0 then st\<lparr>offset_vmcoreinfo_xen := od, size_vmcoreinfo_xen := sz\<rparr> else st
         else if s = asc ''Xen''
         then if ty = 0x1000001
              then st\<lparr>memory_xen := True, offset_xen_crash_info := od, size_xen_crash_info := sz\<rparr> else st
         else if s = asc ''ERASEINFO'' then if ty = 0 then set_eraseinfo od sz st else st
         else st))"

fun notes_effect :: "u64 \<Rightarrow> elf_note list \<Rightarrow> elf_state \<Rightarrow> elf_state" where
  "notes_effect off [] st = st"
| "notes_effect off (n # ns) st =
     notes_effect (off + of_nat (length (enc_note n))) ns (note_effect off n st)"

lemma length_pad4: "length (pad4 bs) = (length bs + 3) div 4 * 4"
  by (simp add: pad4_def)

lemma length_pad4_ge: "length bs \<le> length (pad4 bs)"
  by (simp add: pad4_def)

lemma length_pad4_le: "length (pad4 bs) \<le> length bs + 3"
  by (simp add: length_pad4)

lemma unat_of_nat32: "n < 2 ^ 32 \<Longrightarrow> unat (of_nat n :: u32) = n"
  by (rule of_nat_inverse [OF refl]) simp

lemma unat_roundup4: "n + 3 < 2 ^ 32 \<Longrightarrow> unat (roundup4 (of_nat n)) = (n + 3) div 4 * 4"
proof -
  assume n: "n + 3 < 2 ^ 32"
  have "(of_nat n :: u32) + 3 = of_nat (n + 3)" by simp
  then have s: "unat ((of_nat n :: u32) + 3) = n + 3" using unat_of_nat32 [OF n] by (simp only:)
  have "(n + 3) div 4 * 4 \<le> n + 3" by simp
  with n have "(n + 3) div 4 * 4 < 2 ^ 32" by linarith
  then show ?thesis by (simp add: roundup4_def unat_word_ariths(2) unat_div_distrib s)
qed

lemma header_fields:
  assumes "a < 2 ^ 32" "b < 2 ^ 32" "c < 2 ^ 32"
  defines "h \<equiv> le_bytes 4 a @ le_bytes 4 b @ le_bytes 4 c"
  shows "note_namesz h = of_nat a" "note_descsz h = of_nat b" "note_type h = of_nat c" "length h = 12"
  using assms by (simp_all add: note_namesz_def note_descsz_def note_type_def get32_def get_le_def)

lemma note_offsets:
  assumes "a + 3 < 2 ^ 32" "b + 3 < 2 ^ 32" "c < 2 ^ 32"
  defines "h \<equiv> le_bytes 4 a @ le_bytes 4 b @ le_bytes 4 c"
  shows "offset_note_desc h = of_nat (12 + (a + 3) div 4 * 4)"
    "offset_next_note h = of_nat (12 + (a + 3) div 4 * 4 + (b + 3) div 4 * 4)"
proof -
  have f: "note_namesz h = of_nat a" "note_descsz h = of_nat b"
    using header_fields [of a b c] assms by simp_all
  have r: "(ucast (roundup4 (of_nat n)) :: u64) = of_nat ((n + 3) div 4 * 4)" if "n + 3 < 2 ^ 32" for n
  proof -
    have "(n + 3) div 4 * 4 \<le> n + 3" by simp
    moreover have "n + 3 < 2 ^ 64" using that by simp
    ultimately have "(n + 3) div 4 * 4 < 2 ^ 64" by (rule le_less_trans)
    then show ?thesis using unat_roundup4 [OF that] unat_of_nat64 [of "(n + 3) div 4 * 4"]
      by (simp add: word_unat_eq_iff)
  qed
  show "offset_note_desc h = of_nat (12 + (a + 3) div 4 * 4)"
    using r [OF assms(1)] by (simp add: offset_note_desc_def f)
  show "offset_next_note h = of_nat (12 + (a + 3) div 4 * 4 + (b + 3) div 4 * 4)"
    using r [OF assms(1)] r [OF assms(2)] by (simp add: offset_next_note_def f)
qed

text \<open>Comparing the 15 bytes of the buffer with a known name compares the names.\<close>

lemma strneq_name:
  assumes "0 \<notin> set s" "n = Suc (length k)" "0 \<notin> set k"
  shows "strneq n (k @ [0]) (s @ 0 # rest) = (s = k)"
  using strneq_terminated [OF assms(3,1), of rest] assms(2) by auto

lemma classify_note_effect:
  assumes "0 \<notin> set s" "ty < 2 ^ 32" "length d < 2 ^ 31"
    and od: "od = off + of_nat (12 + length (pad4 (s @ [0])))"
  shows "classify_note (s @ 0 # rest) (of_nat ty) od (scast (of_nat (length d) :: u32)) st = note_effect off (s, ty, d) st"
proof -
  have ty: "(of_nat ty = (of_nat m :: u32)) = (ty = m)" if "m < 2 ^ 32" for m
    using assms(2) that unat_of_nat32 [of ty] unat_of_nat32 [of m] by (metis word_unat_eq_iff)
  have sz: "scast (of_nat (length d) :: u32) = (of_nat (length d) :: u64)"
  proof -
    have "sint (of_nat (length d) :: u32) = int (length d)"
      using assms(3) by (simp add: signed_of_nat signed_take_bit_int_eq_self)
    then show ?thesis by (metis of_int_of_nat_eq of_int_sint scast_eq)
  qed
  have "(of_nat ty = (1 :: u32)) = (ty = 1)" "(of_nat ty = (0 :: u32)) = (ty = 0)"
    "(of_nat ty = (0x1000001 :: u32)) = (ty = 0x1000001)"
    using ty [of 1] ty [of 0] ty [of "0x1000001"] by simp_all
  moreover have "strneq 5 (cstr ''CORE'') (s @ 0 # rest) = (s = asc ''CORE'')"
    "strneq 11 (cstr ''VMCOREINFO'') (s @ 0 # rest) = (s = asc ''VMCOREINFO'')"
    "strneq 15 (cstr ''VMCOREINFO_XEN'') (s @ 0 # rest) = (s = asc ''VMCOREINFO_XEN'')"
    "strneq 4 (cstr ''Xen'') (s @ 0 # rest) = (s = asc ''Xen'')"
    "strneq 10 (cstr ''ERASEINFO'') (s @ 0 # rest) = (s = asc ''ERASEINFO'')"
    unfolding cstr_def by (rule strneq_name [OF assms(1)]; simp)+
  ultimately show ?thesis
    unfolding classify_note_def note_effect_def sz od Let_def case_prod_conv by (simp only: )
qed

lemma length_enc_note:
  "length (enc_note (s, ty, d)) = 12 + length (pad4 (s @ [0])) + length (pad4 d)"
  by (simp add: enc_note_def)

lemma note_loop_step:
  assumes c: "content f = pre @ enc_note (s, ty, d) @ rest" and off: "length pre = unat off"
    and ok: "note_ok (s, ty, d)" and rest: "15 \<le> length rest" and lim: "unat off < 2 ^ 63" and lt: "off < en"
  shows "note_loop f en off st =
     note_loop f en (off + of_nat (length (enc_note (s, ty, d)))) (note_effect off (s, ty, d) st)"
proof -
  define h where "h = le_bytes 4 (length s + 1) @ le_bytes 4 (length d) @ le_bytes 4 ty"
  have b: "length s + 1 + 3 < 2 ^ 32" "length d + 3 < 2 ^ 32" "ty < 2 ^ 32" "0 \<notin> set s" "length d < 2 ^ 31"
    using ok by (auto simp: note_ok_def)
  have h: "pread f (unat off) 12 = Some h" using c off by (simp add: pread_def enc_note_def h_def)
  have F: "note_namesz h = of_nat (length s + 1)" "note_descsz h = of_nat (length d)" "note_type h = of_nat ty"
    using header_fields [of "length s + 1" "length d" ty] b by (simp_all add: h_def)
  have nx: "offset_next_note h = of_nat (length (enc_note (s, ty, d)))"
    and od: "offset_note_desc h = of_nat (12 + length (pad4 (s @ [0])))"
    using note_offsets [OF b(1-3)] by (simp_all only: h_def length_enc_note length_pad4 length_append list.size add.right_neutral One_nat_def add_0)
  have un: "unat (of_nat (length s + 1) :: u32) = length s + 1" by (rule unat_of_nat32) (use b in simp)
  have nz: "note_namesz h \<noteq> 0" "(note_namesz h > 15) = (14 < length s)"
    using un unfolding F by (auto simp: word_less_nat_alt simp del: of_nat_add of_nat_Suc)
  show ?thesis
  proof (cases "14 < length s")
    case True
    have long: "s \<noteq> asc k" if "length k \<le> 14" for k using that True by auto
    then have "note_effect off (s, ty, d) st = st" by (simp add: note_effect_def del: list.map)
    with True show ?thesis using lt lim h nz by (subst note_loop.simps) (simp add: nx)
  next
    case False
    obtain z where z: "pad4 (s @ [0]) = s @ 0 # z" by (auto simp: pad4_def)
    let ?tl = "take (14 - length s) (z @ pad4 d @ rest)"
    have "15 - length s = Suc (14 - length s)" using False by simp
    then have "take 15 (pad4 (s @ [0]) @ pad4 d @ rest) = s @ 0 # ?tl"
      using False unfolding z by simp
    then have nm: "pread f (unat off + 12) 15 = Some (s @ 0 # ?tl)"
      using c off rest by (simp add: pread_def enc_note_def)
    show ?thesis using lt lim h nz nm False classify_note_effect [OF b(4,3,5) refl, where off = off and rest = "?tl" and st = st]
      by (subst note_loop.simps) (simp add: nx od F(2,3))
  qed
qed

lemma note_loop_notes:
  assumes "content f = pre @ concat (map enc_note ns) @ post" "length pre = unat off"
    and "\<forall>n\<in>set ns. note_ok n" "15 \<le> length post" "length (content f) < 2 ^ 63"
    and "unat en = unat off + length (concat (map enc_note ns))"
  shows "note_loop f en off st = (True, notes_effect off ns st)"
  using assms
proof (induction ns arbitrary: pre off st)
  case Nil
  then show ?case by (subst note_loop.simps) (simp add: word_less_nat_alt)
next
  case (Cons n ns)
  obtain s ty d where n: "n = (s, ty, d)" by (cases n)
  let ?off = "off + of_nat (length (enc_note n))"
  have len: "length pre + length (enc_note n) < 2 ^ 63" using Cons.prems(1,5) by simp
  then have u: "unat ?off = unat off + length (enc_note n)"
    using Cons.prems(2) unat_plus64 [of off "of_nat (length (enc_note n))"]
      unat_of_nat64 [of "length (enc_note n)"] by simp
  have "0 < length (enc_note n)" by (simp add: n length_enc_note)
  then have "off < en" using Cons.prems(6) by (simp add: word_less_nat_alt)
  then have "note_loop f en off st = note_loop f en ?off (note_effect off n st)"
    using note_loop_step [of f pre s ty d "concat (map enc_note ns) @ post" off en st] Cons.prems len n by auto
  moreover have "note_loop f en ?off (note_effect off n st) = (True, notes_effect ?off ns (note_effect off n st))"
    by (rule Cons.IH [of "pre @ enc_note n"]) (use Cons.prems u in auto)
  ultimately show ?case by simp
qed

text \<open>What a whole segment of notes leaves behind.\<close>

lemma notes_effect_cpus:
  "nr_cpus (notes_effect off ns st) =
     nr_cpus st + int (length (filter (\<lambda>(s, ty, d). s = asc ''CORE'' \<and> ty = 1) ns))"
  by (induction ns arbitrary: off st)
    (auto simp: note_effect_def Let_def set_vmcoreinfo_def set_eraseinfo_def split: prod.splits)

definition is_vmcoreinfo :: "elf_note \<Rightarrow> bool" where
  "is_vmcoreinfo n = (case n of (s, ty, d) \<Rightarrow> s = asc ''VMCOREINFO'' \<and> ty = 0)"

lemma note_effect_vmcoreinfo:
  "offset_vmcoreinfo (note_effect off n st) = (if is_vmcoreinfo n
     then off + of_nat (12 + length (pad4 (fst n @ [0]))) else offset_vmcoreinfo st)"
  "size_vmcoreinfo (note_effect off n st) = (if is_vmcoreinfo n
     then of_nat (length (snd (snd n))) else size_vmcoreinfo st)"
  by (auto simp: note_effect_def is_vmcoreinfo_def Let_def set_vmcoreinfo_def set_eraseinfo_def split: prod.splits)

lemma notes_effect_none:
  "\<forall>n\<in>set ns. \<not> is_vmcoreinfo n \<Longrightarrow>
     offset_vmcoreinfo (notes_effect off ns st) = offset_vmcoreinfo st \<and>
     size_vmcoreinfo (notes_effect off ns st) = size_vmcoreinfo st"
  by (induction ns arbitrary: off st) (simp_all add: note_effect_vmcoreinfo)

lemma notes_effect_append:
  "notes_effect off (xs @ ys) st =
     notes_effect (off + of_nat (length (concat (map enc_note xs)))) ys (notes_effect off xs st)"
  by (induction xs arbitrary: off st) (simp_all add: add.assoc)

text \<open>
  C10. Reading the notes of a dump back: for a PT_NOTE segment that encodes the notes \<open>ns\<close>,
  \<^verbatim>\<open>get_pt_note_info\<close> always returns, succeeds, counts exactly the NT_PRSTATUS notes of the
  kernel as CPUs, and locates the vmcoreinfo: the bytes of the file at the offset and of the
  size it records are the descriptor of the last vmcoreinfo note.
\<close>

theorem get_pt_note_info_roundtrip:
  assumes c: "content f = pre @ concat (map enc_note ns) @ post" and "\<forall>n\<in>set ns. note_ok n"
    and "15 \<le> length post" and len: "length (content f) < 2 ^ 63"
    and off: "unat (offset_pt_note_memory st) = length pre"
    and sz: "unat (size_pt_note_memory st) = length (concat (map enc_note ns))"
  shows "\<exists>st'. get_pt_note_info f st = (True, st') \<and>
     nr_cpus st' = int (length (filter (\<lambda>(s, ty, d). s = asc ''CORE'' \<and> ty = 1) ns)) \<and>
     (\<forall>ns1 n ns2. ns = ns1 @ n # ns2 \<longrightarrow> is_vmcoreinfo n \<longrightarrow> (\<forall>m\<in>set ns2. \<not> is_vmcoreinfo m) \<longrightarrow>
        take (unat (size_vmcoreinfo st')) (drop (unat (offset_vmcoreinfo st')) (content f)) = snd (snd n))"
proof -
  let ?o = "offset_pt_note_memory st" and ?st = "st\<lparr>nr_cpus := 0\<rparr>"
  have "unat (?o + size_pt_note_memory st) = unat ?o + length (concat (map enc_note ns))"
    using unat_plus64 [of ?o "size_pt_note_memory st"] len c off sz by simp
  then have run: "get_pt_note_info f st = (True, notes_effect ?o ns ?st)"
    using note_loop_notes [OF c off [symmetric] assms(2,3) len] by (simp add: get_pt_note_info_def)
  have "take (unat (size_vmcoreinfo (notes_effect ?o ns ?st)))
      (drop (unat (offset_vmcoreinfo (notes_effect ?o ns ?st))) (content f)) = snd (snd n)"
    if ns: "ns = ns1 @ n # ns2" and n: "is_vmcoreinfo n" and last: "\<forall>m\<in>set ns2. \<not> is_vmcoreinfo m" for ns1 n ns2
  proof -
    obtain nm ty d where nd: "n = (nm, ty, d)" by (cases n)
    let ?k = "length (concat (map enc_note ns1)) + (12 + length (pad4 (nm @ [0])))"
    have "offset_vmcoreinfo (notes_effect ?o ns ?st) = ?o + of_nat ?k"
      "size_vmcoreinfo (notes_effect ?o ns ?st) = of_nat (length d)"
      using notes_effect_none [OF last] n nd by (simp_all add: ns notes_effect_append note_effect_vmcoreinfo add.assoc)
    moreover have "unat ?o + ?k < 2 ^ 63" "length d < 2 ^ 63"
      using len c off ns nd assms(2) by (simp_all add: length_enc_note note_ok_def)
    then have "unat (?o + of_nat ?k) = length pre + ?k" "unat (of_nat (length d) :: u64) = length d"
      using unat_plus64 [of ?o "of_nat ?k"] unat_of_nat64 [of ?k] unat_of_nat64 [of "length d"] off
      by (simp_all del: of_nat_add)
    moreover have "content f = (pre @ concat (map enc_note ns1) @
        (le_bytes 4 (length nm + 1) @ le_bytes 4 (length d) @ le_bytes 4 ty) @ pad4 (nm @ [0])) @
        pad4 d @ concat (map enc_note ns2) @ post"
      using c ns nd by (simp add: enc_note_def)
    then have "drop (length pre + ?k) (content f) = pad4 d @ concat (map enc_note ns2) @ post"
      by (simp only: drop_append) simp
    ultimately show ?thesis by (simp add: nd pad4_def)
  qed
  then show ?thesis using run notes_effect_cpus [of ?o ns ?st] by (intro exI [of _ "notes_effect ?o ns ?st"]) simp
qed

definition note_state :: elf_state where
  "note_state = \<lparr>nr_cpus = 0, max_file_offset = 0, memory_elf64 = True, memory_xen = False, pt_loads = [],
     offset_pt_note_memory = 16, size_pt_note_memory = 52, offset_vmcoreinfo = 0, size_vmcoreinfo = 0,
     offset_vmcoreinfo_xen = 0, size_vmcoreinfo_xen = 0, offset_eraseinfo = 0, size_eraseinfo = 0,
     offset_xen_crash_info = 0, size_xen_crash_info = 0\<rparr>"

theorem get_pt_note_info_roundtrip_witness:
  "let ns = [(asc ''CORE'', 1, [7, 8]), (asc ''VMCOREINFO'', 0, [1, 2, 3])];
       f = \<lparr>content = replicate 16 0 @ concat (map enc_note ns) @ replicate 15 0, capacity = 1000\<rparr>
   in \<exists>st'. get_pt_note_info f note_state = (True, st') \<and> nr_cpus st' = 1 \<and>
     take (unat (size_vmcoreinfo st')) (drop (unat (offset_vmcoreinfo st')) (content f)) = [1, 2, 3]"
proof -
  let ?ns = "[(asc ''CORE'', 1, [7, 8]), (asc ''VMCOREINFO'', 0, [1, 2, 3])] :: elf_note list"
  let ?f = "\<lparr>content = replicate 16 0 @ concat (map enc_note ?ns) @ replicate 15 0, capacity = 1000\<rparr>"
  have ok: "\<forall>n\<in>set ?ns. note_ok n" by (simp add: note_ok_def)
  have len: "length (concat (map enc_note ?ns)) = 52" by (simp add: length_enc_note length_pad4)
  from get_pt_note_info_roundtrip [of ?f "replicate 16 0" ?ns "replicate 15 0" note_state] ok len
  obtain st' where st': "get_pt_note_info ?f note_state = (True, st')"
      "nr_cpus st' = int (length (filter (\<lambda>(s, ty, d). s = asc ''CORE'' \<and> ty = 1) ?ns))"
      "\<forall>ns1 n ns2. ?ns = ns1 @ n # ns2 \<longrightarrow> is_vmcoreinfo n \<longrightarrow> (\<forall>m\<in>set ns2. \<not> is_vmcoreinfo m) \<longrightarrow>
        take (unat (size_vmcoreinfo st')) (drop (unat (offset_vmcoreinfo st')) (content ?f)) = snd (snd n)"
    by (auto simp: note_state_def)
  from st'(3) [rule_format, of "[hd ?ns]" "?ns ! 1" "[]"] st'(1,2)
  show ?thesis unfolding Let_def by (intro exI [of _ st']) (simp add: is_vmcoreinfo_def)
qed

section \<open>The segment table\<close>

lemma classify_note_keeps:
  "pt_loads (classify_note nm ty od sz st) = pt_loads st"
  "max_file_offset (classify_note nm ty od sz st) = max_file_offset st"
  "memory_elf64 (classify_note nm ty od sz st) = memory_elf64 st"
  by (simp_all add: classify_note_def set_vmcoreinfo_def set_eraseinfo_def)

lemma note_loop_keeps:
  "pt_loads (snd (note_loop f en off st)) = pt_loads st \<and>
   max_file_offset (snd (note_loop f en off st)) = max_file_offset st \<and>
   memory_elf64 (snd (note_loop f en off st)) = memory_elf64 st"
proof (induction f en off st rule: note_loop.induct)
  case (1 f en off st)
  show ?case
    by (subst (1 2 3) note_loop.simps) (auto simp: 1 classify_note_keeps not_le split: option.split)
qed

lemma phdr_loop_loads:
  assumes "those (map (get_phdr_memory f st) is) = Some phs" and "length (pt_loads st) + num_load phs \<le> n"
  shows "\<exists>st'. phdr_loop f n is st = (True, st') \<and> memory_elf64 st' = memory_elf64 st \<and>
     pt_loads st' = pt_loads st @ List.map_filter dump_Elf_load phs"
  using assms
proof (induction "is" arbitrary: st phs)
  case (Cons i "is")
  then obtain p ps where p: "get_phdr_memory f st i = Some p" "phs = p # ps"
    "those (map (get_phdr_memory f st) is) = Some ps"
    by (auto split: option.splits)
  define st1 where "st1 = (if p_type p = PT_NOTE then set_pt_note (p_offset p) (p_filesz p) st else st)"
  have st1: "pt_loads st1 = pt_loads st" "memory_elf64 st1 = memory_elf64 st"
    by (simp_all add: st1_def set_pt_note_def)
  have rd: "those (map (get_phdr_memory f t) is) = Some ps" if "memory_elf64 t = memory_elf64 st" for t
    using p(3) that by (simp add: get_phdr_memory_def [abs_def] cong: map_cong)
  show ?case
  proof (cases "p_type p = PT_LOAD")
    case True
    then obtain pls where pls: "dump_Elf_load p = Some pls" by (simp add: dump_Elf_load_def)
    have "length (pt_loads st1 @ [pls]) + num_load ps \<le> n" using Cons.prems(2) True st1 p(2) by (simp add: num_load_def)
    with Cons.IH [of "st1\<lparr>pt_loads := pt_loads st1 @ [pls]\<rparr>" ps] rd st1
    obtain st' where "phdr_loop f n is (st1\<lparr>pt_loads := pt_loads st1 @ [pls]\<rparr>) = (True, st')"
      "memory_elf64 st' = memory_elf64 st" "pt_loads st' = pt_loads st @ [pls] @ List.map_filter dump_Elf_load ps" by auto
    moreover have "length (pt_loads st1) < n" using Cons.prems(2) True st1 p(2) by (simp add: num_load_def)
    moreover have ne: "PT_LOAD \<noteq> PT_NOTE" by (simp add: PT_LOAD_def PT_NOTE_def)
    moreover have "st1 = st" by (simp add: st1_def True ne)
    ultimately show ?thesis using p True pls by (simp add: map_filter_simps)
  next
    case False
    then have "dump_Elf_load p = None" by (simp add: dump_Elf_load_def)
    moreover have "length (pt_loads st1) + num_load ps \<le> n" using Cons.prems(2) False st1 p(2) by (simp add: num_load_def)
    moreover note Cons.IH [of st1 ps] rd [of st1] st1
    ultimately show ?thesis using p False by (simp add: st1_def [symmetric] map_filter_simps Let_def)
  qed
qed (simp add: map_filter_simps)

lemma fold_max_ge: "p \<in> set ps \<Longrightarrow> seg_file_end p \<le> fold (\<lambda>p m. if m > seg_file_end p then m else seg_file_end p) ps m"
proof (induction ps arbitrary: m)
  case (Cons q ps)
  have mono: "m \<le> fold (\<lambda>p m. if m > seg_file_end p then m else seg_file_end p) ps m" for m
  proof (induction ps arbitrary: m)
    case (Cons r ps)
    have "m \<le> (if m > seg_file_end r then m else seg_file_end r)" by (simp add: not_less)
    with Cons show ?case by (auto intro: order_trans)
  qed simp
  show ?case
  proof (cases "p = q")
    case True
    have "seg_file_end p \<le> (if m > seg_file_end p then m else seg_file_end p)" by (simp add: less_imp_le)
    with mono True show ?thesis by (auto intro: order_trans)
  next
    case False
    with Cons show ?thesis by simp
  qed
qed simp

definition phdr_reader :: "elf_class \<Rightarrow> fstate \<Rightarrow> nat \<Rightarrow> Elf_Phdr option" where
  "phdr_reader cls f = (case cls of ELF64 \<Rightarrow> get_elf64_phdr f | ELF32 \<Rightarrow> get_elf32_phdr f)"

lemma check_elf_format_phdrs:
  "check_elf_format f = Some (cls, phnum, n) \<Longrightarrow>
     \<exists>phs. read_phdrs (phdr_reader cls f) phnum = Some phs \<and> n = num_load phs"
  by (auto simp: check_elf_format_def phdr_reader_def Let_def split: option.splits if_splits)

lemma num_load_map_filter: "num_load phs = length (List.map_filter dump_Elf_load phs)"
  by (induction phs) (simp_all add: num_load_def map_filter_simps dump_Elf_load_def)

text \<open>
  C30. Once the file is recognised as ELF with PT_LOAD headers, \<^verbatim>\<open>get_elf_info\<close> reads every program
  header again without failing, its segment table has one entry per PT_LOAD header in their
  order (no entry is lost and the table does not overflow), and \<^verbatim>\<open>max_file_offset\<close> bounds the end of every
  segment in the file.
\<close>

theorem get_elf_info_segments:
  assumes "check_elf_format f = Some (cls, phnum, n)" and "0 < n" and "\<not> memory_elf64 st"
  shows "\<exists>phs. read_phdrs (phdr_reader cls f) phnum = Some phs \<and>
     (let st' = snd (get_elf_info fs f st)
      in memory_elf64 st' = (cls = ELF64) \<and> length (pt_loads st') = n \<and>
         pt_loads st' = List.map_filter dump_Elf_load phs \<and>
         (\<forall>p\<in>set (pt_loads st'). seg_file_end p \<le> max_file_offset st'))"
proof -
  obtain phs where phs: "read_phdrs (phdr_reader cls f) phnum = Some phs" "n = num_load phs"
    using check_elf_format_phdrs [OF assms(1)] by blast
  let ?st = "(if cls = ELF64 then st\<lparr>memory_elf64 := True\<rparr> else st)\<lparr>pt_loads := []\<rparr>"
  have "get_phdr_memory f ?st = phdr_reader cls f"
    using assms(3) by (cases cls) (auto simp: get_phdr_memory_def phdr_reader_def fun_eq_iff)
  then obtain st2 where st2: "phdr_loop f n [0..<nat phnum] ?st = (True, st2)"
    "memory_elf64 st2 = memory_elf64 ?st" "pt_loads st2 = List.map_filter dump_Elf_load phs"
    using phdr_loop_loads [of f ?st "[0..<nat phnum]" phs n] phs by (auto simp: read_phdrs_def)
  let ?st3 = "st2\<lparr>max_file_offset := compute_max_file_offset (pt_loads st2)\<rparr>"
  have "snd (get_elf_info fs f st) =
      (if has_pt_note fs ?st3 then snd (get_pt_note_info f ?st3) else ?st3)"
    using assms st2(1) by (simp add: get_elf_info_def Let_def)
  then have "pt_loads (snd (get_elf_info fs f st)) = pt_loads st2"
    "max_file_offset (snd (get_elf_info fs f st)) = compute_max_file_offset (pt_loads st2)"
    "memory_elf64 (snd (get_elf_info fs f st)) = memory_elf64 st2"
    by (simp_all add: get_pt_note_info_def note_loop_keeps)
  moreover have "\<forall>p\<in>set (pt_loads st2). seg_file_end p \<le> compute_max_file_offset (pt_loads st2)"
    by (simp add: compute_max_file_offset_def fold_max_ge)
  moreover have "memory_elf64 st2 = (cls = ELF64)" using st2(2) assms(3) by auto
  ultimately show ?thesis using phs st2(3) num_load_map_filter [of phs] by (auto simp: Let_def)
qed

text \<open>A 32-bit file with one PT_LOAD header.\<close>

definition elf32_file :: fstate where
  "elf32_file = \<lparr>content = replicate 4 0 @ [1] @ replicate 39 0 @ [1, 0] @ replicate 6 0 @
      [1, 0, 0, 0, 0, 16] @ replicate 26 0, capacity = 1000\<rparr>"

theorem get_elf_info_segments_witness:
  "let st' = snd (get_elf_info False elf32_file (note_state\<lparr>memory_elf64 := False\<rparr>))
   in \<not> memory_elf64 st' \<and> length (pt_loads st') = 1"
proof -
  have "check_elf_format elf32_file = Some (ELF32, 1, 1)" by code_simp
  from get_elf_info_segments [OF this, of "note_state\<lparr>memory_elf64 := False\<rparr>" False]
  show ?thesis by (auto simp: Let_def)
qed

end
