(* ===== verification/Bitmap_Create.thy ===== *)
theory Bitmap_Create
  imports Bitmap Elf_Info
begin

text \<open>
  Filling the bitmaps (\<^verbatim>\<open>src/makedumpfile.c\<close>): the first bitmap from the PT_LOAD segments, the
  second one as a copy or from the segments, ranges and zero pages excluded from the second one.
  The state is the two bitmaps and the counters of the report. Code that reads memory takes
  \<^verbatim>\<open>readmem\<close> as an argument.
\<close>

section \<open>Page frames and addresses\<close>

text \<open>The members of \<^verbatim>\<open>struct DumpInfo\<close> that describe pages and the Xen translation.\<close>

record page_info = bitmap_info +
  page_size :: u64
  page_shift :: nat
  arch_pfn_offset :: u64
  max_mapnr :: u64
  xen_memory :: bool
  p2m_mfn_frame_list :: "u64 list"

record dstate =
  bms :: bitmaps
  cnt :: "counter \<Rightarrow> u64"

definition paddr_to_pfn :: "('a) page_info_scheme \<Rightarrow> u64 \<Rightarrow> u64" where
  "paddr_to_pfn pi x = drop_bit (page_shift pi) x - arch_pfn_offset pi"

definition pfn_to_paddr :: "('a) page_info_scheme \<Rightarrow> u64 \<Rightarrow> u64" where
  "pfn_to_paddr pi x = push_bit (page_shift pi) (x + arch_pfn_offset pi)"

definition PAGEOFFSET :: "('a) page_info_scheme \<Rightarrow> u64 \<Rightarrow> u64" where
  "PAGEOFFSET pi x = x AND (page_size pi - 1)"

definition MFNS_PER_FRAME :: "('a) page_info_scheme \<Rightarrow> u64" where
  "MFNS_PER_FRAME pi = page_size pi div 8"

text \<open>\<^verbatim>\<open>ptom_xen\<close>; \<open>rd\<close> reads the 8 bytes at a machine address.\<close>

definition ptom_xen :: "('a) page_info_scheme \<Rightarrow> (u64 \<Rightarrow> u64 option) \<Rightarrow> u64 \<Rightarrow> u64" where
  "ptom_xen pi rd paddr =
     (let pfn = paddr_to_pfn pi paddr;
          mfn_idx = pfn div MFNS_PER_FRAME pi;
          frame_idx = pfn mod MFNS_PER_FRAME pi
      in if unat mfn_idx \<ge> length (p2m_mfn_frame_list pi) then NOT_PADDR
         else case rd (pfn_to_paddr pi (p2m_mfn_frame_list pi ! unat mfn_idx) + 8 * frame_idx) of
           None \<Rightarrow> NOT_PADDR
         | Some mfn \<Rightarrow> pfn_to_paddr pi mfn OR PAGEOFFSET pi paddr)"

text \<open>The frame of the machine for a frame of the kernel; \<open>None\<close> if there is none.\<close>

definition kernel_pfn :: "('a) page_info_scheme \<Rightarrow> (u64 \<Rightarrow> u64 option) \<Rightarrow> u64 \<Rightarrow> u64 option" where
  "kernel_pfn pi rd pfn =
     (if xen_memory pi
      then (let maddr = ptom_xen pi rd (pfn_to_paddr pi pfn)
            in if maddr = NOT_PADDR then None else Some (paddr_to_pfn pi maddr))
      else Some pfn)"

definition clear_bit_on_2nd_bitmap_for_kernel ::
  "('a) page_info_scheme \<Rightarrow> (u64 \<Rightarrow> u64 option) \<Rightarrow> u64 \<Rightarrow> cycle option \<Rightarrow> bitmaps \<Rightarrow> (bool \<times> bitmaps) option" where
  "clear_bit_on_2nd_bitmap_for_kernel pi rd pfn co st = (case kernel_pfn pi rd pfn of
     None \<Rightarrow> Some (False, st) | Some p \<Rightarrow> clear_bit_on_2nd_bitmap p co st)"


section \<open>The first bitmap\<close>

definition count_byte :: "u8 \<Rightarrow> nat" where
  "count_byte b = (if b = 0 then 0 else if b = 0xff then 8
     else length (filter (\<lambda>j. b AND push_bit j 1 \<noteq> 0) [0..<8]))"

definition count_bits :: "u8 list \<Rightarrow> nat" where
  "count_bits b = sum_list (map count_byte b)"

definition add_cnt :: "counter \<Rightarrow> u64 \<Rightarrow> dstate \<Rightarrow> dstate" where
  "add_cnt k d st = st\<lparr>cnt := (cnt st)(k := cnt st k + d)\<rparr>"

text \<open>
  \<^verbatim>\<open>copy_1st_bitmap_from_memory\<close>: block by block from the input file, from \<open>src\<close> on, to the first
  bitmap; \<open>k\<close> bytes are left. With a block size of 0 the loop would not end (\<open>None\<close>).
\<close>

function copy_blocks :: "nat \<Rightarrow> fstate \<Rightarrow> nat \<Rightarrow> nat \<Rightarrow> int \<Rightarrow> dstate \<Rightarrow> (bool \<times> dstate) option" where
  "copy_blocks bs fmem src dst k st =
     (if k \<le> 0 then Some (True, st)
      else if bs = 0 then None
      else case pread fmem src bs of None \<Rightarrow> Some (False, st)
        | Some b \<Rightarrow>
            (let st1 = add_cnt Pfn_memhole (- of_nat (count_bits b)) st
             in case pwrite (bmfile (bms st1)) dst b of None \<Rightarrow> Some (False, st1)
               | Some f' \<Rightarrow> copy_blocks bs fmem (src + bs) (dst + bs) (k - int bs)
                   (st1\<lparr>bms := (bms st1)\<lparr>bmfile := f'\<rparr>\<rparr>)))"
  by pat_completeness auto

termination copy_blocks
  by (relation "measure (\<lambda>(bs, fmem, src, dst, k, st). nat k)") auto

definition copy_1st_bitmap_from_memory :: "('a) page_info_scheme \<Rightarrow> fstate \<Rightarrow> nat \<Rightarrow> nat \<Rightarrow> dstate \<Rightarrow> (bool \<times> dstate) option" where
  "copy_1st_bitmap_from_memory pi fmem sub_hdr_size block_size st =
     copy_blocks block_size fmem ((1 + sub_hdr_size) * block_size) (offset (bitmap1 (bms st)))
       (int (len_bitmap pi div 2)) st"






section \<open>Bitmaps from the segments in cyclic mode\<close>

text \<open>Which of the two bitmaps, as \<^verbatim>\<open>create_bitmap_from_memhole\<close> is told by its arguments.\<close>

datatype which_map = First | Second

definition bm_of :: "which_map \<Rightarrow> bitmaps \<Rightarrow> dump_bitmap" where
  "bm_of w st = (case w of First \<Rightarrow> bitmap1 st | Second \<Rightarrow> bitmap2 st)"

definition upd_bm :: "which_map \<Rightarrow> (dump_bitmap \<Rightarrow> dump_bitmap) \<Rightarrow> bitmaps \<Rightarrow> bitmaps" where
  "upd_bm w h st = (case w of First \<Rightarrow> st\<lparr>bitmap1 := h (bitmap1 st)\<rparr> | Second \<Rightarrow> st\<lparr>bitmap2 := h (bitmap2 st)\<rparr>)"

definition memset_ff :: "nat \<Rightarrow> nat \<Rightarrow> u8 list \<Rightarrow> u8 list option" where
  "memset_ff off n b =
     (if off + n \<le> length b then Some (take off b @ replicate n 0xff @ drop (off + n) b) else None)"

definition memhole_bit :: "bool \<Rightarrow> (u64 \<Rightarrow> bitmaps \<Rightarrow> (bool \<times> bitmaps) option) \<Rightarrow> u64 \<Rightarrow> dstate \<Rightarrow> (bool \<times> dstate) option" where
  "memhole_bit count_memhole setb pfn st = map_option (\<lambda>(r, b).
     (r, if r \<and> count_memhole then add_cnt Pfn_memhole (-1) (st\<lparr>bms := b\<rparr>) else st\<lparr>bms := b\<rparr>))
     (setb pfn (bms st))"

definition memhole_fill :: "which_map \<Rightarrow> bool \<Rightarrow> nat \<Rightarrow> nat \<Rightarrow> dstate \<Rightarrow> dstate option" where
  "memhole_fill w count_memhole sb eb st =
     (if sb < eb
      then map_option (\<lambda>b. let st2 = st\<lparr>bms := upd_bm w (\<lambda>bm. bm\<lparr>buf := b\<rparr>) (bms st)\<rparr>
             in if count_memhole then add_cnt Pfn_memhole (- of_nat (8 * (eb - sb))) st2 else st2)
           (memset_ff sb (eb - sb) (buf (bm_of w (bms st))))
      else Some st)"

definition memhole_load ::
  "('a) page_info_scheme \<Rightarrow> which_map \<Rightarrow> bool \<Rightarrow> (u64 \<Rightarrow> bitmaps \<Rightarrow> (bool \<times> bitmaps) option) \<Rightarrow> cycle \<Rightarrow>
   pt_load_segment \<Rightarrow> dstate \<Rightarrow> (bool \<times> dstate) option" where
  "memhole_load pi w count_memhole setb c p st =
     (let pfn_start = max (paddr_to_pfn pi (phys_start p)) (start_pfn c);
          pfn_end = min (paddr_to_pfn pi (phys_end p)) (end_pfn c)
      in if pfn_start \<ge> pfn_end then Some (True, st)
         else (let pfn_start_roundup = min (roundup pfn_start BITPERBYTE) pfn_end;
                   pfn_end_round = max (round_c pfn_end BITPERBYTE) pfn_start
               in case for_pfns pfn_start pfn_start_roundup (memhole_bit count_memhole setb) st of
                    None \<Rightarrow> None
                  | Some (False, st1) \<Rightarrow> Some (False, st1)
                  | Some (True, st1) \<Rightarrow>
                      (case memhole_fill w count_memhole (unat (drop_bit 3 (pfn_start_roundup - start_pfn c)))
                              (unat (drop_bit 3 (pfn_end_round - start_pfn c))) st1 of
                         None \<Rightarrow> None
                       | Some st2 \<Rightarrow>
                           if pfn_end_round \<ge> pfn_start
                           then for_pfns pfn_end_round pfn_end (memhole_bit count_memhole setb) st2
                           else Some (True, st2))))"






section \<open>Copying and excluding\<close>

definition copy_bitmap_buffer :: "('a) page_info_scheme \<Rightarrow> dstate \<Rightarrow> bool \<times> dstate" where
  "copy_bitmap_buffer pi st =
     (let b = bms st; n = bufsize_cyclic pi
      in (True, st\<lparr>bms := b\<lparr>bitmap2 := (bitmap2 b)\<lparr>buf := take n (buf (bitmap1 b)) @ drop n (buf (bitmap2 b))\<rparr>\<rparr>\<rparr>))"

text \<open>\<^verbatim>\<open>copy_bitmap_file\<close>: from the input file when refiltering, else within the temporary file.\<close>

function copy_file_blocks :: "nat \<Rightarrow> fstate option \<Rightarrow> nat \<Rightarrow> nat \<Rightarrow> int \<Rightarrow> fstate \<Rightarrow> (bool \<times> fstate) option" where
  "copy_file_blocks bs fin src dst k f =
     (if k \<le> 0 then Some (True, f)
      else if bs = 0 then None
      else case pread (case fin of None \<Rightarrow> f | Some g \<Rightarrow> g) src bs of None \<Rightarrow> Some (False, f)
        | Some b \<Rightarrow> (case pwrite f dst b of None \<Rightarrow> Some (False, f)
            | Some f' \<Rightarrow> copy_file_blocks bs fin (src + bs) (dst + bs) (k - int bs) f'))"
  by pat_completeness auto

termination copy_file_blocks
  by (relation "measure (\<lambda>(bs, fin, src, dst, k, f). nat k)") auto

definition copy_bitmap_file ::
  "('a) page_info_scheme \<Rightarrow> (fstate \<times> nat \<times> nat) option \<Rightarrow> dstate \<Rightarrow> (bool \<times> dstate) option" where
  "copy_bitmap_file pi refilter st =
     (let b = bms st;
          (fin, base) = (case refilter of
              Some (fmem, sub_hdr_size, block_size) \<Rightarrow> (Some fmem, (1 + sub_hdr_size) * block_size + len_bitmap pi div 2)
            | None \<Rightarrow> (None, offset (bitmap1 b)))
      in map_option (\<lambda>(r, f). (r, st\<lparr>bms := b\<lparr>bmfile := f\<rparr>\<rparr>))
           (copy_file_blocks (unat (page_size pi)) fin base (offset (bitmap2 b)) (int (len_bitmap pi div 2)) (bmfile b)))"

definition copy_bitmap ::
  "('a) page_info_scheme \<Rightarrow> (fstate \<times> nat \<times> nat) option \<Rightarrow> dstate \<Rightarrow> (bool \<times> dstate) option" where
  "copy_bitmap pi refilter st =
     (if fd_bitmap pi \<ge> 0 then copy_bitmap_file pi refilter st else Some (copy_bitmap_buffer pi st))"

text \<open>
  \<^verbatim>\<open>exclude_range\<close>: the part of the range behind the cycle stays pending in the cycle; the
  counter counts every bit cleared without error.
\<close>

definition clear_count :: "counter \<Rightarrow> (u64 \<Rightarrow> bitmaps \<Rightarrow> (bool \<times> bitmaps) option) \<Rightarrow> u64 \<Rightarrow> dstate \<Rightarrow> (bool \<times> dstate) option" where
  "clear_count k clr pfn st = map_option (\<lambda>(r, b).
     (True, if r then add_cnt k 1 (st\<lparr>bms := b\<rparr>) else st\<lparr>bms := b\<rparr>)) (clr pfn (bms st))"

definition exclude_range ::
  "('a) page_info_scheme \<Rightarrow> (u64 \<Rightarrow> u64 option) \<Rightarrow> counter \<Rightarrow> u64 \<Rightarrow> u64 \<Rightarrow> cycle option \<Rightarrow> dstate \<Rightarrow>
   (cycle option \<times> dstate) option" where
  "exclude_range pi rd k pfn endpfn co st =
     (let co' = map_option (\<lambda>c. c\<lparr>exclude_pfn_start := end_pfn c, exclude_pfn_end := endpfn,
                               exclude_pfn_counter := Some k\<rparr>) co;
          e = (case co of None \<Rightarrow> endpfn | Some c \<Rightarrow> if end_pfn c < endpfn then end_pfn c else endpfn)
      in map_option (\<lambda>(_, st'). (co', st'))
           (for_pfns pfn e (clear_count k (\<lambda>p. clear_bit_on_2nd_bitmap_for_kernel pi rd p co')) st))"

text \<open>\<^verbatim>\<open>exclude_nodata_pages\<close>: frames of a segment that the file has no bytes for.\<close>

fun exclude_nodata_pages ::
  "('a) page_info_scheme \<Rightarrow> cycle \<Rightarrow> pt_load_segment list \<Rightarrow> bitmaps \<Rightarrow> bitmaps option" where
  "exclude_nodata_pages pi c [] st = Some st"
| "exclude_nodata_pages pi c (p # ps) st =
     (let pfn0 = paddr_to_pfn pi (roundup (phys_start p + file_size p) (page_size pi));
          end0 = paddr_to_pfn pi (roundup (phys_end p) (page_size pi));
          pfn = (if pfn0 < start_pfn c then start_pfn c else pfn0);
          pfn_end = (if end0 \<ge> end_pfn c then end_pfn c else end0)
      in case for_pfns pfn pfn_end (\<lambda>q b. map_option (\<lambda>(r, b'). (True, b')) (clear_bit_on_2nd_bitmap q (Some c) b)) st of
           None \<Rightarrow> None | Some (_, st') \<Rightarrow> exclude_nodata_pages pi c ps st')"

text \<open>\<^verbatim>\<open>is_in_segs\<close> for an ELF input (neither refiltering nor sadump).\<close>

definition is_in_segs :: "pt_load_segment list \<Rightarrow> u64 \<Rightarrow> bool" where
  "is_in_segs ps paddr = (paddr_to_offset ps paddr \<noteq> 0)"

text \<open>\<^verbatim>\<open>is_zero_page\<close>: 64-bit words are compared, a tail of less than 8 bytes is not looked at.\<close>

definition is_zero_page :: "u8 list \<Rightarrow> nat \<Rightarrow> bool" where
  "is_zero_page b sz = list_all (\<lambda>i. get64 b (8 * i) = 0) [0..<sz div 8]"

text \<open>\<^verbatim>\<open>exclude_zero_pages_cyclic\<close>; \<open>rdp\<close> reads a page at a physical address.\<close>

definition zero_page_step ::
  "('a) page_info_scheme \<Rightarrow> pt_load_segment list \<Rightarrow> (u64 \<Rightarrow> u8 list option) \<Rightarrow> cycle \<Rightarrow> u64 \<Rightarrow> dstate \<Rightarrow>
   (bool \<times> dstate) option" where
  "zero_page_step pi ps rdp c pfn st =
     (let paddr = pfn_to_paddr pi pfn
      in if \<not> is_in_segs ps paddr then Some (True, st)
         else (case sync_2nd_bitmap (bms st) of
             (False, b) \<Rightarrow> Some (False, st\<lparr>bms := b\<rparr>)
           | (True, b) \<Rightarrow>
               (let (d, bm) = is_dumpable (bitmap2 b) (bmfile b) pfn (Some c);
                    st1 = st\<lparr>bms := b\<lparr>bitmap2 := bm\<rparr>\<rparr>
                in if \<not> d then Some (True, st1)
                   else case rdp paddr of None \<Rightarrow> Some (False, st1)
                     | Some page \<Rightarrow>
                         if is_zero_page page (unat (page_size pi))
                         then clear_count Pfn_zero (\<lambda>p. clear_bit_on_2nd_bitmap p (Some c)) pfn st1
                         else Some (True, st1))))"

definition exclude_zero_pages_cyclic ::
  "('a) page_info_scheme \<Rightarrow> pt_load_segment list \<Rightarrow> (u64 \<Rightarrow> u8 list option) \<Rightarrow> cycle \<Rightarrow> dstate \<Rightarrow>
   (bool \<times> dstate) option" where
  "exclude_zero_pages_cyclic pi ps rdp c st =
     for_pfns (start_pfn c) (end_pfn c) (zero_page_step pi ps rdp c) st"

section \<open>Loops that count\<close>

lemma memhole_bit_loop:
  assumes "for_pfns p e setb (bms st) = Some (True, b')" and "p \<le> e"
  shows "for_pfns p e (memhole_bit cm setb) st =
     Some (True, st\<lparr>bms := b', cnt := if cm then (cnt st)(Pfn_memhole := cnt st Pfn_memhole - (e - p)) else cnt st\<rparr>)"
  using assms
proof (induction p e "memhole_bit cm setb" st rule: for_pfns.induct)
  case (1 p e st)
  show ?case
  proof (cases "p < e")
    case True
    with 1(2) obtain b where b: "setb p (bms st) = Some (True, b)" "for_pfns (p + 1) e setb b = Some (True, b')"
      by (subst (asm) for_pfns.simps) (auto split: option.splits bool.splits)
    let ?st = "if cm then add_cnt Pfn_memhole (-1) (st\<lparr>bms := b\<rparr>) else st\<lparr>bms := b\<rparr>"
    have bit: "memhole_bit cm setb p st = Some (True, ?st)" by (simp add: memhole_bit_def b(1))
    have "p + 1 \<le> e" using True by (simp add: word_le_nat_alt word_less_nat_alt unat_Suc_less)
    from 1(1) [OF True bit refl refl _ this] b(2) True bit show ?thesis
      by (subst for_pfns.simps) (auto simp: add_cnt_def algebra_simps)
  next
    case False
    with 1(2,3) have "p = e" "b' = bms st" by (simp_all add: for_pfns.simps [of p])
    then show ?thesis by (simp add: for_pfns.simps [of e])
  qed
qed

lemma clear_count_loop:
  assumes "for_pfns p e clr (bms st) = Some (True, b')" and "p \<le> e"
  shows "for_pfns p e (clear_count k clr) st =
     Some (True, st\<lparr>bms := b', cnt := (cnt st)(k := cnt st k + (e - p))\<rparr>)"
  using assms
proof (induction p e "clear_count k clr" st rule: for_pfns.induct)
  case (1 p e st)
  show ?case
  proof (cases "p < e")
    case True
    with 1(2) obtain b where b: "clr p (bms st) = Some (True, b)" "for_pfns (p + 1) e clr b = Some (True, b')"
      by (subst (asm) for_pfns.simps) (auto split: option.splits bool.splits)
    have bit: "clear_count k clr p st = Some (True, add_cnt k 1 (st\<lparr>bms := b\<rparr>))" by (simp add: clear_count_def b(1))
    have "p + 1 \<le> e" using True by (simp add: word_le_nat_alt word_less_nat_alt unat_Suc_less)
    from 1(1) [OF True bit refl refl _ this] b(2) True bit show ?thesis
      by (subst for_pfns.simps) (auto simp: add_cnt_def algebra_simps)
  next
    case False
    with 1(2,3) have "p = e" "b' = bms st" by (simp_all add: for_pfns.simps [of p])
    then show ?thesis by (simp add: for_pfns.simps [of e])
  qed
qed

section \<open>Excluding ranges\<close>

lemma bms_ok_same_range:
  assumes "start_pfn c' = start_pfn c" "end_pfn c' = end_pfn c"
  shows "bms_ok D n (Some c') b = bms_ok D n (Some c) b" "bit1 (Some c') b = bit1 (Some c) b"
    "bit2 (Some c') b = bit2 (Some c) b"
  using assms by (simp_all add: bms_ok_def bm_ok_def bit1_def bit2_def pbit_def fun_eq_iff)

lemma clear_2nd_range:
  assumes "bms_ok D n co b" "p \<le> e" "{unat p..<unat e} \<subseteq> D"
  shows "\<exists>b'. for_pfns p e (\<lambda>q. clear_bit_on_2nd_bitmap q co) b = Some (True, b') \<and> bms_ok D n co b' \<and>
     {i\<in>D. bit1 co b' i} = {i\<in>D. bit1 co b i} \<and>
     (\<forall>i\<in>D. bit2 co b' i = (bit2 co b i \<and> \<not> (unat p \<le> i \<and> i < unat e)))"
  using second_map.put_range [OF assms, of False]
  by (auto simp: clear_bit_on_2nd_bitmap_def [abs_def])

lemma exclude_range_run:
  assumes ok: "bms_ok D n (Some c) (bms st)" and xen: "\<not> xen_memory pi"
    and pfn: "pfn \<le> min (end_pfn c) endpfn" and D: "{unat pfn..<unat (min (end_pfn c) endpfn)} \<subseteq> D"
  shows "\<exists>c' st'. exclude_range pi rd k pfn endpfn (Some c) st = Some (Some c', st') \<and>
     bms_ok D n (Some c') (bms st') \<and>
     (\<forall>i\<in>D. bit2 (Some c') (bms st') i =
        (bit2 (Some c) (bms st) i \<and> \<not> (unat pfn \<le> i \<and> i < unat (min (end_pfn c) endpfn)))) \<and>
     {i\<in>D. bit1 (Some c') (bms st') i} = {i\<in>D. bit1 (Some c) (bms st) i} \<and>
     cnt st' = (cnt st)(k := cnt st k + (min (end_pfn c) endpfn - pfn)) \<and>
     exclude_pfn_start c' = end_pfn c \<and> exclude_pfn_end c' = endpfn \<and> exclude_pfn_counter c' = Some k"
proof -
  define c' where "c' = c\<lparr>exclude_pfn_start := end_pfn c, exclude_pfn_end := endpfn, exclude_pfn_counter := Some k\<rparr>"
  let ?e = "min (end_pfn c) endpfn"
  have r: "start_pfn c' = start_pfn c" "end_pfn c' = end_pfn c" by (simp_all add: c'_def)
  note same = bms_ok_same_range [OF r]
  from clear_2nd_range [of D n "Some c'" "bms st", OF _ pfn D] ok obtain b' where
    b': "for_pfns pfn ?e (\<lambda>q. clear_bit_on_2nd_bitmap q (Some c')) (bms st) = Some (True, b')" "bms_ok D n (Some c') b'"
      "{i\<in>D. bit1 (Some c') b' i} = {i\<in>D. bit1 (Some c) (bms st) i}"
      "\<forall>i\<in>D. bit2 (Some c') b' i = (bit2 (Some c) (bms st) i \<and> \<not> (unat pfn \<le> i \<and> i < unat ?e))"
    by (auto simp: same)
  have "(\<lambda>p. clear_bit_on_2nd_bitmap_for_kernel pi rd p (Some c')) = (\<lambda>q. clear_bit_on_2nd_bitmap q (Some c'))"
    using xen by (simp add: clear_bit_on_2nd_bitmap_for_kernel_def kernel_pfn_def fun_eq_iff)
  moreover have "(if end_pfn c < endpfn then end_pfn c else endpfn) = ?e" by (auto simp: min_def)
  ultimately have "exclude_range pi rd k pfn endpfn (Some c) st =
      Some (Some c', st\<lparr>bms := b', cnt := (cnt st)(k := cnt st k + (?e - pfn))\<rparr>)"
    using clear_count_loop [OF b'(1) pfn, of k] by (simp add: exclude_range_def Let_def c'_def [symmetric])
  with b' show ?thesis by (simp add: c'_def)
qed

text \<open>
  C16. \<^verbatim>\<open>exclude_range\<close> clears exactly the bits of the frames of its range that lie in the current
  cycle, leaves all other bits of the second bitmap and the whole first bitmap alone, adds their
  number to the counter it was given, and leaves the part behind the cycle pending.
\<close>

theorem exclude_range_exact:
  assumes ok: "bms_ok D n (Some c) (bms st)" and xen: "\<not> xen_memory pi"
    and pfn: "pfn \<le> min (end_pfn c) endpfn" and D: "{unat pfn..<unat (min (end_pfn c) endpfn)} \<subseteq> D"
  shows "\<exists>c' st'. exclude_range pi rd k pfn endpfn (Some c) st = Some (Some c', st') \<and>
     bms_ok D n (Some c') (bms st') \<and>
     (\<forall>i\<in>D. bit2 (Some c') (bms st') i =
        (bit2 (Some c) (bms st) i \<and> \<not> (unat pfn \<le> i \<and> i < unat (min (end_pfn c) endpfn)))) \<and>
     {i\<in>D. bit1 (Some c') (bms st') i} = {i\<in>D. bit1 (Some c) (bms st) i} \<and>
     cnt st' = (cnt st)(k := cnt st k + (min (end_pfn c) endpfn - pfn)) \<and>
     exclude_pfn_start c' = end_pfn c \<and> exclude_pfn_end c' = endpfn \<and> exclude_pfn_counter c' = Some k"
  by (rule exclude_range_run [OF assms])

definition sample_cycle :: cycle where
  "sample_cycle = \<lparr>start_pfn = 0, end_pfn = 64, exclude_pfn_start = 0, exclude_pfn_end = 0, exclude_pfn_counter = None\<rparr>"

definition sample_bitmaps :: bitmaps where
  "sample_bitmaps = \<lparr>bitmap1 = \<lparr>fd = -1, no_block = -1, buf = replicate 8 255, offset = 0\<rparr>,
     bitmap2 = \<lparr>fd = -1, no_block = -1, buf = replicate 8 255, offset = 0\<rparr>,
     bmfile = \<lparr>content = [], capacity = 0\<rparr>\<rparr>"

definition sample_page_info :: page_info where
  "sample_page_info = \<lparr>fd_bitmap = -1, bufsize_cyclic = 8, len_bitmap = 0, page_size = 4096, page_shift = 12,
     arch_pfn_offset = 0, max_mapnr = 64, xen_memory = False, p2m_mfn_frame_list = []\<rparr>"

lemma sample_ok: "bms_ok {0..<64} 0 (Some sample_cycle) sample_bitmaps"
  by (simp add: bms_ok_def bm_ok_def sample_bitmaps_def sample_cycle_def)

theorem exclude_range_exact_witness:
  "\<exists>c' st'. exclude_range sample_page_info (\<lambda>_. None) Pfn_free 60 72 (Some sample_cycle)
       \<lparr>bms = sample_bitmaps, cnt = \<lambda>_. 0\<rparr> = Some (Some c', st') \<and>
     \<not> bit2 (Some c') (bms st') 61 \<and> cnt st' Pfn_free = 4 \<and> exclude_pfn_start c' = 64 \<and> exclude_pfn_end c' = 72"
proof -
  have e: "min (end_pfn sample_cycle) 72 = 64" by (simp add: sample_cycle_def)
  show ?thesis
    using exclude_range_exact [of "{0..<64}" 0 sample_cycle "\<lparr>bms = sample_bitmaps, cnt = \<lambda>_. 0\<rparr>"
        sample_page_info 60 72 "\<lambda>_. None" Pfn_free] sample_ok
    unfolding e by (fastforce simp: sample_page_info_def sample_cycle_def)
qed

section \<open>The bitmap of a cycle\<close>

definition bit_of :: "which_map \<Rightarrow> cycle option \<Rightarrow> bitmaps \<Rightarrow> nat \<Rightarrow> bool" where
  "bit_of w co st = (case w of First \<Rightarrow> bit1 co st | Second \<Rightarrow> bit2 co st)"

definition set_on :: "which_map \<Rightarrow> cycle option \<Rightarrow> u64 \<Rightarrow> bitmaps \<Rightarrow> (bool \<times> bitmaps) option" where
  "set_on w co p = (case w of First \<Rightarrow> set_bit_on_1st_bitmap p co | Second \<Rightarrow> set_bit_on_2nd_bitmap p co)"

lemma set_on_range:
  assumes "bms_ok D n co b" "p \<le> e" "{unat p..<unat e} \<subseteq> D"
  shows "\<exists>b'. for_pfns p e (set_on w co) b = Some (True, b') \<and> bms_ok D n co b' \<and>
     (\<forall>i\<in>D. bit_of w co b' i = (bit_of w co b i \<or> (unat p \<le> i \<and> i < unat e)))"
proof (cases w)
  case First
  then show ?thesis using first_map.put_range [OF assms, of True]
    by (auto simp: set_on_def [abs_def] bit_of_def set_bit_on_1st_bitmap_def [abs_def])
next
  case Second
  then show ?thesis using second_map.put_range [OF assms, of True]
    by (auto simp: set_on_def [abs_def] bit_of_def set_bit_on_2nd_bitmap_def [abs_def])
qed



text \<open>The three parts of a range: up to a byte boundary, whole bytes, the rest.\<close>

lemma byte_parts:
  fixes s e base :: nat
  assumes "base \<le> s" "s < e" "8 dvd base"
  defines "sr \<equiv> min ((s + 7) div 8 * 8) e" and "er \<equiv> max (e div 8 * 8) s"
  shows "s \<le> sr" "sr \<le> e" "s \<le> er" "er \<le> e"
    and "(sr - base) div 8 < (er - base) div 8 \<Longrightarrow>
      sr = (s + 7) div 8 * 8 \<and> er = e div 8 * 8 \<and>
      base + 8 * ((sr - base) div 8) = sr \<and> base + 8 * ((er - base) div 8) = er"
    and "\<not> (sr - base) div 8 < (er - base) div 8 \<Longrightarrow> er \<le> sr"
    and "(s + 7) div 8 * 8 \<le> e \<Longrightarrow> sr \<le> er"
    and "e < (s + 7) div 8 * 8 \<Longrightarrow> sr = e \<and> er = s"
proof -
  obtain q where q: "base = 8 * q" using assms(3) by blast
  define r where "r = (s + 7) div 8"
  define t where "t = e div 8"
  have sr: "sr = min (8 * r) e" and er: "er = max (8 * t) s" by (simp_all add: sr_def er_def r_def t_def)
  have s8: "s \<le> 8 * r" "8 * r < s + 8" and t8: "8 * t \<le> e" "e < 8 * t + 8" by (simp_all add: r_def t_def)
  have A: "r \<le> t \<and> sr = 8 * r \<and> er = 8 * t" if "8 * r \<le> e"
  proof -
    have "r \<le> t" using that unfolding t_def by (simp add: less_eq_div_iff_mult_less_eq mult.commute)
    with that s8 show ?thesis by (auto simp: sr er)
  qed
  have B: "sr = e \<and> er = s" if "e < 8 * r"
  proof -
    have "8 * t < 8 * r" using t8(1) that by (rule le_less_trans)
    then have "t + 1 \<le> r" by simp
    then have "8 * t \<le> s" using s8(2) by linarith
    with that show ?thesis by (simp add: sr er)
  qed
  show "s \<le> sr" "sr \<le> e" "s \<le> er" "er \<le> e" using assms(2) s8 t8 by (auto simp: sr er)
  show "(s + 7) div 8 * 8 \<le> e \<Longrightarrow> sr \<le> er" using A by (simp add: r_def)
  show "e < (s + 7) div 8 * 8 \<Longrightarrow> sr = e \<and> er = s" using B by (simp add: r_def)
  have Bd: "\<not> (sr - base) div 8 < (er - base) div 8" if "e < 8 * r"
    using B [OF that] assms(2) by (simp add: div_le_mono not_less)
  have qr: "q \<le> r" using s8(1) assms(1) q by linarith
  have Ad: "(sr - base) div 8 = r - q" "(er - base) div 8 = t - q" if "8 * r \<le> e"
    using A [OF that] q by (simp_all flip: diff_mult_distrib2)
  show "er \<le> sr" if n: "\<not> (sr - base) div 8 < (er - base) div 8"
  proof (cases "8 * r \<le> e")
    case True
    then have "t - q \<le> r - q" using n Ad by simp
    with qr A [OF True] show ?thesis by simp
  next
    case False
    with B assms(2) show ?thesis by simp
  qed
  assume lt: "(sr - base) div 8 < (er - base) div 8"
  then have le: "8 * r \<le> e" using Bd by fastforce
  have "8 * q + 8 * (x - q) = 8 * x" if "q \<le> x" for x using that by (metis add_mult_distrib2 le_add_diff_inverse)
  with le lt Ad A [OF le] qr q show "sr = (s + 7) div 8 * 8 \<and> er = e div 8 * 8 \<and>
      base + 8 * ((sr - base) div 8) = sr \<and> base + 8 * ((er - base) div 8) = er"
    by (simp add: r_def [symmetric] t_def [symmetric])
qed

lemma unat_roundup8: "unat s + 7 < 2 ^ 64 \<Longrightarrow> unat (roundup s BITPERBYTE) = (unat s + 7) div 8 * 8"
  using unat_roundup [of BITPERBYTE s] by (simp add: BITPERBYTE_def)

lemma unat_round8: "unat (round_c e BITPERBYTE) = unat e div 8 * 8"
  by (simp add: unat_round_c BITPERBYTE_def)

lemma unat_min64: "unat (min a b :: u64) = min (unat a) (unat b)"
  by (auto simp: min_def word_le_nat_alt)

lemma unat_max64: "unat (max a b :: u64) = max (unat a) (unat b)"
  by (auto simp: max_def word_le_nat_alt)









definition one_load :: pt_load_segment where
  "one_load = \<lparr>file_offset = 0x1000, file_size = 0x1b000, phys_start = 0x5000, phys_end = 0x20000,
     virt_start = 0x80005000, virt_end = 0x80020000\<rparr>"


text \<open>
  The count of memory holes is wrong for a segment that lies inside one byte of the bitmap:
  both bit loops run over its frames, so that each frame is subtracted twice.
\<close>

theorem memhole_double_count:
  assumes ok: "bms_ok D n (Some c) (bms st)" and D: "D = {unat (start_pfn c)..<unat (end_pfn c)}"
    and s: "s = max (paddr_to_pfn pi (phys_start p)) (start_pfn c)"
    and e: "e = min (paddr_to_pfn pi (phys_end p)) (end_pfn c)"
    and inside: "s < e" "unat e < (unat s + 7) div 8 * 8" and al: "8 dvd unat (start_pfn c)"
    and lim: "unat (end_pfn c) + 7 < 2 ^ 64"
  shows "\<exists>st'. memhole_load pi First True (\<lambda>p. set_bit_on_1st_bitmap p (Some c)) c p st = Some (True, st') \<and>
     cnt st' Pfn_memhole = cnt st Pfn_memhole - 2 * (e - s)"
proof -
  have fn: "(\<lambda>p. set_bit_on_1st_bitmap p (Some c)) = set_on First (Some c)" by (simp add: set_on_def fun_eq_iff)
  have se: "unat s < unat e" "unat (start_pfn c) \<le> unat s" "unat e \<le> unat (end_pfn c)"
    using inside(1) by (simp_all add: word_less_nat_alt) (simp_all add: s e unat_min64 unat_max64)
  have parts: "min (roundup s BITPERBYTE) e = e" "max (round_c e BITPERBYTE) s = s"
  proof -
    note P = byte_parts(8) [OF se(2,1) al inside(2)]
    have "unat (min (roundup s BITPERBYTE) e) = unat e" "unat (max (round_c e BITPERBYTE) s) = unat s"
      using P se lim by (simp_all add: unat_min64 unat_max64 unat_roundup8 unat_round8)
    then show "min (roundup s BITPERBYTE) e = e" "max (round_c e BITPERBYTE) s = s"
      by (simp_all add: word_unat_eq_iff)
  qed
  have le: "s \<le> e" using inside(1) by simp
  have sub: "{unat s..<unat e} \<subseteq> D" using se D by auto
  from set_on_range [OF ok le sub, of First] obtain b1 where
    b1: "for_pfns s e (set_on First (Some c)) (bms st) = Some (True, b1)" "bms_ok D n (Some c) b1" by blast
  from set_on_range [OF b1(2) le sub, of First] obtain b2 where
    b2: "for_pfns s e (set_on First (Some c)) b1 = Some (True, b2)" by blast
  let ?st1 = "st\<lparr>bms := b1, cnt := (cnt st)(Pfn_memhole := cnt st Pfn_memhole - (e - s))\<rparr>"
  have r1: "for_pfns s e (memhole_bit True (set_on First (Some c))) st = Some (True, ?st1)"
    using memhole_bit_loop [OF b1(1) le, of True] by simp
  have r2: "for_pfns s e (memhole_bit True (set_on First (Some c))) ?st1 =
      Some (True, ?st1\<lparr>bms := b2, cnt := (cnt ?st1)(Pfn_memhole := cnt ?st1 Pfn_memhole - (e - s))\<rparr>)"
    using memhole_bit_loop [of s e "set_on First (Some c)" ?st1 b2 True] b2 le by simp
  have "\<not> unat (drop_bit 3 (e - start_pfn c)) < unat (drop_bit 3 (s - start_pfn c))"
    using se by (simp add: unat_drop3 unat_minus64 word_le_nat_alt div_le_mono not_less)
  then have fill: "memhole_fill First True (unat (drop_bit 3 (e - start_pfn c))) (unat (drop_bit 3 (s - start_pfn c))) ?st1 = Some ?st1"
    by (simp only: memhole_fill_def if_False)
  have "\<not> s \<ge> e" using inside(1) by simp
  then show ?thesis unfolding fn memhole_load_def Let_def s [symmetric] e [symmetric] parts
    by (simp add: r1 fill r2 del: fun_upd_apply) (simp add: algebra_simps)
qed

theorem memhole_double_count_witness:
  "\<exists>st'. memhole_load sample_page_info First True (\<lambda>p. set_bit_on_1st_bitmap p (Some sample_cycle)) sample_cycle
       (one_load\<lparr>phys_start := 0x1000, phys_end := 0x4000\<rparr>) \<lparr>bms = sample_bitmaps, cnt = \<lambda>_. 64\<rparr> = Some (True, st') \<and>
     cnt st' Pfn_memhole = 58"
proof -
  let ?st = "\<lparr>bms = sample_bitmaps, cnt = \<lambda>_. 64\<rparr>" and ?p = "one_load\<lparr>phys_start := 0x1000, phys_end := 0x4000\<rparr>"
  have ok: "bms_ok {0..<64} 0 (Some sample_cycle) (bms ?st)" using sample_ok by simp
  have D: "{0..<64} = {unat (start_pfn sample_cycle)..<unat (end_pfn sample_cycle)}" by (simp add: sample_cycle_def)
  have s: "(1 :: u64) = max (paddr_to_pfn sample_page_info (phys_start ?p)) (start_pfn sample_cycle)"
    and e: "(4 :: u64) = min (paddr_to_pfn sample_page_info (phys_end ?p)) (end_pfn sample_cycle)"
    by (simp_all add: sample_cycle_def sample_page_info_def one_load_def paddr_to_pfn_def)
  have i: "(1 :: u64) < 4" "unat (4 :: u64) < (unat (1 :: u64) + 7) div 8 * 8" by simp_all
  have l: "8 dvd unat (start_pfn sample_cycle)" "unat (end_pfn sample_cycle) + 7 < 2 ^ 64" by (simp_all add: sample_cycle_def)
  from memhole_double_count [OF ok D s e i l] show ?thesis by auto
qed

end
