(* ===== verification/Page_Filter.thy ===== *)
theory Page_Filter
  imports Bitmap_Create
begin

text \<open>
  The page filter of \<^verbatim>\<open>src/makedumpfile.c\<close>: \<^verbatim>\<open>__exclude_unnecessary_pages\<close> walks over the page
  descriptors of a mem_map through a buffer of \<^verbatim>\<open>PGMM_CACHED\<close> of them, decides for each page by
  the dump level and its flags whether it is excluded, and clears the bits of the page or of
  the whole block of pages it heads. Reading memory is an argument: \<open>rdv\<close> reads bytes at a
  virtual address, \<open>rd\<close> the 8 bytes at a machine address (Xen).
\<close>

section \<open>Data\<close>

datatype buddy_test = No_buddy | Page_is_buddy_v2 | Page_is_buddy_v3

text \<open>
  The offsets, sizes and numbers of the dumped kernel; -1 is \<^verbatim>\<open>NOT_FOUND_STRUCTURE\<close> and
  \<^verbatim>\<open>NOT_FOUND_NUMBER\<close>, 0 is \<^verbatim>\<open>NOT_FOUND_SYMBOL\<close>.
\<close>

record filter_info = page_info +
  flag_cyclic :: bool
  dump_level :: u32
  loads :: "pt_load_segment list"
  kernel_version :: nat
  page_is_buddy :: buddy_test
  compound_order_offset :: nat
  compound_dtor_offset :: nat
  SIZE_page :: nat
  OFFSET_page_flags :: nat
  OFFSET_page_mapping :: nat
  OFFSET_page_mapcount :: int
  OFFSET_page_compound_head :: int
  OFFSET_page_private :: int
  ARRAY_LENGTH_zone_free_area :: int
  SYMBOL_free_huge_page :: u64
  PG_lru :: int
  PG_private :: int
  PG_head_mask :: u64
  PG_swapcache :: int
  PG_swapbacked :: int
  PG_slab :: int
  PG_buddy :: int
  PG_hwpoison :: int
  PG_hugetlb :: int
  HUGETLB_PAGE_DTOR :: int
  PAGE_BUDDY_MAPCOUNT_VALUE :: int
  PAGE_SLAB_MAPCOUNT_VALUE :: int
  PAGE_OFFLINE_MAPCOUNT_VALUE :: int
  PAGE_HUGETLB_MAPCOUNT_VALUE :: int
  PAGE_UNACCEPTED_MAPCOUNT_VALUE :: int

definition DL_EXCLUDE_ZERO :: u32 where "DL_EXCLUDE_ZERO = 0x001"
definition DL_EXCLUDE_CACHE :: u32 where "DL_EXCLUDE_CACHE = 0x002"
definition DL_EXCLUDE_CACHE_PRI :: u32 where "DL_EXCLUDE_CACHE_PRI = 0x004"
definition DL_EXCLUDE_USER_DATA :: u32 where "DL_EXCLUDE_USER_DATA = 0x008"
definition DL_EXCLUDE_FREE :: u32 where "DL_EXCLUDE_FREE = 0x010"

definition level_has :: "filter_info \<Rightarrow> u32 \<Rightarrow> bool" where
  "level_has fi d = (dump_level fi AND d \<noteq> 0)"

definition PGMM_CACHED :: u64 where "PGMM_CACHED = 512"
definition IS_HUGETLB :: u64 where "IS_HUGETLB = -1"

definition KERNEL_VERSION :: "nat \<Rightarrow> nat \<Rightarrow> nat \<Rightarrow> nat" where
  "KERNEL_VERSION x y z = push_bit 24 x OR push_bit 16 y OR z"

text \<open>What is read of a page descriptor.\<close>

record page_fields =
  flags :: u64
  mapping :: u64
  mapcount :: u32
  compound_order :: nat
  compound_dtor :: u64
  compound_head :: u64
  pprivate :: u64

section \<open>Tests on pages\<close>

text \<open>\<^verbatim>\<open>test_bit\<close>: the mask is an \<^verbatim>\<open>int\<close> shifted by the low five bits, then sign-extended.\<close>

definition shl1 :: "nat \<Rightarrow> u64" where
  "shl1 n = scast (push_bit (n mod 32) 1 :: u32)"

definition test_bit :: "int \<Rightarrow> u64 \<Rightarrow> bool" where
  "test_bit nr addr = (shl1 (nat (nr mod 32)) AND addr \<noteq> 0)"

text \<open>\<^verbatim>\<open>flags & (1UL << n)\<close>; a shift count outside the width is taken modulo 64.\<close>

definition flag_bit :: "int \<Rightarrow> u64 \<Rightarrow> u64" where
  "flag_bit n fl = fl AND push_bit (nat (n mod 64)) 1"

text \<open>\<^verbatim>\<open>isSlab\<close> returns an \<^verbatim>\<open>int\<close>, so that only the low 32 bits of the test count.\<close>

definition isSlab :: "filter_info \<Rightarrow> u64 \<Rightarrow> u32 \<Rightarrow> bool" where
  "isSlab fi fl mc \<longleftrightarrow>
     (PAGE_SLAB_MAPCOUNT_VALUE fi \<noteq> -1 \<and> mc = of_int (PAGE_SLAB_MAPCOUNT_VALUE fi)) \<or>
     (ucast (flag_bit (PG_slab fi) fl) :: u32) \<noteq> 0"

definition isHugetlb :: "filter_info \<Rightarrow> u64 \<Rightarrow> bool" where
  "isHugetlb fi dtor \<longleftrightarrow> dtor = IS_HUGETLB \<or>
     (HUGETLB_PAGE_DTOR fi \<noteq> -1 \<and> of_int (HUGETLB_PAGE_DTOR fi) = dtor) \<or>
     (SYMBOL_free_huge_page fi \<noteq> 0 \<and> SYMBOL_free_huge_page fi = dtor)"

definition isOffline :: "filter_info \<Rightarrow> u64 \<Rightarrow> u32 \<Rightarrow> bool" where
  "isOffline fi fl mc = (if PAGE_OFFLINE_MAPCOUNT_VALUE fi = -1 then False
     else if isSlab fi fl mc then False else mc = of_int (PAGE_OFFLINE_MAPCOUNT_VALUE fi))"

definition isAnon :: "filter_info \<Rightarrow> u64 \<Rightarrow> u64 \<Rightarrow> u32 \<Rightarrow> bool" where
  "isAnon fi mp fl mc \<longleftrightarrow> mp AND 1 \<noteq> 0 \<and> \<not> isSlab fi fl mc"

definition isHWPOISON :: "filter_info \<Rightarrow> u64 \<Rightarrow> bool" where
  "isHWPOISON fi fl \<longleftrightarrow> test_bit (PG_hwpoison fi) fl \<and> PG_hwpoison fi \<noteq> -1"

definition isUnaccepted :: "filter_info \<Rightarrow> u32 \<Rightarrow> bool" where
  "isUnaccepted fi mc \<longleftrightarrow> mc = of_int (PAGE_UNACCEPTED_MAPCOUNT_VALUE fi) \<and> PAGE_UNACCEPTED_MAPCOUNT_VALUE fi \<noteq> -1"

definition isCompoundHead :: "filter_info \<Rightarrow> u64 \<Rightarrow> bool" where
  "isCompoundHead fi fl = (fl AND PG_head_mask fi \<noteq> 0)"

definition is_cache_page :: "filter_info \<Rightarrow> u64 \<Rightarrow> bool" where
  "is_cache_page fi fl \<longleftrightarrow> test_bit (PG_lru fi) fl \<or>
     ((PG_swapbacked fi = -1 \<or> test_bit (PG_swapbacked fi) fl) \<and> test_bit (PG_swapcache fi) fl)"

definition page_is_buddy_v2 :: "filter_info \<Rightarrow> u64 \<Rightarrow> bool" where
  "page_is_buddy_v2 fi fl = (flag_bit (PG_buddy fi) fl \<noteq> 0)"

definition page_is_buddy_v3 :: "filter_info \<Rightarrow> u64 \<Rightarrow> u32 \<Rightarrow> bool" where
  "page_is_buddy_v3 fi fl mc =
     (if isSlab fi fl mc then False else mc = of_int (PAGE_BUDDY_MAPCOUNT_VALUE fi))"

text \<open>The handler chosen by \<^verbatim>\<open>setup_page_is_buddy\<close>.\<close>

definition setup_page_is_buddy :: "filter_info \<Rightarrow> filter_info" where
  "setup_page_is_buddy fi =
     (if OFFSET_page_private fi = -1 then fi
      else if PAGE_BUDDY_MAPCOUNT_VALUE fi \<noteq> -1
      then if OFFSET_page_mapcount fi \<noteq> -1 then fi\<lparr>page_is_buddy := Page_is_buddy_v3\<rparr> else fi
      else if PG_buddy fi \<noteq> -1 then fi\<lparr>page_is_buddy := Page_is_buddy_v2\<rparr> else fi)"

definition is_buddy :: "filter_info \<Rightarrow> page_fields \<Rightarrow> bool" where
  "is_buddy fi p = (case page_is_buddy fi of No_buddy \<Rightarrow> False
     | Page_is_buddy_v2 \<Rightarrow> page_is_buddy_v2 fi (flags p)
     | Page_is_buddy_v3 \<Rightarrow> page_is_buddy_v3 fi (flags p) (mapcount p))"

section \<open>The decision\<close>

text \<open>
  Which counter a page is charged to and how many pages are excluded with it; \<open>None\<close> keeps the
  page. This is the chain of conditions of \<^verbatim>\<open>__exclude_unnecessary_pages\<close>.
\<close>

definition classify_page :: "filter_info \<Rightarrow> page_fields \<Rightarrow> (counter \<times> u64) option" where
  "classify_page fi p =
     (let nr_pages = shl1 (compound_order p)
      in if compound_head p AND 1 \<noteq> 0 then None
         else if level_has fi DL_EXCLUDE_FREE \<and> is_buddy fi p
         then if ARRAY_LENGTH_zone_free_area fi \<noteq> -1 \<and> pprivate p \<ge> of_int (ARRAY_LENGTH_zone_free_area fi)
              then None else Some (Pfn_free, shl1 (unat (pprivate p)))
         else if level_has fi DL_EXCLUDE_FREE \<and> isUnaccepted fi (mapcount p)
         then Some (Pfn_free, shl1 (nat ((ARRAY_LENGTH_zone_free_area fi - 1) mod 32)))
         else if level_has fi DL_EXCLUDE_CACHE \<and> is_cache_page fi (flags p) \<and>
                 \<not> test_bit (PG_private fi) (flags p) \<and> \<not> isAnon fi (mapping p) (flags p) (mapcount p)
         then Some (Pfn_cache, nr_pages)
         else if level_has fi DL_EXCLUDE_CACHE_PRI \<and> is_cache_page fi (flags p) \<and>
                 \<not> isAnon fi (mapping p) (flags p) (mapcount p)
         then Some (if test_bit (PG_private fi) (flags p) then Pfn_cache_private else Pfn_cache, nr_pages)
         else if level_has fi DL_EXCLUDE_USER_DATA \<and>
                 (isAnon fi (mapping p) (flags p) (mapcount p) \<or> isHugetlb fi (compound_dtor p))
         then Some (Pfn_user, nr_pages)
         else if isHWPOISON fi (flags p) then Some (Pfn_hwpoison, nr_pages)
         else if isOffline fi (flags p) (mapcount p) then Some (Pfn_offline, nr_pages)
         else None)"

section \<open>The buffer of page descriptors\<close>

record page_cache =
  pbuf :: "u8 list"
  pfn_read_start :: u64
  pfn_read_end :: u64

text \<open>Order and destructor of a compound page, from the descriptor behind its head.\<close>

definition compound_info :: "filter_info \<Rightarrow> u64 \<Rightarrow> u32 \<Rightarrow> u8 list \<Rightarrow> nat \<times> u64" where
  "compound_info fi pfn mc tail =
     (let flags1 = get64 tail (OFFSET_page_flags fi);
          (order, dtor) =
            (if PAGE_HUGETLB_MAPCOUNT_VALUE fi \<noteq> -1
             then (unat (flags1 AND 0xff), if mc = of_int (PAGE_HUGETLB_MAPCOUNT_VALUE fi) then IS_HUGETLB else 0)
             else if PG_hugetlb fi \<noteq> -1
             then (unat (flags1 AND 0xff), if flag_bit (PG_hugetlb fi) flags1 \<noteq> 0 then IS_HUGETLB else 0)
             else ((if compound_order_offset fi \<noteq> 0
                    then if kernel_version fi \<ge> KERNEL_VERSION 4 16 0
                         then get_le 1 tail (compound_order_offset fi) else get_le 2 tail (compound_order_offset fi)
                    else 0),
                   (if compound_dtor_offset fi \<noteq> 0
                    then if kernel_version fi \<ge> KERNEL_VERSION 4 16 0
                         then of_nat (get_le 1 tail (compound_dtor_offset fi))
                         else if kernel_version fi \<ge> KERNEL_VERSION 4 4 0
                         then of_nat (get_le 2 tail (compound_dtor_offset fi))
                         else get64 tail (compound_dtor_offset fi)
                    else 0)))
      in (if order \<ge> 64 \<or> pfn AND (push_bit order 1 - 1) \<noteq> 0 then 0 else order, dtor))"

definition read_fields :: "filter_info \<Rightarrow> u64 \<Rightarrow> u8 list \<Rightarrow> page_fields" where
  "read_fields fi pfn b =
     (let index_pg = pfn mod PGMM_CACHED;
          fl = get64 b (OFFSET_page_flags fi);
          mc = (if OFFSET_page_mapcount fi \<noteq> -1 then get32 b (nat (OFFSET_page_mapcount fi)) else 0);
          (order, dtor) = (if index_pg < PGMM_CACHED - 1 \<and> isCompoundHead fi fl
                           then compound_info fi pfn mc (drop (SIZE_page fi) b) else (0, 0))
      in \<lparr>flags = fl, mapping = get64 b (OFFSET_page_mapping fi), mapcount = mc,
          compound_order = order, compound_dtor = dtor,
          compound_head = (if OFFSET_page_compound_head fi \<noteq> -1
                           then get64 b (nat (OFFSET_page_compound_head fi)) else 0),
          pprivate = (if OFFSET_page_private fi \<noteq> -1 then get64 b (nat (OFFSET_page_private fi)) else 0)\<rparr>)"

text \<open>Refilling the buffer when the frame is not in it; \<open>Inl ()\<close> is a failed read, \<open>None\<close> an overflow of the buffer.\<close>

definition refill_count :: "u64 \<Rightarrow> u64 \<Rightarrow> u64" where
  "refill_count pfn pfn_end = (if roundup (pfn + 1) PGMM_CACHED < pfn_end
     then PGMM_CACHED - pfn mod PGMM_CACHED else pfn_end - pfn)"

definition load_page ::
  "filter_info \<Rightarrow> (u64 \<Rightarrow> nat \<Rightarrow> u8 list option) \<Rightarrow> u64 \<Rightarrow> u64 \<Rightarrow> u64 \<Rightarrow> page_cache \<Rightarrow> (unit + page_cache) option" where
  "load_page fi rdv pfn_end pfn mem_map pc =
     (if pfn < pfn_read_start pc \<or> pfn_read_end pc < pfn
      then (let pfn_mm = refill_count pfn pfn_end;
                at = unat (pfn mod PGMM_CACHED) * SIZE_page fi
            in case rdv mem_map (SIZE_page fi * unat pfn_mm) of None \<Rightarrow> Some (Inl ())
               | Some bs \<Rightarrow>
                   if at + length bs \<le> length (pbuf pc)
                   then Some (Inr (pc\<lparr>pbuf := take at (pbuf pc) @ bs @ drop (at + length bs) (pbuf pc),
                                     pfn_read_start := pfn, pfn_read_end := pfn + pfn_mm - 1\<rparr>))
                   else None)
      else Some (Inr pc))"

section \<open>The filter\<close>

text \<open>
  One turn of the loop: \<open>Inl\<close> leaves the function with FALSE, \<open>Inr\<close> carries the number of
  further pages to skip.
\<close>

definition page_body ::
  "filter_info \<Rightarrow> (u64 \<Rightarrow> u64 option) \<Rightarrow> (u64 \<Rightarrow> nat \<Rightarrow> u8 list option) \<Rightarrow> u64 \<Rightarrow> u64 \<Rightarrow> u64 \<Rightarrow> page_cache \<Rightarrow>
   cycle option \<Rightarrow> dstate \<Rightarrow>
   ((cycle option \<times> dstate) + (u64 \<times> page_cache \<times> cycle option \<times> dstate)) option" where
  "page_body fi rd rdv pfn_end pfn mem_map pc co st =
     (if flag_cyclic fi \<and> \<not> is_cyclic_region pfn co then Some (Inr (0, pc, co, st))
      else
        (let addr = (if xen_memory fi then ptom_xen fi rd (pfn_to_paddr fi pfn) else pfn_to_paddr fi pfn)
         in if xen_memory fi \<and> addr = NOT_PADDR then Some (Inl (co, st))
            else if \<not> is_in_segs (loads fi) addr then Some (Inr (0, pc, co, st))
            else (case load_page fi rdv pfn_end pfn mem_map pc of
                None \<Rightarrow> None
              | Some (Inl _) \<Rightarrow> Some (Inl (co, st))
              | Some (Inr pc1) \<Rightarrow>
                  (case classify_page fi (read_fields fi pfn (drop (unat (pfn mod PGMM_CACHED) * SIZE_page fi) (pbuf pc1))) of
                     None \<Rightarrow> Some (Inr (0, pc1, co, st))
                   | Some (k, nr_pages) \<Rightarrow>
                       if nr_pages = 1
                       then map_option (\<lambda>(_, st'). Inr (0, pc1, co, st'))
                              (clear_count k (\<lambda>p. clear_bit_on_2nd_bitmap_for_kernel fi rd p co) pfn st)
                       else map_option (\<lambda>(co', st'). Inr (nr_pages - 1, pc1, co', st'))
                              (exclude_range fi rd k pfn (pfn + nr_pages) co st)))))"

text \<open>The loop; \<open>None\<close> is a fault or a loop that does not end.\<close>

partial_function (option) page_loop ::
  "filter_info \<Rightarrow> (u64 \<Rightarrow> u64 option) \<Rightarrow> (u64 \<Rightarrow> nat \<Rightarrow> u8 list option) \<Rightarrow> u64 \<Rightarrow> u64 \<Rightarrow> u64 \<Rightarrow> page_cache \<Rightarrow>
   cycle option \<Rightarrow> dstate \<Rightarrow> (bool \<times> cycle option \<times> dstate) option" where
  "page_loop fi rd rdv pfn_end pfn mem_map pc co st =
     (if \<not> pfn < pfn_end then Some (True, co, st)
      else case page_body fi rd rdv pfn_end pfn mem_map pc co st of
          None \<Rightarrow> None
        | Some r \<Rightarrow> (case r of
              Inl (co', st') \<Rightarrow> Some (False, co', st')
            | Inr (skip, pc', co', st') \<Rightarrow>
                page_loop fi rd rdv pfn_end (pfn + skip + 1) (mem_map + (skip + 1) * of_nat (SIZE_page fi)) pc' co' st'))"

text \<open>A pending exclusion first: the frames of the last block that reach into this cycle.\<close>

definition run_pending ::
  "filter_info \<Rightarrow> (u64 \<Rightarrow> u64 option) \<Rightarrow> u64 \<Rightarrow> u64 \<Rightarrow> cycle option \<Rightarrow> dstate \<Rightarrow>
   (u64 \<times> u64 \<times> cycle option \<times> dstate) option" where
  "run_pending fi rd mem_map pfn_start co st = (case co of
     Some c \<Rightarrow>
       if exclude_pfn_start c < exclude_pfn_end c
       then (case exclude_pfn_counter c of None \<Rightarrow> None
             | Some k \<Rightarrow> map_option (\<lambda>(co', st').
                 (mem_map + (exclude_pfn_end c - pfn_start) * of_nat (SIZE_page fi), exclude_pfn_end c, co', st'))
                 (exclude_range fi rd k (exclude_pfn_start c) (exclude_pfn_end c) co st))
       else Some (mem_map, pfn_start, co, st)
   | None \<Rightarrow> Some (mem_map, pfn_start, co, st))"

text \<open>\<open>buf0\<close> is the fresh, uninitialised buffer.\<close>

definition exclude_unnecessary_pages_of ::
  "filter_info \<Rightarrow> (u64 \<Rightarrow> u64 option) \<Rightarrow> (u64 \<Rightarrow> nat \<Rightarrow> u8 list option) \<Rightarrow> u8 list \<Rightarrow> u64 \<Rightarrow> u64 \<Rightarrow> u64 \<Rightarrow>
   cycle option \<Rightarrow> dstate \<Rightarrow> (bool \<times> cycle option \<times> dstate) option" where
  "exclude_unnecessary_pages_of fi rd rdv buf0 mem_map pfn_start pfn_end co st =
     (case run_pending fi rd mem_map pfn_start co st of None \<Rightarrow> None
      | Some (mm, p, co', st') \<Rightarrow>
          page_loop fi rd rdv pfn_end p mm \<lparr>pbuf = buf0, pfn_read_start = -1, pfn_read_end = 0\<rparr> co' st')"

record mem_map_data =
  mem_map :: u64
  mm_pfn_start :: u64
  mm_pfn_end :: u64

definition NOT_MEMMAP_ADDR :: u64 where "NOT_MEMMAP_ADDR = 0"

fun mem_map_loop ::
  "filter_info \<Rightarrow> (u64 \<Rightarrow> u64 option) \<Rightarrow> (u64 \<Rightarrow> nat \<Rightarrow> u8 list option) \<Rightarrow> u8 list \<Rightarrow> mem_map_data list \<Rightarrow>
   cycle \<Rightarrow> dstate \<Rightarrow> (bool \<times> cycle \<times> dstate) option" where
  "mem_map_loop fi rd rdv buf0 [] c st = Some (True, c, st)"
| "mem_map_loop fi rd rdv buf0 (m # ms) c st =
     (if mem_map m \<noteq> NOT_MEMMAP_ADDR \<and> mm_pfn_end m \<ge> start_pfn c \<and> mm_pfn_start m \<le> end_pfn c
      then (case exclude_unnecessary_pages_of fi rd rdv buf0 (mem_map m) (mm_pfn_start m) (mm_pfn_end m) (Some c) st of
          Some (True, Some c', st') \<Rightarrow> mem_map_loop fi rd rdv buf0 ms c' st'
        | Some (False, Some c', st') \<Rightarrow> Some (False, c', st')
        | _ \<Rightarrow> None)
      else mem_map_loop fi rd rdv buf0 ms c st)"

definition exclude_unnecessary_pages ::
  "filter_info \<Rightarrow> (u64 \<Rightarrow> u64 option) \<Rightarrow> (u64 \<Rightarrow> nat \<Rightarrow> u8 list option) \<Rightarrow> u8 list \<Rightarrow> u64 \<Rightarrow> mem_map_data list \<Rightarrow>
   cycle \<Rightarrow> dstate \<Rightarrow> (bool \<times> cycle \<times> dstate) option" where
  "exclude_unnecessary_pages fi rd rdv buf0 dom0_mapnr ms c st =
     (if xen_memory fi \<and> dom0_mapnr = 0 then Some (False, c, st)
      else mem_map_loop fi rd rdv buf0 ms c st)"

section \<open>Sizes of blocks\<close>





section \<open>Descriptors in memory\<close>

text \<open>The descriptor of frame \<open>q\<close>, when that of \<open>p0\<close> is at \<open>mm0\<close> in a memory \<open>m\<close>.\<close>

definition mem_bytes :: "(u64 \<Rightarrow> u8) \<Rightarrow> u64 \<Rightarrow> nat \<Rightarrow> u8 list" where
  "mem_bytes m a n = map (\<lambda>i. m (a + of_nat i)) [0..<n]"









lemma length_mem_bytes [simp]: "length (mem_bytes m a n) = n"
  by (simp add: mem_bytes_def)








section \<open>One turn of the loop\<close>









section \<open>The whole loop\<close>






text \<open>Memory full of zeros, a segment for every frame, and nothing to exclude.\<close>

definition sample_filter :: filter_info where
  "sample_filter = \<lparr>fd_bitmap = -1, bufsize_cyclic = 8, len_bitmap = 0, page_size = 4096, page_shift = 12,
     arch_pfn_offset = 0, max_mapnr = 64, xen_memory = False, p2m_mfn_frame_list = [],
     flag_cyclic = True, dump_level = 31, loads = [one_load], kernel_version = 0x6060000, page_is_buddy = Page_is_buddy_v3,
     compound_order_offset = 0, compound_dtor_offset = 0, SIZE_page = 64, OFFSET_page_flags = 0,
     OFFSET_page_mapping = 24, OFFSET_page_mapcount = 48, OFFSET_page_compound_head = 8, OFFSET_page_private = 40,
     ARRAY_LENGTH_zone_free_area = 11, SYMBOL_free_huge_page = 0, PG_lru = 5, PG_private = 13, PG_head_mask = 0x10000,
     PG_swapcache = 10, PG_swapbacked = 19, PG_slab = 9, PG_buddy = -1, PG_hwpoison = -1, PG_hugetlb = 17,
     HUGETLB_PAGE_DTOR = -1, PAGE_BUDDY_MAPCOUNT_VALUE = -129, PAGE_SLAB_MAPCOUNT_VALUE = -1,
     PAGE_OFFLINE_MAPCOUNT_VALUE = 0, PAGE_HUGETLB_MAPCOUNT_VALUE = -1, PAGE_UNACCEPTED_MAPCOUNT_VALUE = -1\<rparr>"






text \<open>
  C21. A block of pages that crosses the end of a cycle is not forgotten: when the next cycle
  starts, the pending part is excluded first, up to the end of the block or of that cycle, and
  the walk over the mem_map resumes behind the block.
\<close>

theorem pending_block_continues:
  assumes c2: "c2 = update_cycle ci mx c"
    and pend: "exclude_pfn_start c = end_pfn c" "exclude_pfn_end c = e" "exclude_pfn_counter c = Some k" "end_pfn c < e"
    and ok: "bms_ok D n (Some c2) (bms st)" and D: "D = {unat (start_pfn c2)..<unat (end_pfn c2)}" "D \<noteq> {}"
    and xen: "\<not> xen_memory fi"
  shows "\<exists>c3 st'. run_pending fi rd mm pfn_start (Some c2) st =
       Some (mm + (e - pfn_start) * of_nat (SIZE_page fi), e, Some c3, st') \<and>
     (\<forall>i\<in>D. bit2 (Some c3) (bms st') i = (bit2 (Some c2) (bms st) i \<and> \<not> i < unat e))"
proof -
  have same: "exclude_pfn_start c2 = exclude_pfn_start c" "exclude_pfn_end c2 = e" "exclude_pfn_counter c2 = Some k"
      "start_pfn c2 = end_pfn c"
    using pend by (simp_all add: c2 update_cycle_def Let_def)
  have "unat (end_pfn c) < unat (end_pfn c2)" using D same(4) by simp
  then have le: "end_pfn c \<le> min (end_pfn c2) e"
    using pend(4) by (simp add: word_le_nat_alt word_less_nat_alt unat_min64)
  have sub: "{unat (end_pfn c)..<unat (min (end_pfn c2) e)} \<subseteq> D" using D same(4) by (auto simp: unat_min64)
  from exclude_range_run [OF ok xen le sub, of rd k] obtain c3 st' where
    r: "exclude_range fi rd k (end_pfn c) e (Some c2) st = Some (Some c3, st')"
      "\<forall>i\<in>D. bit2 (Some c3) (bms st') i = (bit2 (Some c2) (bms st) i \<and>
         \<not> (unat (end_pfn c) \<le> i \<and> i < unat (min (end_pfn c2) e)))" by blast
  have "run_pending fi rd mm pfn_start (Some c2) st =
      Some (mm + (e - pfn_start) * of_nat (SIZE_page fi), e, Some c3, st')"
    using r(1) same pend by (simp add: run_pending_def)
  moreover have "(unat (end_pfn c) \<le> i \<and> i < unat (min (end_pfn c2) e)) = (i < unat e)" if "i \<in> D" for i
    using that D same(4) by (auto simp: unat_min64)
  ultimately show ?thesis using r(2) by auto
qed

theorem pending_block_continues_witness:
  "\<exists>c3 st'. run_pending sample_filter (\<lambda>_. None) 0x1000 0
       (Some (update_cycle \<lparr>pfn_cyclic = 64, flag_elf_dumpfile = False\<rparr> 128
         (sample_cycle\<lparr>exclude_pfn_start := 64, exclude_pfn_end := 72, exclude_pfn_counter := Some Pfn_free\<rparr>)))
       \<lparr>bms = sample_bitmaps, cnt = \<lambda>_. 0\<rparr> = Some (0x2200, 72, Some c3, st') \<and> \<not> bit2 (Some c3) (bms st') 71"
proof -
  let ?c = "sample_cycle\<lparr>exclude_pfn_start := 64, exclude_pfn_end := 72, exclude_pfn_counter := Some Pfn_free\<rparr>"
  let ?ci = "\<lparr>pfn_cyclic = 64, flag_elf_dumpfile = False\<rparr>"
  let ?c2 = "update_cycle ?ci 128 ?c"
  have c2: "start_pfn ?c2 = 64" "end_pfn ?c2 = 128" by (simp_all add: update_cycle_def sample_cycle_def Let_def)
  have ok: "bms_ok {64..<128} 0 (Some ?c2) (bms \<lparr>bms = sample_bitmaps, cnt = \<lambda>_. 0\<rparr>)"
    by (simp add: bms_ok_def bm_ok_def c2 sample_bitmaps_def)
  have D: "{64..<128} = {unat (start_pfn ?c2)..<unat (end_pfn ?c2)}" "{64..<128 :: nat} \<noteq> {}" by (simp_all add: c2)
  have p: "exclude_pfn_start ?c = end_pfn ?c" "exclude_pfn_end ?c = 72" "exclude_pfn_counter ?c = Some Pfn_free"
      "end_pfn ?c < 72" "\<not> xen_memory sample_filter"
    by (simp_all add: sample_cycle_def sample_filter_def)
  have sz: "0x1000 + (72 - 0) * of_nat (SIZE_page sample_filter) = (0x2200 :: u64)" by (simp add: sample_filter_def)
  from pending_block_continues [OF refl p(1-4) ok D p(5), of "\<lambda>_. None" "0x1000" 0] show ?thesis
    unfolding sz by fastforce
qed

end
