(* ===== verification/Mem_Map.thy ===== *)
theory Mem_Map
  imports Page_Filter "HOL-Library.Multiset"
begin

text \<open>
  The memory maps of the dumped kernel (\<^verbatim>\<open>src/makedumpfile.c\<close>, from \<^verbatim>\<open>get_nodes_online\<close> to
  \<^verbatim>\<open>get_mem_map\<close>, and \<^verbatim>\<open>page_to_pfn\<close>): which page descriptors describe which page frames under the
  FLATMEM, DISCONTIGMEM and SPARSEMEM models. Reading the dumped memory (\<open>rdv\<close>, \<^verbatim>\<open>readmem\<close> at a
  virtual address) and the allocator (\<open>al\<close>, whether \<^verbatim>\<open>malloc\<close> of a size succeeds) are arguments. The
  table \<^verbatim>\<open>info->mem_map_data\<close> is a list of cells, a cell that was never written being \<open>None\<close>; what C
  leaves undefined (a write behind the table, a read of an unwritten cell, a NULL table) is
  the outcome \<open>Undefined\<close>.
\<close>

section \<open>State\<close>

text \<open>
  Symbols are addresses, 0 being \<^verbatim>\<open>NOT_FOUND_SYMBOL\<close>; sizes and offsets are 64-bit words and
  array lengths are integers, -1 being \<^verbatim>\<open>NOT_FOUND_STRUCTURE\<close>. \<open>mem_section_not_array\<close> is what the debug
  information says of the type of \<^verbatim>\<open>mem_section\<close>.
\<close>

record mm_info = page_info +
  KVBASE :: u64
  dom0_mapnr :: u64
  flatmem_first :: u64
  section_size_bits :: nat
  max_physmem_bits :: nat
  sections_per_root :: u64
  name_vmlinux :: bool
  mem_section_not_array :: bool
  SYM_node_online_map :: u64
  SYM_node_states :: u64
  N_ONLINE :: u64
  SYM_node_data :: u64
  SYM_pgdat_list :: u64
  SYM_contig_page_data :: u64
  SYM_mem_map :: u64
  SYM_vmem_map :: u64
  SYM_node_memblk :: u64
  SYM_mem_section :: u64
  SZ_nodemask_t :: u64
  SZ_page :: u64
  SZ_pglist_data :: u64
  SZ_node_memblk_s :: u64
  SZ_mem_section :: u64
  OFF_page_flags :: u64
  OFF_page_refcount :: u64
  OFF_page_mapping :: u64
  OFF_pgdat_next :: u64
  OFF_node_mem_map :: u64
  OFF_node_start_pfn :: u64
  OFF_node_spanned_pages :: u64
  OFF_memblk_start_paddr :: u64
  OFF_memblk_size :: u64
  OFF_memblk_nid :: u64
  OFF_section_mem_map :: u64
  LEN_node_data :: int
  LEN_pgdat_list :: int
  LEN_node_memblk :: int
  LEN_mem_section :: int
  numnodes :: nat
  node_online_map :: "u64 list option"
  node_online_map_len :: nat
  num_mem_map :: nat
  mm_table :: "mem_map_data option list option"

type_synonym readmem = "u64 \<Rightarrow> nat \<Rightarrow> u8 list option"

definition rd_ulong :: "readmem \<Rightarrow> u64 \<Rightarrow> u64 option" where
  "rd_ulong rdv a = map_option (\<lambda>bs. get64 bs 0) (rdv a 8)"

definition is_kvaddr :: "mm_info \<Rightarrow> u64 \<Rightarrow> bool" where
  "is_kvaddr mi a = (KVBASE mi \<le> a)"

section \<open>Online nodes\<close>

text \<open>The bytes of the node mask as an array of \<^verbatim>\<open>unsigned long\<close>.\<close>

definition ulongs :: "nat \<Rightarrow> u8 list \<Rightarrow> u64 list" where
  "ulongs n bs = map (\<lambda>i. get64 bs (8 * i)) [0 ..< n]"

fun count_bits :: "nat \<Rightarrow> u64 \<Rightarrow> nat" where
  "count_bits 0 bitbuf = 0"
| "count_bits (Suc j) bitbuf = unat (bitbuf AND 1) + count_bits j (drop_bit 1 bitbuf)"

definition get_nodes_online :: "(u64 \<Rightarrow> bool) \<Rightarrow> readmem \<Rightarrow> mm_info \<Rightarrow> nat \<times> mm_info" where
  "get_nodes_online al rdv mi =
     (if SYM_node_online_map mi = 0 \<and> SYM_node_states mi = 0 then (0, mi)
      else if SZ_nodemask_t mi = -1 then (0, mi)
      else
        (let len = unat (SZ_nodemask_t mi); mi1 = mi\<lparr>node_online_map_len := len div 8\<rparr> in
         if \<not> al (SZ_nodemask_t mi) then (0, mi1\<lparr>node_online_map := None\<rparr>)
         else
           (let a = (if SYM_node_online_map mi \<noteq> 0 then SYM_node_online_map mi
                     else SYM_node_states mi + SZ_nodemask_t mi * N_ONLINE mi) in
            case rdv a len of None \<Rightarrow> (0, mi1\<lparr>node_online_map := None\<rparr>)
            | Some bs \<Rightarrow>
                (let m = ulongs (len div 8) bs in (sum_list (map (count_bits 64) m), mi1\<lparr>node_online_map := Some m\<rparr>)))))"

definition get_numnodes :: "(u64 \<Rightarrow> bool) \<Rightarrow> readmem \<Rightarrow> mm_info \<Rightarrow> mm_info" where
  "get_numnodes al rdv mi =
     (case get_nodes_online al rdv mi of (n, mi') \<Rightarrow> mi'\<lparr>numnodes := (if n = 0 then 1 else n)\<rparr>)"

text \<open>The two loops of \<^verbatim>\<open>next_online_node\<close>: over the bits of a word, over the words.\<close>

fun scan_mask :: "nat \<Rightarrow> u64 \<Rightarrow> nat \<Rightarrow> nat \<Rightarrow> nat option" where
  "scan_mask 0 msk node first = None"
| "scan_mask (Suc j) msk node first =
     (if msk AND 1 \<noteq> 0 \<and> first \<le> node then Some node else scan_mask j (drop_bit 1 msk) (Suc node) first)"

fun scan_masks :: "u64 list \<Rightarrow> nat \<Rightarrow> nat \<Rightarrow> nat option" where
  "scan_masks [] node first = None"
| "scan_masks (m # ms) node first =
     (case scan_mask 64 m node first of Some n \<Rightarrow> Some n | None \<Rightarrow> scan_masks ms (node + 64) first)"

definition next_online_node :: "mm_info \<Rightarrow> nat \<Rightarrow> nat outcome" where
  "next_online_node mi first =
     (if node_online_map_len mi \<le> first div 64 then Failed
      else case node_online_map mi of None \<Rightarrow> Undefined
        | Some m \<Rightarrow> (case scan_masks m 0 first of None \<Rightarrow> Failed | Some n \<Rightarrow> Done n))"

text \<open>The four attempts of \<^verbatim>\<open>next_online_pgdat\<close>; \<open>None\<close> goes on to the next label.\<close>

definition rd_pgdat :: "readmem \<Rightarrow> mm_info \<Rightarrow> u64 \<Rightarrow> u64 option" where
  "rd_pgdat rdv mi a = (case rd_ulong rdv a of None \<Rightarrow> None | Some p \<Rightarrow> if is_kvaddr mi p then Some p else None)"

definition pgdat1 :: "readmem \<Rightarrow> mm_info \<Rightarrow> nat \<Rightarrow> u64 option" where
  "pgdat1 rdv mi node =
     (if SYM_node_data mi = 0 \<or> LEN_node_data mi = -1 then None
      else rd_pgdat rdv mi (SYM_node_data mi + of_nat (node * 8)))"

definition pgdat2 :: "readmem \<Rightarrow> mm_info \<Rightarrow> nat \<Rightarrow> u64 option" where
  "pgdat2 rdv mi node =
     (if SYM_pgdat_list mi = 0 then None
      else if 0 < node \<and> LEN_pgdat_list mi = -1 then None
      else if LEN_pgdat_list mi \<noteq> -1 \<and> LEN_pgdat_list mi < int node then None
      else rd_pgdat rdv mi (SYM_pgdat_list mi + of_nat (node * 8)))"

fun pgdat_next :: "readmem \<Rightarrow> mm_info \<Rightarrow> nat \<Rightarrow> u64 \<Rightarrow> u64 option" where
  "pgdat_next rdv mi 0 p = Some p"
| "pgdat_next rdv mi (Suc n) p =
     (case rd_pgdat rdv mi (p + OFF_pgdat_next mi) of None \<Rightarrow> None | Some q \<Rightarrow> pgdat_next rdv mi n q)"

definition pgdat3 :: "readmem \<Rightarrow> mm_info \<Rightarrow> nat \<Rightarrow> u64 option" where
  "pgdat3 rdv mi node =
     (if SYM_pgdat_list mi = 0 \<or> OFF_pgdat_next mi = -1 then None
      else case rd_pgdat rdv mi (SYM_pgdat_list mi) of None \<Rightarrow> None | Some p \<Rightarrow> pgdat_next rdv mi node p)"

definition pgdat4 :: "mm_info \<Rightarrow> nat \<Rightarrow> u64" where
  "pgdat4 mi node = (if SYM_contig_page_data mi = 0 then 0 else if node \<noteq> 0 then 0 else SYM_contig_page_data mi)"

definition next_online_pgdat :: "readmem \<Rightarrow> mm_info \<Rightarrow> nat \<Rightarrow> u64" where
  "next_online_pgdat rdv mi node =
     (case pgdat1 rdv mi node of Some p \<Rightarrow> p
      | None \<Rightarrow> (case pgdat2 rdv mi node of Some p \<Rightarrow> p
      | None \<Rightarrow> (case pgdat3 rdv mi node of Some p \<Rightarrow> p
      | None \<Rightarrow> pgdat4 mi node)))"

section \<open>The table of memory maps\<close>

definition dump_mem_map :: "u64 \<Rightarrow> u64 \<Rightarrow> u64 \<Rightarrow> nat \<Rightarrow> mm_info \<Rightarrow> mm_info outcome" where
  "dump_mem_map s e m num_mm mi =
     (case mm_table mi of None \<Rightarrow> Undefined
      | Some t \<Rightarrow>
          if num_mm < length t
          then Done (mi\<lparr>mm_table := Some (t[num_mm := Some \<lparr>mem_map = m, mm_pfn_start = s, mm_pfn_end = e\<rparr>])\<rparr>)
          else Undefined)"

definition SIZEOF_mem_map_data :: u64 where "SIZEOF_mem_map_data = 24"

text \<open>
  The allocation shared by the memory models: \<^verbatim>\<open>info->mem_map_data = malloc(...)\<close> for
  \<^verbatim>\<open>info->num_mem_map\<close> entries.
\<close>

definition alloc_table :: "(u64 \<Rightarrow> bool) \<Rightarrow> mm_info \<Rightarrow> bool \<times> mm_info" where
  "alloc_table al mi =
     (if al (SIZEOF_mem_map_data * of_nat (num_mem_map mi))
      then (True, mi\<lparr>mm_table := Some (replicate (num_mem_map mi) None)\<rparr>)
      else (False, mi\<lparr>mm_table := None\<rparr>))"

text \<open>
  The functions that fill the table return their \<^verbatim>\<open>int\<close> and the state; the outcome \<open>Failed\<close> is not
  used, since \<^verbatim>\<open>get_mem_map\<close> goes on with the state after a FALSE.
\<close>

type_synonym mm_ret = "(bool \<times> mm_info) outcome"

definition ret_true :: "mm_info outcome \<Rightarrow> mm_ret" where
  "ret_true r = (case r of Done mi \<Rightarrow> Done (True, mi) | _ \<Rightarrow> Undefined)"

text \<open>
  \<^verbatim>\<open>flatmem_first\<close> is the first frame of the FLATMEM map: 0, except on riscv64, where it is
  \<^verbatim>\<open>info->phys_base >> PAGESHIFT()\<close>.
\<close>

definition get_mm_flatmem :: "(u64 \<Rightarrow> bool) \<Rightarrow> readmem \<Rightarrow> mm_info \<Rightarrow> mm_ret" where
  "get_mm_flatmem al rdv mi =
     (case rd_ulong rdv (SYM_mem_map mi) of None \<Rightarrow> Done (False, mi)
      | Some m \<Rightarrow>
          if m = 0 then Done (False, mi)
          else case alloc_table al (mi\<lparr>num_mem_map := 1\<rparr>) of
              (False, mi') \<Rightarrow> Done (False, mi')
            | (True, mi') \<Rightarrow>
                ret_true (if xen_memory mi then dump_mem_map 0 (dom0_mapnr mi) m 0 mi'
                          else dump_mem_map (flatmem_first mi) (max_mapnr mi) m 0 mi'))"

definition get_mem_map_without_mm :: "(u64 \<Rightarrow> bool) \<Rightarrow> mm_info \<Rightarrow> mm_ret" where
  "get_mem_map_without_mm al mi =
     (case alloc_table al (mi\<lparr>num_mem_map := 1\<rparr>) of
        (False, mi') \<Rightarrow> Done (False, mi')
      | (True, mi') \<Rightarrow>
          ret_true (dump_mem_map 0 (if xen_memory mi then dom0_mapnr mi else max_mapnr mi) NOT_MEMMAP_ADDR 0 mi'))"

section \<open>DISCONTIGMEM\<close>

definition get_node_memblk :: "readmem \<Rightarrow> mm_info \<Rightarrow> nat \<Rightarrow> (u64 \<times> u64 \<times> u32) option" where
  "get_node_memblk rdv mi num_memblk =
     (if LEN_node_memblk mi \<le> int num_memblk then None
      else (let a = SYM_node_memblk mi + SZ_node_memblk_s mi * of_nat num_memblk in
        case rd_ulong rdv (a + OFF_memblk_start_paddr mi) of None \<Rightarrow> None
        | Some s \<Rightarrow> (case rd_ulong rdv (a + OFF_memblk_size mi) of None \<Rightarrow> None
        | Some z \<Rightarrow> map_option (\<lambda>bs. (s, z, get32 bs 0)) (rdv (a + OFF_memblk_nid mi) 4))))"

text \<open>The loop of \<^verbatim>\<open>get_num_mm_discontigmem\<close>, \<open>n\<close> entries of the array being left; \<open>None\<close> returns 0.\<close>

fun count_memblks :: "readmem \<Rightarrow> mm_info \<Rightarrow> nat \<Rightarrow> nat \<Rightarrow> nat option" where
  "count_memblks rdv mi 0 i = Some i"
| "count_memblks rdv mi (Suc n) i =
     (case get_node_memblk rdv mi i of None \<Rightarrow> None
      | Some (s, z, nid) \<Rightarrow> if s = 0 \<and> z = 0 \<and> nid = 0 then Some i else count_memblks rdv mi n (Suc i))"

definition get_num_mm_discontigmem :: "readmem \<Rightarrow> mm_info \<Rightarrow> nat" where
  "get_num_mm_discontigmem rdv mi =
     (if SYM_node_memblk mi = 0 \<or> LEN_node_memblk mi = -1 \<or> SZ_node_memblk_s mi = -1 \<or>
         OFF_memblk_start_paddr mi = -1 \<or> OFF_memblk_size mi = -1 \<or> OFF_memblk_nid mi = -1
      then numnodes mi
      else case count_memblks rdv mi (nat (LEN_node_memblk mi)) 0 of None \<Rightarrow> 0
        | Some i \<Rightarrow> if i = 0 then numnodes mi else i)"

definition mmd_entry :: "u64 \<Rightarrow> u64 \<Rightarrow> u64 \<Rightarrow> mem_map_data" where
  "mmd_entry s e m = \<lparr>mem_map = m, mm_pfn_start = s, mm_pfn_end = e\<rparr>"

text \<open>
  \<^verbatim>\<open>separate_mem_map\<close>: the local array \<open>mmd\<close> has room for \<open>cap\<close> entries, of which the list \<open>acc\<close> is
  written.
\<close>

fun separate_mem_map ::
  "readmem \<Rightarrow> mm_info \<Rightarrow> nat \<Rightarrow> u32 \<Rightarrow> u64 \<Rightarrow> u64 \<Rightarrow> nat \<Rightarrow> nat \<Rightarrow> mem_map_data list \<Rightarrow> mem_map_data list outcome" where
  "separate_mem_map rdv mi cap nid_pgdat mm_pgdat pfn_pgdat 0 i acc = Done acc"
| "separate_mem_map rdv mi cap nid_pgdat mm_pgdat pfn_pgdat (Suc n) i acc =
     (case get_node_memblk rdv mi i of None \<Rightarrow> Failed
      | Some (s, z, nid) \<Rightarrow>
          if s = 0 \<and> z = 0 \<and> nid = 0 then Done acc
          else if nid_pgdat \<noteq> nid then separate_mem_map rdv mi cap nid_pgdat mm_pgdat pfn_pgdat n (Suc i) acc
          else
            (let ps = paddr_to_pfn mi s; pe = paddr_to_pfn mi (s + z) in
             if ps < pfn_pgdat then Failed
             else
               (let pe = (if max_mapnr mi < pe then max_mapnr mi else pe);
                    m = mm_pgdat + SZ_page mi * (ps - pfn_pgdat) in
                if length acc < cap
                then separate_mem_map rdv mi cap nid_pgdat mm_pgdat pfn_pgdat n (Suc i) (acc @ [mmd_entry ps pe m])
                else Undefined)))"

text \<open>The body of the loop over the nodes, for one node.\<close>

definition node_entries ::
  "readmem \<Rightarrow> mm_info \<Rightarrow> nat \<Rightarrow> bool \<Rightarrow> u64 \<Rightarrow> nat \<Rightarrow> u64 \<Rightarrow> mem_map_data list \<Rightarrow> mem_map_data list outcome" where
  "node_entries rdv mi cap separate_mm vmem_map node pgdat acc =
     (case rd_ulong rdv (pgdat + OFF_node_start_pfn mi) of None \<Rightarrow> Failed
      | Some ps \<Rightarrow> (case rd_ulong rdv (pgdat + OFF_node_spanned_pages mi) of None \<Rightarrow> Failed
      | Some spanned \<Rightarrow> (case (if SYM_vmem_map mi = 0 then rd_ulong rdv (pgdat + OFF_node_mem_map mi)
                              else Some (vmem_map + SZ_page mi * ps)) of None \<Rightarrow> Failed
      | Some m \<Rightarrow>
          if separate_mm
          then separate_mem_map rdv mi cap (of_nat node) m ps (nat (LEN_node_memblk mi)) 0 acc
          else
            (let pe = (if max_mapnr mi < ps + spanned then max_mapnr mi else ps + spanned) in
             if length acc < cap then Done (acc @ [mmd_entry ps pe m]) else Undefined))))"

fun node_loop ::
  "readmem \<Rightarrow> mm_info \<Rightarrow> nat \<Rightarrow> bool \<Rightarrow> u64 \<Rightarrow> nat \<Rightarrow> nat \<Rightarrow> u64 \<Rightarrow> mem_map_data list \<Rightarrow> mem_map_data list outcome" where
  "node_loop rdv mi cap separate_mm vmem_map 0 node pgdat acc = Done acc"
| "node_loop rdv mi cap separate_mm vmem_map (Suc n) node pgdat acc =
     (case node_entries rdv mi cap separate_mm vmem_map node pgdat acc of
        Done acc' \<Rightarrow>
          if n = 0 then Done acc'
          else (case next_online_node mi (node + 1) of
              Done node' \<Rightarrow>
                (let pgdat' = next_online_pgdat rdv mi node' in
                 if pgdat' = 0 then Failed else node_loop rdv mi cap separate_mm vmem_map n node' pgdat' acc')
            | Failed \<Rightarrow> Failed | Undefined \<Rightarrow> Undefined)
      | Failed \<Rightarrow> Failed | Undefined \<Rightarrow> Undefined)"

text \<open>Sorting by \<^verbatim>\<open>pfn_start\<close>: the exchange, the inner and the outer loop.\<close>

definition mmd_exchange :: "nat \<Rightarrow> nat \<Rightarrow> mem_map_data list \<Rightarrow> mem_map_data list" where
  "mmd_exchange i j xs = (if mm_pfn_start (xs ! j) < mm_pfn_start (xs ! i) then xs[j := xs ! i, i := xs ! j] else xs)"

definition mmd_sort_inner :: "nat \<Rightarrow> mem_map_data list \<Rightarrow> mem_map_data list" where
  "mmd_sort_inner i xs = fold (mmd_exchange i) [i + 1 ..< length xs] xs"

definition mmd_sort :: "mem_map_data list \<Rightarrow> mem_map_data list" where
  "mmd_sort xs = fold mmd_sort_inner [0 ..< length xs - 1] xs"

text \<open>Counting the entries: \<open>(False, n)\<close> when a map overlaps the next one.\<close>

fun count_gaps :: "mem_map_data list \<Rightarrow> nat \<Rightarrow> bool \<times> nat" where
  "count_gaps (a # b # xs) n =
     (if mm_pfn_end a > mm_pfn_start b then (False, n)
      else if mm_pfn_end a = mm_pfn_start b then count_gaps (b # xs) n
      else count_gaps (b # xs) (n + 1))"
| "count_gaps xs n = (True, n)"

text \<open>Filling the table.\<close>

fun fill_table :: "mem_map_data list \<Rightarrow> nat \<Rightarrow> mm_info \<Rightarrow> (nat \<times> mm_info) outcome" where
  "fill_table [] id_mm mi = Done (id_mm, mi)"
| "fill_table (a # xs) id_mm mi =
     (case dump_mem_map (mm_pfn_start a) (mm_pfn_end a) (mem_map a) id_mm mi of
        Done mi' \<Rightarrow>
          (case xs of [] \<Rightarrow> Done (id_mm + 1, mi')
           | b # _ \<Rightarrow>
               if mm_pfn_end a \<noteq> mm_pfn_start b
               then (case dump_mem_map (mm_pfn_end a) (mm_pfn_start b) NOT_MEMMAP_ADDR (id_mm + 1) mi' of
                   Done mi'' \<Rightarrow> fill_table xs (id_mm + 2) mi'' | _ \<Rightarrow> Undefined)
               else fill_table xs (id_mm + 1) mi')
      | _ \<Rightarrow> Undefined)"

definition create_table :: "mem_map_data list \<Rightarrow> mm_info \<Rightarrow> mm_info outcome" where
  "create_table xs mi =
     (case (if mm_pfn_start (hd xs) \<noteq> 0
            then (case dump_mem_map 0 (mm_pfn_start (hd xs)) NOT_MEMMAP_ADDR 0 mi of
                Done mi' \<Rightarrow> fill_table xs 1 mi' | _ \<Rightarrow> Undefined)
            else fill_table xs 0 mi) of
        Done (id_mm, mi') \<Rightarrow>
          (let end_pfn = (if xen_memory mi then dom0_mapnr mi else max_mapnr mi) in
           if mm_pfn_end (last xs) < end_pfn
           then dump_mem_map (mm_pfn_end (last xs)) end_pfn NOT_MEMMAP_ADDR id_mm mi'
           else Done mi')
      | _ \<Rightarrow> Undefined)"

text \<open>From the sorted local array to the table: counting, allocating, filling.\<close>

definition table_of_nodes :: "(u64 \<Rightarrow> bool) \<Rightarrow> mem_map_data list \<Rightarrow> mm_info \<Rightarrow> mm_ret" where
  "table_of_nodes al xs mi =
     (let n0 = length xs + (if mm_pfn_start (hd xs) \<noteq> 0 then 1 else 0) in
      case count_gaps xs n0 of
        (False, n) \<Rightarrow> Done (False, mi\<lparr>num_mem_map := n\<rparr>)
      | (True, n) \<Rightarrow>
          (let n' = n + (if mm_pfn_end (last xs) < max_mapnr mi then 1 else 0) in
           case alloc_table al (mi\<lparr>num_mem_map := n'\<rparr>) of
             (False, mi') \<Rightarrow> Done (False, mi')
           | (True, mi') \<Rightarrow> ret_true (create_table xs mi')))"

definition get_mm_discontigmem :: "(u64 \<Rightarrow> bool) \<Rightarrow> readmem \<Rightarrow> mm_info \<Rightarrow> mm_ret" where
  "get_mm_discontigmem al rdv mi =
     (let num = get_num_mm_discontigmem rdv mi; separate_mm = (numnodes mi < num) in
      if num < numnodes mi then Done (False, mi)
      else case (if SYM_vmem_map mi \<noteq> 0 then rd_ulong rdv (SYM_vmem_map mi) else Some 0) of None \<Rightarrow> Done (False, mi)
      | Some vmem_map \<Rightarrow>
         (case next_online_node mi 0 of Undefined \<Rightarrow> Undefined | Failed \<Rightarrow> Done (False, mi)
          | Done node \<Rightarrow>
              (let pgdat = next_online_pgdat rdv mi node in
               if pgdat = 0 then Done (False, mi)
               else if \<not> al (SIZEOF_mem_map_data * of_nat num) then Done (False, mi)
               else case node_loop rdv mi num separate_mm vmem_map (numnodes mi) node pgdat [] of
                   Undefined \<Rightarrow> Undefined
                 | Failed \<Rightarrow> Done (False, mi)
                 | Done mmd \<Rightarrow>
                     if length mmd < num \<or> num = 0 then Undefined
                     else table_of_nodes al (mmd_sort mmd) mi)))"

section \<open>SPARSEMEM\<close>

definition PFN_SECTION_SHIFT :: "mm_info \<Rightarrow> nat" where
  "PFN_SECTION_SHIFT mi = section_size_bits mi - page_shift mi"

definition PAGES_PER_SECTION :: "mm_info \<Rightarrow> u64" where
  "PAGES_PER_SECTION mi = push_bit (PFN_SECTION_SHIFT mi) 1"

definition SECTIONS_PER_ROOT_EXTREME :: "mm_info \<Rightarrow> u64" where
  "SECTIONS_PER_ROOT_EXTREME mi = page_size mi div SZ_mem_section mi"

definition SECTION_MARKED_PRESENT :: u64 where "SECTION_MARKED_PRESENT = 1"
definition SECTION_MAP_MASK :: u64 where "SECTION_MAP_MASK = NOT (push_bit 5 1 - 1)"
definition NOT_KV_ADDR :: u64 where "NOT_KV_ADDR = 0"

definition NR_MEM_SECTIONS :: "mm_info \<Rightarrow> u64" where
  "NR_MEM_SECTIONS mi = push_bit (max_physmem_bits mi - section_size_bits mi) 1"

definition is_sparsemem_extreme :: "mm_info \<Rightarrow> bool" where
  "is_sparsemem_extreme mi \<longleftrightarrow>
     of_int (LEN_mem_section mi) = divideup (NR_MEM_SECTIONS mi) (SECTIONS_PER_ROOT_EXTREME mi) \<or> LEN_mem_section mi = -1"

text \<open>\<open>mem_sec\<close> holds the bytes of the array of roots.\<close>

definition mem_sec_root :: "u8 list \<Rightarrow> u64 \<Rightarrow> u64" where
  "mem_sec_root mem_sec r = get64 mem_sec (8 * unat r)"

definition nr_to_section :: "mm_info \<Rightarrow> u64 \<Rightarrow> u8 list \<Rightarrow> u64" where
  "nr_to_section mi nr mem_sec =
     (if is_sparsemem_extreme mi
      then (let root = mem_sec_root mem_sec (nr div sections_per_root mi) in
            if root = 0 then NOT_KV_ADDR
            else root + (nr AND (sections_per_root mi - 1)) * SZ_mem_section mi)
      else SYM_mem_section mi + nr * SZ_mem_section mi)"

text \<open>The map and its flags (\<^verbatim>\<open>*map_mask\<close>).\<close>

definition section_mem_map_addr :: "(u64 \<Rightarrow> bool) \<Rightarrow> readmem \<Rightarrow> mm_info \<Rightarrow> u64 \<Rightarrow> u64 \<times> u64" where
  "section_mem_map_addr al rdv mi addr =
     (if \<not> is_kvaddr mi addr then (NOT_KV_ADDR, 0)
      else if \<not> al (SZ_mem_section mi) then (NOT_KV_ADDR, 0)
      else case rdv addr (unat (SZ_mem_section mi)) of None \<Rightarrow> (NOT_KV_ADDR, 0)
        | Some bs \<Rightarrow>
            (let m = get64 bs (unat (OFF_section_mem_map mi)) in
             (m AND SECTION_MAP_MASK, m AND NOT SECTION_MAP_MASK)))"

definition sparse_decode_mem_map :: "mm_info \<Rightarrow> u64 \<Rightarrow> u64 \<Rightarrow> u64" where
  "sparse_decode_mem_map mi coded section_nr = coded + push_bit (PFN_SECTION_SHIFT mi) section_nr * SZ_page mi"

text \<open>
  One round of the loop of \<^verbatim>\<open>validate_mem_section\<close>: the map of a section and whether it is present;
  \<open>None\<close> is the \<^verbatim>\<open>return FALSE\<close>.
\<close>

definition section_map :: "(u64 \<Rightarrow> bool) \<Rightarrow> readmem \<Rightarrow> mm_info \<Rightarrow> u8 list \<Rightarrow> u64 \<Rightarrow> (u64 \<times> bool) option" where
  "section_map al rdv mi mem_sec nr =
     (let section = nr_to_section mi nr mem_sec in
      if section = NOT_KV_ADDR then Some (NOT_MEMMAP_ADDR, False)
      else case section_mem_map_addr al rdv mi section of (m, msk) \<Rightarrow>
        if msk AND SECTION_MARKED_PRESENT = 0 then Some (NOT_MEMMAP_ADDR, False)
        else (let mm = sparse_decode_mem_map mi m nr in
              if \<not> is_kvaddr mi mm then None else Some (mm, True)))"

fun validate_loop ::
  "(u64 \<Rightarrow> bool) \<Rightarrow> readmem \<Rightarrow> mm_info \<Rightarrow> u8 list \<Rightarrow> nat \<Rightarrow> nat \<Rightarrow> bool \<Rightarrow> u64 list \<Rightarrow> u64 list option" where
  "validate_loop al rdv mi mem_sec 0 nr ret mem_maps = (if ret then Some mem_maps else None)"
| "validate_loop al rdv mi mem_sec (Suc n) nr ret mem_maps =
     (case section_map al rdv mi mem_sec (of_nat nr) of None \<Rightarrow> None
      | Some (mm, present) \<Rightarrow> validate_loop al rdv mi mem_sec n (Suc nr) (ret \<or> present) (mem_maps @ [mm]))"

text \<open>\<^verbatim>\<open>validate_mem_section\<close> returns FALSE (\<open>None\<close>) or the array \<^verbatim>\<open>mem_maps\<close>.\<close>

definition validate_mem_section ::
  "(u64 \<Rightarrow> bool) \<Rightarrow> readmem \<Rightarrow> mm_info \<Rightarrow> u64 \<Rightarrow> u32 \<Rightarrow> u32 \<Rightarrow> u64 list option" where
  "validate_mem_section al rdv mi mem_section_ptr mem_section_size num_section =
     (case rdv mem_section_ptr (unat mem_section_size) of None \<Rightarrow> None
      | Some mem_sec \<Rightarrow> validate_loop al rdv mi mem_sec (unat num_section) 0 False [])"

definition get_mem_section :: "(u64 \<Rightarrow> bool) \<Rightarrow> readmem \<Rightarrow> mm_info \<Rightarrow> u32 \<Rightarrow> u32 \<Rightarrow> u64 list option" where
  "get_mem_section al rdv mi mem_section_size num_section =
     (if \<not> al (ucast mem_section_size) then None
      else
        (let second = (case rd_ulong rdv (SYM_mem_section mi) of None \<Rightarrow> None
               | Some p \<Rightarrow> validate_mem_section al rdv mi p mem_section_size num_section) in
         if is_sparsemem_extreme mi \<and> name_vmlinux mi \<and> mem_section_not_array mi then second
         else case validate_mem_section al rdv mi (SYM_mem_section mi) mem_section_size num_section of
             Some mm \<Rightarrow> Some mm
           | None \<Rightarrow> if is_sparsemem_extreme mi then second else None))"

fun sparse_fill :: "u64 list \<Rightarrow> nat \<Rightarrow> mm_info \<Rightarrow> mm_info outcome" where
  "sparse_fill [] nr mi = Done mi"
| "sparse_fill (m # ms) nr mi =
     (let ps = of_nat nr * PAGES_PER_SECTION mi; pe = ps + PAGES_PER_SECTION mi;
          pe = (if max_mapnr mi < pe then max_mapnr mi else pe) in
      case dump_mem_map ps pe m nr mi of Done mi' \<Rightarrow> sparse_fill ms (Suc nr) mi' | _ \<Rightarrow> Undefined)"

definition get_mm_sparsemem :: "(u64 \<Rightarrow> bool) \<Rightarrow> readmem \<Rightarrow> mm_info \<Rightarrow> mm_ret" where
  "get_mm_sparsemem al rdv mi0 =
     (let num_section = ucast (divideup (max_mapnr mi0) (PAGES_PER_SECTION mi0)) :: u32;
          mi = mi0\<lparr>sections_per_root := (if is_sparsemem_extreme mi0 then SECTIONS_PER_ROOT_EXTREME mi0 else 1)\<rparr>;
          nr_section_roots = divideup (ucast num_section) (sections_per_root mi);
          mem_section_size = ucast ((if is_sparsemem_extreme mi0 then 8 else SZ_mem_section mi0) * nr_section_roots) :: u32 in
      if \<not> al (8 * ucast num_section) then Done (False, mi)
      else case get_mem_section al rdv mi mem_section_size num_section of
          None \<Rightarrow> Done (False, mi)
        | Some mem_maps \<Rightarrow>
            (case alloc_table al (mi\<lparr>num_mem_map := unat num_section\<rparr>) of
               (False, mi') \<Rightarrow> Done (False, mi')
             | (True, mi') \<Rightarrow> ret_true (sparse_fill mem_maps 0 mi')))"

section \<open>The memory map of the dumped kernel\<close>

datatype mem_type = NOT_FOUND_MEMTYPE | SPARSEMEM | SPARSEMEM_EX | DISCONTIGMEM | FLATMEM

definition get_mem_type :: "mm_info \<Rightarrow> mem_type" where
  "get_mem_type mi =
     (if SZ_page mi = -1 \<or> OFF_page_flags mi = -1 \<or> OFF_page_refcount mi = -1 \<or> OFF_page_mapping mi = -1
      then NOT_FOUND_MEMTYPE
      else if (SYM_node_data mi \<noteq> 0 \<and> LEN_node_data mi \<noteq> -1 \<or>
               SYM_pgdat_list mi \<noteq> 0 \<and> OFF_pgdat_next mi \<noteq> -1 \<or>
               SYM_pgdat_list mi \<noteq> 0 \<and> LEN_pgdat_list mi \<noteq> -1) \<and>
              SZ_pglist_data mi \<noteq> -1 \<and> OFF_node_mem_map mi \<noteq> -1 \<and>
              OFF_node_start_pfn mi \<noteq> -1 \<and> OFF_node_spanned_pages mi \<noteq> -1
      then DISCONTIGMEM
      else if SYM_mem_section mi \<noteq> 0 \<and> SZ_mem_section mi \<noteq> -1 \<and> OFF_section_mem_map mi \<noteq> -1
      then (if is_sparsemem_extreme mi then SPARSEMEM_EX else SPARSEMEM)
      else if SYM_mem_map mi \<noteq> 0 then FLATMEM
      else NOT_FOUND_MEMTYPE)"

text \<open>
  The loop that adjusts \<^verbatim>\<open>max_mapnr\<close>, with \<open>n\<close> entries left from the cells on: the largest end of a
  valid map and the number of valid maps; \<open>None\<close> when it reads an unwritten or missing cell.
\<close>

fun scan_table :: "nat \<Rightarrow> mem_map_data option list \<Rightarrow> u64 \<Rightarrow> nat \<Rightarrow> (u64 \<times> nat) option" where
  "scan_table 0 cs max_pfn valid = Some (max_pfn, valid)"
| "scan_table (Suc n) (Some d # cs) max_pfn valid =
     (if mem_map d = NOT_MEMMAP_ADDR then scan_table n cs max_pfn valid
      else scan_table n cs (max max_pfn (mm_pfn_end d)) (Suc valid))"
| "scan_table (Suc n) (None # cs) max_pfn valid = None"
| "scan_table (Suc n) [] max_pfn valid = None"

definition adjust_max_mapnr :: "mm_info \<Rightarrow> mm_info option" where
  "adjust_max_mapnr mi =
     (case scan_table (num_mem_map mi) (case mm_table mi of None \<Rightarrow> [] | Some t \<Rightarrow> t) 0 0 of
        None \<Rightarrow> None
      | Some (max_pfn, valid) \<Rightarrow>
          Some (if 0 < valid then mi\<lparr>max_mapnr := min (max_mapnr mi) max_pfn\<rparr> else mi))"

definition get_mm :: "(u64 \<Rightarrow> bool) \<Rightarrow> readmem \<Rightarrow> mm_info \<Rightarrow> mm_ret" where
  "get_mm al rdv mi =
     (case get_mem_type mi of
        SPARSEMEM \<Rightarrow> get_mm_sparsemem al rdv mi
      | SPARSEMEM_EX \<Rightarrow> get_mm_sparsemem al rdv mi
      | DISCONTIGMEM \<Rightarrow> get_mm_discontigmem al rdv mi
      | FLATMEM \<Rightarrow> get_mm_flatmem al rdv mi
      | NOT_FOUND_MEMTYPE \<Rightarrow> Done (False, mi))"

definition get_mem_map :: "(u64 \<Rightarrow> bool) \<Rightarrow> readmem \<Rightarrow> mm_info \<Rightarrow> mm_ret" where
  "get_mem_map al rdv mi =
     (case get_mm al rdv mi of
        Done (ret, mi') \<Rightarrow>
          if xen_memory mi' then Done (ret, mi')
          else (case adjust_max_mapnr mi' of None \<Rightarrow> Undefined | Some mi'' \<Rightarrow> Done (ret, mi''))
      | _ \<Rightarrow> Undefined)"

text \<open>\<^verbatim>\<open>page_to_pfn\<close>; \<^verbatim>\<open>ULONGLONG_MAX\<close> when no map holds the page descriptor.\<close>

fun page_to_pfn :: "u64 \<Rightarrow> mem_map_data list \<Rightarrow> u64 \<Rightarrow> u64" where
  "page_to_pfn sz [] page = -1"
| "page_to_pfn sz (d # ds) page =
     (if mem_map d = NOT_MEMMAP_ADDR then page_to_pfn sz ds page
      else if page < mem_map d then page_to_pfn sz ds page
      else (let index = (page - mem_map d) div sz in
            if mm_pfn_end d - mm_pfn_start d \<le> index then page_to_pfn sz ds page
            else mm_pfn_start d + index))"

section \<open>Online nodes, in order\<close>

text \<open>The nodes whose bit is set in the node mask.\<close>

definition online :: "u64 list \<Rightarrow> nat list" where
  "online m = filter (\<lambda>n. bit (m ! (n div 64)) (n mod 64)) [0 ..< 64 * length m]"

lemma and_1_bit: "(w :: u64) AND 1 = (if bit w 0 then 1 else 0)"
  by (simp add: and_one_eq mod_2_eq_odd bit_0)

lemma count_bits_length: "count_bits j w = length (filter (bit w) [0 ..< j])"
proof (induction j arbitrary: w)
  case (Suc j)
  have "filter (bit w) [0 ..< Suc j] = (if bit w 0 then [0] else []) @ map Suc (filter (\<lambda>n. bit w (Suc n)) [0 ..< j])"
    by (simp add: upt_conv_Cons map_Suc_upt [symmetric] filter_map comp_def del: upt_Suc)
  then show ?case by (simp add: Suc.IH and_1_bit bit_drop_bit_eq comp_def)
qed simp

lemma scan_mask_find: "scan_mask j w node first = find (\<lambda>n. bit w (n - node) \<and> first \<le> n) [node ..< node + j]"
proof (induction j arbitrary: w node)
  case (Suc j)
  have c: "[node ..< node + Suc j] = node # [Suc node ..< Suc node + j]" by (simp add: upt_conv_Cons)
  have "find (\<lambda>n. bit (drop_bit 1 w) (n - Suc node) \<and> first \<le> n) [Suc node ..< Suc node + j] =
      find (\<lambda>n. bit w (n - node) \<and> first \<le> n) [Suc node ..< Suc node + j]"
    by (rule find_cong) (auto simp: bit_drop_bit_eq Suc_diff_Suc)
  with Suc.IH [of "drop_bit 1 w" "Suc node"] show ?case unfolding c by (auto simp: and_1_bit)
qed simp

lemma find_append: "find P (xs @ ys) = (case find P xs of Some x \<Rightarrow> Some x | None \<Rightarrow> find P ys)"
  by (induction xs) auto

lemma scan_masks_find:
  "scan_masks m node first = find (\<lambda>n. bit (m ! ((n - node) div 64)) ((n - node) mod 64) \<and> first \<le> n) [node ..< node + 64 * length m]"
proof (induction m arbitrary: node)
  case (Cons w m)
  have s: "[node ..< node + 64 * length (w # m)] = [node ..< node + 64] @ [node + 64 ..< (node + 64) + 64 * length m]"
    using upt_append [of node "node + 64" "(node + 64) + 64 * length m"] by (simp add: add.assoc)
  let ?P = "\<lambda>n. bit ((w # m) ! ((n - node) div 64)) ((n - node) mod 64) \<and> first \<le> n"
  have a: "find ?P [node ..< node + 64] = scan_mask 64 w node first"
    unfolding scan_mask_find by (rule find_cong) (auto simp: less_diff_conv2)
  have eq: "?P n = (bit (m ! ((n - (node + 64)) div 64)) ((n - (node + 64)) mod 64) \<and> first \<le> n)"
    if "node + 64 \<le> n" for n
  proof -
    from that obtain d where n: "n = (node + 64) + d" using le_iff_add by auto
    have "n - node = d + 64" "n - (node + 64) = d" by (simp_all add: n)
    moreover have "(d + 64) div 64 = Suc (d div 64)" "(d + 64) mod 64 = d mod 64" by simp_all
    ultimately show ?thesis by (simp only: nth_Cons_Suc)
  qed
  have b: "find ?P [node + 64 ..< (node + 64) + 64 * length m] = scan_masks m (node + 64) first"
    unfolding Cons.IH
  proof (rule find_cong)
    fix n assume "n \<in> set [node + 64 ..< (node + 64) + 64 * length m]"
    then have "node + 64 \<le> n" by simp
    then show "?P n = (bit (m ! ((n - (node + 64)) div 64)) ((n - (node + 64)) mod 64) \<and> first \<le> n)" by (rule eq)
  qed simp
  show ?case unfolding s find_append a b by simp
qed simp

lemma scan_masks_online: "scan_masks m 0 first = find (\<lambda>n. first \<le> n) (online m)"
proof -
  have "find (\<lambda>n. P n \<and> Q n) xs = find Q (filter P xs)" for P Q :: "nat \<Rightarrow> bool" and xs
    by (induction xs) auto
  then show ?thesis by (simp add: scan_masks_find online_def)
qed

lemma length_online: "length (online m) = sum_list (map (count_bits 64) m)"
proof (induction m rule: rev_induct)
  case (snoc w m)
  have s: "[0 ..< 64 * length (m @ [w])] = [0 ..< 64 * length m] @ map (\<lambda>j. j + 64 * length m) [0 ..< 64]"
    using upt_append [of 0 "64 * length m" "64 * length m + 64"] map_add_upt [of "64 * length m" 64] by (simp add: add.commute)
  have "filter (\<lambda>n. bit ((m @ [w]) ! (n div 64)) (n mod 64)) [0 ..< 64 * length m] = online m"
    unfolding online_def by (rule filter_cong) (auto simp: nth_append)
  moreover have "length (filter (\<lambda>n. bit ((m @ [w]) ! (n div 64)) (n mod 64)) (map (\<lambda>j. j + 64 * length m) [0 ..< 64])) =
      length (filter (bit w) [0 ..< 64])"
  proof -
    have "filter ((\<lambda>n. bit ((m @ [w]) ! (n div 64)) (n mod 64)) \<circ> (\<lambda>j. j + 64 * length m)) [0 ..< 64] = filter (bit w) [0 ..< 64]"
      by (rule filter_cong) (auto simp: nth_append)
    then show ?thesis unfolding filter_map length_map by simp
  qed
  ultimately show ?case using snoc unfolding online_def [of "m @ [w]"] s by (simp add: count_bits_length)
qed (simp add: online_def)

lemma online_sorted: "sorted_wrt (<) (online m)"
  unfolding online_def by (rule sorted_wrt_filter) simp

lemma online_bound: "n \<in> set (online m) \<Longrightarrow> n < 64 * length m"
  by (auto simp: online_def)

lemma find_sorted:
  assumes "sorted_wrt (<) (ns :: nat list)" "k < length ns" "first \<le> ns ! k" "\<And>j. j < k \<Longrightarrow> ns ! j < first"
  shows "find (\<lambda>n. first \<le> n) ns = Some (ns ! k)"
  using assms unfolding find_Some_iff by (intro exI [of _ k]) (auto simp: not_le)

section \<open>Sorting\<close>

lemma mmd_exchange_props:
  assumes "i < j" "j < length xs"
  shows "length (mmd_exchange i j xs) = length xs" "mset (mmd_exchange i j xs) = mset xs"
    "a \<noteq> i \<Longrightarrow> a \<noteq> j \<Longrightarrow> mmd_exchange i j xs ! a = xs ! a"
    "mm_pfn_start (mmd_exchange i j xs ! i) = min (mm_pfn_start (xs ! i)) (mm_pfn_start (xs ! j))"
    "mm_pfn_start (mmd_exchange i j xs ! j) = max (mm_pfn_start (xs ! i)) (mm_pfn_start (xs ! j))"
  using assms by (auto simp: mmd_exchange_def mset_swap min_def max_def)

text \<open>After the inner loop entry \<open>i\<close> starts lowest of those from \<open>i\<close> on; no bound of them is broken.\<close>

lemma mmd_sort_inner_upto:
  assumes "i < length xs" "i + 1 \<le> k" "k \<le> length xs" "ys = fold (mmd_exchange i) [i + 1 ..< k] xs"
  shows "length ys = length xs \<and> mset ys = mset xs \<and> (\<forall>a. a < i \<or> k \<le> a \<longrightarrow> ys ! a = xs ! a) \<and>
     (\<forall>a. i < a \<and> a < k \<longrightarrow> mm_pfn_start (ys ! i) \<le> mm_pfn_start (ys ! a)) \<and>
     (\<forall>b. (\<forall>a. i \<le> a \<and> a < length xs \<longrightarrow> b \<le> mm_pfn_start (xs ! a)) \<longrightarrow>
          (\<forall>a. i \<le> a \<and> a < length xs \<longrightarrow> b \<le> mm_pfn_start (ys ! a)))"
  using assms(2,3,4)
proof (induction k arbitrary: ys rule: dec_induct)
  case (step k)
  define zs where "zs = fold (mmd_exchange i) [i + 1 ..< k] xs"
  have IH: "length zs = length xs" "mset zs = mset xs" "\<And>a. a < i \<or> k \<le> a \<Longrightarrow> zs ! a = xs ! a"
     "\<And>a. i < a \<Longrightarrow> a < k \<Longrightarrow> mm_pfn_start (zs ! i) \<le> mm_pfn_start (zs ! a)"
     "\<And>b a. (\<forall>a. i \<le> a \<and> a < length xs \<longrightarrow> b \<le> mm_pfn_start (xs ! a)) \<Longrightarrow> i \<le> a \<Longrightarrow> a < length xs \<Longrightarrow>
        b \<le> mm_pfn_start (zs ! a)"
    using step.IH [OF _ zs_def] step.prems(1) by (auto simp: Suc_le_eq)
  have ys: "ys = mmd_exchange i k zs" using step.hyps step.prems(2) by (simp add: zs_def)
  have k: "i < k" "k < length zs" using step.hyps step.prems IH(1) by simp_all
  note X = mmd_exchange_props [OF k, folded ys]
  have "mm_pfn_start (ys ! i) \<le> mm_pfn_start (ys ! a)" if "i < a" "a < Suc k" for a
    using that IH(4) [of a] X(3) [of a] X(4,5) by (cases "a = k") (auto simp: min_le_iff_disj le_max_iff_disj)
  moreover have "b \<le> mm_pfn_start (ys ! a)"
    if "\<forall>a. i \<le> a \<and> a < length xs \<longrightarrow> b \<le> mm_pfn_start (xs ! a)" "i \<le> a" "a < length xs" for b a
    using IH(5) [OF that] IH(5) [OF that(1), of i] IH(5) [OF that(1), of k] X(3) [of a] X(4,5) k IH(1) assms(1)
    by (cases "a = i"; cases "a = k") (auto simp: le_max_iff_disj)
  ultimately show ?case using X(1,2,3) IH(1,2,3) k(1) by auto
qed auto

lemma mmd_sort_upto:
  assumes "n < length xs" "ys = fold mmd_sort_inner [0 ..< n] xs"
  shows "length ys = length xs \<and> mset ys = mset xs \<and>
     (\<forall>a b. a < n \<and> a < b \<and> b < length xs \<longrightarrow> mm_pfn_start (ys ! a) \<le> mm_pfn_start (ys ! b))"
  using assms
proof (induction n arbitrary: ys)
  case (Suc n)
  define zs where "zs = fold mmd_sort_inner [0 ..< n] xs"
  have IH: "length zs = length xs" "mset zs = mset xs"
    "\<And>a b. a < n \<Longrightarrow> a < b \<Longrightarrow> b < length xs \<Longrightarrow> mm_pfn_start (zs ! a) \<le> mm_pfn_start (zs ! b)"
    using Suc.IH [OF _ zs_def] Suc.prems(1) by auto
  have n: "n < length zs" "n + 1 \<le> length zs" using Suc.prems(1) IH(1) by simp_all
  have "ys = mmd_sort_inner n zs" using Suc.prems(2) by (simp add: zs_def)
  then have ys: "ys = fold (mmd_exchange n) [n + 1 ..< length zs] zs" unfolding mmd_sort_inner_def .
  from mmd_sort_inner_upto [OF n order_refl ys]
  have I: "length ys = length zs" "mset ys = mset zs" "\<And>a. a < n \<Longrightarrow> ys ! a = zs ! a"
     "\<And>a. n < a \<Longrightarrow> a < length zs \<Longrightarrow> mm_pfn_start (ys ! n) \<le> mm_pfn_start (ys ! a)"
     "\<And>b a. (\<forall>a. n \<le> a \<and> a < length zs \<longrightarrow> b \<le> mm_pfn_start (zs ! a)) \<Longrightarrow> n \<le> a \<Longrightarrow> a < length zs \<Longrightarrow>
        b \<le> mm_pfn_start (ys ! a)" by blast+
  have "mm_pfn_start (ys ! a) \<le> mm_pfn_start (ys ! b)" if ab: "a < Suc n" "a < b" "b < length xs" for a b
  proof (cases "a = n")
    case True
    with I(4) ab IH(1) show ?thesis by simp
  next
    case False
    with ab have a: "a < n" by simp
    show ?thesis
    proof (cases "b < n")
      case True
      with a ab I(3) IH(3) show ?thesis by simp
    next
      case False
      have "\<forall>c. n \<le> c \<and> c < length zs \<longrightarrow> mm_pfn_start (zs ! a) \<le> mm_pfn_start (zs ! c)" using IH(1,3) a by auto
      from I(5) [OF this, of b] False ab a I(3) IH(1) show ?thesis by simp
    qed
  qed
  with I(1,2) IH(1,2) show ?case by simp
qed simp

lemma mmd_sort_sorted: "sorted (map mm_pfn_start (mmd_sort xs))"
proof (cases "xs = []")
  case False
  then have "length xs - 1 < length xs" by (cases xs) simp_all
  from mmd_sort_upto [OF this, of "mmd_sort xs"] show ?thesis
    by (auto simp: mmd_sort_def sorted_wrt_iff_nth_less)
qed (simp add: mmd_sort_def)

lemma mset_mmd_sort [simp]: "mset (mmd_sort xs) = mset xs"
proof (cases "xs = []")
  case False
  then have "length xs - 1 < length xs" by (cases xs) simp_all
  from mmd_sort_upto [OF this, of "mmd_sort xs"] show ?thesis by (simp add: mmd_sort_def)
qed (simp add: mmd_sort_def)

lemma set_mmd_sort [simp]: "set (mmd_sort xs) = set xs"
  by (rule mset_eq_setD) simp

lemma length_mmd_sort [simp]: "length (mmd_sort xs) = length xs"
  by (rule mset_eq_length) simp

section \<open>Tiling the page frames\<close>

text \<open>The entries of the table: the maps in order, with an entry without a map for every gap.\<close>

fun with_gaps :: "mem_map_data list \<Rightarrow> mem_map_data list" where
  "with_gaps (a # b # xs) =
     (if mm_pfn_end a \<noteq> mm_pfn_start b
      then a # mmd_entry (mm_pfn_end a) (mm_pfn_start b) NOT_MEMMAP_ADDR # with_gaps (b # xs)
      else a # with_gaps (b # xs))"
| "with_gaps xs = xs"

definition tiles :: "u64 \<Rightarrow> mem_map_data list \<Rightarrow> mem_map_data list" where
  "tiles mx xs = (if mm_pfn_start (hd xs) \<noteq> 0 then [mmd_entry 0 (mm_pfn_start (hd xs)) NOT_MEMMAP_ADDR] else []) @
     with_gaps xs @ (if mm_pfn_end (last xs) < mx then [mmd_entry (mm_pfn_end (last xs)) mx NOT_MEMMAP_ADDR] else [])"

fun no_overlap :: "mem_map_data list \<Rightarrow> bool" where
  "no_overlap (a # b # xs) = (mm_pfn_end a \<le> mm_pfn_start b \<and> no_overlap (b # xs))"
| "no_overlap xs = True"

text \<open>Entries that follow each other without gap or overlap from \<open>s\<close> to \<open>e\<close>.\<close>

fun chain :: "u64 \<Rightarrow> mem_map_data list \<Rightarrow> u64 \<Rightarrow> bool" where
  "chain s [] e = (s = e)"
| "chain s (d # ds) e = (mm_pfn_start d = s \<and> chain (mm_pfn_end d) ds e)"

lemma mmd_entry_sel [simp]:
  "mm_pfn_start (mmd_entry s e m) = s" "mm_pfn_end (mmd_entry s e m) = e" "mem_map (mmd_entry s e m) = m"
  by (simp_all add: mmd_entry_def)

lemma mmd_entry_collapse [simp]: "mmd_entry (mm_pfn_start d) (mm_pfn_end d) (mem_map d) = d"
  by (simp add: mmd_entry_def)

lemma chain_append: "chain s (xs @ ys) e = (\<exists>m. chain s xs m \<and> chain m ys e)"
  by (induction xs arbitrary: s) auto

lemma with_gaps_nonempty [simp]: "with_gaps xs = [] \<longleftrightarrow> xs = []"
  by (induction xs rule: with_gaps.induct) auto

lemma chain_with_gaps: "xs \<noteq> [] \<Longrightarrow> chain (mm_pfn_start (hd xs)) (with_gaps xs) (mm_pfn_end (last xs))"
  by (induction xs rule: with_gaps.induct) auto

lemma chain_tiles:
  assumes "xs \<noteq> []" "mm_pfn_end (last xs) \<le> mx"
  shows "chain 0 (tiles mx xs) mx"
  using chain_with_gaps [OF assms(1)] assms(2) by (auto simp: tiles_def chain_append)

text \<open>A chain covers every frame between its ends.\<close>

lemma chain_covers:
  "chain s ds e \<Longrightarrow> s \<le> pfn \<Longrightarrow> pfn < e \<Longrightarrow> \<exists>d\<in>set ds. mm_pfn_start d \<le> pfn \<and> pfn < mm_pfn_end d"
proof (induction ds arbitrary: s)
  case (Cons d ds)
  then show ?case by (cases "pfn < mm_pfn_end d") (auto simp: not_less)
qed simp

text \<open>No map is lost, none is made up.\<close>

lemma with_gaps_maps:
  "filter (\<lambda>d. mem_map d \<noteq> NOT_MEMMAP_ADDR) (with_gaps xs) = filter (\<lambda>d. mem_map d \<noteq> NOT_MEMMAP_ADDR) xs"
  by (induction xs rule: with_gaps.induct) auto

lemma tiles_maps:
  "filter (\<lambda>d. mem_map d \<noteq> NOT_MEMMAP_ADDR) (tiles mx xs) = filter (\<lambda>d. mem_map d \<noteq> NOT_MEMMAP_ADDR) xs"
  by (simp add: tiles_def with_gaps_maps)

lemma count_gaps_result:
  "fst (count_gaps xs n) = no_overlap xs \<and> (no_overlap xs \<longrightarrow> snd (count_gaps xs n) + length xs = n + length (with_gaps xs))"
proof (induction xs n rule: count_gaps.induct)
  case (1 a b xs n)
  consider "mm_pfn_end a > mm_pfn_start b" | "mm_pfn_end a = mm_pfn_start b" | "mm_pfn_end a < mm_pfn_start b"
    by (rule linorder_cases)
  then show ?case
  proof cases
    case 2
    with 1 show ?thesis by simp
  next
    case 3
    with 1(2) show ?thesis by (auto simp: less_imp_le)
  qed auto
qed simp_all

section \<open>Writing the table\<close>

definition overwrite :: "'a option list \<Rightarrow> nat \<Rightarrow> 'a list \<Rightarrow> 'a option list" where
  "overwrite t k ts = take k t @ map Some ts @ drop (k + length ts) t"

lemma length_overwrite [simp]: "k + length ts \<le> length t \<Longrightarrow> length (overwrite t k ts) = length t"
  by (simp add: overwrite_def)

lemma overwrite_append:
  "k + length ts + length us \<le> length t \<Longrightarrow> overwrite (overwrite t k ts) (k + length ts) us = overwrite t k (ts @ us)"
  by (simp add: overwrite_def ac_simps)

lemma overwrite_Nil [simp]: "overwrite t k [] = t"
  by (simp add: overwrite_def)

lemma overwrite_full: "length ts = n \<Longrightarrow> overwrite (replicate n None) 0 ts = map Some ts"
  by (simp add: overwrite_def)

lemma overwrite_one_short: "overwrite (replicate (Suc (length ts)) None) 0 ts = map Some ts @ [None]"
  by (simp add: overwrite_def del: replicate_Suc) simp

lemma dump_mem_map_overwrite:
  assumes "mm_table mi = Some t" "k < length t"
  shows "dump_mem_map s e m k mi = Done (mi\<lparr>mm_table := Some (overwrite t k [mmd_entry s e m])\<rparr>)"
  using assms by (simp add: dump_mem_map_def overwrite_def mmd_entry_def upd_conv_take_nth_drop)

lemma dump_mem_map_outside: "mm_table mi = Some t \<Longrightarrow> length t \<le> k \<Longrightarrow> dump_mem_map s e m k mi = Undefined"
  by (simp add: dump_mem_map_def)

lemma fill_table_overwrite:
  assumes "mm_table mi = Some t" "k + length (with_gaps xs) \<le> length t"
  shows "fill_table xs k mi = Done (k + length (with_gaps xs), mi\<lparr>mm_table := Some (overwrite t k (with_gaps xs))\<rparr>)"
  using assms
proof (induction xs arbitrary: k mi t rule: with_gaps.induct)
  case (1 a b xs)
  let ?u = "overwrite t k [a]"
  let ?mi = "mi\<lparr>mm_table := Some ?u\<rparr>"
  have k: "k < length t" using 1(4) by (simp split: if_splits)
  have a: "dump_mem_map (mm_pfn_start a) (mm_pfn_end a) (mem_map a) k mi = Done ?mi"
    using dump_mem_map_overwrite [OF 1(3) k] by simp
  show ?case
  proof (cases "mm_pfn_end a = mm_pfn_start b")
    case True
    have "fill_table (b # xs) (k + 1) ?mi =
        Done (k + 1 + length (with_gaps (b # xs)), ?mi\<lparr>mm_table := Some (overwrite ?u (k + 1) (with_gaps (b # xs)))\<rparr>)"
      using 1(2) [of ?mi ?u "k + 1"] 1(4) True by simp
    with True a overwrite_append [of k "[a]" "with_gaps (b # xs)" t] 1(4) show ?thesis by simp
  next
    case False
    let ?g = "mmd_entry (mm_pfn_end a) (mm_pfn_start b) NOT_MEMMAP_ADDR"
    let ?v = "overwrite t k [a, ?g]"
    let ?mv = "mi\<lparr>mm_table := Some ?v\<rparr>"
    have g: "dump_mem_map (mm_pfn_end a) (mm_pfn_start b) NOT_MEMMAP_ADDR (k + 1) ?mi = Done ?mv"
      using dump_mem_map_overwrite [of ?mi ?u "k + 1"] overwrite_append [of k "[a]" "[?g]" t] 1(4) False by simp
    have "fill_table (b # xs) (k + 2) ?mv =
        Done (k + 2 + length (with_gaps (b # xs)), ?mv\<lparr>mm_table := Some (overwrite ?v (k + 2) (with_gaps (b # xs)))\<rparr>)"
      using 1(1) [OF False, of ?mv ?v "k + 2"] 1(4) False by simp
    with False a g overwrite_append [of k "[a, ?g]" "with_gaps (b # xs)" t] 1(4) show ?thesis
      by (simp add: numeral_2_eq_2)
  qed
qed (simp_all add: dump_mem_map_overwrite)

lemma mm_table_update [simp]: "mi\<lparr>mm_table := a\<rparr>\<lparr>mm_table := b\<rparr> = mi\<lparr>mm_table := b\<rparr>"
  by simp

text \<open>
  The frames the last entry of the table has to reach. \<open>create_table\<close> writes the tiles when they
  fit into the table.
\<close>

definition end_of_frames :: "mm_info \<Rightarrow> u64" where
  "end_of_frames mi = (if xen_memory mi then dom0_mapnr mi else max_mapnr mi)"

lemma create_table_overwrite:
  assumes "mm_table mi = Some t" "length (tiles (end_of_frames mi) xs) \<le> length t"
  shows "create_table xs mi = Done (mi\<lparr>mm_table := Some (overwrite t 0 (tiles (end_of_frames mi) xs))\<rparr>)"
proof -
  let ?h = "if mm_pfn_start (hd xs) \<noteq> 0 then [mmd_entry 0 (mm_pfn_start (hd xs)) NOT_MEMMAP_ADDR] else []"
  let ?w = "?h @ with_gaps xs"
  let ?e = "end_of_frames mi"
  let ?l = "if mm_pfn_end (last xs) < ?e then [mmd_entry (mm_pfn_end (last xs)) ?e NOT_MEMMAP_ADDR] else []"
  have T: "tiles ?e xs = ?w @ ?l" by (simp add: tiles_def)
  have len: "length ?w + length ?l \<le> length t" using assms(2) unfolding T by simp
  define pre where "pre = (if mm_pfn_start (hd xs) \<noteq> 0
            then (case dump_mem_map 0 (mm_pfn_start (hd xs)) NOT_MEMMAP_ADDR 0 mi of
                Done mi' \<Rightarrow> fill_table xs 1 mi' | _ \<Rightarrow> Undefined)
            else fill_table xs 0 mi)"
  have pre: "pre = Done (length ?w, mi\<lparr>mm_table := Some (overwrite t 0 ?w)\<rparr>)"
  proof (cases "mm_pfn_start (hd xs) = 0")
    case True
    with fill_table_overwrite [OF assms(1), of 0 xs] len show ?thesis by (simp add: pre_def)
  next
    case False
    let ?g = "mmd_entry 0 (mm_pfn_start (hd xs)) NOT_MEMMAP_ADDR"
    let ?u = "overwrite t 0 [?g]"
    have "dump_mem_map 0 (mm_pfn_start (hd xs)) NOT_MEMMAP_ADDR 0 mi = Done (mi\<lparr>mm_table := Some ?u\<rparr>)"
      by (rule dump_mem_map_overwrite [OF assms(1)]) (use len False in \<open>cases t; simp\<close>)
    moreover have "fill_table xs 1 (mi\<lparr>mm_table := Some ?u\<rparr>) =
        Done (1 + length (with_gaps xs), mi\<lparr>mm_table := Some (overwrite ?u 1 (with_gaps xs))\<rparr>)"
      using fill_table_overwrite [of "mi\<lparr>mm_table := Some ?u\<rparr>" ?u 1 xs] len False by simp
    ultimately show ?thesis using False len overwrite_append [of 0 "[?g]" "with_gaps xs" t] by (simp add: pre_def)
  qed
  have c: "create_table xs mi = (case pre of
        Done (id_mm, mi') \<Rightarrow>
           if mm_pfn_end (last xs) < ?e
           then dump_mem_map (mm_pfn_end (last xs)) ?e NOT_MEMMAP_ADDR id_mm mi'
           else Done mi'
      | _ \<Rightarrow> Undefined)"
    unfolding create_table_def pre_def end_of_frames_def Let_def ..
  show ?thesis
  proof (cases "mm_pfn_end (last xs) < ?e")
    case True
    let ?mw = "mi\<lparr>mm_table := Some (overwrite t 0 ?w)\<rparr>"
    from True have "dump_mem_map (mm_pfn_end (last xs)) ?e NOT_MEMMAP_ADDR (length ?w) ?mw =
        Done (mi\<lparr>mm_table := Some (overwrite (overwrite t 0 ?w) (length ?w) ?l)\<rparr>)"
      using dump_mem_map_overwrite [of ?mw "overwrite t 0 ?w" "length ?w"] len by auto
    with True overwrite_append [of 0 ?w ?l t] len show ?thesis unfolding c pre T by auto
  next
    case False
    then show ?thesis unfolding c pre T by auto
  qed
qed

text \<open>The number of entries \<open>get_mm_discontigmem\<close> computes is the number of tiles up to \<open>max_mapnr\<close>.\<close>

lemma table_of_nodes_overlap:
  assumes "\<not> no_overlap xs"
  shows "table_of_nodes al xs mi =
     Done (False, mi\<lparr>num_mem_map := snd (count_gaps xs (length xs + (if mm_pfn_start (hd xs) \<noteq> 0 then 1 else 0)))\<rparr>)"
proof -
  let ?n0 = "length xs + (if mm_pfn_start (hd xs) \<noteq> 0 then 1 else 0)"
  obtain ok n where "count_gaps xs ?n0 = (ok, n)" by force
  with count_gaps_result [of xs ?n0] assms show ?thesis by (simp add: table_of_nodes_def Let_def)
qed

lemma table_of_nodes_alloc:
  assumes "no_overlap xs"
  shows "table_of_nodes al xs mi = (case alloc_table al (mi\<lparr>num_mem_map := length (tiles (max_mapnr mi) xs)\<rparr>) of
             (False, mi') \<Rightarrow> Done (False, mi') | (True, mi') \<Rightarrow> ret_true (create_table xs mi'))"
proof -
  let ?n0 = "length xs + (if mm_pfn_start (hd xs) \<noteq> 0 then 1 else 0)"
  obtain n where cg: "count_gaps xs ?n0 = (True, n)" "n + length xs = ?n0 + length (with_gaps xs)"
    using count_gaps_result [of xs ?n0] assms by (cases "count_gaps xs ?n0") auto
  have "length (tiles (max_mapnr mi) xs) = n + (if mm_pfn_end (last xs) < max_mapnr mi then 1 else 0)"
    using cg(2) by (simp add: tiles_def)
  then show ?thesis using cg(1) unfolding table_of_nodes_def Let_def by (simp only: prod.case bool.case)
qed

lemma table_of_nodes_written:
  assumes "no_overlap xs" "length (tiles (end_of_frames mi) xs) \<le> length (tiles (max_mapnr mi) xs)"
    "al (SIZEOF_mem_map_data * of_nat (length (tiles (max_mapnr mi) xs)))"
  shows "table_of_nodes al xs mi = Done (True, mi\<lparr>num_mem_map := length (tiles (max_mapnr mi) xs),
     mm_table := Some (overwrite (replicate (length (tiles (max_mapnr mi) xs)) None) 0 (tiles (end_of_frames mi) xs))\<rparr>)"
proof -
  let ?n = "length (tiles (max_mapnr mi) xs)"
  let ?mi = "mi\<lparr>num_mem_map := ?n, mm_table := Some (replicate ?n None)\<rparr>"
  have "end_of_frames ?mi = end_of_frames mi" by (simp add: end_of_frames_def)
  then have "create_table xs ?mi = Done (?mi\<lparr>mm_table := Some (overwrite (replicate ?n None) 0 (tiles (end_of_frames mi) xs))\<rparr>)"
    using create_table_overwrite [of ?mi "replicate ?n None" xs] assms(2) by simp
  then show ?thesis using assms(3) unfolding table_of_nodes_alloc [OF assms(1)] by (simp add: alloc_table_def ret_true_def)
qed

lemma table_of_nodes_result:
  assumes "\<not> xen_memory mi"
  shows "table_of_nodes al xs mi =
    (if no_overlap xs
     then (let ts = tiles (max_mapnr mi) xs; mi' = mi\<lparr>num_mem_map := length ts\<rparr> in
           if al (SIZEOF_mem_map_data * of_nat (length ts)) then Done (True, mi'\<lparr>mm_table := Some (map Some ts)\<rparr>)
           else Done (False, mi'\<lparr>mm_table := None\<rparr>))
     else Done (False, mi\<lparr>num_mem_map := snd (count_gaps xs (length xs + (if mm_pfn_start (hd xs) \<noteq> 0 then 1 else 0)))\<rparr>))"
proof (cases "no_overlap xs")
  case False
  then show ?thesis using table_of_nodes_overlap [OF False] by simp
next
  case True
  have "end_of_frames mi = max_mapnr mi" using assms by (simp add: end_of_frames_def)
  then show ?thesis using True table_of_nodes_alloc [OF True] table_of_nodes_written [OF True, of mi al]
    by (simp add: Let_def overwrite_full alloc_table_def)
qed

text \<open>
  What the loop over the nodes collects fits into the local array and ends at or below \<open>max_mapnr\<close>.
\<close>

definition nodes_ok :: "mm_info \<Rightarrow> nat \<Rightarrow> mem_map_data list \<Rightarrow> bool" where
  "nodes_ok mi cap ds \<longleftrightarrow> length ds \<le> cap \<and> (\<forall>d\<in>set ds. mm_pfn_end d \<le> max_mapnr mi)"

lemma nodes_ok_add:
  "nodes_ok mi cap acc \<Longrightarrow> length acc < cap \<Longrightarrow> pe \<le> max_mapnr mi \<Longrightarrow> nodes_ok mi cap (acc @ [mmd_entry ps pe a])"
  by (auto simp: nodes_ok_def)

lemma nodes_ok_snoc:
  "nodes_ok mi cap acc \<Longrightarrow> length acc < cap \<Longrightarrow> nodes_ok mi cap (acc @ [mmd_entry ps (if max_mapnr mi < pe then max_mapnr mi else pe) a])"
  by (rule nodes_ok_add) auto

lemma separate_mem_map_ok:
  "separate_mem_map rdv mi cap nid m p n i acc = Done ds \<Longrightarrow> nodes_ok mi cap acc \<Longrightarrow> nodes_ok mi cap ds"
proof (induction n arbitrary: i acc)
  case (Suc n)
  then obtain s z nd where g: "get_node_memblk rdv mi i = Some (s, z, nd)" by (cases "get_node_memblk rdv mi i") auto
  let ?ps = "paddr_to_pfn mi s" and ?pe = "paddr_to_pfn mi (s + z)"
  let ?acc = "acc @ [mmd_entry ?ps (if max_mapnr mi < ?pe then max_mapnr mi else ?pe) (m + SZ_page mi * (?ps - p))]"
  consider "ds = acc" | "separate_mem_map rdv mi cap nid m p n (Suc i) acc = Done ds"
    | "length acc < cap" "separate_mem_map rdv mi cap nid m p n (Suc i) ?acc = Done ds"
    using Suc.prems(1) unfolding separate_mem_map.simps g option.case prod.case Let_def
    by (metis outcome.distinct(1,3,5) outcome.inject)
  then show ?case by cases (use Suc.IH Suc.prems(2) nodes_ok_snoc in blast)+
qed simp

lemma node_entries_ok:
  "node_entries rdv mi cap sep vm node pgdat acc = Done ds \<Longrightarrow> nodes_ok mi cap acc \<Longrightarrow> nodes_ok mi cap ds"
  by (auto simp: node_entries_def Let_def nodes_ok_add not_less split: option.splits if_split_asm dest: separate_mem_map_ok)

lemma node_loop_ok:
  "node_loop rdv mi cap sep vm n node pgdat acc = Done ds \<Longrightarrow> nodes_ok mi cap acc \<Longrightarrow> nodes_ok mi cap ds"
proof (induction n arbitrary: node pgdat acc)
  case (Suc n)
  then obtain acc' where a: "node_entries rdv mi cap sep vm node pgdat acc = Done acc'" by (auto split: outcome.splits)
  note b = node_entries_ok [OF a Suc.prems(2)]
  from Suc.prems(1) a Suc.IH [OF _ b] b show ?case by (auto simp: Let_def split: if_splits outcome.splits)
qed simp

text \<open>A successful \<^verbatim>\<open>get_mm_discontigmem\<close> ends in \<open>table_of_nodes\<close> on the sorted entries of the nodes.\<close>

lemma get_mm_discontigmem_nodes:
  assumes "get_mm_discontigmem al rdv mi = Done (True, mi')"
  obtains ds where "ds \<noteq> []" "\<forall>d\<in>set ds. mm_pfn_end d \<le> max_mapnr mi"
    "table_of_nodes al (mmd_sort ds) mi = Done (True, mi')"
proof -
  let ?num = "get_num_mm_discontigmem rdv mi"
  from assms obtain vm node pgdat ds where
    l: "node_loop rdv mi ?num (numnodes mi < ?num) vm (numnodes mi) node pgdat [] = Done ds"
    and d: "\<not> (length ds < ?num \<or> ?num = 0)" "table_of_nodes al (mmd_sort ds) mi = Done (True, mi')"
    unfolding get_mm_discontigmem_def Let_def by (auto split: if_split_asm option.splits outcome.splits)
  from node_loop_ok [OF l] have "nodes_ok mi ?num ds" by (simp add: nodes_ok_def)
  with d show ?thesis by (intro that [of ds]) (auto simp: nodes_ok_def)
qed

section \<open>Sections\<close>

fun sparse_tiles :: "mm_info \<Rightarrow> u64 list \<Rightarrow> nat \<Rightarrow> mem_map_data list" where
  "sparse_tiles mi [] nr = []"
| "sparse_tiles mi (m # ms) nr =
     (let ps = of_nat nr * PAGES_PER_SECTION mi; pe = ps + PAGES_PER_SECTION mi in
      mmd_entry ps (if max_mapnr mi < pe then max_mapnr mi else pe) m # sparse_tiles mi ms (Suc nr))"

lemma length_sparse_tiles [simp]: "length (sparse_tiles mi ms nr) = length ms"
  by (induction ms arbitrary: nr) (simp_all add: Let_def)

lemma sparse_tiles_table [simp]: "sparse_tiles (mi\<lparr>mm_table := t\<rparr>) ms nr = sparse_tiles mi ms nr"
  by (induction ms arbitrary: nr) (simp_all add: Let_def PAGES_PER_SECTION_def PFN_SECTION_SHIFT_def)

lemma sparse_fill_overwrite:
  assumes "mm_table mi = Some t" "nr + length ms \<le> length t"
  shows "sparse_fill ms nr mi = Done (mi\<lparr>mm_table := Some (overwrite t nr (sparse_tiles mi ms nr))\<rparr>)"
  using assms
proof (induction ms arbitrary: nr mi t)
  case Nil
  then show ?case by simp
next
  case (Cons m ms)
  let ?ps = "of_nat nr * PAGES_PER_SECTION mi"
  let ?pe = "if max_mapnr mi < ?ps + PAGES_PER_SECTION mi then max_mapnr mi else ?ps + PAGES_PER_SECTION mi"
  let ?u = "overwrite t nr [mmd_entry ?ps ?pe m]"
  let ?mi = "mi\<lparr>mm_table := Some ?u\<rparr>"
  have "dump_mem_map ?ps ?pe m nr mi = Done ?mi"
    using Cons.prems by (intro dump_mem_map_overwrite) simp_all
  moreover have "sparse_fill ms (Suc nr) ?mi = Done (?mi\<lparr>mm_table := Some (overwrite ?u (Suc nr) (sparse_tiles ?mi ms (Suc nr)))\<rparr>)"
    using Cons.prems by (intro Cons.IH) simp_all
  moreover have "overwrite ?u (Suc nr) (sparse_tiles mi ms (Suc nr)) = overwrite t nr (sparse_tiles mi (m # ms) nr)"
    using overwrite_append [of nr "[mmd_entry ?ps ?pe m]" "sparse_tiles mi ms (Suc nr)" t] Cons.prems(2) by (simp add: Let_def)
  ultimately show ?case by (simp only: sparse_fill.simps Let_def outcome.case sparse_tiles_table) simp
qed

text \<open>
  The number of sections is computed without overflow: no section reaches behind 2^64 frames and
  the number fits the \<^verbatim>\<open>unsigned int\<close> it is kept in.
\<close>

definition sections_fit :: "mm_info \<Rightarrow> bool" where
  "sections_fit mi \<longleftrightarrow> PFN_SECTION_SHIFT mi < 64 \<and> unat (max_mapnr mi) + 2 ^ PFN_SECTION_SHIFT mi < 2 ^ 64 \<and>
     (unat (max_mapnr mi) + (2 ^ PFN_SECTION_SHIFT mi - 1)) div 2 ^ PFN_SECTION_SHIFT mi < 2 ^ 32"

definition nr_sections :: "mm_info \<Rightarrow> nat" where
  "nr_sections mi = (unat (max_mapnr mi) + (2 ^ PFN_SECTION_SHIFT mi - 1)) div 2 ^ PFN_SECTION_SHIFT mi"

lemma unat_PAGES_PER_SECTION: "PFN_SECTION_SHIFT mi < 64 \<Longrightarrow> unat (PAGES_PER_SECTION mi) = 2 ^ PFN_SECTION_SHIFT mi"
proof -
  assume "PFN_SECTION_SHIFT mi < 64"
  then have "(2 :: nat) ^ PFN_SECTION_SHIFT mi < 2 ^ 64" by (rule power_strict_increasing) simp
  moreover have "PAGES_PER_SECTION mi = of_nat (2 ^ PFN_SECTION_SHIFT mi)" by (simp add: PAGES_PER_SECTION_def push_bit_of_1)
  ultimately show ?thesis by (simp only: unat_of_nat64)
qed

lemma num_section_exact:
  assumes "sections_fit mi"
  shows "unat (ucast (divideup (max_mapnr mi) (PAGES_PER_SECTION mi)) :: u32) = nr_sections mi"
proof -
  define P where "P = (2 :: nat) ^ PFN_SECTION_SHIFT mi"
  have f: "PFN_SECTION_SHIFT mi < 64" "unat (max_mapnr mi) + P < 2 ^ 64" "nr_sections mi < 2 ^ 32"
    using assms by (simp_all add: sections_fit_def P_def nr_sections_def)
  have P: "unat (PAGES_PER_SECTION mi) = P" "0 < P" using unat_PAGES_PER_SECTION [OF f(1)] by (simp_all add: P_def)
  have "1 \<le> PAGES_PER_SECTION mi" using P by (simp add: word_le_nat_alt)
  then have m1: "unat (PAGES_PER_SECTION mi - 1) = P - 1" using P by (simp add: unat_minus64)
  have "unat (max_mapnr mi + (PAGES_PER_SECTION mi - 1)) = unat (max_mapnr mi) + (P - 1)"
    using unat_plus64 [of "max_mapnr mi" "PAGES_PER_SECTION mi - 1"] m1 f(2) by simp
  then have "unat (divideup (max_mapnr mi) (PAGES_PER_SECTION mi)) = nr_sections mi"
    using P(1) by (simp add: divideup_def unat_div64 nr_sections_def P_def)
  with f(3) show ?thesis by (simp add: unsigned_ucast_eq take_bit_nat_eq_self_iff)
qed

lemma sections_cover:
  assumes "sections_fit mi"
  shows "unat (max_mapnr mi) \<le> nr_sections mi * 2 ^ PFN_SECTION_SHIFT mi"
    "nr_sections mi * 2 ^ PFN_SECTION_SHIFT mi < unat (max_mapnr mi) + 2 ^ PFN_SECTION_SHIFT mi"
proof -
  define P where "P = (2 :: nat) ^ PFN_SECTION_SHIFT mi"
  define s where "s = unat (max_mapnr mi) + (P - 1)"
  have "0 < P" by (simp add: P_def)
  then have "s div P * P \<le> s" "s < s div P * P + P" using dividend_less_div_times [of P s] by simp_all
  moreover have n: "nr_sections mi = s div P" by (simp add: nr_sections_def s_def P_def)
  moreover have "s = unat (max_mapnr mi) + (P - 1)" by (simp add: s_def)
  ultimately have "unat (max_mapnr mi) \<le> nr_sections mi * P \<and> nr_sections mi * P < unat (max_mapnr mi) + P"
    using \<open>0 < P\<close> unfolding n by linarith
  then show "unat (max_mapnr mi) \<le> nr_sections mi * 2 ^ PFN_SECTION_SHIFT mi"
    "nr_sections mi * 2 ^ PFN_SECTION_SHIFT mi < unat (max_mapnr mi) + 2 ^ PFN_SECTION_SHIFT mi"
    by (simp_all add: P_def)
qed

lemma chain_sparse_tiles:
  assumes "sections_fit mi"
  shows "nr + length ms = nr_sections mi \<Longrightarrow> ms \<noteq> [] \<Longrightarrow>
    chain (of_nat nr * PAGES_PER_SECTION mi) (sparse_tiles mi ms nr) (max_mapnr mi)"
proof (induction ms arbitrary: nr)
  case (Cons m ms)
  define P where "P = (2 :: nat) ^ PFN_SECTION_SHIFT mi"
  have f: "PFN_SECTION_SHIFT mi < 64" "unat (max_mapnr mi) + P < 2 ^ 64" using assms by (simp_all add: sections_fit_def P_def)
  have P: "unat (PAGES_PER_SECTION mi) = P" using unat_PAGES_PER_SECTION [OF f(1)] by (simp add: P_def)
  note C = sections_cover [OF assms, folded P_def]
  have pe: "of_nat nr * PAGES_PER_SECTION mi + PAGES_PER_SECTION mi = of_nat (Suc nr) * PAGES_PER_SECTION mi"
    by (simp add: algebra_simps)
  have "PAGES_PER_SECTION mi = of_nat P" unfolding P [symmetric] by simp
  then have e: "of_nat (Suc nr) * PAGES_PER_SECTION mi = of_nat (Suc nr * P)" by (simp only: of_nat_mult)
  have "Suc nr * P \<le> nr_sections mi * P" using Cons.prems(1) by (intro mult_le_mono1) simp
  then have u: "unat (of_nat (Suc nr * P) :: u64) = Suc nr * P" using C(2) f(2) by (intro unat_of_nat64) linarith
  show ?case
  proof (cases "ms = []")
    case True
    then have "Suc nr = nr_sections mi" using Cons.prems(1) by simp
    then have "max_mapnr mi \<le> of_nat (Suc nr * P)" using C(1) u by (simp add: word_le_nat_alt)
    with True show ?thesis by (auto simp: Let_def pe e simp del: of_nat_Suc of_nat_mult)
  next
    case False
    then have "Suc (Suc nr) \<le> nr_sections mi" using Cons.prems(1) by (cases ms) auto
    then have "Suc (Suc nr) * P \<le> nr_sections mi * P" by (rule mult_le_mono1)
    then have "Suc nr * P < unat (max_mapnr mi)" using C(2) by simp
    then have "\<not> max_mapnr mi < of_nat (Suc nr) * PAGES_PER_SECTION mi" using u unfolding e by (simp add: word_less_nat_alt)
    moreover have "Suc nr + length ms = nr_sections mi" using Cons.prems(1) by simp
    ultimately show ?thesis using Cons.IH [of "Suc nr"] False
      by (simp add: Let_def pe del: of_nat_Suc)
  qed
qed simp

lemma sparse_tiles_bound: "d \<in> set (sparse_tiles mi ms nr) \<Longrightarrow> mm_pfn_end d \<le> max_mapnr mi"
  by (induction ms arbitrary: nr) (auto simp: Let_def)

lemma validate_loop_length:
  "validate_loop al rdv mi mem_sec n nr ret acc = Some ms \<Longrightarrow> length ms = length acc + n"
  by (induction n arbitrary: nr ret acc) (force split: option.splits if_splits)+

lemma get_mem_section_length: "get_mem_section al rdv mi sz n = Some ms \<Longrightarrow> length ms = unat n"
  by (auto simp: get_mem_section_def validate_mem_section_def Let_def dest: validate_loop_length
      split: if_splits option.splits)

text \<open>A section is present, so there is at least one.\<close>

lemma validate_loop_nonempty: "validate_loop al rdv mi mem_sec 0 nr False [] = None"
  by simp

lemma get_mem_section_nonempty: "get_mem_section al rdv mi sz n = Some ms \<Longrightarrow> ms \<noteq> []"
  using get_mem_section_length [of al rdv mi sz n ms]
  by (cases "unat n") (auto simp: get_mem_section_def validate_mem_section_def Let_def split: if_splits option.splits)

lemma get_mm_sparsemem_tiles:
  assumes "get_mm_sparsemem al rdv mi = Done (True, mi')" "sections_fit mi"
  obtains ms where "ms \<noteq> []" "length ms = nr_sections mi" "num_mem_map mi' = nr_sections mi"
    "mm_table mi' = Some (map Some (sparse_tiles mi ms 0))" "max_mapnr mi' = max_mapnr mi" "xen_memory mi' = xen_memory mi"
proof -
  let ?n = "ucast (divideup (max_mapnr mi) (PAGES_PER_SECTION mi)) :: u32"
  from assms(1) obtain spr sz ms where m: "get_mem_section al rdv (mi\<lparr>sections_per_root := spr\<rparr>) sz ?n = Some ms"
    and r: "ret_true (sparse_fill ms 0 (mi\<lparr>sections_per_root := spr, num_mem_map := unat ?n, mm_table := Some (replicate (unat ?n) None)\<rparr>)) = Done (True, mi')"
    unfolding get_mm_sparsemem_def Let_def alloc_table_def by (auto split: if_split_asm option.splits)
  let ?mi = "mi\<lparr>sections_per_root := spr, num_mem_map := unat ?n, mm_table := Some (replicate (unat ?n) None)\<rparr>"
  note l = get_mem_section_length [OF m]
  have s: "sparse_tiles ?mi ms 0 = sparse_tiles mi ms 0" for ms
  proof -
    have "sparse_tiles ?mi ms k = sparse_tiles mi ms k" for k
      by (induction ms arbitrary: k) (simp_all add: Let_def PAGES_PER_SECTION_def PFN_SECTION_SHIFT_def)
    then show ?thesis .
  qed
  have "sparse_fill ms 0 ?mi = Done (?mi\<lparr>mm_table := Some (map Some (sparse_tiles mi ms 0))\<rparr>)"
    using sparse_fill_overwrite [of ?mi "replicate (unat ?n) None" 0 ms] l s overwrite_full [of "sparse_tiles mi ms 0" "unat ?n"] by simp
  with r have "mi' = ?mi\<lparr>mm_table := Some (map Some (sparse_tiles mi ms 0))\<rparr>" by (simp add: ret_true_def)
  with l get_mem_section_nonempty [OF m] num_section_exact [OF assms(2)] show ?thesis by (intro that [of ms]) simp_all
qed

section \<open>The whole map\<close>

text \<open>A table that is written completely and tiles the frames below \<open>mx\<close>.\<close>

definition tiled :: "mm_info \<Rightarrow> u64 \<Rightarrow> mem_map_data list \<Rightarrow> bool" where
  "tiled mi mx ts \<longleftrightarrow> mm_table mi = Some (map Some ts) \<and> num_mem_map mi = length ts \<and> chain 0 ts mx \<and>
     (\<forall>d\<in>set ts. mem_map d \<noteq> NOT_MEMMAP_ADDR \<longrightarrow> mm_pfn_end d \<le> mx)"

lemma get_mm_discontigmem_tiled:
  assumes "get_mm_discontigmem al rdv mi = Done (True, mi')" "\<not> xen_memory mi"
  shows "\<exists>ts. tiled mi' (max_mapnr mi) ts \<and> max_mapnr mi' = max_mapnr mi \<and> \<not> xen_memory mi'"
proof -
  obtain ds where ds: "ds \<noteq> []" "\<forall>d\<in>set ds. mm_pfn_end d \<le> max_mapnr mi"
    "table_of_nodes al (mmd_sort ds) mi = Done (True, mi')" by (rule get_mm_discontigmem_nodes [OF assms(1)])
  let ?xs = "mmd_sort ds"
  let ?ts = "tiles (max_mapnr mi) ?xs"
  have xs: "?xs \<noteq> []" using ds(1) length_mmd_sort [of ds] by (metis length_0_conv)
  have mi': "mi' = mi\<lparr>num_mem_map := length ?ts, mm_table := Some (map Some ?ts)\<rparr>"
    using ds(3) unfolding table_of_nodes_result [OF assms(2)] by (simp add: Let_def split: if_split_asm)
  have "mm_pfn_end (last ?xs) \<le> max_mapnr mi" using ds(2) xs last_in_set [OF xs] by simp
  note c = chain_tiles [OF xs this]
  have "mm_pfn_end d \<le> max_mapnr mi" if "d \<in> set ?ts" "mem_map d \<noteq> NOT_MEMMAP_ADDR" for d
  proof -
    have "d \<in> set (filter (\<lambda>d. mem_map d \<noteq> NOT_MEMMAP_ADDR) ?ts)" using that by simp
    with ds(2) show ?thesis unfolding tiles_maps by simp
  qed
  with c show ?thesis unfolding mi' by (intro exI [of _ ?ts]) (simp add: tiled_def assms(2))
qed

lemma get_mm_sparsemem_tiled:
  assumes "get_mm_sparsemem al rdv mi = Done (True, mi')" "sections_fit mi" "\<not> xen_memory mi"
  shows "\<exists>ts. tiled mi' (max_mapnr mi) ts \<and> max_mapnr mi' = max_mapnr mi \<and> \<not> xen_memory mi'"
proof -
  obtain ms where ms: "ms \<noteq> []" "length ms = nr_sections mi" "num_mem_map mi' = nr_sections mi"
    "mm_table mi' = Some (map Some (sparse_tiles mi ms 0))" "max_mapnr mi' = max_mapnr mi" "xen_memory mi' = xen_memory mi"
    by (rule get_mm_sparsemem_tiles [OF assms(1,2)])
  have "chain 0 (sparse_tiles mi ms 0) (max_mapnr mi)" using chain_sparse_tiles [OF assms(2), of 0 ms] ms(1,2) by simp
  then have "tiled mi' (max_mapnr mi) (sparse_tiles mi ms 0)"
    using ms sparse_tiles_bound [of _ mi ms 0] by (simp add: tiled_def)
  with ms(5,6) assms(3) show ?thesis by auto
qed

lemma get_mm_flatmem_tiled:
  assumes "get_mm_flatmem al rdv mi = Done (True, mi')" "flatmem_first mi = 0" "\<not> xen_memory mi"
  shows "\<exists>ts. tiled mi' (max_mapnr mi) ts \<and> max_mapnr mi' = max_mapnr mi \<and> \<not> xen_memory mi'"
proof -
  from assms obtain m where "mi' = mi\<lparr>num_mem_map := 1, mm_table := Some [Some (mmd_entry 0 (max_mapnr mi) m)]\<rparr>"
    by (auto simp: get_mm_flatmem_def alloc_table_def ret_true_def dump_mem_map_def mmd_entry_def
        split: option.splits if_split_asm)
  with assms(3) show ?thesis by (intro exI [of _ "[mmd_entry 0 (max_mapnr mi) m]"]) (simp add: tiled_def)
qed

lemma get_mm_tiled:
  assumes "get_mm al rdv mi = Done (True, mi')" "flatmem_first mi = 0" "sections_fit mi" "\<not> xen_memory mi"
  shows "\<exists>ts. tiled mi' (max_mapnr mi) ts \<and> max_mapnr mi' = max_mapnr mi \<and> \<not> xen_memory mi'"
  using assms get_mm_discontigmem_tiled get_mm_sparsemem_tiled get_mm_flatmem_tiled
  by (simp add: get_mm_def split: mem_type.splits)

definition valid_ends :: "mem_map_data list \<Rightarrow> u64 list" where
  "valid_ends ts = map mm_pfn_end (filter (\<lambda>d. mem_map d \<noteq> NOT_MEMMAP_ADDR) ts)"

lemma scan_table_full:
  "scan_table (length ts) (map Some ts) mp v = Some (fold max (valid_ends ts) mp, v + length (valid_ends ts))"
  by (induction ts arbitrary: mp v) (simp_all add: valid_ends_def max.commute)

lemma fold_max_upper: "x \<le> m \<or> x \<in> set xs \<Longrightarrow> x \<le> fold max xs (m :: u64)"
proof (induction xs arbitrary: m)
  case (Cons y ys)
  then have "x \<le> max y m \<or> x \<in> set ys" by (auto simp: le_max_iff_disj)
  from Cons.IH [OF this] show ?case by simp
qed simp

lemma adjust_max_mapnr_tiled:
  assumes "tiled mi mx ts" "max_mapnr mi = mx"
  obtains mi' where "adjust_max_mapnr mi = Some mi'" "tiled mi' mx ts" "max_mapnr mi' \<le> mx"
    "\<And>d. d \<in> set ts \<Longrightarrow> mem_map d \<noteq> NOT_MEMMAP_ADDR \<Longrightarrow> mm_pfn_end d \<le> max_mapnr mi'"
proof -
  let ?mp = "fold max (valid_ends ts) 0"
  let ?mi = "if valid_ends ts \<noteq> [] then mi\<lparr>max_mapnr := min mx ?mp\<rparr> else mi"
  have "adjust_max_mapnr mi = Some ?mi"
    using assms by (simp add: adjust_max_mapnr_def tiled_def scan_table_full)
  moreover have "tiled ?mi mx ts" "max_mapnr ?mi \<le> mx" using assms by (simp_all add: tiled_def)
  moreover have "mm_pfn_end d \<le> max_mapnr ?mi" if d: "d \<in> set ts" "mem_map d \<noteq> NOT_MEMMAP_ADDR" for d
  proof -
    have "mm_pfn_end d \<in> set (valid_ends ts)" using d by (auto simp: valid_ends_def)
    then have "mm_pfn_end d \<le> ?mp" "valid_ends ts \<noteq> []" by (auto intro: fold_max_upper)
    with assms(1) d show ?thesis by (simp add: tiled_def)
  qed
  ultimately show ?thesis by (rule that)
qed

text \<open>
  C18. After a successful \<^verbatim>\<open>get_mem_map\<close> every entry of the table has been written, the entries follow each
  other without gap or overlap from frame 0 to the number of frames, so that every frame is in one of
  them, and \<^verbatim>\<open>max_mapnr\<close> has only been lowered, to a value no entry with page descriptors passes. This
  holds for the three memory models, when the number of sections is computed without overflow and
  FLATMEM starts at frame 0.
\<close>

theorem get_mem_map_tiles:
  assumes "get_mem_map al rdv mi = Done (True, mi')" "\<not> xen_memory mi" "flatmem_first mi = 0" "sections_fit mi"
  shows "\<exists>ts. mm_table mi' = Some (map Some ts) \<and> num_mem_map mi' = length ts \<and> chain 0 ts (max_mapnr mi) \<and>
     (\<forall>pfn<max_mapnr mi. \<exists>d\<in>set ts. mm_pfn_start d \<le> pfn \<and> pfn < mm_pfn_end d) \<and>
     max_mapnr mi' \<le> max_mapnr mi \<and>
     (\<forall>d\<in>set ts. mem_map d \<noteq> NOT_MEMMAP_ADDR \<longrightarrow> mm_pfn_end d \<le> max_mapnr mi')"
proof -
  from assms(1) obtain mi1 where g: "get_mm al rdv mi = Done (True, mi1)"
    by (auto simp: get_mem_map_def split: outcome.splits if_split_asm option.splits)
  obtain ts where ts: "tiled mi1 (max_mapnr mi) ts" "max_mapnr mi1 = max_mapnr mi" "\<not> xen_memory mi1"
    using get_mm_tiled [OF g assms(3,4,2)] by blast
  obtain mi2 where a: "adjust_max_mapnr mi1 = Some mi2" "tiled mi2 (max_mapnr mi) ts" "max_mapnr mi2 \<le> max_mapnr mi"
    "\<And>d. d \<in> set ts \<Longrightarrow> mem_map d \<noteq> NOT_MEMMAP_ADDR \<Longrightarrow> mm_pfn_end d \<le> max_mapnr mi2"
    using adjust_max_mapnr_tiled [OF ts(1,2)] by blast
  from assms(1) g ts(3) a(1) have "mi' = mi2" by (simp add: get_mem_map_def)
  with a(2-4) chain_covers [of 0 ts "max_mapnr mi"] show ?thesis unfolding tiled_def by (intro exI [of _ ts]) auto
qed

section \<open>Nodes in any order\<close>

definition disjoint_nodes :: "mem_map_data list \<Rightarrow> bool" where
  "disjoint_nodes ds \<longleftrightarrow> distinct ds \<and> (\<forall>a\<in>set ds. mm_pfn_start a < mm_pfn_end a) \<and>
     (\<forall>a\<in>set ds. \<forall>b\<in>set ds. a \<noteq> b \<longrightarrow> mm_pfn_end a \<le> mm_pfn_start b \<or> mm_pfn_end b \<le> mm_pfn_start a)"

lemma disjoint_sorted_no_overlap:
  "disjoint_nodes xs \<Longrightarrow> sorted (map mm_pfn_start xs) \<Longrightarrow> no_overlap xs"
proof (induction xs rule: no_overlap.induct)
  case (1 a b xs)
  have "mm_pfn_end a \<le> mm_pfn_start b"
  proof (rule ccontr)
    assume "\<not> ?thesis"
    with 1(2) have "mm_pfn_end b \<le> mm_pfn_start a" "mm_pfn_start b < mm_pfn_end b" by (auto simp: disjoint_nodes_def)
    with 1(3) show False by (simp add: not_less) (meson leD order_trans less_le_trans)
  qed
  with 1 show ?case by (auto simp: disjoint_nodes_def)
qed simp_all

lemma disjoint_nodes_perm: "mset xs = mset ds \<Longrightarrow> disjoint_nodes ds \<Longrightarrow> disjoint_nodes xs"
  unfolding disjoint_nodes_def by (metis mset_eq_imp_distinct_iff mset_eq_setD)

text \<open>
  What \<^verbatim>\<open>get_mm_discontigmem\<close> relies on in the sort: disjoint maps come out of it without overlapping neighbours.
\<close>

locale map_sort =
  fixes sort_maps :: "mem_map_data list \<Rightarrow> mem_map_data list"
  assumes sorted_maps: "sorted (map mm_pfn_start (sort_maps ds))"
    and mset_maps: "mset (sort_maps ds) = mset ds"
begin

lemma disjoint_no_overlap: "disjoint_nodes ds \<Longrightarrow> no_overlap (sort_maps ds)"
  using disjoint_sorted_no_overlap [OF disjoint_nodes_perm [OF mset_maps] sorted_maps] .

lemma maps_kept: "mset (filter P (sort_maps ds)) = mset (filter P ds)"
  by (simp add: mset_maps)

end

interpretation mmd: map_sort mmd_sort
  by unfold_locales (simp_all add: mmd_sort_sorted)

text \<open>
  In whatever order the nodes are listed: when their frames do not overlap, sorting and filling
  the gaps succeeds, and the maps of the table are exactly the maps of the nodes.
\<close>

theorem discontigmem_any_order:
  assumes "disjoint_nodes ds" "\<not> xen_memory mi"
    "al (SIZEOF_mem_map_data * of_nat (length (tiles (max_mapnr mi) (mmd_sort ds))))"
  shows "\<exists>mi' ts. table_of_nodes al (mmd_sort ds) mi = Done (True, mi') \<and> mm_table mi' = Some (map Some ts) \<and>
     num_mem_map mi' = length ts \<and>
     mset (filter (\<lambda>d. mem_map d \<noteq> NOT_MEMMAP_ADDR) ts) = mset (filter (\<lambda>d. mem_map d \<noteq> NOT_MEMMAP_ADDR) ds)"
proof -
  note mmd.disjoint_no_overlap [OF assms(1)] mmd.maps_kept [of _ ds]
  then show ?thesis using assms(3) tiles_maps [of "max_mapnr mi" "mmd_sort ds"]
    unfolding table_of_nodes_result [OF assms(2)] by (simp add: Let_def del: mset_filter)
qed

section \<open>Page descriptors and page frames\<close>

text \<open>The page descriptors of an entry, as a range of addresses that does not wrap around.\<close>

definition map_bytes :: "nat \<Rightarrow> mem_map_data \<Rightarrow> nat" where
  "map_bytes sz d = (unat (mm_pfn_end d) - unat (mm_pfn_start d)) * sz"

definition in_map :: "nat \<Rightarrow> mem_map_data \<Rightarrow> nat \<Rightarrow> bool" where
  "in_map sz d a \<longleftrightarrow> mem_map d \<noteq> NOT_MEMMAP_ADDR \<and> unat (mem_map d) \<le> a \<and> a < unat (mem_map d) + map_bytes sz d"

definition maps_ok :: "nat \<Rightarrow> mem_map_data list \<Rightarrow> bool" where
  "maps_ok sz ds \<longleftrightarrow> distinct ds \<and>
     (\<forall>d\<in>set ds. mem_map d \<noteq> NOT_MEMMAP_ADDR \<longrightarrow>
        mm_pfn_start d \<le> mm_pfn_end d \<and> unat (mem_map d) + map_bytes sz d < 2 ^ 64 \<and>
        (\<forall>c\<in>set ds. c \<noteq> d \<and> mem_map c \<noteq> NOT_MEMMAP_ADDR \<longrightarrow>
           unat (mem_map c) + map_bytes sz c \<le> unat (mem_map d) \<or> unat (mem_map d) + map_bytes sz d \<le> unat (mem_map c)))"

lemma page_to_pfn_skip:
  assumes "mem_map d \<noteq> NOT_MEMMAP_ADDR \<Longrightarrow> mm_pfn_start d \<le> mm_pfn_end d" "\<not> in_map (unat sz) d (unat page)" "0 < sz"
  shows "page_to_pfn sz (d # ds) page = page_to_pfn sz ds page"
proof (cases "mem_map d = NOT_MEMMAP_ADDR \<or> page < mem_map d")
  case False
  have n: "unat (mm_pfn_end d - mm_pfn_start d) = unat (mm_pfn_end d) - unat (mm_pfn_start d)" using assms(1) False by (simp add: unat_minus64)
  have "unat (mem_map d) \<le> unat page" using False by (simp add: word_less_nat_alt)
  with assms(2) False have "(unat (mm_pfn_end d) - unat (mm_pfn_start d)) * unat sz \<le> unat page - unat (mem_map d)"
    by (auto simp: in_map_def map_bytes_def)
  moreover have "0 < unat sz" using assms(3) by (simp add: word_less_nat_alt)
  ultimately have "unat (mm_pfn_end d) - unat (mm_pfn_start d) \<le> (unat page - unat (mem_map d)) div unat sz"
    by (simp add: less_eq_div_iff_mult_less_eq)
  then have "mm_pfn_end d - mm_pfn_start d \<le> (page - mem_map d) div sz"
    using False by (simp add: word_le_nat_alt n unat_div64 unat_minus64 not_less)
  with False show ?thesis by (simp add: Let_def)
qed auto

lemma page_to_pfn_hit:
  assumes "mm_pfn_start d \<le> pfn" "pfn < mm_pfn_end d" "mem_map d \<noteq> NOT_MEMMAP_ADDR"
    "unat page = unat (mem_map d) + (unat pfn - unat (mm_pfn_start d)) * unat sz + off" "off < unat sz"
  shows "page_to_pfn sz (d # ds) page = pfn"
proof -
  let ?k = "unat pfn - unat (mm_pfn_start d)"
  have le: "mem_map d \<le> page" using assms(4) by (simp add: word_le_nat_alt)
  have "unat ((page - mem_map d) div sz) = (?k * unat sz + off) div unat sz"
    using assms(4) by (simp add: unat_div64 unat_minus64 [OF le])
  also have "\<dots> = ?k" using assms(5) by simp
  finally have idx: "unat ((page - mem_map d) div sz) = ?k" .
  have "unat (pfn - mm_pfn_start d) = ?k" using assms(1) by (rule unat_minus64)
  with idx have i: "(page - mem_map d) div sz = pfn - mm_pfn_start d" by (metis word_unat_eq_iff)
  have "mm_pfn_start d \<le> mm_pfn_end d" using assms(1,2) by (meson less_imp_le order_trans)
  then have "\<not> mm_pfn_end d - mm_pfn_start d \<le> pfn - mm_pfn_start d"
    using assms(1,2) by (simp add: word_le_nat_alt word_less_nat_alt unat_minus64 not_le)
  moreover have "\<not> page < mem_map d" using le by simp
  ultimately show ?thesis using assms(1,3) i by (simp add: Let_def)
qed

text \<open>
  C19. \<^verbatim>\<open>page_to_pfn\<close> is the inverse of the layout the table describes: any address inside the page
  descriptor of a frame is converted to that frame, when the page descriptors of different entries do not share
  addresses.
\<close>

theorem page_to_pfn_roundtrip:
  assumes "maps_ok (unat sz) ds" "d \<in> set ds" "mem_map d \<noteq> NOT_MEMMAP_ADDR"
    "mm_pfn_start d \<le> pfn" "pfn < mm_pfn_end d" "off < sz"
  shows "page_to_pfn sz ds (mem_map d + (pfn - mm_pfn_start d) * sz + off) = pfn"
proof -
  let ?k = "unat pfn - unat (mm_pfn_start d)" and ?page = "mem_map d + (pfn - mm_pfn_start d) * sz + off"
  have ok: "unat (mem_map d) + map_bytes (unat sz) d < 2 ^ 64" using assms(1-3) by (simp add: maps_ok_def)
  have off: "unat off < unat sz" using assms(6) by (simp add: word_less_nat_alt)
  have "Suc ?k \<le> unat (mm_pfn_end d) - unat (mm_pfn_start d)"
    using assms(4,5) by (simp add: word_less_nat_alt word_le_nat_alt)
  then have "Suc ?k * unat sz \<le> map_bytes (unat sz) d" unfolding map_bytes_def by (rule mult_le_mono1)
  with off have b: "?k * unat sz + unat off < map_bytes (unat sz) d" by simp
  have k: "unat (pfn - mm_pfn_start d) = ?k" using assms(4) by (rule unat_minus64)
  have page: "unat ?page = unat (mem_map d) + ?k * unat sz + unat off"
  proof -
    have "unat ((pfn - mm_pfn_start d) * sz) = ?k * unat sz" using k b ok by (simp add: unat_mult64)
    then have "unat (mem_map d + (pfn - mm_pfn_start d) * sz) = unat (mem_map d) + ?k * unat sz" using b ok by (simp add: unat_plus64)
    then show ?thesis using b ok by (simp add: unat_plus64)
  qed
  have disjoint: "unat (mem_map c) + map_bytes (unat sz) c \<le> unat (mem_map d) \<or> unat (mem_map d) + map_bytes (unat sz) d \<le> unat (mem_map c)"
    if "c \<in> set ds" "c \<noteq> d" "mem_map c \<noteq> NOT_MEMMAP_ADDR" for c
    using assms(1-3) that by (auto simp: maps_ok_def)
  from page have "in_map (unat sz) d (unat ?page)" using b assms(3) by (simp add: in_map_def)
  then have "page_to_pfn sz ds' ?page = pfn" if "set ds' \<subseteq> set ds" "d \<in> set ds'" for ds'
    using that
  proof (induction ds')
    case (Cons c cs)
    show ?case
    proof (cases "c = d")
      case True
      then show ?thesis using page_to_pfn_hit [OF assms(4,5,3) page off] by simp
    next
      case False
      then have c: "\<not> in_map (unat sz) c (unat ?page)"
        using disjoint [of c] Cons.prems(1,2) by (auto simp: in_map_def)
      have valid: "mem_map c \<noteq> NOT_MEMMAP_ADDR \<Longrightarrow> mm_pfn_start c \<le> mm_pfn_end c"
        using assms(1) Cons.prems(2) by (simp add: maps_ok_def)
      have "0 < sz" using assms(6) by (meson le_less_trans word_zero_le)
      with page_to_pfn_skip [OF _ c] valid Cons False show ?thesis by simp
    qed
  qed simp
  then show ?thesis using assms(2) by blast
qed

lemma sorted_last: "sorted_wrt (<) (ns :: nat list) \<Longrightarrow> n \<in> set ns \<Longrightarrow> n \<le> last ns"
  by (induction ns) (auto intro: less_imp_le)

lemma get_nodes_online_read:
  assumes "get_nodes_online al rdv mi = (n, mi')" "0 < n"
  obtains m where "mi' = mi\<lparr>node_online_map_len := length m, node_online_map := Some m\<rparr>" "n = sum_list (map (count_bits 64) m)"
proof -
  let ?len = "unat (SZ_nodemask_t mi)"
  let ?a = "if SYM_node_online_map mi \<noteq> 0 then SYM_node_online_map mi else SYM_node_states mi + SZ_nodemask_t mi * N_ONLINE mi"
  have c: "\<not> (SYM_node_online_map mi = 0 \<and> SYM_node_states mi = 0)" "SZ_nodemask_t mi \<noteq> -1" "al (SZ_nodemask_t mi)"
    using assms unfolding get_nodes_online_def Let_def by (auto split: if_split_asm)
  then obtain bs where bs: "rdv ?a ?len = Some bs"
    using assms unfolding get_nodes_online_def Let_def if_not_P [OF c(1)] by (cases "rdv ?a ?len") simp_all
  let ?m = "ulongs (?len div 8) bs"
  have "n = sum_list (map (count_bits 64) ?m)" "mi' = mi\<lparr>node_online_map_len := ?len div 8, node_online_map := Some ?m\<rparr>"
    using assms(1) c(2,3) bs unfolding get_nodes_online_def Let_def if_not_P [OF c(1)] by simp_all
  then show ?thesis by (intro that [of ?m]) (simp_all add: ulongs_def)
qed

text \<open>
  \<^verbatim>\<open>get_numnodes\<close> counts the nodes that \<^verbatim>\<open>next_online_node\<close> goes through: starting with 0 and going on
  behind the node found last, as many calls as \<^verbatim>\<open>numnodes\<close> says find all nodes of the mask in
  ascending order, and a call behind the last one finds none.
\<close>

theorem online_nodes_walk:
  assumes "0 < fst (get_nodes_online al rdv mi)"
  shows "\<exists>m. node_online_map (get_numnodes al rdv mi) = Some m \<and> numnodes (get_numnodes al rdv mi) = length (online m) \<and>
     (\<forall>k<length (online m). next_online_node (get_numnodes al rdv mi) (if k = 0 then 0 else online m ! (k - 1) + 1) = Done (online m ! k)) \<and>
     next_online_node (get_numnodes al rdv mi) (last (online m) + 1) = Failed"
proof -
  obtain m where m: "get_numnodes al rdv mi =
      mi\<lparr>node_online_map_len := length m, node_online_map := Some m, numnodes := sum_list (map (count_bits 64) m)\<rparr>"
    "0 < sum_list (map (count_bits 64) m)"
  proof -
    obtain n mi' where g: "get_nodes_online al rdv mi = (n, mi')" by force
    with assms have n: "0 < n" by simp
    have "get_numnodes al rdv mi = mi'\<lparr>numnodes := n\<rparr>" using g n by (simp add: get_numnodes_def)
    moreover obtain m where "mi' = mi\<lparr>node_online_map_len := length m, node_online_map := Some m\<rparr>" "n = sum_list (map (count_bits 64) m)"
      by (rule get_nodes_online_read [OF g n])
    ultimately show thesis using n by (intro that [of m]) simp_all
  qed
  let ?mi = "get_numnodes al rdv mi" and ?ns = "online m"
  note s = online_sorted [of m]
  have nxt: "next_online_node ?mi first = (case find (\<lambda>n. first \<le> n) ?ns of None \<Rightarrow> Failed | Some n \<Rightarrow> Done n)"
    if "first < 64 * length m" for first
  proof -
    have "\<not> length m \<le> first div 64" using that by (simp add: not_le less_mult_imp_div_less mult.commute)
    then show ?thesis using m(1) by (simp add: next_online_node_def scan_masks_online)
  qed
  have "next_online_node ?mi (if k = 0 then 0 else ?ns ! (k - 1) + 1) = Done (?ns ! k)" if k: "k < length ?ns" for k
  proof -
    let ?f = "if k = 0 then 0 else ?ns ! (k - 1) + 1"
    have f: "?f \<le> ?ns ! k" using sorted_wrt_nth_less [OF s, of "k - 1" k] k by auto
    have "?ns ! j < ?f" if "j < k" for j
    proof (cases "j = k - 1")
      case False
      then have "j < k - 1" using that by simp
      moreover have "k - 1 < length ?ns" using k by simp
      ultimately have "?ns ! j < ?ns ! (k - 1)" by (rule sorted_wrt_nth_less [OF s])
      with that show ?thesis by simp
    qed (use that in simp)
    then have "find (\<lambda>n. ?f \<le> n) ?ns = Some (?ns ! k)" by (rule find_sorted [OF s k f])
    moreover have "?f < 64 * length m" using f online_bound [of "?ns ! k" m] k by simp
    ultimately show ?thesis using nxt [of ?f] by simp
  qed
  moreover have "next_online_node ?mi (last ?ns + 1) = Failed"
  proof (cases "last ?ns + 1 < 64 * length m")
    case True
    have "\<not> last ?ns + 1 \<le> n" if "n \<in> set ?ns" for n using sorted_last [OF s that] by simp
    then have "find (\<lambda>n. last ?ns + 1 \<le> n) ?ns = None" unfolding find_None_iff by blast
    with nxt [OF True] show ?thesis by simp
  next
    case False
    then have "length m \<le> (last ?ns + 1) div 64" by (simp add: less_eq_div_iff_mult_less_eq)
    then show ?thesis using m(1) by (simp add: next_online_node_def)
  qed
  moreover have "node_online_map ?mi = Some m" "numnodes ?mi = length ?ns" using m(1) length_online [of m] by simp_all
  ultimately show ?thesis by blast
qed

section \<open>A NUMA machine with two nodes\<close>

definition sample_mem :: "u64 \<Rightarrow> readmem" where
  "sample_mem spanned1 a n = map_option (\<lambda>v. le_bytes n v) (map_of [
     (0x1000, 3), (0x2000, 0x9000), (0x2008, 0xa000),
     (0x9000, 0x50000), (0x9008, 100), (0x9010, 50),
     (0xa000, 0x60000), (0xa008, 10), (0xa010, unat spanned1)] a)"

definition sample_mm :: mm_info where
  "sample_mm = \<lparr>fd_bitmap = 0, bufsize_cyclic = 0, len_bitmap = 0, page_size = 4096, page_shift = 12, arch_pfn_offset = 0,
     max_mapnr = 200, xen_memory = False, p2m_mfn_frame_list = [], KVBASE = 0x8000, dom0_mapnr = 0, flatmem_first = 0,
     section_size_bits = 27, max_physmem_bits = 46, sections_per_root = 0, name_vmlinux = False, mem_section_not_array = False,
     SYM_node_online_map = 0x1000, SYM_node_states = 0, N_ONLINE = 0, SYM_node_data = 0x2000, SYM_pgdat_list = 0,
     SYM_contig_page_data = 0, SYM_mem_map = 0, SYM_vmem_map = 0, SYM_node_memblk = 0, SYM_mem_section = 0,
     SZ_nodemask_t = 8, SZ_page = 64, SZ_pglist_data = 24, SZ_node_memblk_s = -1, SZ_mem_section = 16,
     OFF_page_flags = 0, OFF_page_refcount = 8, OFF_page_mapping = 16, OFF_pgdat_next = -1, OFF_node_mem_map = 0,
     OFF_node_start_pfn = 8, OFF_node_spanned_pages = 16, OFF_memblk_start_paddr = -1, OFF_memblk_size = -1,
     OFF_memblk_nid = -1, OFF_section_mem_map = 0, LEN_node_data = 64, LEN_pgdat_list = -1, LEN_node_memblk = -1,
     LEN_mem_section = -1, numnodes = 2, node_online_map = Some [3], node_online_map_len = 1, num_mem_map = 0,
     mm_table = None\<rparr>"

definition sample_tiles :: "mem_map_data list" where
  "sample_tiles = [mmd_entry 0 10 0, mmd_entry 10 50 0x60000, mmd_entry 50 100 0, mmd_entry 100 150 0x50000, mmd_entry 150 200 0]"

definition sample_mm' :: mm_info where
  "sample_mm' = sample_mm\<lparr>num_mem_map := 5, mm_table := Some (map Some sample_tiles), max_mapnr := 150\<rparr>"

lemma rd_sample: "rd_ulong (sample_mem s) a = map_option (\<lambda>v. of_nat (v mod 2 ^ 64)) (map_of [
     (0x1000, 3), (0x2000, 0x9000), (0x2008, 0xa000),
     (0x9000, 0x50000), (0x9008, 100), (0x9010, 50),
     (0xa000, 0x60000), (0xa008, 10), (0xa010, unat s)] a)"
  unfolding rd_ulong_def sample_mem_def get64_def get_le_def option.map_comp comp_def
  by (rule option.map_cong) (simp_all add: le_nat_le_bytes)

lemma sample_mm_sel [simp]:
  "fd_bitmap sample_mm = 0" "bufsize_cyclic sample_mm = 0" "len_bitmap sample_mm = 0" "page_size sample_mm =
  4096" "page_shift sample_mm = 12" "arch_pfn_offset sample_mm = 0" "max_mapnr sample_mm = 200" "xen_memory
  sample_mm = False" "p2m_mfn_frame_list sample_mm = []" "KVBASE sample_mm = 0x8000" "dom0_mapnr sample_mm = 0"
  "flatmem_first sample_mm = 0" "section_size_bits sample_mm = 27" "max_physmem_bits sample_mm = 46"
  "sections_per_root sample_mm = 0" "name_vmlinux sample_mm = False" "mem_section_not_array sample_mm = False"
  "SYM_node_online_map sample_mm = 0x1000" "SYM_node_states sample_mm = 0" "N_ONLINE sample_mm = 0"
  "SYM_node_data sample_mm = 0x2000" "SYM_pgdat_list sample_mm = 0" "SYM_contig_page_data sample_mm = 0"
  "SYM_mem_map sample_mm = 0" "SYM_vmem_map sample_mm = 0" "SYM_node_memblk sample_mm = 0" "SYM_mem_section
  sample_mm = 0" "SZ_nodemask_t sample_mm = 8" "SZ_page sample_mm = 64" "SZ_pglist_data sample_mm = 24"
  "SZ_node_memblk_s sample_mm = -1" "SZ_mem_section sample_mm = 16" "OFF_page_flags sample_mm = 0"
  "OFF_page_refcount sample_mm = 8" "OFF_page_mapping sample_mm = 16" "OFF_pgdat_next sample_mm = -1"
  "OFF_node_mem_map sample_mm = 0" "OFF_node_start_pfn sample_mm = 8" "OFF_node_spanned_pages sample_mm = 16"
  "OFF_memblk_start_paddr sample_mm = -1" "OFF_memblk_size sample_mm = -1" "OFF_memblk_nid sample_mm = -1"
  "OFF_section_mem_map sample_mm = 0" "LEN_node_data sample_mm = 64" "LEN_pgdat_list sample_mm = -1"
  "LEN_node_memblk sample_mm = -1" "LEN_mem_section sample_mm = -1" "numnodes sample_mm = 2" "node_online_map
  sample_mm = Some [3]" "node_online_map_len sample_mm = 1" "num_mem_map sample_mm = 0" "mm_table sample_mm =
  None"
  by (simp_all only: sample_mm_def mm_info.select_convs page_info.select_convs bitmap_info.select_convs)

lemma sample_online: "next_online_node sample_mm 0 = Done 0" "next_online_node sample_mm (Suc 0) = Done 1"
proof -
  have "scan_masks [3] 0 0 = Some 0" "scan_masks [3] 0 (Suc 0) = Some 1" by code_simp+
  then show "next_online_node sample_mm 0 = Done 0" "next_online_node sample_mm (Suc 0) = Done 1"
    by (simp_all add: next_online_node_def)
qed

lemma sample_pgdat: "next_online_pgdat (sample_mem s) sample_mm 0 = 0x9000" "next_online_pgdat (sample_mem s) sample_mm (Suc 0) = 0xa000"
  by (simp_all add: next_online_pgdat_def pgdat1_def rd_pgdat_def rd_sample is_kvaddr_def)

lemma sample_entries:
  "node_entries (sample_mem s) sample_mm 2 False 0 0 0x9000 [] = Done [mmd_entry 100 150 0x50000]"
  "node_entries (sample_mem s) sample_mm 2 False 0 (Suc 0) 0xa000 [d] =
     Done [d, mmd_entry 10 (if 200 < 10 + s then 200 else 10 + s) 0x60000]"
  by (simp_all add: node_entries_def rd_sample)

lemma sample_loop:
  "node_loop (sample_mem s) sample_mm 2 False 0 2 0 0x9000 [] =
     Done [mmd_entry 100 150 0x50000, mmd_entry 10 (if 200 < 10 + s then 200 else 10 + s) 0x60000]"
  unfolding numeral_2_eq_2 by (simp add: sample_entries [unfolded numeral_2_eq_2] sample_online sample_pgdat)

lemma sample_discontigmem:
  "get_mm_discontigmem (\<lambda>_. True) (sample_mem s) sample_mm =
   table_of_nodes (\<lambda>_. True) (mmd_sort [mmd_entry 100 150 0x50000, mmd_entry 10 (if 200 < 10 + s then 200 else 10 + s) 0x60000]) sample_mm"
  unfolding get_mm_discontigmem_def get_num_mm_discontigmem_def
  by (simp add: Let_def sample_online sample_pgdat sample_loop)

lemma sample_sort: "mmd_sort [mmd_entry 100 150 a, mmd_entry 10 e b] = [mmd_entry 10 e b, mmd_entry 100 150 a]"
  by (simp add: mmd_sort_def mmd_sort_inner_def mmd_exchange_def mmd_entry_def)

lemma sample_run: "get_mem_map (\<lambda>_. True) (sample_mem 40) sample_mm = Done (True, sample_mm')"
proof -
  have "get_mem_type sample_mm = DISCONTIGMEM" by (simp add: get_mem_type_def)
  moreover have "get_mm_discontigmem (\<lambda>_. True) (sample_mem 40) sample_mm =
      Done (True, sample_mm\<lparr>num_mem_map := 5, mm_table := Some (map Some sample_tiles)\<rparr>)"
    unfolding sample_discontigmem sample_sort
    by (simp add: table_of_nodes_result tiles_def sample_tiles_def NOT_MEMMAP_ADDR_def)
  moreover have "scan_table 5 (map Some sample_tiles) 0 0 = Some (150, 2)"
  proof -
    have "length sample_tiles = 5" by (simp add: sample_tiles_def)
    then have "scan_table 5 (map Some sample_tiles) 0 0 = Some (fold max (valid_ends sample_tiles) 0, 0 + length (valid_ends sample_tiles))"
      using scan_table_full [of sample_tiles 0 0] by (simp only:)
    also have "valid_ends sample_tiles = [50, 150]" by (simp add: valid_ends_def sample_tiles_def NOT_MEMMAP_ADDR_def)
    finally show ?thesis by simp
  qed
  ultimately show ?thesis
    by (simp add: get_mem_map_def get_mm_def adjust_max_mapnr_def sample_mm'_def)
qed

lemma sample_overlap:
  "get_mm_discontigmem (\<lambda>_. True) (sample_mem 100) sample_mm = Done (False, sample_mm\<lparr>num_mem_map := 3\<rparr>)"
  unfolding sample_discontigmem sample_sort by (simp add: table_of_nodes_result)

lemma sample_fit: "sections_fit sample_mm"
  by (simp add: sections_fit_def PFN_SECTION_SHIFT_def)

theorem get_mem_map_tiles_witness:
  "\<exists>ts. mm_table sample_mm' = Some (map Some ts) \<and> chain 0 ts 200 \<and> max_mapnr sample_mm' \<le> (200 :: u64) \<and>
     (\<exists>d\<in>set ts. mm_pfn_start d \<le> 120 \<and> 120 < mm_pfn_end d)"
proof -
  obtain ts where "mm_table sample_mm' = Some (map Some ts)" "chain 0 ts (max_mapnr sample_mm)"
    "\<forall>pfn<max_mapnr sample_mm. \<exists>d\<in>set ts. mm_pfn_start d \<le> pfn \<and> pfn < mm_pfn_end d"
    "max_mapnr sample_mm' \<le> max_mapnr sample_mm"
    using get_mem_map_tiles [OF sample_run _ _ sample_fit] by auto
  moreover have "(120 :: u64) < max_mapnr sample_mm" by simp
  ultimately show ?thesis by auto
qed

theorem discontigmem_any_order_witness:
  "\<exists>mi' ts. table_of_nodes (\<lambda>_. True) (mmd_sort [mmd_entry 100 150 5, mmd_entry 10 50 6]) sample_mm = Done (True, mi') \<and>
     mm_table mi' = Some (map Some ts) \<and>
     mset (filter (\<lambda>d. mem_map d \<noteq> NOT_MEMMAP_ADDR) ts) = {#mmd_entry 100 150 5, mmd_entry 10 50 6#}"
proof -
  have "disjoint_nodes [mmd_entry 100 150 5, mmd_entry 10 50 6]" by (simp add: disjoint_nodes_def mmd_entry_def)
  from discontigmem_any_order [OF this, of sample_mm "\<lambda>_. True"] show ?thesis
    by (auto simp: NOT_MEMMAP_ADDR_def simp del: mset_filter)
qed

lemma sample_maps_ok: "maps_ok (unat (64 :: u64)) sample_tiles"
  by (simp add: maps_ok_def map_bytes_def sample_tiles_def NOT_MEMMAP_ADDR_def mmd_entry_def)

theorem page_to_pfn_roundtrip_witness: "page_to_pfn 64 sample_tiles (0x50000 + (120 - 100) * 64 + 8) = 120"
  using page_to_pfn_roundtrip [OF sample_maps_ok, of "mmd_entry 100 150 0x50000" 120 8]
  by (simp add: sample_tiles_def NOT_MEMMAP_ADDR_def)

theorem online_nodes_walk_witness:
  "numnodes (get_numnodes (\<lambda>_. True) (sample_mem 40) sample_mm) = 2 \<and>
   next_online_node (get_numnodes (\<lambda>_. True) (sample_mem 40) sample_mm) 1 = Done 1"
proof -
  have u: "ulongs (8 div 8) (le_bytes 8 3) = [3]"
    by (simp add: ulongs_def get64_def get_le_def)
  have c: "count_bits 64 3 = 2" "online [3] = [0, 1]" by code_simp+
  have m: "node_online_map (get_numnodes (\<lambda>_. True) (sample_mem 40) sample_mm) = Some [3]"
    "fst (get_nodes_online (\<lambda>_. True) (sample_mem 40) sample_mm) = 2"
    using u c(1) by (simp_all add: get_numnodes_def get_nodes_online_def sample_mem_def)
  then have "0 < fst (get_nodes_online (\<lambda>_. True) (sample_mem 40) sample_mm)" by simp
  from online_nodes_walk [OF this] m(1) c(2) show ?thesis by auto
qed

text \<open>
  When the nodes overlap, \<^verbatim>\<open>get_mm_discontigmem\<close> reports the error and returns FALSE, but has already set
  \<^verbatim>\<open>num_mem_map\<close> while \<^verbatim>\<open>mem_map_data\<close> is still NULL; \<^verbatim>\<open>get_mem_map\<close> then reads the entries of the NULL table
  before it returns.
\<close>

theorem get_mem_map_overlap_undefined:
  assumes "get_mem_type mi = DISCONTIGMEM" "get_mm_discontigmem al rdv mi = Done (False, mi')"
    "mm_table mi' = None" "0 < num_mem_map mi'" "\<not> xen_memory mi'"
  shows "get_mem_map al rdv mi = Undefined"
proof -
  obtain n where "num_mem_map mi' = Suc n" using assms(4) by (cases "num_mem_map mi'") auto
  with assms show ?thesis by (simp add: get_mem_map_def get_mm_def adjust_max_mapnr_def)
qed

theorem get_mem_map_overlap_undefined_witness: "get_mem_map (\<lambda>_. True) (sample_mem 100) sample_mm = Undefined"
  by (rule get_mem_map_overlap_undefined [OF _ sample_overlap]) (simp_all add: get_mem_type_def)

text \<open>
  For a Xen dump the number of entries is counted up to \<^verbatim>\<open>max_mapnr\<close>, but the last entry is written only
  when the maps end below \<^verbatim>\<open>dom0_mapnr\<close>: when they end between the two, the last entry of the
  table is never written.
\<close>

theorem xen_last_entry_unwritten:
  assumes "xen_memory mi" "no_overlap xs" "dom0_mapnr mi \<le> mm_pfn_end (last xs)" "mm_pfn_end (last xs) < max_mapnr mi"
    "al (SIZEOF_mem_map_data * of_nat (length (tiles (max_mapnr mi) xs)))"
  shows "\<exists>mi' ts. table_of_nodes al xs mi = Done (True, mi') \<and> mm_table mi' = Some (map Some ts @ [None]) \<and>
     num_mem_map mi' = length ts + 1"
proof -
  let ?ts = "tiles (end_of_frames mi) xs"
  have "length (tiles (max_mapnr mi) xs) = length ?ts + 1" using assms(1,3,4) by (simp add: tiles_def end_of_frames_def not_less [symmetric])
  with table_of_nodes_written [OF assms(2), of mi al] assms(5) show ?thesis
    by (intro exI [of _ ?ts] exI) (auto simp: overwrite_one_short simp del: replicate_Suc)
qed

theorem xen_last_entry_unwritten_witness:
  "\<exists>mi' ts. table_of_nodes (\<lambda>_. True) [mmd_entry 0 50 5] (sample_mm\<lparr>xen_memory := True, dom0_mapnr := 50\<rparr>) = Done (True, mi') \<and>
     mm_table mi' = Some (map Some ts @ [None])"
  using xen_last_entry_unwritten [of "sample_mm\<lparr>xen_memory := True, dom0_mapnr := 50\<rparr>" "[mmd_entry 0 50 5]" "\<lambda>_. True"]
  by auto

end
