(* ===== verification/Vmcore.thy ===== *)
theory Vmcore
  imports Elf_Info
begin

text \<open>
  Reading the dumped memory from an ELF file (\<^verbatim>\<open>src/makedumpfile.c\<close>): \<^verbatim>\<open>readpage_elf\<close> puts a page
  together from the segments that hold parts of it, \<^verbatim>\<open>mappage_elf\<close> finds the page in a part of the file that
  is mapped into memory. Files are those of \<open>File_IO\<close>, \<^verbatim>\<open>mmap\<close> is an argument.
\<close>

section \<open>Reading a page\<close>

definition read_from_vmcore :: "fstate \<Rightarrow> u64 \<Rightarrow> nat \<Rightarrow> u8 list option" where
  "read_from_vmcore f offset n = pread f (unat offset) n"

text \<open>\<^verbatim>\<open>size > endp - p ? endp - p : size\<close>, both sides signed.\<close>

definition clip :: "u64 \<Rightarrow> nat \<Rightarrow> nat" where
  "clip sz room = (if int room < sint sz then room else unat sz)"

text \<open>\<^verbatim>\<open>memset(p, 0, n)\<close> in the page buffer.\<close>

definition zero_fill :: "u8 list \<Rightarrow> nat \<Rightarrow> nat \<Rightarrow> u8 list outcome" where
  "zero_fill buf p n = (if p + n \<le> length buf then Done (splice buf p (replicate n 0)) else Undefined)"

text \<open>
  One round of the loop of \<^verbatim>\<open>readpage_elf\<close> with the segment \<open>s\<close> that \<^verbatim>\<open>closest_pt_load\<close> found: up to the segment
  zeros, then the bytes of the file, then zeros up to the end of the segment in memory. \<open>p\<close> is the number of
  bytes done, \<open>pa\<close> the next physical address, \<open>psize\<close> the page size.
\<close>

definition rp_gap :: "pt_load_segment \<Rightarrow> nat \<times> u64 \<times> u8 list \<Rightarrow> (nat \<times> u64 \<times> u8 list) outcome" where
  "rp_gap s st = (case st of (p, pa, buf) \<Rightarrow>
     if phys_start s > pa
     then (case zero_fill buf p (unat (phys_start s - pa)) of
         Done buf' \<Rightarrow> Done (p + unat (phys_start s - pa), phys_start s, buf') | _ \<Rightarrow> Undefined)
     else Done st)"

definition rp_file :: "fstate \<Rightarrow> nat \<Rightarrow> pt_load_segment \<Rightarrow> nat \<times> u64 \<times> u8 list \<Rightarrow> (nat \<times> u64 \<times> u8 list) outcome" where
  "rp_file f psize s st = (case st of (p, pa, buf) \<Rightarrow>
     (let d = pa - phys_start s in
      if file_size s > d
      then (let n = clip (file_size s - d) (psize - p) in
            case read_from_vmcore f (file_offset s + d) n of None \<Rightarrow> Failed
            | Some bs \<Rightarrow> Done (p + n, pa + of_nat n, splice buf p bs))
      else Done st))"

definition rp_tail :: "nat \<Rightarrow> pt_load_segment \<Rightarrow> nat \<times> u64 \<times> u8 list \<Rightarrow> (nat \<times> u64 \<times> u8 list) outcome" where
  "rp_tail psize s st = (case st of (p, pa, buf) \<Rightarrow>
     if p < psize
     then (let n = clip (phys_end s - pa) (psize - p) in
           case zero_fill buf p n of Done buf' \<Rightarrow> Done (p + n, pa + of_nat n, buf') | _ \<Rightarrow> Undefined)
     else Done st)"

definition bind_outcome :: "'a outcome \<Rightarrow> ('a \<Rightarrow> 'b outcome) \<Rightarrow> 'b outcome" where
  "bind_outcome r g = (case r of Undefined \<Rightarrow> Undefined | Failed \<Rightarrow> Failed | Done x \<Rightarrow> g x)"

definition rp_round :: "fstate \<Rightarrow> nat \<Rightarrow> pt_load_segment \<Rightarrow> nat \<times> u64 \<times> u8 list \<Rightarrow> (nat \<times> u64 \<times> u8 list) outcome" where
  "rp_round f psize s st = bind_outcome (rp_gap s st) (\<lambda>st1. bind_outcome (rp_file f psize s st1) (rp_tail psize s))"

lemma clip_pos: "0 < room \<Longrightarrow> sz \<noteq> 0 \<Longrightarrow> 0 < clip sz room"
  by (simp add: clip_def unat_gt_0)

lemma closest_pt_load_cases:
  assumes "closest_pt_load ps a d = int j"
  shows "j < length ps \<and> (contains (ps ! j) a \<or> above (ps ! j) a \<and> phys_start (ps ! j) - a < d)"
proof (cases "\<exists>p\<in>set ps. contains p a")
  case True
  from closest_loop_contains [OF this, of 0 d "-1"] assms show ?thesis by (auto simp: closest_pt_load_def)
next
  case False
  then have "\<forall>p\<in>set ps. \<not> contains p a" by blast
  from closest_loop_nearest [OF this, of 0 d "-1"] assms show ?thesis by (auto simp: closest_pt_load_def)
qed

lemma rp_round_progress:
  assumes "p < psize" "contains s pa \<or> above s pa \<and> phys_start s - pa < of_nat (psize - p)"
    "rp_round f psize s (p, pa, buf) = Done (p', pa', buf')"
  shows "p < p'"
proof -
  from assms(3) obtain p1 pa1 b1 p2 pa2 b2 where r: "rp_gap s (p, pa, buf) = Done (p1, pa1, b1)"
    "rp_file f psize s (p1, pa1, b1) = Done (p2, pa2, b2)" "rp_tail psize s (p2, pa2, b2) = Done (p', pa', buf')"
    by (auto simp: rp_round_def bind_outcome_def split: outcome.splits)
  have le: "p \<le> p1" "p1 \<le> p2" "p2 \<le> p'"
    using r by (auto simp: rp_gap_def rp_file_def rp_tail_def Let_def split: if_splits option.splits outcome.splits)
  show ?thesis
  proof (cases "phys_start s > pa")
    case True
    then have "0 < unat (phys_start s - pa)" by (simp add: unat_gt_0)
    then have "p < p1" using r(1) True by (auto simp: rp_gap_def split: outcome.splits)
    with le show ?thesis by simp
  next
    case False
    with assms(2) have c: "contains s pa" by (auto simp: above_def)
    have e: "p1 = p" "pa1 = pa" using r(1) False by (auto simp: rp_gap_def)
    show ?thesis
    proof (cases "file_size s > pa - phys_start s")
      case True
      then have "0 < clip (file_size s - (pa - phys_start s)) (psize - p)" using assms(1) by (intro clip_pos) auto
      then have "p < p2" using r(2) True e by (auto simp: rp_file_def Let_def split: option.splits)
      with le show ?thesis by simp
    next
      case False
      then have "p2 = p" "pa2 = pa" using r(2) e by (auto simp: rp_file_def Let_def)
      moreover have "0 < clip (phys_end s - pa) (psize - p)" using c assms(1) by (intro clip_pos) (auto simp: contains_def)
      ultimately show ?thesis using r(3) assms(1) by (auto simp: rp_tail_def Let_def split: outcome.splits)
    qed
  qed
qed

lemma bind_outcome_cong [fundef_cong]:
  "r = r' \<Longrightarrow> (\<And>x. r' = Done x \<Longrightarrow> g x = g' x) \<Longrightarrow> bind_outcome r g = bind_outcome r' g'"
  by (auto simp: bind_outcome_def split: outcome.splits)

text \<open>The loop; it stops when no segment is near enough.\<close>

function readpage_loop ::
  "pt_load_segment list \<Rightarrow> fstate \<Rightarrow> u64 \<Rightarrow> nat \<times> u64 \<times> u8 list \<Rightarrow> (nat \<times> u64 \<times> u8 list) outcome" where
  "readpage_loop ps f page_size st = (case st of (p, pa, buf) \<Rightarrow>
     if p < unat page_size
     then (let idx = closest_pt_load ps pa (of_nat (unat page_size - p)) in
           if idx < 0 then Done st
           else bind_outcome (rp_round f (unat page_size) (ps ! nat idx) st) (readpage_loop ps f page_size))
     else Done st)"
  by pat_completeness auto

termination readpage_loop
proof (relation "measure (\<lambda>(_, _, ps, p, _). unat ps - p)")
  fix ps f page_size and st :: "nat \<times> u64 \<times> u8 list" and p y pa buf idx x
  assume a: "(p, y) = st" "(pa, buf) = y" "p < unat page_size"
    "idx = closest_pt_load ps pa (word_of_nat (unat page_size - p))" "\<not> idx < 0"
    "rp_round f (unat page_size) (ps ! nat idx) st = Done x"
  obtain p' pa' buf' where x: "x = (p', pa', buf')" by (metis surj_pair)
  have "closest_pt_load ps pa (of_nat (unat page_size - p)) = int (nat idx)" using a by simp
  from closest_pt_load_cases [OF this] rp_round_progress [of p "unat page_size" "ps ! nat idx" pa f buf p' pa' buf'] a x
  have "p < p'" by (simp del: of_nat_diff)
  with a x show "((ps, f, page_size, x), (ps, f, page_size, st)) \<in> measure (\<lambda>(_, _, ps, p, _). unat ps - p)" by auto
qed simp

declare readpage_loop.simps [simp del]

text \<open>\<^verbatim>\<open>readpage_elf\<close> into the page buffer \<open>buf\<close>.\<close>

definition readpage_elf :: "pt_load_segment list \<Rightarrow> fstate \<Rightarrow> u64 \<Rightarrow> u64 \<Rightarrow> u8 list \<Rightarrow> u8 list outcome" where
  "readpage_elf ps f page_size pa buf =
     bind_outcome (readpage_loop ps f page_size (0, pa, buf)) (\<lambda>(p, _, buf').
       if p = 0 then Failed
       else if p < unat page_size then zero_fill buf' p (unat page_size - p)
       else Done buf')"

text \<open>The threads read through a descriptor of their own; the code is otherwise the same.\<close>

definition read_from_vmcore_parallel :: "fstate \<Rightarrow> u64 \<Rightarrow> nat \<Rightarrow> u8 list option" where
  "read_from_vmcore_parallel fd_memory offset n = read_from_vmcore fd_memory offset n"

definition readpage_elf_parallel :: "pt_load_segment list \<Rightarrow> fstate \<Rightarrow> u64 \<Rightarrow> u64 \<Rightarrow> u8 list \<Rightarrow> u8 list outcome" where
  "readpage_elf_parallel ps fd_memory page_size pa buf = readpage_elf ps fd_memory page_size pa buf"

section \<open>Mapping the file\<close>

text \<open>
  The members of \<^verbatim>\<open>struct DumpInfo\<close> for \<^verbatim>\<open>mmap\<close>; a thread has its own buffer and offsets (\<^verbatim>\<open>struct mmap_cache\<close>) and
  unmaps a region before it maps the next one. \<open>unmapped\<close> lists those calls of \<^verbatim>\<open>munmap\<close>.
  The argument \<open>mm\<close> is the result of \<^verbatim>\<open>mmap\<close> for a length and an offset, \<open>None\<close> being MAP_FAILED.
\<close>

record mmap_state =
  flag_usemmap :: bool
  mmap_buf :: u64
  mmap_start_offset :: u64
  mmap_end_offset :: u64
  mmap_region_size :: u64
  unmapped :: "(u64 \<times> u64) list"

definition MAP_FAILED :: u64 where "MAP_FAILED = -1"
definition MAP_REGION :: u64 where "MAP_REGION = 4096 * 1024"

definition smin :: "u64 \<Rightarrow> u64 \<Rightarrow> u64" where
  "smin a b = (if sint a < sint b then a else b)"

definition update_mmap_range ::
  "pt_load_segment list \<Rightarrow> u64 \<Rightarrow> u64 \<Rightarrow> (u64 \<Rightarrow> u64 \<Rightarrow> u64 option) \<Rightarrow> mmap_state \<Rightarrow> u64 \<Rightarrow> bool \<times> mmap_state" where
  "update_mmap_range ps max_offset page_size mm st offset =
     (let pt_load_end = offset_to_pt_load_end ps offset;
          start_offset = roundup offset page_size;
          end_offset = smin max_offset (round_c pt_load_end page_size) in
      if pt_load_end = 0 \<or> sint (end_offset - start_offset) \<le> 0 then (False, st)
      else (let map_size = smin (end_offset - start_offset) (mmap_region_size st) in
        case mm map_size start_offset of
          None \<Rightarrow> (False, st\<lparr>mmap_buf := MAP_FAILED\<rparr>)
        | Some a \<Rightarrow> (True, st\<lparr>mmap_buf := a, mmap_start_offset := start_offset,
            mmap_end_offset := start_offset + map_size\<rparr>)))"



definition initialize_mmap ::
  "pt_load_segment list \<Rightarrow> u64 \<Rightarrow> u64 \<Rightarrow> (u64 \<Rightarrow> u64 \<Rightarrow> u64 option) \<Rightarrow> mmap_state \<Rightarrow> (bool \<times> mmap_state) outcome" where
  "initialize_mmap ps max_offset page_size mm st =
     (case get_pt_load ps 0 of None \<Rightarrow> Undefined
      | Some (start, _) \<Rightarrow> Done (update_mmap_range ps max_offset page_size mm
          (st\<lparr>mmap_region_size := MAP_REGION, mmap_buf := MAP_FAILED\<rparr>) (paddr_to_offset ps start)))"





section \<open>What a page is\<close>

text \<open>The segment that holds an address and the byte of the dumped memory there; holes read as zero.\<close>

definition holds :: "pt_load_segment \<Rightarrow> nat \<Rightarrow> bool" where
  "holds s a \<longleftrightarrow> unat (phys_start s) \<le> a \<and> a < unat (phys_end s)"

definition mem_byte :: "pt_load_segment list \<Rightarrow> fstate \<Rightarrow> nat \<Rightarrow> u8" where
  "mem_byte ps f a = (case find (\<lambda>s. holds s a) ps of None \<Rightarrow> 0
     | Some s \<Rightarrow> if a - unat (phys_start s) < unat (file_size s)
         then content f ! (unat (file_offset s) + (a - unat (phys_start s))) else 0)"

text \<open>
  A table of segments without overlap whose parts of the file exist; a segment may be larger in memory than
  in the file.
\<close>

definition vmcore_ok :: "pt_load_segment list \<Rightarrow> fstate \<Rightarrow> bool" where
  "vmcore_ok ps f \<longleftrightarrow>
     (\<forall>s\<in>set ps. phys_start s < phys_end s \<and> unat (file_size s) \<le> unat (phys_end s) - unat (phys_start s) \<and> unat (phys_end s) - unat (phys_start s) < 2 ^ 63 \<and>
        unat (file_offset s) + unat (file_size s) \<le> length (content f)) \<and>
     length (content f) < 2 ^ 63 \<and>
     (\<forall>s\<in>set ps. \<forall>t\<in>set ps. \<forall>a. holds s a \<and> holds t a \<longrightarrow> s = t)"

lemma holds_contains: "contains s a = holds s (unat a)"
  by (simp add: contains_def holds_def word_le_nat_alt word_less_nat_alt)

lemma mem_byte_in:
  assumes "vmcore_ok ps f" "s \<in> set ps" "holds s a"
  shows "mem_byte ps f a = (if a - unat (phys_start s) < unat (file_size s)
         then content f ! (unat (file_offset s) + (a - unat (phys_start s))) else 0)"
proof -
  have "\<exists>t. find (\<lambda>s. holds s a) ps = Some t" using assms(2,3) by (metis find_None_iff not_None_eq)
  then obtain t where t: "find (\<lambda>s. holds s a) ps = Some t" by blast
  then have "t \<in> set ps" "holds t a" by (auto simp: find_Some_iff)
  with assms have "t = s" unfolding vmcore_ok_def by metis
  with t show ?thesis by (simp add: mem_byte_def)
qed

lemma mem_byte_hole: "\<forall>s\<in>set ps. \<not> holds s a \<Longrightarrow> mem_byte ps f a = 0"
  by (simp add: mem_byte_def find_None_iff [THEN iffD2])

text \<open>The state of the loop: \<open>p\<close> bytes of the page are done, beginning at \<open>a0\<close>.\<close>

definition page_done :: "pt_load_segment list \<Rightarrow> fstate \<Rightarrow> nat \<Rightarrow> nat \<Rightarrow> nat \<times> u64 \<times> u8 list \<Rightarrow> bool" where
  "page_done ps f psize a0 st \<longleftrightarrow> (case st of (p, pa, buf) \<Rightarrow>
     p \<le> psize \<and> length buf = psize \<and> unat pa = a0 + p \<and> (\<forall>i<p. buf ! i = mem_byte ps f (a0 + i)))"

lemma page_done_add:
  assumes "page_done ps f psize a0 (p, pa, buf)" "p + n \<le> psize" "a0 + psize < 2 ^ 64" "length bs = n"
    "\<And>i. i < n \<Longrightarrow> bs ! i = mem_byte ps f (a0 + p + i)"
  shows "page_done ps f psize a0 (p + n, pa + of_nat n, splice buf p bs)"
proof -
  have b: "length buf = psize" "unat pa = a0 + p" "\<And>i. i < p \<Longrightarrow> buf ! i = mem_byte ps f (a0 + i)"
    using assms(1) by (auto simp: page_done_def)
  have "unat (of_nat n :: u64) = n" using assms(2,3) by (intro unat_of_nat64) simp
  then have "unat (pa + of_nat n) = a0 + (p + n)" using b(2) assms(2,3) by (simp add: unat_plus64)
  moreover have len: "length (splice buf p bs) = psize" using assms(2,4) b(1) by (simp add: splice_inside)
  moreover have "splice buf p bs ! i = mem_byte ps f (a0 + i)" if "i < p + n" for i
  proof (cases "i < p")
    case True
    then show ?thesis using that assms(2,4) b len by (simp add: nth_splice)
  next
    case False
    then show ?thesis using that assms(2,4) assms(5) [of "i - p"] b len by (simp add: nth_splice)
  qed
  ultimately show ?thesis using assms(2) by (simp add: page_done_def)
qed

lemma clip_min: "unat sz < 2 ^ 63 \<Longrightarrow> clip sz room = min (unat sz) room"
proof -
  assume "unat sz < 2 ^ 63"
  then have "sint sz = int (unat sz)" by (rule sint_u64_nat)
  then show ?thesis unfolding clip_def by (simp only: of_nat_less_iff) auto
qed

lemma zero_fill_done:
  assumes "page_done ps f psize a0 (p, pa, buf)" "p + n \<le> psize" "a0 + psize < 2 ^ 64"
    "\<And>i. i < n \<Longrightarrow> mem_byte ps f (a0 + p + i) = 0"
  shows "\<exists>buf'. zero_fill buf p n = Done buf' \<and> page_done ps f psize a0 (p + n, pa + of_nat n, buf')"
proof -
  have "length buf = psize" using assms(1) by (simp add: page_done_def)
  moreover have "page_done ps f psize a0 (p + n, pa + of_nat n, splice buf p (replicate n 0))"
    by (rule page_done_add [OF assms(1-3)]) (simp_all add: assms(4))
  ultimately show ?thesis using assms(2) by (simp add: zero_fill_def)
qed

text \<open>The three parts of a round, for a segment that holds the address or is the nearest one above.\<close>

lemma rp_gap_done:
  assumes "page_done ps f psize a0 (p, pa, buf)" "a0 + psize < 2 ^ 64" "unat (phys_start s) < a0 + psize"
    "\<And>a. unat pa \<le> a \<Longrightarrow> a < unat (phys_start s) \<Longrightarrow> mem_byte ps f a = 0"
  shows "\<exists>p1 pa1 b1. rp_gap s (p, pa, buf) = Done (p1, pa1, b1) \<and> page_done ps f psize a0 (p1, pa1, b1) \<and>
     p \<le> p1 \<and> phys_start s \<le> pa1 \<and> (pa1 = pa \<or> pa1 = phys_start s)"
proof (cases "phys_start s > pa")
  case False
  with assms(1) show ?thesis by (simp add: rp_gap_def)
next
  case True
  let ?n = "unat (phys_start s - pa)"
  have pa: "unat pa = a0 + p" "p \<le> psize" using assms(1) by (simp_all add: page_done_def)
  have n: "?n = unat (phys_start s) - unat pa" using True by (simp add: unat_minus64)
  have lt: "unat pa < unat (phys_start s)" using True by (simp add: word_less_nat_alt)
  have "p + ?n \<le> psize" using n lt pa assms(3) by simp
  from zero_fill_done [OF assms(1) this assms(2)] obtain buf' where b: "zero_fill buf p ?n = Done buf'"
    "page_done ps f psize a0 (p + ?n, pa + of_nat ?n, buf')" using assms(4) n lt pa by auto
  have "pa + of_nat ?n = phys_start s" by simp
  with b True show ?thesis by (simp add: rp_gap_def)
qed

lemma rp_file_done:
  assumes "page_done ps f psize a0 (p, pa, buf)" "a0 + psize < 2 ^ 64" "vmcore_ok ps f" "s \<in> set ps"
    "phys_start s \<le> pa"
  shows "\<exists>p1 pa1 b1. rp_file f psize s (p, pa, buf) = Done (p1, pa1, b1) \<and> page_done ps f psize a0 (p1, pa1, b1) \<and>
     p \<le> p1 \<and> phys_start s \<le> pa1 \<and> unat pa1 \<le> max (unat pa) (unat (phys_end s)) \<and>
     (p1 = psize \<or> unat (phys_start s) + unat (file_size s) \<le> unat pa1)"
proof (cases "file_size s > pa - phys_start s")
  case False
  have "unat (pa - phys_start s) = unat pa - unat (phys_start s)" using assms(5) by (rule unat_minus64)
  with False have "unat (phys_start s) + unat (file_size s) \<le> unat pa" using assms(5) by (simp add: word_less_nat_alt word_le_nat_alt)
  with False assms(1,5) show ?thesis by (simp add: rp_file_def Let_def)
next
  case True
  let ?d = "pa - phys_start s"
  have pa: "unat pa = a0 + p" "p \<le> psize" "length buf = psize" using assms(1) by (simp_all add: page_done_def)
  have d: "unat ?d = unat pa - unat (phys_start s)" using assms(5) by (rule unat_minus64)
  have dl: "unat ?d < unat (file_size s)" using True by (simp add: word_less_nat_alt)
  have ok: "unat (file_size s) \<le> unat (phys_end s) - unat (phys_start s)" "unat (phys_end s) - unat (phys_start s) < 2 ^ 63"
    "unat (file_offset s) + unat (file_size s) \<le> length (content f)" "length (content f) < 2 ^ 63"
    using assms(3,4) by (auto simp: vmcore_ok_def)
  let ?n = "clip (file_size s - ?d) (psize - p)"
  have "unat (file_size s - ?d) = unat (file_size s) - unat ?d" using True by (simp add: unat_minus64)
  then have n: "?n = min (unat (file_size s) - unat ?d) (psize - p)" using ok(1,2) by (subst clip_min) simp_all
  have off: "unat (file_offset s + ?d) = unat (file_offset s) + unat ?d" using dl ok(3,4) by (intro unat_plus64) simp
  have rd: "read_from_vmcore f (file_offset s + ?d) ?n = Some (take ?n (drop (unat (file_offset s) + unat ?d) (content f)))"
    using n dl ok(3) by (simp add: read_from_vmcore_def pread_def off)
  let ?bs = "take ?n (drop (unat (file_offset s) + unat ?d) (content f))"
  have le: "unat (phys_start s) \<le> unat pa" using assms(5) by (simp add: word_le_nat_alt)
  have "?bs ! i = mem_byte ps f (a0 + p + i)" if "i < ?n" for i
  proof -
    have i: "i < unat (file_size s) - unat ?d" using that n by simp
    then have "holds s (unat pa + i)" using le d ok(1) by (simp add: holds_def)
    note m = mem_byte_in [OF assms(3,4) this]
    have e: "unat pa + i - unat (phys_start s) = unat ?d + i" "unat ?d + i < unat (file_size s)" using d le i by linarith+
    have "?bs ! i = content f ! (unat (file_offset s) + (unat ?d + i))" using that e(2) ok(3) by (simp add: add.assoc)
    with m e show ?thesis by (simp add: pa(1) [symmetric])
  qed
  moreover have "length ?bs = ?n" using n dl ok(3) by simp
  moreover have "p + ?n \<le> psize" using n pa by simp
  ultimately have pd: "page_done ps f psize a0 (p + ?n, pa + of_nat ?n, splice buf p ?bs)"
    using page_done_add [OF assms(1) _ assms(2), of ?n ?bs] by blast
  then have u: "unat (pa + of_nat ?n) = unat pa + ?n" using pa(1) by (simp add: page_done_def)
  have "p + ?n = psize \<or> unat (phys_start s) + unat (file_size s) \<le> unat (pa + of_nat ?n)"
    using n pa(2) dl d le unfolding u by (auto simp: min_def)
  moreover have "?n \<le> unat (file_size s) - unat ?d" using n by simp
  then have "unat pa + ?n \<le> unat (phys_end s)" using le d dl ok(1) by linarith
  then have "phys_start s \<le> pa + of_nat ?n" "unat (pa + of_nat ?n) \<le> max (unat pa) (unat (phys_end s))"
    using le unfolding word_le_nat_alt u by auto
  ultimately show ?thesis using True rd pd by (simp add: rp_file_def Let_def)
qed

lemma rp_tail_done:
  assumes "page_done ps f psize a0 (p, pa, buf)" "a0 + psize < 2 ^ 64" "vmcore_ok ps f" "s \<in> set ps"
    "phys_start s \<le> pa" "unat pa \<le> unat (phys_end s)" "p = psize \<or> unat (phys_start s) + unat (file_size s) \<le> unat pa"
  shows "\<exists>p1 pa1 b1. rp_tail psize s (p, pa, buf) = Done (p1, pa1, b1) \<and> page_done ps f psize a0 (p1, pa1, b1) \<and> p \<le> p1"
proof (cases "p < psize")
  case False
  with assms(1) show ?thesis by (simp add: rp_tail_def)
next
  case True
  have pa: "unat pa = a0 + p" using assms(1) by (simp add: page_done_def)
  have ok: "unat (phys_end s) - unat (phys_start s) < 2 ^ 63" using assms(3,4) by (auto simp: vmcore_ok_def)
  let ?n = "clip (phys_end s - pa) (psize - p)"
  have "unat (phys_end s - pa) = unat (phys_end s) - unat pa" using assms(6) by (simp add: unat_minus64 word_le_nat_alt)
  moreover have le: "unat (phys_start s) \<le> unat pa" using assms(5) by (simp add: word_le_nat_alt)
  ultimately have n: "?n = min (unat (phys_end s) - unat pa) (psize - p)" using ok by (subst clip_min) simp_all
  have "mem_byte ps f (a0 + p + i) = 0" if "i < ?n" for i
  proof -
    have "i < unat (phys_end s) - unat pa" using that n by simp
    then have "holds s (unat pa + i)" using le unfolding holds_def by linarith
    note m = mem_byte_in [OF assms(3,4) this]
    have "\<not> unat pa + i - unat (phys_start s) < unat (file_size s)" using assms(7) True by linarith
    with m show ?thesis by (simp add: pa(1) [symmetric])
  qed
  moreover have "p + ?n \<le> psize" using n True by simp
  ultimately show ?thesis using zero_fill_done [OF assms(1) _ assms(2), of ?n] True by (auto simp: rp_tail_def Let_def)
qed

text \<open>A round does at least one more byte, and does it right.\<close>

lemma rp_round_done:
  assumes "page_done ps f psize a0 (p, pa, buf)" "a0 + psize < 2 ^ 64" "vmcore_ok ps f" "s \<in> set ps"
    "unat pa < unat (phys_end s)" "unat (phys_start s) < a0 + psize"
    "\<And>a. unat pa \<le> a \<Longrightarrow> a < unat (phys_start s) \<Longrightarrow> mem_byte ps f a = 0" "phys_start s \<le> phys_end s"
  shows "\<exists>st. rp_round f psize s (p, pa, buf) = Done st \<and> page_done ps f psize a0 st"
proof -
  obtain p1 pa1 b1 where g: "rp_gap s (p, pa, buf) = Done (p1, pa1, b1)" "page_done ps f psize a0 (p1, pa1, b1)"
    "phys_start s \<le> pa1" "pa1 = pa \<or> pa1 = phys_start s" using rp_gap_done [OF assms(1,2,6,7)] by blast
  have le: "unat pa1 \<le> unat (phys_end s)" using g(4) assms(5,8) by (auto simp: word_le_nat_alt)
  obtain p2 pa2 b2 where h: "rp_file f psize s (p1, pa1, b1) = Done (p2, pa2, b2)" "page_done ps f psize a0 (p2, pa2, b2)"
    "phys_start s \<le> pa2" "unat pa2 \<le> max (unat pa1) (unat (phys_end s))"
    "p2 = psize \<or> unat (phys_start s) + unat (file_size s) \<le> unat pa2"
    using rp_file_done [OF g(2) assms(2,3,4) g(3)] by blast
  have "unat pa2 \<le> unat (phys_end s)" using h(4) le by simp
  from rp_tail_done [OF h(2) assms(2,3,4) h(3) this h(5)] g(1) h(1) show ?thesis
    by (auto simp: rp_round_def bind_outcome_def)
qed

text \<open>What \<^verbatim>\<open>closest_pt_load\<close> says about the rest of the page.\<close>

lemma closest_hole:
  assumes "closest_pt_load ps pa d < 0" "unat pa \<le> a" "a < unat pa + unat d"
  shows "\<forall>s\<in>set ps. \<not> holds s a"
proof -
  have no: "\<forall>s\<in>set ps. \<not> contains s pa"
    using closest_loop_contains [of ps pa 0 d "-1"] assms(1) by (auto simp: closest_pt_load_def)
  have far: "d \<le> phys_start s - pa" if "s \<in> set ps" "above s pa" for s
    using closest_loop_nearest [OF no, of 0 d "-1"] assms(1) that by (auto simp: closest_pt_load_def)
  show ?thesis
  proof (intro ballI notI)
    fix s assume s: "s \<in> set ps" "holds s a"
    have "\<not> holds s (unat pa)" using no s(1) by (simp add: holds_contains)
    with s(2) assms(2) have lt: "unat pa < unat (phys_start s)" "unat pa < unat (phys_end s)" by (auto simp: holds_def)
    then have "above s pa" by (simp add: above_def word_less_nat_alt)
    with far s(1) have "unat d \<le> unat (phys_start s - pa)" by (simp add: word_le_nat_alt)
    also have "\<dots> = unat (phys_start s) - unat pa" using lt by (simp add: unat_minus64 word_le_nat_alt)
    finally show False using s(2) assms(3) lt unfolding holds_def by linarith
  qed
qed

lemma closest_next:
  assumes "closest_pt_load ps pa d = int j"
  shows "j < length ps \<and> unat pa < unat (phys_end (ps ! j)) \<and> (unat (phys_start (ps ! j)) \<le> unat pa \<or> unat (phys_start (ps ! j)) < unat pa + unat d) \<and>
     (\<forall>a. unat pa \<le> a \<and> a < unat (phys_start (ps ! j)) \<longrightarrow> (\<forall>s\<in>set ps. \<not> holds s a))"
proof -
  let ?s = "ps ! j"
  have c: "j < length ps" "contains ?s pa \<or> above ?s pa \<and> phys_start ?s - pa < d"
    using closest_pt_load_cases [OF assms] by auto
  have e: "unat pa < unat (phys_end ?s)" using c(2) by (auto simp: contains_def above_def word_less_nat_alt)
  show ?thesis
  proof (cases "contains ?s pa")
    case True
    then have "unat (phys_start ?s) \<le> unat pa" by (simp add: contains_def word_le_nat_alt)
    with c(1) e show ?thesis by auto
  next
    case False
    with c have ab: "above ?s pa" "phys_start ?s - pa < d" by auto
    then have lt: "unat pa < unat (phys_start ?s)" by (simp add: above_def word_less_nat_alt)
    then have u: "unat (phys_start ?s - pa) = unat (phys_start ?s) - unat pa" by (simp add: unat_minus64 word_le_nat_alt)
    have no: "\<forall>s\<in>set ps. \<not> contains s pa"
    proof (rule ccontr)
      assume "\<not> ?thesis"
      then have "\<exists>s\<in>set ps. contains s pa" by blast
      from closest_loop_contains [OF this, of 0 d "-1"] assms False show False by (auto simp: closest_pt_load_def)
    qed
    have near: "phys_start ?s - pa \<le> phys_start s - pa" if "s \<in> set ps" "above s pa" for s
      using closest_loop_nearest [OF no, of 0 d "-1"] assms that by (auto simp: closest_pt_load_def)
    have "\<not> holds s a" if a: "unat pa \<le> a" "a < unat (phys_start ?s)" "s \<in> set ps" for a s
    proof
      assume h: "holds s a"
      have "\<not> holds s (unat pa)" using no a(3) by (simp add: holds_contains)
      with h a have l: "unat pa < unat (phys_start s)" "unat pa < unat (phys_end s)" by (auto simp: holds_def)
      then have "above s pa" by (simp add: above_def word_less_nat_alt)
      with near a(3) have "unat (phys_start ?s - pa) \<le> unat (phys_start s - pa)" by (simp add: word_le_nat_alt)
      then have "unat (phys_start ?s) \<le> unat (phys_start s)" using u l lt by (simp add: unat_minus64 word_le_nat_alt)
      with h a show False by (simp add: holds_def)
    qed
    then show ?thesis using c(1) e ab(2) u lt by (auto simp: word_less_nat_alt)
  qed
qed

lemma readpage_loop_done:
  assumes "vmcore_ok ps f" "a0 + unat page_size < 2 ^ 64"
  shows "page_done ps f (unat page_size) a0 st \<Longrightarrow> \<exists>p pa buf. readpage_loop ps f page_size st = Done (p, pa, buf) \<and>
     page_done ps f (unat page_size) a0 (p, pa, buf) \<and> fst st \<le> p \<and>
     (\<forall>a. unat pa \<le> a \<and> a < a0 + unat page_size \<longrightarrow> (\<forall>s\<in>set ps. \<not> holds s a)) \<and>
     (fst st < p \<longrightarrow> (\<exists>a. a0 \<le> a \<and> a < a0 + unat page_size \<and> (\<exists>s\<in>set ps. holds s a)))"
  using assms
proof (induction ps f page_size st rule: readpage_loop.induct)
  case (1 ps f page_size st)
  obtain p pa buf where st: "st = (p, pa, buf)" by (metis surj_pair)
  have pd: "p \<le> unat page_size" "unat pa = a0 + p" using "1.prems" st by (simp_all add: page_done_def)
  show ?case
  proof (cases "p < unat page_size")
    case False
    then have "readpage_loop ps f page_size st = Done st" unfolding st by (subst readpage_loop.simps) simp
    with "1.prems" st pd False show ?thesis by auto
  next
    case True
    let ?d = "of_nat (unat page_size - p) :: u64"
    have d: "unat ?d = unat page_size - p" by (rule unat_of_nat64, rule le_less_trans [OF diff_le_self]) simp
    have rest: "unat pa + unat ?d = a0 + unat page_size" using d pd by simp
    let ?idx = "closest_pt_load ps pa ?d"
    show ?thesis
    proof (cases "?idx < 0")
      case neg: True
      then have "readpage_loop ps f page_size st = Done st" using True unfolding st by (subst readpage_loop.simps) (simp add: Let_def del: of_nat_diff)
      with "1.prems" st closest_hole [OF neg] rest show ?thesis by (auto simp del: of_nat_diff)
    next
      case False
      let ?s = "ps ! nat ?idx"
      have "?idx = int (nat ?idx)" using False by simp
      note c = closest_next [OF this]
      have s: "?s \<in> set ps" using c by simp
      then have w: "phys_start ?s < phys_end ?s" using "1.prems"(2) unfolding vmcore_ok_def by blast
      have lo: "unat (phys_start ?s) < a0 + unat page_size" using c rest True pd by auto
      have hole: "mem_byte ps f a = 0" if "unat pa \<le> a" "a < unat (phys_start ?s)" for a
        using c that by (intro mem_byte_hole) blast
      obtain st' where r: "rp_round f (unat page_size) ?s st = Done st'" "page_done ps f (unat page_size) a0 st'"
        using rp_round_done [OF "1.prems"(1) [unfolded st] "1.prems"(3,2) s _ lo hole less_imp_le [OF w]] c st by blast
      obtain p' pa' buf' where st': "st' = (p', pa', buf')" by (metis surj_pair)
      have prog: "p < p'"
        using rp_round_progress [OF True, of ?s pa f buf p' pa' buf'] closest_pt_load_cases [of ps pa ?d "nat ?idx"] False r(1) st st'
        by (simp del: of_nat_diff)
      have l: "readpage_loop ps f page_size st = readpage_loop ps f page_size st'"
        using True False r(1) unfolding st by (subst readpage_loop.simps) (simp add: Let_def bind_outcome_def del: of_nat_diff)
      have "holds ?s (max (unat pa) (unat (phys_start ?s)))" using c w by (simp add: holds_def word_less_nat_alt)
      moreover have "a0 \<le> max (unat pa) (unat (phys_start ?s))" "max (unat pa) (unat (phys_start ?s)) < a0 + unat page_size"
        using pd True lo by auto
      ultimately have ex: "\<exists>a. a0 \<le> a \<and> a < a0 + unat page_size \<and> (\<exists>s\<in>set ps. holds s a)" using s by blast
      have "\<exists>p pa buf. readpage_loop ps f page_size st' = Done (p, pa, buf) \<and>
         page_done ps f (unat page_size) a0 (p, pa, buf) \<and> fst st' \<le> p \<and>
         (\<forall>a. unat pa \<le> a \<and> a < a0 + unat page_size \<longrightarrow> (\<forall>s\<in>set ps. \<not> holds s a)) \<and>
         (fst st' < p \<longrightarrow> (\<exists>a. a0 \<le> a \<and> a < a0 + unat page_size \<and> (\<exists>s\<in>set ps. holds s a)))"
        using "1.IH" [OF st [symmetric] refl True refl _ r(1) r(2) "1.prems"(2,3)] False by (simp del: of_nat_diff)
      with l st st' prog ex show ?thesis by fastforce
    qed
  qed
qed

lemma readpage_elf_pages:
  assumes "vmcore_ok ps f" "length buf = unat page_size" "unat pa + unat page_size < 2 ^ 64"
  shows "readpage_elf ps f page_size pa buf =
     (if \<exists>a. unat pa \<le> a \<and> a < unat pa + unat page_size \<and> (\<exists>s\<in>set ps. holds s a)
      then Done (map (\<lambda>i. mem_byte ps f (unat pa + i)) [0 ..< unat page_size]) else Failed)"
proof -
  let ?n = "unat page_size" and ?a = "unat pa"
  have "page_done ps f ?n ?a (0, pa, buf)" using assms(2) by (simp add: page_done_def)
  from readpage_loop_done [OF assms(1,3) this, unfolded fst_conv] obtain p pa' buf' where
    l: "readpage_loop ps f page_size (0, pa, buf) = Done (p, pa', buf')" and pd: "page_done ps f ?n ?a (p, pa', buf')"
    and hole: "\<forall>a. unat pa' \<le> a \<and> a < ?a + ?n \<longrightarrow> (\<forall>s\<in>set ps. \<not> holds s a)"
    and ex: "0 < p \<longrightarrow> (\<exists>a. ?a \<le> a \<and> a < ?a + ?n \<and> (\<exists>s\<in>set ps. holds s a))" by blast
  have pa': "unat pa' = ?a + p" "p \<le> ?n" using pd by (simp_all add: page_done_def)
  show ?thesis
  proof (cases "p = 0")
    case True
    with hole pa' l show ?thesis by (auto simp: readpage_elf_def bind_outcome_def)
  next
    case False
    have z: "mem_byte ps f (?a + p + i) = 0" if "i < ?n - p" for i
      using hole pa' that by (intro mem_byte_hole) auto
    have "p + (?n - p) \<le> ?n" "p + (?n - p) = ?n" using pa'(2) by simp_all
    with zero_fill_done [OF pd this(1) assms(3) z] obtain b where
      b: "zero_fill buf' p (?n - p) = Done b" "page_done ps f ?n ?a (?n, pa' + of_nat (?n - p), b)" by (auto simp del: of_nat_diff)
    have "xs = map (\<lambda>i. mem_byte ps f (?a + i)) [0 ..< ?n]" if "page_done ps f ?n ?a (?n, x, xs)" for x xs
      using that by (intro nth_equalityI) (auto simp: page_done_def)
    with b pd pa'(2) False ex l show ?thesis by (auto simp: readpage_elf_def bind_outcome_def)
  qed
qed

text \<open>
  C7. \<^verbatim>\<open>readpage_elf\<close> is exact: it ends, and when at least one byte of the page is in a segment it succeeds and
  byte \<open>i\<close> of the page is the byte of the file the segment of that address gives, and zero for bytes that are in no
  segment or behind the part of a segment the file holds; when no byte of the page is in a segment it fails.
\<close>

theorem readpage_elf_exact:
  assumes "vmcore_ok ps f" "length buf = unat page_size" "unat pa + unat page_size < 2 ^ 64"
  shows "readpage_elf ps f page_size pa buf =
     (if \<exists>a. unat pa \<le> a \<and> a < unat pa + unat page_size \<and> (\<exists>s\<in>set ps. holds s a)
      then Done (map (\<lambda>i. mem_byte ps f (unat pa + i)) [0 ..< unat page_size]) else Failed)"
  by (rule readpage_elf_pages [OF assms])

section \<open>Mapped pages\<close>

text \<open>A dump as the kernel presents it: every segment is in the file completely, at a place of its own.\<close>

definition vmcore_full :: "pt_load_segment list \<Rightarrow> fstate \<Rightarrow> bool" where
  "vmcore_full ps f \<longleftrightarrow> vmcore_ok ps f \<and>
     (\<forall>s\<in>set ps. seg_wf s \<and> file_size s = phys_end s - phys_start s) \<and>
     (\<forall>s\<in>set ps. \<forall>t\<in>set ps. \<forall>k. unat (file_offset s) \<le> k \<and> k < unat (file_offset s) + unat (file_size s) \<and>
        unat (file_offset t) \<le> k \<and> k < unat (file_offset t) + unat (file_size t) \<longrightarrow> s = t)"





section \<open>A small dump\<close>

definition tiny_file :: fstate where
  "tiny_file = \<lparr>content = [0, 1, 2, 3, 4, 5, 6, 7, 8, 9, 10, 11, 12, 13, 14, 15], capacity = 16\<rparr>"

definition tiny_seg :: pt_load_segment where
  "tiny_seg = \<lparr>file_offset = 4, file_size = 12, phys_start = 8, phys_end = 20, virt_start = 0, virt_end = 12\<rparr>"


lemma tiny_full: "vmcore_full [tiny_seg] tiny_file"
  by (simp add: vmcore_full_def vmcore_ok_def seg_wf_def tiny_seg_def tiny_file_def)

theorem readpage_elf_exact_witness:
  "readpage_elf [tiny_seg] tiny_file 4 6 [9, 9, 9, 9] = Done [0, 0, 4, 5] \<and>
   readpage_elf [tiny_seg] tiny_file 4 20 [9, 9, 9, 9] = Failed"
proof -
  have ok: "vmcore_ok [tiny_seg] tiny_file" using tiny_full by (simp add: vmcore_full_def)
  have "\<exists>a. unat (6 :: u64) \<le> a \<and> a < unat (6 :: u64) + unat (4 :: u64) \<and> (\<exists>s\<in>set [tiny_seg]. holds s a)"
    by (rule exI [of _ 8]) (simp add: holds_def tiny_seg_def)
  moreover have "\<not> (\<exists>a. unat (20 :: u64) \<le> a \<and> a < unat (20 :: u64) + unat (4 :: u64) \<and> (\<exists>s\<in>set [tiny_seg]. holds s a))"
    by (simp add: holds_def tiny_seg_def)
  moreover have "map (\<lambda>i. mem_byte [tiny_seg] tiny_file (unat (6 :: u64) + i)) [0 ..< unat (4 :: u64)] = [0, 0, 4, 5]"
    by (simp add: upt_rec mem_byte_def holds_def tiny_seg_def tiny_file_def)
  ultimately show ?thesis
    using readpage_elf_exact [OF ok, of "[9, 9, 9, 9]" 4 6] readpage_elf_exact [OF ok, of "[9, 9, 9, 9]" 4 20] by simp
qed


end
