(* ===== verification/Readmem.thy ===== *)
theory Readmem
  imports Vmcore Cache
begin

text \<open>
  \<^verbatim>\<open>readmem\<close> (\<^verbatim>\<open>src/makedumpfile.c\<close>): reading any number of bytes at a virtual or physical address page by page
  through the page cache. Page buffers and mapped regions are parts of one process memory. The address
  translation of the architecture and the page readers of the other input formats are arguments.
\<close>

section \<open>State\<close>




definition peek :: "(u64 \<Rightarrow> u8) \<Rightarrow> u64 \<Rightarrow> nat \<Rightarrow> u8 list" where
  "peek m a n = map (\<lambda>i. m (a + of_nat i)) [0 ..< n]"


section \<open>One page\<close>










section \<open>The loop over the pages\<close>




section \<open>Memory\<close>


lemma nth_peek [simp]: "i < n \<Longrightarrow> peek m a n ! i = m (a + of_nat i)"
  by (simp add: peek_def)





section \<open>Alignment\<close>









section \<open>Reading without a cache\<close>























end
