(* ===== verification/Writer.thy ===== *)
theory Writer
  imports File_IO Bytes
begin

text \<open>
  Output of \<^verbatim>\<open>src/makedumpfile.c\<close>: \<^verbatim>\<open>write_and_check_space\<close> with its loop over partial writes,
  \<^verbatim>\<open>write_buffer\<close>, the write-behind buffer \<^verbatim>\<open>struct cache_data\<close>, and the flattened format that
  carries an output file over a pipe: its writer and \<^verbatim>\<open>rearrange_dumpdata\<close>, its reader.
\<close>

section \<open>Data\<close>

text \<open>
  What successive calls of \<^verbatim>\<open>write(2)\<close> return: a number of bytes (at most what was asked for),
  an interruption, a full device, another error. The environment supplies them as a list;
  a list that is used up stands for a call that has not returned.
\<close>

datatype wret = Wrote nat | EINTR | ENOSPC | EOTHER

text \<open>
  An output descriptor with the members of \<^verbatim>\<open>struct DumpInfo\<close> the writer uses. For standard
  output \<open>out\<close> is the stream, else the file, and \<open>pos\<close> is the file position; \<open>size_limit\<close> is
  \<open>None\<close> for -1.
\<close>

record writer =
  is_stdout :: bool
  flag_dry_run :: bool
  size_limit :: "nat option"
  flag_nospace :: bool
  write_bytes :: nat
  pos :: nat
  out :: "u8 list"
  orc :: "wret list"

section \<open>Writing\<close>

definition emit :: "u8 list \<Rightarrow> writer \<Rightarrow> writer" where
  "emit bs w = (if is_stdout w then w\<lparr>out := out w @ bs\<rparr>
     else w\<lparr>out := splice (out w) (pos w) bs, pos := pos w + length bs\<rparr>)"

text \<open>The loop of \<^verbatim>\<open>write_and_check_space\<close>: how many bytes are done.\<close>

fun write_loop :: "wret list \<Rightarrow> u8 list \<Rightarrow> nat \<Rightarrow> nat \<Rightarrow> writer \<Rightarrow> (nat \<times> writer) option" where
  "write_loop rs buf done limit w =
     (if \<not> done < limit then Some (done, w\<lparr>orc := rs\<rparr>)
      else case rs of
          [] \<Rightarrow> None
        | Wrote n # rs' \<Rightarrow>
            if n = 0 then Some (done, w\<lparr>orc := rs'\<rparr>)
            else (let k = min n (limit - done)
                  in write_loop rs' buf (done + k) limit (emit (take k (drop done buf)) w))
        | EINTR # rs' \<Rightarrow> write_loop rs' buf done limit w
        | ENOSPC # rs' \<Rightarrow> Some (done, w\<lparr>flag_nospace := True, orc := rs'\<rparr>)
        | EOTHER # rs' \<Rightarrow> Some (done, w\<lparr>flag_nospace := False, orc := rs'\<rparr>))"

declare write_loop.simps [simp del]

definition write_and_check_space :: "u8 list \<Rightarrow> writer \<Rightarrow> (bool \<times> writer) option" where
  "write_and_check_space buf w =
     (let n = length buf;
          p = (if is_stdout w \<or> flag_dry_run w then write_bytes w else pos w);
          (limit, w1) = (case size_limit w of
               Some l \<Rightarrow> if p + n > l then (if p > l then 0 else l - p, w\<lparr>flag_nospace := True\<rparr>) else (n, w)
             | None \<Rightarrow> (n, w))
      in map_option (\<lambda>(d, w2). (d = n, w2\<lparr>write_bytes := write_bytes w2 + d\<rparr>))
           (if flag_dry_run w then Some (limit, w1) else write_loop (orc w1) buf 0 limit w1))"

text \<open>A 64-bit value in the byte order of the flattened format.\<close>

definition flat64 :: "u64 \<Rightarrow> u8 list" where
  "flat64 x = be_bytes 8 (unat x)"

definition write_buffer :: "u64 \<Rightarrow> u8 list \<Rightarrow> writer \<Rightarrow> (bool \<times> writer) option" where
  "write_buffer off buf w =
     (if is_stdout w
      then (case write_and_check_space (flat64 off @ flat64 (of_nat (length buf))) w of
              None \<Rightarrow> None
            | Some (False, w1) \<Rightarrow> Some (False, w1)
            | Some (True, w1) \<Rightarrow> write_and_check_space buf w1)
      else if \<not> flag_dry_run w \<and> unat off \<ge> 2 ^ 63 then Some (False, w)
      else write_and_check_space buf (if flag_dry_run w then w else w\<lparr>pos := unat off\<rparr>))"

section \<open>The write-behind buffer\<close>

text \<open>\<^verbatim>\<open>struct cache_data\<close>: \<open>cd_buf\<close> has the \<^verbatim>\<open>cache_size + page_size\<close> bytes \<^verbatim>\<open>prepare_cache_data\<close> allocates.\<close>

record cache_data =
  cd_buf :: "u8 list"
  buf_size :: nat
  cache_size :: nat
  cd_offset :: u64

definition prepare_cache_data :: "nat \<Rightarrow> nat \<Rightarrow> u64 \<Rightarrow> u8 list \<Rightarrow> cache_data" where
  "prepare_cache_data page_size block_order off mem =
     \<lparr>cd_buf = take (page_size * 2 ^ block_order + page_size) mem, buf_size = 0,
      cache_size = page_size * 2 ^ block_order, cd_offset = off\<rparr>"

text \<open>\<open>None\<close>: the copy would pass the end of the buffer, or a write has not returned.\<close>

definition write_cache :: "cache_data \<Rightarrow> u8 list \<Rightarrow> writer \<Rightarrow> (bool \<times> cache_data \<times> writer) option" where
  "write_cache cd bs w =
     (if buf_size cd + length bs > length (cd_buf cd) then None
      else (let b1 = take (buf_size cd) (cd_buf cd) @ bs @ drop (buf_size cd + length bs) (cd_buf cd);
                cd1 = cd\<lparr>cd_buf := b1, buf_size := buf_size cd + length bs\<rparr>
            in if buf_size cd1 < cache_size cd then Some (True, cd1, w)
               else case write_buffer (cd_offset cd) (take (cache_size cd) b1) w of
                   None \<Rightarrow> None
                 | Some (False, w1) \<Rightarrow> Some (False, cd1, w1)
                 | Some (True, w1) \<Rightarrow>
                     (let n = buf_size cd1 - cache_size cd
                      in Some (True, cd1\<lparr>buf_size := n,
                                  cd_buf := take n (drop (cache_size cd) b1) @ drop n b1,
                                  cd_offset := cd_offset cd + of_nat (cache_size cd)\<rparr>, w1))))"

definition write_cache_bufsz :: "cache_data \<Rightarrow> writer \<Rightarrow> (bool \<times> cache_data \<times> writer) option" where
  "write_cache_bufsz cd w =
     (if buf_size cd = 0 then Some (True, cd, w)
      else case write_buffer (cd_offset cd) (take (buf_size cd) (cd_buf cd)) w of
          None \<Rightarrow> None
        | Some (False, w1) \<Rightarrow> Some (False, cd, w1)
        | Some (True, w1) \<Rightarrow> Some (True, cd\<lparr>cd_offset := cd_offset cd + of_nat (buf_size cd), buf_size := 0\<rparr>, w1))"

definition write_cache_zero :: "cache_data \<Rightarrow> nat \<Rightarrow> writer \<Rightarrow> (bool \<times> cache_data \<times> writer) option" where
  "write_cache_zero cd n w = (case write_cache_bufsz cd w of
     None \<Rightarrow> None
   | Some (False, cd1, w1) \<Rightarrow> Some (False, cd1, w1)
   | Some (True, cd1, w1) \<Rightarrow>
       if buf_size cd1 + n > length (cd_buf cd1) then None
       else write_cache_bufsz (cd1\<lparr>cd_buf := take (buf_size cd1) (cd_buf cd1) @ replicate n 0 @
                                    drop (buf_size cd1 + n) (cd_buf cd1),
                                 buf_size := buf_size cd1 + n\<rparr>) w1)"

text \<open>\<^verbatim>\<open>reserve_diskspace\<close>: zeros from \<open>off\<close> to \<open>en\<close>, at most a page at a time.\<close>

function reserve_loop :: "nat \<Rightarrow> nat \<Rightarrow> nat \<Rightarrow> writer \<Rightarrow> (bool \<times> writer) option" where
  "reserve_loop bs off en w =
     (if \<not> off < en then Some (True, w)
      else if bs = 0 then None
      else case write_buffer (of_nat off) (replicate (min bs (en - off)) 0) w of
          None \<Rightarrow> None
        | Some (False, w1) \<Rightarrow> Some (False, w1)
        | Some (True, w1) \<Rightarrow> reserve_loop bs (off + min bs (en - off)) en w1)"
  by pat_completeness auto

termination reserve_loop
  by (relation "measure (\<lambda>(bs, off, en, w). en - off)") auto

definition reserve_diskspace :: "bool \<Rightarrow> nat \<Rightarrow> nat \<Rightarrow> nat \<Rightarrow> writer \<Rightarrow> (bool \<times> writer) option" where
  "reserve_diskspace flag_flatten page_size st en w =
     (if flag_flatten then Some (True, w)
      else if \<not> st < en then None
      else reserve_loop (min page_size (en - st)) st en w)"

section \<open>The flattened format\<close>

definition write_start_flat_header :: "bool \<Rightarrow> writer \<Rightarrow> (bool \<times> writer) option" where
  "write_start_flat_header flag_flatten w =
     (if \<not> flag_flatten then Some (False, w)
      else write_and_check_space
        (take 16 (cstr ''makedumpfile'' @ replicate 16 0) @ flat64 1 @ flat64 1 @ replicate 4064 0) w)"

definition write_end_flat_header :: "bool \<Rightarrow> writer \<Rightarrow> (bool \<times> writer) option" where
  "write_end_flat_header flag_flatten w =
     (if \<not> flag_flatten then Some (False, w)
      else write_and_check_space (flat64 (-1) @ flat64 (-1)) w)"

text \<open>
  Reading standard input: \<^verbatim>\<open>read_buf_from_stdin\<close> gathers exactly the bytes asked for and gives up when
  no more come.
\<close>

definition read_buf_from_stdin :: "nat \<Rightarrow> u8 list \<Rightarrow> (u8 list \<times> u8 list) option" where
  "read_buf_from_stdin n inp = (if n \<le> length inp then Some (take n inp, drop n inp) else None)"

definition read_start_flat_header :: "u8 list \<Rightarrow> u8 list option" where
  "read_start_flat_header inp = (case read_buf_from_stdin 4096 inp of None \<Rightarrow> None
     | Some (b, rest) \<Rightarrow>
         if c_take b \<noteq> map of_char ''makedumpfile'' then None
         else if be_nat (take 8 (drop 16 b)) \<noteq> 1 then None
         else Some rest)"

definition read_flat_data_header :: "u8 list \<Rightarrow> ((int \<times> int) \<times> u8 list) option" where
  "read_flat_data_header inp = (case read_buf_from_stdin 16 inp of None \<Rightarrow> None
     | Some (b, rest) \<Rightarrow>
         Some ((sint (of_nat (be_nat (take 8 b)) :: u64), sint (of_nat (be_nat (drop 8 b)) :: u64)), rest))"

text \<open>
  The inner loop of \<^verbatim>\<open>rearrange_dumpdata\<close>: \<open>sz\<close> bytes of data in pieces of at most 4096. The
  result is whether it succeeded, the rest of the input and the output. (\<^verbatim>\<open>read_size\<close> is an \<^verbatim>\<open>int\<close>,
  so that the model is exact for pieces below 2 GiB.)
\<close>

function copy_data :: "int \<Rightarrow> int \<Rightarrow> nat \<Rightarrow> u8 list \<Rightarrow> writer \<Rightarrow> (bool \<times> u8 list \<times> writer) option" where
  "copy_data off sz read_size inp w =
     (if \<not> int read_size < sz then Some (True, inp, w)
      else (let n = nat (if 4096 < sz - int read_size then 4096 else sz - int read_size)
            in case read_buf_from_stdin n inp of None \<Rightarrow> Some (False, inp, w)
               | Some (b, inp') \<Rightarrow>
                   (case write_buffer (of_int (off + int read_size)) b w of
                      None \<Rightarrow> None
                    | Some (False, w1) \<Rightarrow> Some (False, inp', w1)
                    | Some (True, w1) \<Rightarrow> copy_data off sz (read_size + n) inp' w1)))"
  by pat_completeness auto

termination copy_data
  by (relation "measure (\<lambda>(off, sz, rs, inp, w). nat (sz - int rs))") auto

declare copy_data.simps [simp del] reserve_loop.simps [simp del]

text \<open>The outer loop: data, next header, until a header with a negative offset or no data.\<close>

function flat_loop :: "int \<Rightarrow> int \<Rightarrow> u8 list \<Rightarrow> writer \<Rightarrow> (bool \<times> writer) option" where
  "flat_loop off sz inp w = (case copy_data off sz 0 inp w of
       None \<Rightarrow> None
     | Some (False, _, w1) \<Rightarrow> Some (False, w1)
     | Some (True, inp1, w1) \<Rightarrow>
         (case read_flat_data_header inp1 of None \<Rightarrow> Some (False, w1)
          | Some ((off', sz'), inp2) \<Rightarrow>
              if 0 \<le> off' \<and> 0 < sz' then flat_loop off' sz' inp2 w1
              else Some (off' = -1 \<and> sz' = -1, w1)))"
  by pat_completeness auto

lemma copy_data_length:
  "copy_data off sz rs inp w = Some (r, inp1, w1) \<Longrightarrow> length inp1 \<le> length inp"
proof (induction off sz rs inp w rule: copy_data.induct)
  case (1 off sz rs inp w)
  show ?case using 1(2) 1(1) [OF _ refl]
    by (subst (asm) copy_data.simps)
      (fastforce simp: Let_def read_buf_from_stdin_def split: if_splits option.splits bool.splits)
qed

lemma read_flat_data_header_length:
  "read_flat_data_header inp = Some (h, inp1) \<Longrightarrow> length inp1 < length inp"
  by (auto simp: read_flat_data_header_def read_buf_from_stdin_def split: if_splits option.splits)

termination flat_loop
  by (relation "measure (\<lambda>(off, sz, inp, w). length inp)")
    (auto dest!: copy_data_length read_flat_data_header_length)

declare flat_loop.simps [simp del]

definition rearrange_dumpdata :: "u8 list \<Rightarrow> writer \<Rightarrow> (bool \<times> writer) option" where
  "rearrange_dumpdata inp w = (case read_start_flat_header inp of None \<Rightarrow> Some (False, w)
     | Some inp1 \<Rightarrow> (case read_flat_data_header inp1 of None \<Rightarrow> Some (False, w)
       | Some ((off, sz), inp2) \<Rightarrow> flat_loop off sz inp2 w))"

section \<open>Partial writes\<close>

lemma emit_emit: "emit bs (emit as w) = emit (as @ bs) w"
  by (simp add: emit_def splice_splice)

lemma emit_upd [simp]:
  "orc (emit bs w) = orc w" "flag_nospace (emit bs w) = flag_nospace w" "write_bytes (emit bs w) = write_bytes w"
  "is_stdout (emit bs w) = is_stdout w" "size_limit (emit bs w) = size_limit w" "flag_dry_run (emit bs w) = flag_dry_run w"
  "emit bs (w\<lparr>orc := rs\<rparr>) = (emit bs w)\<lparr>orc := rs\<rparr>"
  by (simp_all add: emit_def)

text \<open>Results of \<^verbatim>\<open>write\<close> that make progress or ask for another try, and the bytes they account for.\<close>

fun progress :: "wret list \<Rightarrow> nat option" where
  "progress [] = Some 0"
| "progress (Wrote n # rs) = (if n = 0 then None else map_option (\<lambda>m. n + m) (progress rs))"
| "progress (EINTR # rs) = progress rs"
| "progress (_ # rs) = None"

lemma pos_emit: "pos (emit bs w) = (if is_stdout w then pos w else pos w + length bs)"
  by (simp add: emit_def)

lemma write_loop_progress:
  assumes "progress rs = Some m" "limit - d \<le> m" "d \<le> limit" "limit \<le> length buf"
    and "d < limit \<or> emit [] w = w"
  shows "\<exists>rs'. progress rs' \<noteq> None \<and> write_loop (rs @ rest) buf d limit w =
     Some (limit, (emit (take (limit - d) (drop d buf)) w)\<lparr>orc := rs' @ rest\<rparr>)"
  using assms
proof (induction rs arbitrary: d m w)
  case Nil
  then have "d = limit" by simp
  with Nil show ?case by (subst write_loop.simps) (auto intro: exI [of _ "[]"])
next
  case (Cons r rs)
  show ?case
  proof (cases "d < limit")
    case False
    with Cons.prems have "d = limit" by simp
    with Cons.prems show ?thesis by (subst write_loop.simps) (auto intro: exI [of _ "r # rs"])
  next
    case True
    show ?thesis
    proof (cases r)
      case (Wrote n)
      with Cons.prems(1) obtain m' where m': "n \<noteq> 0" "progress rs = Some m'" "m = n + m'" by (auto split: if_splits)
      let ?k = "min n (limit - d)" and ?a = "take (min n (limit - d)) (drop d buf)"
      have k: "limit - (d + ?k) \<le> m'" "d + ?k \<le> limit" using Cons.prems(2) True m'(3) by auto
      have "d + ?k < limit \<or> emit [] (emit ?a w) = emit ?a w" by (simp add: emit_emit)
      from Cons.IH [OF m'(2) k Cons.prems(4) this] obtain rs' where "progress rs' \<noteq> None"
        "write_loop (rs @ rest) buf (d + ?k) limit (emit ?a w) =
          Some (limit, (emit (take (limit - (d + ?k)) (drop (d + ?k) buf)) (emit ?a w))\<lparr>orc := rs' @ rest\<rparr>)" by blast
      moreover have "?a @ take (limit - (d + ?k)) (drop (d + ?k) buf) = take (limit - d) (drop d buf)"
      proof -
        have "limit - d = ?k + (limit - (d + ?k))" by simp
        then have "take (limit - d) (drop d buf) = ?a @ take (limit - (d + ?k)) (drop ?k (drop d buf))"
          by (metis take_add)
        then show ?thesis by (simp add: add.commute)
      qed
      ultimately show ?thesis using True Wrote m'(1)
        by (subst write_loop.simps) (auto simp: emit_emit Let_def)
    next
      case EINTR
      with Cons True show ?thesis by (subst write_loop.simps) simp
    qed (use Cons.prems in simp_all)
  qed
qed

lemma write_progress:
  assumes "\<not> flag_dry_run w" "size_limit w = None" "orc w = rs @ rest" "progress rs = Some m" "length buf \<le> m"
    and "buf \<noteq> [] \<or> emit [] w = w"
  shows "\<exists>rs'. progress rs' \<noteq> None \<and> write_and_check_space buf w =
     Some (True, (emit buf w)\<lparr>orc := rs' @ rest, write_bytes := write_bytes w + length buf\<rparr>)"
proof -
  from write_loop_progress [of rs m "length buf" 0 buf w rest] assms obtain rs' where "progress rs' \<noteq> None"
    "write_loop (orc w) buf 0 (length buf) w = Some (length buf, (emit buf w)\<lparr>orc := rs' @ rest\<rparr>)" by auto
  then show ?thesis using assms(1,2) by (auto simp: write_and_check_space_def Let_def)
qed

text \<open>
  \<^verbatim>\<open>write_and_check_space\<close> copes with every pattern of partial and interrupted writes: if the
  calls of \<^verbatim>\<open>write\<close> only make progress or are interrupted and account for the whole buffer, it returns
  TRUE and exactly the bytes of the buffer have been written, once and in order.
\<close>

theorem write_survives_partial_writes:
  assumes "\<not> flag_dry_run w" "size_limit w = None" "orc w = rs @ rest" "progress rs = Some m" "length buf \<le> m"
    and "buf \<noteq> []"
  shows "\<exists>w'. write_and_check_space buf w = Some (True, w') \<and> flag_nospace w' = flag_nospace w \<and>
     write_bytes w' = write_bytes w + length buf \<and>
     (if is_stdout w then out w' = out w @ buf
      else out w' = splice (out w) (pos w) buf \<and> pos w' = pos w + length buf)"
proof -
  from write_progress [OF assms(1-5)] assms(6) obtain rs' where
    "write_and_check_space buf w =
       Some (True, (emit buf w)\<lparr>orc := rs' @ rest, write_bytes := write_bytes w + length buf\<rparr>)" by auto
  then show ?thesis by (cases "is_stdout w") (simp_all add: emit_def)
qed

definition sample_writer :: writer where
  "sample_writer = \<lparr>is_stdout = False, flag_dry_run = False, size_limit = None, flag_nospace = False, write_bytes = 0,
     pos = 2, out = [9, 9, 9, 9], orc = [Wrote 1, EINTR, Wrote 2]\<rparr>"

theorem write_survives_partial_writes_witness:
  "\<exists>w'. write_and_check_space [1, 2, 3] sample_writer = Some (True, w') \<and> out w' = [9, 9, 1, 2, 3]"
  using write_survives_partial_writes [of sample_writer "[Wrote 1, EINTR, Wrote 2]" "[]" 3 "[1, 2, 3]"]
  by (auto simp: sample_writer_def splice_def)

text \<open>The loop never goes beyond its limit.\<close>

lemma write_loop_bound:
  "write_loop rs buf d limit w = Some (d', w') \<Longrightarrow> d \<le> limit \<Longrightarrow> limit \<le> length buf \<Longrightarrow>
     d \<le> d' \<and> d' \<le> limit \<and> write_bytes w' = write_bytes w \<and> (\<not> is_stdout w \<longrightarrow> pos w' = pos w + (d' - d))"
proof (induction rs buf d limit w rule: write_loop.induct)
  case (1 rs buf d limit w)
  show ?case
  proof (cases "d < limit \<and> rs \<noteq> []")
    case False
    with 1(3-) show ?thesis by (subst (asm) write_loop.simps) (auto split: if_splits)
  next
    case True
    then obtain r rs' where rs: "rs = r # rs'" by (cases rs) auto
    show ?thesis
    proof (cases r)
      case (Wrote n)
      show ?thesis
      proof (cases "n = 0")
        case False
        let ?k = "min n (limit - d)"
        have "write_loop rs' buf (d + ?k) limit (emit (take ?k (drop d buf)) w) = Some (d', w')"
          using 1(3) True rs Wrote False by (subst (asm) write_loop.simps) (simp add: Let_def)
        moreover have "d + ?k \<le> limit" using True by auto
        ultimately have
          "d + ?k \<le> d' \<and> d' \<le> limit \<and> write_bytes w' = write_bytes w \<and>
             (\<not> is_stdout w \<longrightarrow> pos w' = pos (emit (take ?k (drop d buf)) w) + (d' - (d + ?k)))"
          using 1(1) [OF _ rs Wrote False refl] True 1(5) by simp
        moreover have "length (take ?k (drop d buf)) = ?k" using 1(5) by simp
        ultimately show ?thesis by (auto simp: pos_emit simp del: length_take)
      qed (use 1(3-) True rs Wrote in \<open>subst (asm) write_loop.simps, auto\<close>)
    next
      case EINTR
      then have "write_loop rs' buf d limit w = Some (d', w')"
        using 1(3) True rs by (subst (asm) write_loop.simps) simp
      with 1(2) [OF _ rs EINTR] True 1(4,5) show ?thesis by simp
    qed (use 1(3-) True rs in \<open>subst (asm) write_loop.simps, auto\<close>)+
  qed
qed

text \<open>
  C31. The size limit is respected: whatever \<^verbatim>\<open>write\<close> returns, \<^verbatim>\<open>write_and_check_space\<close> never moves the
  end of the output beyond the limit, it returns TRUE only if the whole buffer went out, and
  when the buffer does not fit it fails and the missing space is recorded unless a real error was.
\<close>

theorem size_limit_respected:
  assumes "size_limit w = Some l" and "write_and_check_space buf w = Some (r, w')"
    and p: "p = (if is_stdout w \<or> flag_dry_run w then write_bytes w else pos w)"
  shows "p + (write_bytes w' - write_bytes w) \<le> max l p \<and> write_bytes w \<le> write_bytes w' \<and>
     (r \<longrightarrow> write_bytes w' = write_bytes w + length buf \<and> p + length buf \<le> max l p) \<and>
     (flag_dry_run w \<longrightarrow> out w' = out w \<and> (r \<longleftrightarrow> p + length buf \<le> l \<or> buf = []))"
proof -
  define limit where "limit = (if p + length buf > l then if p > l then 0 else l - p else length buf)"
  define w1 where "w1 = (if p + length buf > l then w\<lparr>flag_nospace := True\<rparr> else w)"
  have lim: "limit \<le> length buf" "p + limit \<le> max l p" by (auto simp: limit_def)
  have run: "Some (r, w') = map_option (\<lambda>(d, w2). (d = length buf, w2\<lparr>write_bytes := write_bytes w2 + d\<rparr>))
      (if flag_dry_run w then Some (limit, w1) else write_loop (orc w1) buf 0 limit w1)"
    unfolding assms(2) [symmetric] write_and_check_space_def Let_def p [symmetric] assms(1)
    by (simp add: limit_def w1_def)
  have w1: "write_bytes w1 = write_bytes w" "out w1 = out w" by (simp_all add: w1_def)
  show ?thesis
  proof (cases "flag_dry_run w")
    case True
    with run lim w1 show ?thesis by (auto simp: limit_def split: if_splits)
  next
    case False
    with run obtain d w2 where d: "write_loop (orc w1) buf 0 limit w1 = Some (d, w2)"
      "r = (d = length buf)" "w' = w2\<lparr>write_bytes := write_bytes w2 + d\<rparr>"
      by (cases "write_loop (orc w1) buf 0 limit w1") auto
    from write_loop_bound [OF d(1)] lim d(2,3) w1 False show ?thesis by auto
  qed
qed

theorem size_limit_respected_witness:
  "\<exists>r w'. write_and_check_space [1, 2, 3] (sample_writer\<lparr>size_limit := Some 4\<rparr>) = Some (r, w') \<and> \<not> r \<and> write_bytes w' \<le> 2"
proof -
  have "\<exists>w'. write_and_check_space [1, 2, 3] (sample_writer\<lparr>size_limit := Some 4\<rparr>) = Some (False, w')"
    by (simp add: write_and_check_space_def sample_writer_def write_loop.simps emit_def Let_def)
  then obtain w' where run: "write_and_check_space [1, 2, 3] (sample_writer\<lparr>size_limit := Some 4\<rparr>) = Some (False, w')" ..
  from size_limit_respected [OF _ run refl, of 4] run show ?thesis by (auto simp: sample_writer_def)
qed

section \<open>A device that keeps accepting data\<close>

text \<open>
  The results \<open>rs\<close> are all progress or interruptions, with at least \<open>n\<close> calls that accept something: enough
  for \<open>n\<close> bytes however small the pieces are.
\<close>

definition steady :: "nat \<Rightarrow> wret list \<Rightarrow> bool" where
  "steady n rs = (progress rs \<noteq> None \<and> n \<le> length (filter (\<lambda>r. r \<noteq> EINTR) rs))"

definition ready :: "nat \<Rightarrow> writer \<Rightarrow> bool" where
  "ready n w = (\<not> flag_dry_run w \<and> size_limit w = None \<and> steady n (orc w))"

lemma progress_append: "progress (xs @ ys) \<noteq> None \<longleftrightarrow> progress xs \<noteq> None \<and> progress ys \<noteq> None"
  by (induction xs rule: progress.induct) auto

lemma steady_append: "progress xs \<noteq> None \<Longrightarrow> steady n ys \<Longrightarrow> steady n (xs @ ys)"
  using progress_append [of xs ys] by (simp add: steady_def)

lemma steady_split:
  "steady (a + n) rs \<Longrightarrow> \<exists>xs ys m. rs = xs @ ys \<and> progress xs = Some m \<and> a \<le> m \<and> steady n ys"
proof (induction rs arbitrary: a)
  case Nil
  then show ?case by (auto simp: steady_def)
next
  case (Cons r rs)
  show ?case
  proof (cases a)
    case 0
    with Cons.prems show ?thesis by (intro exI [of _ "[]"] exI [of _ "r # rs"]) auto
  next
    case (Suc a')
    show ?thesis
    proof (cases r)
      case (Wrote k)
      with Cons.prems Suc have "k \<noteq> 0" "steady (a' + n) rs" by (auto simp: steady_def split: if_splits)
      from Cons.IH [OF this(2)] obtain xs ys m where "rs = xs @ ys" "progress xs = Some m" "a' \<le> m" "steady n ys"
        by blast
      with \<open>k \<noteq> 0\<close> Wrote Suc show ?thesis by (intro exI [of _ "r # xs"] exI [of _ ys]) auto
    next
      case EINTR
      with Cons.prems have "steady (a + n) rs" by (auto simp: steady_def)
      from Cons.IH [OF this] EINTR show ?thesis by (metis append_Cons progress.simps(3))
    qed (use Cons.prems in \<open>simp_all add: steady_def\<close>)
  qed
qed

lemma ready_write:
  assumes "ready (length buf + n) w" "buf \<noteq> [] \<or> emit [] w = w"
  obtains w' where "write_and_check_space buf w = Some (True, w')" "ready n w'" "out w' = out (emit buf w)"
    "is_stdout w' = is_stdout w"
proof -
  from assms(1) steady_split [of "length buf" n "orc w"] obtain xs ys m where
    rs: "orc w = xs @ ys" "progress xs = Some m" "length buf \<le> m" "steady n ys" by (auto simp: ready_def)
  from assms(1) have "\<not> flag_dry_run w" "size_limit w = None" by (auto simp: ready_def)
  from write_progress [OF this rs(1-3) assms(2)] obtain rs' where "progress rs' \<noteq> None" and w:
    "write_and_check_space buf w =
       Some (True, (emit buf w)\<lparr>orc := rs' @ ys, write_bytes := write_bytes w + length buf\<rparr>)" by blast
  with steady_append [OF this(1) rs(4)] assms(1) show thesis by (intro that [OF w]) (auto simp: ready_def)
qed

lemma out_emit: "out (emit bs w) = (if is_stdout w then out w @ bs else splice (out w) (pos w) bs)"
  by (simp add: emit_def)

lemma ready_stdout:
  assumes "ready (length buf + n) w" "is_stdout w"
  obtains w' where "write_and_check_space buf w = Some (True, w')" "ready n w'" "out w' = out w @ buf" "is_stdout w'"
proof -
  have "buf \<noteq> [] \<or> emit [] w = w" using assms(2) by (simp add: emit_def)
  from ready_write [OF assms(1) this] assms(2) show thesis by (metis that out_emit)
qed

lemma length_flat64 [simp]: "length (flat64 x) = 8"
  by (simp add: flat64_def)

text \<open>What a call of \<^verbatim>\<open>write_buffer\<close> puts into the stream.\<close>

definition flat_record :: "u64 \<times> u8 list \<Rightarrow> u8 list" where
  "flat_record r = flat64 (fst r) @ flat64 (of_nat (length (snd r))) @ snd r"

lemma write_buffer_stdout:
  assumes "ready (16 + length buf + n) w" "is_stdout w"
  obtains w' where "write_buffer off buf w = Some (True, w')" "ready n w'" "out w' = out w @ flat_record (off, buf)" "is_stdout w'"
proof -
  let ?h = "flat64 off @ flat64 (of_nat (length buf))"
  have "ready (length ?h + (length buf + n)) w" using assms(1) by (simp add: add.assoc)
  from ready_stdout [OF this assms(2)] obtain w1 where w1: "write_and_check_space ?h w = Some (True, w1)"
    "ready (length buf + n) w1" "out w1 = out w @ ?h" "is_stdout w1" .
  from ready_stdout [OF w1(2,4)] obtain w2 where w2: "write_and_check_space buf w1 = Some (True, w2)" "ready n w2"
    "out w2 = out w1 @ buf" "is_stdout w2" .
  have "write_buffer off buf w = Some (True, w2)" by (simp add: write_buffer_def assms(2) w1(1) w2(1))
  from that [OF this w2(2) _ w2(4)] show thesis by (simp add: w2(3) w1(3) flat_record_def)
qed

lemma write_buffer_file:
  assumes "ready (length buf + n) w" "\<not> is_stdout w" "unat off < 2 ^ 63" "buf \<noteq> []"
  obtains w' where "write_buffer off buf w = Some (True, w')" "ready n w'" "out w' = splice (out w) (unat off) buf" "\<not> is_stdout w'"
proof -
  let ?w = "w\<lparr>pos := unat off\<rparr>"
  have r: "ready (length buf + n) ?w" using assms(1) by (simp add: ready_def)
  have "write_buffer off buf w = write_and_check_space buf ?w"
    using assms(1,2,3) by (simp add: write_buffer_def ready_def)
  moreover from ready_write [OF r] assms(4) obtain w' where "write_and_check_space buf ?w = Some (True, w')"
    "ready n w'" "out w' = out (emit buf ?w)" "is_stdout w' = is_stdout ?w" by blast
  ultimately show thesis using assms(2) by (intro that [of w']) (simp_all add: out_emit)
qed

section \<open>The flattened format round trip\<close>

lemma flat64_word: "(of_nat (be_nat (flat64 x)) :: u64) = x"
proof -
  have "unat x < 256 ^ 8" using unsigned_less [of x] by simp
  then show ?thesis by (simp add: flat64_def)
qed

lemma read_flat_data_header_flat64:
  "read_flat_data_header (flat64 x @ flat64 y @ rest) = Some ((sint x, sint y), rest)"
  by (simp add: read_flat_data_header_def read_buf_from_stdin_def flat64_word)

lemma sint_length: "n < 2 ^ 63 \<Longrightarrow> sint (of_nat n :: u64) = int n"
proof -
  assume n: "n < 2 ^ 63"
  then have u: "unat (of_nat n :: u64) = n" using unat_of_nat64 [of n] by simp
  show ?thesis using sint_u64_nat [of "of_nat n"] n unfolding u by simp
qed

text \<open>\<^verbatim>\<open>rearrange_dumpdata\<close> copies the data of one record to its place, whatever the pieces.\<close>

lemma copy_data_splice:
  assumes "off + length b < 2 ^ 63" "k < length b" "ready (length b - k + n) w" "\<not> is_stdout w"
  shows "\<exists>w'. copy_data (int off) (int (length b)) k (drop k b @ rest) w = Some (True, rest, w') \<and> ready n w' \<and>
     \<not> is_stdout w' \<and> out w' = splice (out w) (off + k) (drop k b)"
  using assms
proof (induction "length b - k" arbitrary: k w rule: less_induct)
  case less
  define m where "m = min 4096 (length b - k)"
  have m: "0 < m" "k + m \<le> length b" "nat (if 4096 < int (length b) - int k then 4096 else int (length b) - int k) = m"
    using less.prems(2) by (auto simp: m_def)
  have rd: "read_buf_from_stdin m (drop k b @ rest) = Some (take m (drop k b), drop (k + m) b @ rest)"
    using m by (simp add: read_buf_from_stdin_def add.commute)
  have off: "unat (of_int (int off + int k) :: u64) = off + k"
  proof -
    have "off + k < 2 ^ 64" using less.prems(1,2) by simp
    then show ?thesis using unat_of_nat64 [of "off + k"] by simp
  qed
  have len: "length (take m (drop k b)) = m" using m(2) by simp
  have "ready (length (take m (drop k b)) + (length b - (k + m) + n)) w"
    using less.prems(3) m(2) by (simp add: len del: length_take)
  moreover have "unat (of_int (int off + int k) :: u64) < 2 ^ 63" unfolding off using less.prems(1,2) by simp
  moreover have "take m (drop k b) \<noteq> []" using m less.prems(2) by simp
  ultimately obtain w1 where w1: "write_buffer (of_int (int off + int k)) (take m (drop k b)) w = Some (True, w1)"
    "ready (length b - (k + m) + n) w1" "out w1 = splice (out w) (off + k) (take m (drop k b))" "\<not> is_stdout w1"
    using write_buffer_file less.prems(4) off by metis
  have step: "copy_data (int off) (int (length b)) k (drop k b @ rest) w =
      copy_data (int off) (int (length b)) (k + m) (drop (k + m) b @ rest) w1"
    using less.prems(2) by (subst copy_data.simps) (simp add: Let_def m(3) rd w1(1) del: of_int_add)
  show ?case
  proof (cases "k + m < length b")
    case True
    have lt: "length b - (k + m) < length b - k" using m by simp
    from less.hyps [OF lt less.prems(1) True w1(2,4)] obtain w' where
      "copy_data (int off) (int (length b)) (k + m) (drop (k + m) b @ rest) w1 = Some (True, rest, w')" "ready n w'"
      "\<not> is_stdout w'" "out w' = splice (out w1) (off + (k + m)) (drop (k + m) b)" by blast
    moreover have "splice (out w1) (off + (k + m)) (drop (k + m) b) = splice (out w) (off + k) (drop k b)"
    proof -
      have "splice (out w1) (off + (k + m)) (drop (k + m) b) =
          splice (out w) (off + k) (take m (drop k b) @ drop (k + m) b)"
        using splice_splice [of "out w" "off + k" "take m (drop k b)" "drop (k + m) b"]
        by (simp add: w1(3) len add.assoc del: length_take)
      also have "take m (drop k b) @ drop (k + m) b = drop k b"
        by (metis add.commute append_take_drop_id drop_drop)
      finally show ?thesis .
    qed
    ultimately show ?thesis using step by auto
  next
    case False
    with m(2) have e: "k + m = length b" by simp
    then have "take m (drop k b) = drop k b" by (simp add: m(2))
    with e w1 show ?thesis unfolding step by (subst copy_data.simps) auto
  qed
qed

definition flat_ok :: "u64 \<times> u8 list \<Rightarrow> bool" where
  "flat_ok r = (snd r \<noteq> [] \<and> length (snd r) < 2 ^ 31 \<and> unat (fst r) + length (snd r) < 2 ^ 63)"

definition flat_end :: "u8 list" where
  "flat_end = flat64 (-1) @ flat64 (-1)"

text \<open>The files a sequence of records builds, and the numbers of bytes it takes.\<close>

definition apply_records :: "(u64 \<times> u8 list) list \<Rightarrow> u8 list \<Rightarrow> u8 list" where
  "apply_records rs c = fold (\<lambda>r c. splice c (unat (fst r)) (snd r)) rs c"

lemma flat_loop_records:
  assumes "flat_ok r" "\<forall>q\<in>set rs. flat_ok q" "\<not> is_stdout w" "ready (sum_list (map (\<lambda>r. length (snd r)) (r # rs)) + n) w"
  shows "\<exists>w'. flat_loop (sint (fst r)) (int (length (snd r))) (snd r @ concat (map flat_record rs) @ flat_end) w = Some (True, w') \<and>
     out w' = apply_records (r # rs) (out w)"
  using assms
proof (induction rs arbitrary: r w)
  case Nil
  obtain off b where r: "r = (off, b)" by force
  from Nil r have "b \<noteq> []" "unat off + length b < 2 ^ 63" by (simp_all add: flat_ok_def)
  with copy_data_splice [of "unat off" b 0 n w flat_end] Nil(3,4) r obtain w1 where
    "copy_data (int (unat off)) (int (length b)) 0 (b @ flat_end) w = Some (True, flat_end, w1)"
    "out w1 = splice (out w) (unat off) b" by auto
  with r sint_u64_nat [of off] \<open>unat off + length b < 2 ^ 63\<close> show ?case
    using read_flat_data_header_flat64 [of "-1" "-1" "[]"]
    by (subst flat_loop.simps) (simp add: flat_end_def apply_records_def)
next
  case (Cons q rs)
  obtain off b where r: "r = (off, b)" by force
  obtain off' b' where q: "q = (off', b')" by force
  from Cons.prems r have rb: "b \<noteq> []" "unat off + length b < 2 ^ 63" by (simp_all add: flat_ok_def)
  from Cons.prems q have qb: "b' \<noteq> []" "unat off' + length b' < 2 ^ 63" by (simp_all add: flat_ok_def)
  let ?rest = "concat (map flat_record (q # rs)) @ flat_end"
  have sl: "sint (of_nat (length b') :: u64) = int (length b')"
    using qb(2) by (intro sint_length) simp
  have "ready (length b - 0 + (sum_list (map (\<lambda>r. length (snd r)) (q # rs)) + n)) w"
    using Cons.prems(4) by (simp add: r add.assoc comp_def)
  from copy_data_splice [OF rb(2) _ this Cons.prems(3), of ?rest] rb(1) obtain w1 where
    w1: "copy_data (int (unat off)) (int (length b)) 0 (b @ ?rest) w = Some (True, ?rest, w1)"
    "out w1 = splice (out w) (unat off) b" "\<not> is_stdout w1" "ready (sum_list (map (\<lambda>r. length (snd r)) (q # rs)) + n) w1"
    by auto
  have rest: "?rest = flat64 off' @ flat64 (of_nat (length b')) @ (b' @ concat (map flat_record rs) @ flat_end)"
    by (simp add: q flat_record_def)
  have hd: "read_flat_data_header ?rest =
      Some ((sint off', int (length b')), b' @ concat (map flat_record rs) @ flat_end)"
    unfolding rest read_flat_data_header_flat64 sl ..
  have step: "flat_loop (sint off) (int (length b)) (b @ ?rest) w =
      flat_loop (sint off') (int (length b')) (b' @ concat (map flat_record rs) @ flat_end) w1"
  proof -
    have "copy_data (sint off) (int (length b)) 0 (b @ ?rest) w = Some (True, ?rest, w1)"
      using w1(1) rb(2) by (subst sint_u64_nat) simp_all
    moreover have "0 \<le> sint off'" using qb(2) by (subst sint_u64_nat) simp_all
    ultimately show ?thesis using qb(1) by (subst flat_loop.simps) (simp add: hd del: list.map concat.simps)
  qed
  from Cons.IH [of q w1] Cons.prems(2) w1(3,4) q show ?case
    unfolding r fst_conv snd_conv step by (auto simp: apply_records_def w1(2))
qed

text \<open>A sequence of calls of \<^verbatim>\<open>write_buffer\<close>, stopping at the first failure.\<close>

fun write_buffers :: "(u64 \<times> u8 list) list \<Rightarrow> writer \<Rightarrow> (bool \<times> writer) option" where
  "write_buffers [] w = Some (True, w)"
| "write_buffers ((off, b) # rs) w = (case write_buffer off b w of None \<Rightarrow> None
     | Some (False, w1) \<Rightarrow> Some (False, w1) | Some (True, w1) \<Rightarrow> write_buffers rs w1)"

lemma write_buffers_stdout:
  assumes "is_stdout w" "ready (sum_list (map (\<lambda>r. 16 + length (snd r)) rs) + n) w"
  shows "\<exists>w'. write_buffers rs w = Some (True, w') \<and> is_stdout w' \<and> ready n w' \<and>
     out w' = out w @ concat (map flat_record rs)"
  using assms
proof (induction rs arbitrary: w)
  case (Cons r rs)
  obtain off b where r: "r = (off, b)" by force
  have "ready (16 + length b + (sum_list (map (\<lambda>r. 16 + length (snd r)) rs) + n)) w"
    using Cons.prems(2) by (simp add: r add.assoc)
  from write_buffer_stdout [OF this Cons.prems(1), of off] obtain w1 where w1: "write_buffer off b w = Some (True, w1)"
    "ready (sum_list (map (\<lambda>r. 16 + length (snd r)) rs) + n) w1" "out w1 = out w @ flat_record (off, b)" "is_stdout w1" .
  with Cons.IH [OF w1(4,2)] r show ?case by auto
qed simp

text \<open>The whole way of a flattened dump: header, records, end, and back into a file.\<close>

definition flatten :: "(u64 \<times> u8 list) list \<Rightarrow> writer \<Rightarrow> (bool \<times> writer) option" where
  "flatten rs w = (case write_start_flat_header True w of
       Some (True, w1) \<Rightarrow> (case write_buffers rs w1 of Some (True, w2) \<Rightarrow> write_end_flat_header True w2 | r \<Rightarrow> r)
     | r \<Rightarrow> r)"

definition flat_start :: "u8 list" where
  "flat_start = take 16 (cstr ''makedumpfile'' @ replicate 16 0) @ flat64 1 @ flat64 1 @ replicate 4064 0"

lemma read_start_flat_start: "read_start_flat_header (flat_start @ rest) = Some rest"
proof -
  have h: "take 16 (cstr ''makedumpfile'' @ replicate 16 0) = map of_char ''makedumpfile'' @ [0, 0, 0, 0]"
    by (simp add: cstr_def eval_nat_numeral)
  have "length flat_start = 4096" by (simp add: flat_start_def cstr_def)
  then have rd: "read_buf_from_stdin 4096 (flat_start @ rest) = Some (flat_start, rest)"
    by (simp add: read_buf_from_stdin_def)
  have "c_take flat_start = map of_char ''makedumpfile''"
    unfolding flat_start_def h by (simp add: c_take_def)
  moreover have "take 8 (drop 16 flat_start) = flat64 1"
    unfolding flat_start_def h by simp
  moreover have "be_nat (flat64 1) = 1" by (simp add: flat64_def)
  ultimately show ?thesis unfolding read_start_flat_header_def rd by simp
qed

text \<open>
  C11. The flattened format is lossless. However \<^verbatim>\<open>write\<close> splits the stream, a dump written to standard
  output as any sequence of \<^verbatim>\<open>write_buffer\<close> calls between the start and the end header is turned by
  \<^verbatim>\<open>rearrange_dumpdata\<close>, with whatever partial writes, into the file that the same calls of
  \<^verbatim>\<open>write_buffer\<close> with seeks would have produced, and both sides report success.
\<close>

theorem flatten_rearrange_roundtrip:
  assumes "rs \<noteq> []" "\<forall>r\<in>set rs. flat_ok r"
    and "is_stdout w" "out w = []" "ready (4112 + sum_list (map (\<lambda>r. 16 + length (snd r)) rs)) w"
    and "\<not> is_stdout v" "ready (sum_list (map (\<lambda>r. length (snd r)) rs)) v"
  shows "\<exists>w' v'. flatten rs w = Some (True, w') \<and> rearrange_dumpdata (out w') v = Some (True, v') \<and>
     out v' = fold (\<lambda>r c. splice c (unat (fst r)) (snd r)) rs (out v)"
proof -
  let ?n = "sum_list (map (\<lambda>r. 16 + length (snd r)) rs)"
  have "ready (length flat_start + (?n + 16)) w" using assms(5) by (simp add: flat_start_def cstr_def)
  from ready_stdout [OF this assms(3)] obtain w1 where w1: "write_and_check_space flat_start w = Some (True, w1)"
    "ready (?n + 16) w1" "out w1 = flat_start" "is_stdout w1" using assms(4) by auto
  from write_buffers_stdout [OF w1(4,2)] obtain w2 where w2: "write_buffers rs w1 = Some (True, w2)" "is_stdout w2"
    "ready 16 w2" "out w2 = flat_start @ concat (map flat_record rs)" using w1(3) by auto
  have "ready (length flat_end + 0) w2" using w2(3) by (simp add: flat_end_def)
  from ready_stdout [OF this w2(2)] obtain w3 where w3: "write_and_check_space flat_end w2 = Some (True, w3)"
    "out w3 = flat_start @ concat (map flat_record rs) @ flat_end" using w2(4) by auto
  have fl: "flatten rs w = Some (True, w3)"
    by (simp add: flatten_def write_start_flat_header_def write_end_flat_header_def w1(1) [unfolded flat_start_def]
        w2(1) w3(1) [unfolded flat_end_def] del: take_append)
  from assms(1) obtain r rs' where rs: "rs = r # rs'" by (cases rs) auto
  obtain off b where r: "r = (off, b)" by force
  from assms(2) rs r have b: "length b < 2 ^ 63" "flat_ok r" by (auto simp: flat_ok_def)
  have sl: "sint (of_nat (length b) :: u64) = int (length b)" using b(1) by (rule sint_length)
  have "rearrange_dumpdata (out w3) v =
      flat_loop (sint (fst r)) (int (length (snd r))) (snd r @ concat (map flat_record rs') @ flat_end) v"
    unfolding rearrange_dumpdata_def w3(2) read_start_flat_start
    using read_flat_data_header_flat64 [of off "of_nat (length b)" "b @ concat (map flat_record rs') @ flat_end"]
    by (simp add: rs r flat_record_def sl)
  with flat_loop_records [of r rs' v 0] assms(2,6,7) rs fl show ?thesis by (auto simp: apply_records_def)
qed

definition sample_device :: "bool \<Rightarrow> wret list \<Rightarrow> writer" where
  "sample_device so rs = \<lparr>is_stdout = so, flag_dry_run = False, size_limit = None, flag_nospace = False, write_bytes = 0,
     pos = 0, out = [], orc = rs\<rparr>"

lemma ready_sample_device: "0 < k \<Longrightarrow> n \<le> m \<Longrightarrow> ready n (sample_device so (replicate m (Wrote k)))"
proof -
  assume "0 < k" "n \<le> m"
  have "progress (replicate m (Wrote k)) \<noteq> None" using \<open>0 < k\<close> by (induction m) auto
  with \<open>n \<le> m\<close> show ?thesis by (simp add: ready_def steady_def sample_device_def)
qed

theorem flatten_rearrange_roundtrip_witness:
  "\<exists>w' v'. flatten [(2, [1, 2]), (0, [7])] (sample_device True (replicate 5000 (Wrote 3))) = Some (True, w') \<and>
     rearrange_dumpdata (out w') (sample_device False (replicate 3 (Wrote 1))) = Some (True, v') \<and> out v' = [7, 0, 1, 2]"
proof -
  have "\<exists>w' v'. flatten [(2, [1, 2]), (0, [7])] (sample_device True (replicate 5000 (Wrote 3))) = Some (True, w') \<and>
     rearrange_dumpdata (out w') (sample_device False (replicate 3 (Wrote 1))) = Some (True, v') \<and>
     out v' = fold (\<lambda>r c. splice c (unat (fst r)) (snd r)) [(2 :: u64, [1, 2]), (0, [7])]
       (out (sample_device False (replicate 3 (Wrote 1))))"
    by (rule flatten_rearrange_roundtrip)
      (simp_all add: flat_ok_def ready_sample_device, simp_all add: sample_device_def)
  moreover have "fold (\<lambda>r c. splice c (unat (fst r)) (snd r)) [(2 :: u64, [1, 2]), (0, [7])]
      (out (sample_device False (replicate 3 (Wrote 1)))) = [7, 0, 1, 2]"
    by code_simp
  ultimately show ?thesis by simp
qed

section \<open>The write-behind buffer is transparent\<close>

datatype cache_op = Put "u8 list" | Zero nat

fun op_bytes :: "cache_op \<Rightarrow> u8 list" where
  "op_bytes (Put bs) = bs"
| "op_bytes (Zero n) = replicate n 0"

fun cache_step :: "cache_op \<Rightarrow> cache_data \<Rightarrow> writer \<Rightarrow> (bool \<times> cache_data \<times> writer) option" where
  "cache_step (Put bs) cd w = write_cache cd bs w"
| "cache_step (Zero n) cd w = write_cache_zero cd n w"

text \<open>A sequence of writes through the buffer and the final \<^verbatim>\<open>write_cache_bufsz\<close>.\<close>

fun cache_run :: "cache_op list \<Rightarrow> cache_data \<Rightarrow> writer \<Rightarrow> (bool \<times> cache_data \<times> writer) option" where
  "cache_run [] cd w = write_cache_bufsz cd w"
| "cache_run (op # ops) cd w = (case cache_step op cd w of None \<Rightarrow> None
     | Some (False, r) \<Rightarrow> Some (False, r) | Some (True, cd1, w1) \<Rightarrow> cache_run ops cd1 w1)"

definition pending :: "cache_data \<Rightarrow> u8 list" where
  "pending cd = take (buf_size cd) (cd_buf cd)"

text \<open>
  The invariant: \<open>done\<close> bytes went out from offset \<open>off\<close> on, the pending ones follow, and a page fits
  behind a buffer that is not full.
\<close>

definition cache_data_fits :: "nat \<Rightarrow> u8 list \<Rightarrow> nat \<Rightarrow> u8 list \<Rightarrow> nat \<Rightarrow> cache_data \<Rightarrow> writer \<Rightarrow> bool" where
  "cache_data_fits ps o0 off sent n cd w \<longleftrightarrow>
     \<not> is_stdout w \<and> ready (length (pending cd) + n) w \<and>
     0 < cache_size cd \<and> ps \<le> cache_size cd \<and> buf_size cd \<le> length (cd_buf cd) \<and> cache_size cd + ps \<le> length (cd_buf cd) \<and>
     off + length sent + length (pending cd) + n < 2 ^ 63 \<and> cd_offset cd = of_nat (off + length sent) \<and>
     out w = (if sent = [] then o0 else splice o0 off sent)"

definition cache_data_inv :: "nat \<Rightarrow> u8 list \<Rightarrow> nat \<Rightarrow> u8 list \<Rightarrow> nat \<Rightarrow> cache_data \<Rightarrow> writer \<Rightarrow> bool" where
  "cache_data_inv ps o0 off sent n cd w \<longleftrightarrow> cache_data_fits ps o0 off sent n cd w \<and> buf_size cd < cache_size cd"

lemma sent_more:
  "splice (if sent = [] then o0 else splice o0 off sent) (off + length sent) bs = splice o0 off (sent @ bs)"
  by (cases "sent = []") (simp_all add: splice_splice)

lemma pending_length: "buf_size cd \<le> length (cd_buf cd) \<Longrightarrow> length (pending cd) = buf_size cd"
  by (simp add: pending_def)

text \<open>Writing a front part of what is pending.\<close>

lemma cache_write_front:
  assumes inv: "\<not> is_stdout w" "ready (length front + n) w" "off + length sent + length front < 2 ^ 63"
    "out w = (if sent = [] then o0 else splice o0 off sent)" "front \<noteq> []"
  obtains w' where "write_buffer (of_nat (off + length sent)) front w = Some (True, w')" "ready n w'"
    "\<not> is_stdout w'" "out w' = splice o0 off (sent @ front)"
proof -
  have u: "unat (of_nat (off + length sent) :: u64) = off + length sent"
    using inv(3) by (intro unat_of_nat64) simp
  have "unat (of_nat (off + length sent) :: u64) < 2 ^ 63" unfolding u using inv(3) by simp
  from write_buffer_file [OF inv(2,1) this inv(5)] obtain w' where
    "write_buffer (of_nat (off + length sent)) front w = Some (True, w')" "ready n w'"
    "out w' = splice (out w) (unat (of_nat (off + length sent) :: u64)) front" "\<not> is_stdout w'" .
  then show thesis unfolding u inv(4) sent_more by (rule_tac that)
qed

lemma cache_flush:
  assumes "cache_data_fits ps o0 off sent n cd w"
  obtains cd' w' where "write_cache_bufsz cd w = Some (True, cd', w')" "cache_data_inv ps o0 off (sent @ pending cd) n cd' w'"
    "buf_size cd' = 0" "cd_buf cd' = cd_buf cd" "cache_size cd' = cache_size cd"
proof (cases "buf_size cd = 0")
  case True
  then have "pending cd = []" by (simp add: pending_def)
  with assms True that [of cd w] show thesis by (simp add: write_cache_bufsz_def cache_data_inv_def cache_data_fits_def)
next
  case False
  have len: "length (pending cd) = buf_size cd" using assms by (intro pending_length) (simp add: cache_data_fits_def)
  with False have ne: "pending cd \<noteq> []" by auto
  from assms have 1: "\<not> is_stdout w" "ready (length (pending cd) + n) w" "off + length sent + length (pending cd) < 2 ^ 63"
    "out w = (if sent = [] then o0 else splice o0 off sent)" and off: "cd_offset cd = of_nat (off + length sent)"
    by (simp_all add: cache_data_fits_def)
  from cache_write_front [OF 1 ne] obtain w' where w': "write_buffer (cd_offset cd) (pending cd) w = Some (True, w')" "ready n w'"
    "\<not> is_stdout w'" "out w' = splice o0 off (sent @ pending cd)" unfolding off .
  let ?cd = "cd\<lparr>cd_offset := cd_offset cd + of_nat (buf_size cd), buf_size := 0\<rparr>"
  have p: "pending ?cd = []" by (simp add: pending_def)
  have "write_cache_bufsz cd w = Some (True, ?cd, w')"
    using False w'(1) by (simp add: write_cache_bufsz_def pending_def)
  moreover have "cache_data_inv ps o0 off (sent @ pending cd) n ?cd w'"
    using assms w'(2-4) ne unfolding cache_data_inv_def cache_data_fits_def p by (auto simp: len off)
  ultimately show thesis by (rule that) simp_all
qed

lemma write_cache_zero_step:
  assumes "cache_data_fits ps o0 off sent (m + n) cd w" "m \<le> ps"
  shows "\<exists>cd' w'. write_cache_zero cd m w = Some (True, cd', w') \<and>
     cache_data_inv ps o0 off (sent @ pending cd @ replicate m 0) n cd' w' \<and> pending cd' = []"
proof -
  from cache_flush [OF assms(1)] obtain cd1 w1 where 1: "write_cache_bufsz cd w = Some (True, cd1, w1)"
    "cache_data_inv ps o0 off (sent @ pending cd) (m + n) cd1 w1" "buf_size cd1 = 0" by metis
  let ?cd = "cd1\<lparr>cd_buf := replicate m 0 @ drop m (cd_buf cd1), buf_size := m\<rparr>"
  have m: "m \<le> length (cd_buf cd1)" using assms(2) 1(2) by (simp add: cache_data_inv_def cache_data_fits_def)
  have p: "pending ?cd = replicate m 0" "pending cd1 = []" by (simp_all add: pending_def 1(3))
  have "cache_data_fits ps o0 off (sent @ pending cd) n ?cd w1"
    using 1(2) m unfolding cache_data_inv_def cache_data_fits_def p by (auto simp: add.assoc)
  from cache_flush [OF this] obtain cd2 w2 where 2: "write_cache_bufsz ?cd w1 = Some (True, cd2, w2)"
    "cache_data_inv ps o0 off ((sent @ pending cd) @ replicate m 0) n cd2 w2" "buf_size cd2 = 0" unfolding p by metis
  have "write_cache_zero cd m w = write_cache_bufsz ?cd w1" using m by (simp add: write_cache_zero_def 1(1,3))
  with 2 show ?thesis by (auto simp: pending_def)
qed

lemma write_cache_step:
  assumes inv: "cache_data_inv ps o0 off sent (length bs + n) cd w" and ps: "length bs \<le> ps"
  shows "\<exists>cd' w' sent'. write_cache cd bs w = Some (True, cd', w') \<and> cache_data_inv ps o0 off sent' n cd' w' \<and>
     sent' @ pending cd' = sent @ pending cd @ bs"
proof -
  define b1 where "b1 = take (buf_size cd) (cd_buf cd) @ bs @ drop (buf_size cd + length bs) (cd_buf cd)"
  define c where "c = cache_size cd"
  have I: "buf_size cd < c" "c + ps \<le> length (cd_buf cd)" "0 < c" "ps \<le> c" using inv
    by (simp_all add: cache_data_inv_def cache_data_fits_def c_def)
  have len: "length (pending cd) = buf_size cd" using I by (intro pending_length) simp
  have lb: "length b1 = length (cd_buf cd)" using I ps by (simp add: b1_def)
  have b1: "take (buf_size cd + length bs) b1 = pending cd @ bs"
    using len by (simp add: b1_def pending_def)
  have fit: "\<not> buf_size cd + length bs > length (cd_buf cd)" using I ps by simp
  let ?cd = "cd\<lparr>cd_buf := b1, buf_size := buf_size cd + length bs\<rparr>"
  show ?thesis
  proof (cases "buf_size cd + length bs < c")
    case True
    have p: "pending ?cd = pending cd @ bs" by (simp add: pending_def b1 [unfolded pending_def])
    have "write_cache cd bs w = Some (True, ?cd, w)"
      using fit True by (simp add: write_cache_def b1_def c_def Let_def)
    moreover have "cache_data_inv ps o0 off sent n ?cd w"
      using inv True lb fit unfolding cache_data_inv_def cache_data_fits_def p
      by (auto simp: add.assoc c_def not_less)
    ultimately show ?thesis using p by blast
  next
    case False
    define m where "m = buf_size cd + length bs - c"
    have m: "c + m = buf_size cd + length bs" "m \<le> length bs" using False I by (auto simp: m_def)
    define front where "front = take c b1"
    have split: "front @ take m (drop c b1) = pending cd @ bs"
      unfolding front_def b1 [symmetric] m(1) [symmetric] by (rule take_add [symmetric])
    have lf: "length front = c" "length (take m (drop c b1)) = m" using I lb m fit by (auto simp: front_def)
    from inv have J: "\<not> is_stdout w" "off + length sent + (buf_size cd + (length bs + n)) < 2 ^ 63"
      "out w = (if sent = [] then o0 else splice o0 off sent)" "ready (buf_size cd + (length bs + n)) w"
      and o: "cd_offset cd = of_nat (off + length sent)"
      by (simp_all add: cache_data_inv_def cache_data_fits_def len add.assoc)
    have r: "ready (length front + (m + n)) w" using J(4) m(1) by (simp add: lf add.assoc [symmetric])
    have b: "off + length sent + length front < 2 ^ 63" using J(2) m(1) by (simp add: lf)
    have "front \<noteq> []" using lf(1) I(3) by auto
    from cache_write_front [OF J(1) r b J(3) this] obtain w' where w':
      "write_buffer (cd_offset cd) front w = Some (True, w')" "ready (m + n) w'" "\<not> is_stdout w'"
      "out w' = splice o0 off (sent @ front)" unfolding o .
    let ?cd' = "?cd\<lparr>buf_size := m, cd_buf := take m (drop c b1) @ drop m b1, cd_offset := cd_offset cd + of_nat c\<rparr>"
    have p: "pending ?cd' = take m (drop c b1)" using lf(2) by (simp add: pending_def)
    have "write_cache cd bs w = Some (True, ?cd', w')"
      using fit False w'(1) by (simp add: write_cache_def b1_def [symmetric] c_def [symmetric] front_def [symmetric] m_def Let_def)
    moreover have "cache_data_inv ps o0 off (sent @ front) n ?cd' w'"
      unfolding cache_data_inv_def cache_data_fits_def p
      using w' J(2) I lb m lf ps \<open>front \<noteq> []\<close> by (auto simp: o c_def simp del: length_take)
    moreover have "(sent @ front) @ pending ?cd' = sent @ pending cd @ bs" unfolding p append_assoc split ..
    ultimately show ?thesis by blast
  qed
qed

lemma cache_run_inv:
  assumes "cache_data_inv ps o0 off sent (length (concat (map op_bytes ops))) cd w" "\<forall>op\<in>set ops. length (op_bytes op) \<le> ps"
  shows "\<exists>cd' w'. cache_run ops cd w = Some (True, cd', w') \<and> buf_size cd' = 0 \<and>
     cache_data_inv ps o0 off (sent @ pending cd @ concat (map op_bytes ops)) 0 cd' w'"
  using assms
proof (induction ops arbitrary: sent cd w)
  case Nil
  then have "cache_data_fits ps o0 off sent 0 cd w" by (simp add: cache_data_inv_def)
  from cache_flush [OF this] show ?case by (metis append_Nil2 cache_run.simps(1) concat.simps(1) list.map(1))
next
  case (Cons op ops)
  let ?n = "length (concat (map op_bytes ops))"
  from Cons.prems have 1: "cache_data_inv ps o0 off sent (length (op_bytes op) + ?n) cd w" "length (op_bytes op) \<le> ps" by simp_all
  have "\<exists>cd' w' sent'. cache_step op cd w = Some (True, cd', w') \<and> cache_data_inv ps o0 off sent' ?n cd' w' \<and>
     sent' @ pending cd' = sent @ pending cd @ op_bytes op"
  proof (cases op)
    case (Put bs)
    with write_cache_step [of ps o0 off sent bs ?n cd w] 1 show ?thesis by simp
  next
    case (Zero m)
    with write_cache_zero_step [of ps o0 off sent m ?n cd w] 1 show ?thesis
      by (fastforce simp: cache_data_inv_def)
  qed
  then obtain cd' w' sent' where 2: "cache_step op cd w = Some (True, cd', w')" "cache_data_inv ps o0 off sent' ?n cd' w'"
     "sent' @ pending cd' = sent @ pending cd @ op_bytes op" by blast
  have "sent' @ pending cd' @ concat (map op_bytes ops) = sent @ pending cd @ concat (map op_bytes (op # ops))"
    using 2(3) by (metis append.assoc concat.simps(2) list.simps(9))
  with Cons.IH [OF 2(2)] Cons.prems(2) 2(1) show ?case by auto
qed

text \<open>
  C12. The write-behind buffer is equivalent to writing directly: any sequence of \<^verbatim>\<open>write_cache\<close> and
  \<^verbatim>\<open>write_cache_zero\<close> calls of at most a page each on a buffer from \<^verbatim>\<open>prepare_cache_data\<close>, ended by
  \<^verbatim>\<open>write_cache_bufsz\<close>, succeeds and leaves the output file as a single write of all the bytes
  at the buffer's offset would, with nothing pending.
\<close>

theorem write_cache_equivalence:
  assumes "cd = prepare_cache_data page_size block_order (of_nat off) mem" "page_size * 2 ^ block_order + page_size \<le> length mem"
    and "0 < page_size" "\<forall>op\<in>set ops. length (op_bytes op) \<le> page_size"
    and "data = concat (map op_bytes ops)" "data \<noteq> []" "off + length data < 2 ^ 63"
    and "\<not> is_stdout w" "ready (length data) w"
  shows "\<exists>cd' w'. cache_run ops cd w = Some (True, cd', w') \<and> out w' = splice (out w) off data \<and>
     buf_size cd' = 0 \<and> cd_offset cd' = of_nat (off + length data)"
proof -
  have p: "pending cd = []" by (simp add: assms(1) prepare_cache_data_def pending_def)
  have "cache_data_inv page_size (out w) off [] (length data) cd w"
    unfolding cache_data_inv_def cache_data_fits_def p
    using assms(2,3,7-9) by (auto simp: assms(1) prepare_cache_data_def)
  from cache_run_inv [OF this [unfolded assms(5)] assms(4)] obtain cd' w' where
    1: "cache_run ops cd w = Some (True, cd', w')" "buf_size cd' = 0" "cache_data_inv page_size (out w) off data 0 cd' w'"
    unfolding p assms(5) [symmetric] by auto
  then show ?thesis using assms(6) by (auto simp: cache_data_inv_def cache_data_fits_def)
qed

theorem write_cache_equivalence_witness:
  "\<exists>cd' w'. cache_run [Put [1, 2], Put [3], Zero 2, Put [4, 5]] (prepare_cache_data 2 0 3 [9, 9, 9, 9])
      (sample_device False (replicate 7 (Wrote 1))) = Some (True, cd', w') \<and>
     out w' = [0, 0, 0, 1, 2, 3, 0, 0, 4, 5] \<and> buf_size cd' = 0 \<and> cd_offset cd' = 10"
proof -
  let ?w = "sample_device False (replicate 7 (Wrote 1))"
  have sp: "splice (out ?w) 3 [1, 2, 3, 0, 0, 4, 5] = [0, 0, 0, 1, 2, 3, 0, 0, 4, 5]"
    and data: "[1, 2, 3, 0, 0, 4, 5] = concat (map op_bytes [Put [1, 2], Put [3], Zero 2, Put [4, 5]])"
    and dev: "\<not> is_stdout ?w"
    by code_simp+
  have r: "ready (length [1 :: u8, 2, 3, 0, 0, 4, 5]) ?w" by (rule ready_sample_device) simp_all
  show ?thesis
    using write_cache_equivalence [OF refl _ _ _ data _ _ dev r, of 2 0 "[9, 9, 9, 9]" 3] unfolding sp by simp
qed

end
