(* ===== verification/Erase.thy ===== *)
theory Erase
  imports File_IO Bytes
begin

text \<open>
  Erasing kernel data (\<^verbatim>\<open>src/erase_info.c\<close>): the list of physical ranges to erase, its use on the pages that
  are written, and the account of what was erased. The filter language, which finds the addresses and sizes, is
  not modelled: they are arguments of \<open>update_filter_info\<close>.
\<close>

section \<open>Data\<close>

text \<open>
  \<^verbatim>\<open>struct filter_info\<close> without the link, \<^verbatim>\<open>struct erase_info\<close> and the members of \<^verbatim>\<open>struct config_entry\<close> used here.
  \<^verbatim>\<open>long\<close> members are words; \<open>sint\<close> is used where C compares them as signed.
\<close>

record filter_info =
  fi_vaddr :: u64
  fi_paddr :: u64
  fi_size :: u64
  fi_erase_info_idx :: nat
  fi_size_idx :: nat
  fi_erase_ch :: int
  fi_nullify :: bool

record erase_info =
  ei_symbol_expr :: "u8 list"
  ei_num_sizes :: nat
  ei_sizes :: "u64 list option"
  ei_erased :: bool

record config_entry =
  ce_symbol_expr :: "u8 list"
  ce_nullify :: bool
  ce_erase_info_idx :: nat

text \<open>
  The static list (sorted by address), the table \<^verbatim>\<open>erase_info\<close> with its \<^verbatim>\<open>num_erase_info\<close> elements (the first one is
  unused; \<open>None\<close> after an allocation of it failed), and the results of the coming allocations, which
  succeed when the list is at its end.
\<close>

record erase_state =
  filter_list :: "filter_info list"
  erase_tbl :: "erase_info list option"
  allocs :: "bool list"

definition alloc :: "erase_state \<Rightarrow> bool \<times> erase_state" where
  "alloc st = (case allocs st of [] \<Rightarrow> (True, st) | b # bs \<Rightarrow> (b, st\<lparr>allocs := bs\<rparr>))"

section \<open>Collecting the ranges\<close>

text \<open>The result is whether the node was inserted.\<close>

fun insert_filter_info :: "filter_info \<Rightarrow> filter_info list \<Rightarrow> bool \<times> filter_info list" where
  "insert_filter_info n [] = (True, [n])"
| "insert_filter_info n (p # ps) =
     (if fi_paddr n \<le> fi_paddr p
      then if fi_paddr n = fi_paddr p
           then (False, (if sint (fi_size p) < sint (fi_size n) then p\<lparr>fi_size := fi_size n\<rparr> else p) # ps)
           else (True, n # p # ps)
      else (case insert_filter_info n ps of (r, ps') \<Rightarrow> (r, p # ps')))"

text \<open>
  One node of the table per erase command. When the table cannot be enlarged, its address is lost and the index is
  0; enlarging a lost table leaves its elements uninitialised, which is \<open>None\<close>.
\<close>

definition add_erase_info_node :: "config_entry \<Rightarrow> erase_state \<Rightarrow> (nat \<times> config_entry \<times> erase_state) option" where
  "add_erase_info_node ce st = (case erase_tbl st of None \<Rightarrow> None
     | Some t \<Rightarrow>
         (let idx = ce_erase_info_idx ce in
          if idx \<noteq> 0
          then (if idx < length t
                then Some (idx, ce, st\<lparr>erase_tbl := Some (t[idx := (t ! idx)\<lparr>ei_num_sizes := ei_num_sizes (t ! idx) + 1\<rparr>])\<rparr>)
                else None)
          else (case alloc st of
              (False, st1) \<Rightarrow> Some (0, ce, st1\<lparr>erase_tbl := None\<rparr>)
            | (True, st1) \<Rightarrow>
                Some (length t, ce\<lparr>ce_symbol_expr := [], ce_erase_info_idx := length t\<rparr>,
                  st1\<lparr>erase_tbl := Some (t @ [\<lparr>ei_symbol_expr = ce_symbol_expr ce, ei_num_sizes = 1, ei_sizes = None,
                    ei_erased = False\<rparr>])\<rparr>))))"

definition get_size_index :: "nat \<Rightarrow> erase_state \<Rightarrow> nat" where
  "get_size_index ei_idx st =
     (case erase_tbl st of None \<Rightarrow> 0 | Some t \<Rightarrow> if ei_idx \<noteq> 0 then ei_num_sizes (t ! ei_idx) - 1 else 0)"

text \<open>A node that is in the list is changed after it was inserted.\<close>

definition set_index :: "u64 \<Rightarrow> nat \<Rightarrow> nat \<Rightarrow> erase_state \<Rightarrow> erase_state" where
  "set_index pa i j st = st\<lparr>filter_list := map (\<lambda>n. if fi_paddr n = pa then n\<lparr>fi_erase_info_idx := i, fi_size_idx := j\<rparr> else n) (filter_list st)\<rparr>"

text \<open>
  \<^verbatim>\<open>update_filter_info\<close>: \<open>sym_addr\<close> and \<open>sz\<close> are what the evaluation of the symbol gives, \<open>pa\<close> the physical
  address. The result is the return value.
\<close>

definition update_filter_info ::
  "u64 \<Rightarrow> u64 \<Rightarrow> u64 \<Rightarrow> config_entry \<Rightarrow> erase_state \<Rightarrow> (bool \<times> config_entry \<times> erase_state) option" where
  "update_filter_info sym_addr sz pa ce st =
     (if sym_addr = 0 then Some (False, ce, st)
      else if sint sz \<le> 0 then Some (False, ce, st)
      else (case alloc st of (False, st1) \<Rightarrow> Some (False, ce, st1)
        | (True, st1) \<Rightarrow>
            (case insert_filter_info \<lparr>fi_vaddr = sym_addr, fi_paddr = pa, fi_size = sz, fi_erase_info_idx = 0, fi_size_idx = 0,
                fi_erase_ch = 88, fi_nullify = ce_nullify ce\<rparr> (filter_list st1) of
               (False, l) \<Rightarrow> Some (True, ce, st1\<lparr>filter_list := l\<rparr>)
             | (True, l) \<Rightarrow>
                 (case add_erase_info_node ce (st1\<lparr>filter_list := l\<rparr>) of None \<Rightarrow> None
                  | Some (idx, ce', st2) \<Rightarrow> Some (True, ce', set_index pa idx (get_size_index idx st2) st2)))))"

definition update_filter_info_raw :: "u64 \<Rightarrow> int \<Rightarrow> u64 \<Rightarrow> u64 \<Rightarrow> erase_state \<Rightarrow> bool \<times> erase_state" where
  "update_filter_info_raw sym_addr ch len pa st = (case alloc st of (False, st1) \<Rightarrow> (False, st1)
     | (True, st1) \<Rightarrow> (True, st1\<lparr>filter_list := snd (insert_filter_info \<lparr>fi_vaddr = sym_addr, fi_paddr = pa, fi_size = len,
         fi_erase_info_idx = 0, fi_size_idx = 0, fi_erase_ch = ch, fi_nullify = False\<rparr> (filter_list st1))\<rparr>))"

section \<open>Erasing a page\<close>

text \<open>\<open>None\<close> is an access outside the table or the array of sizes.\<close>

definition update_erase_info :: "filter_info \<Rightarrow> erase_state \<Rightarrow> erase_state option" where
  "update_erase_info fi st =
     (if fi_erase_info_idx fi = 0 then Some st
      else (case erase_tbl st of None \<Rightarrow> None
        | Some t \<Rightarrow>
            if \<not> fi_erase_info_idx fi < length t then None
            else (let ei = t ! fi_erase_info_idx fi;
                      (ok, st1, sz) = (case ei_sizes ei of Some sz \<Rightarrow> (True, st, sz)
                        | None \<Rightarrow> (case alloc st of (b, st') \<Rightarrow> (b, st', replicate (ei_num_sizes ei) 0))) in
                  if \<not> ok then Some st1
                  else if \<not> fi_size_idx fi < length sz then None
                  else Some (st1\<lparr>erase_tbl := Some (t[fi_erase_info_idx fi := ei\<lparr>ei_erased := True,
                    ei_sizes := Some (sz[fi_size_idx fi := if fi_nullify fi then -1 else sz ! fi_size_idx fi + fi_size fi])\<rparr>])\<rparr>))))"

definition starts_in :: "u64 \<Rightarrow> u64 \<Rightarrow> filter_info \<Rightarrow> bool" where
  "starts_in start_paddr end_paddr fi \<longleftrightarrow> start_paddr \<le> fi_paddr fi \<and> fi_paddr fi < end_paddr"

text \<open>\<^verbatim>\<open>split_filter_info\<close>: the rest of the node \<open>fi\<close> becomes a node of its own, if there is memory for it.\<close>

definition split_filter_info :: "filter_info \<Rightarrow> u64 \<Rightarrow> u64 \<Rightarrow> filter_info list \<Rightarrow> erase_state \<Rightarrow> filter_info list \<times> erase_state" where
  "split_filter_info fi next_paddr sz rest st = (case alloc st of
     (False, st1) \<Rightarrow> (rest, st1)
   | (True, st1) \<Rightarrow> (fi\<lparr>fi_paddr := next_paddr, fi_size := sz\<rparr> # rest, st1))"

definition extract_filter_info :: "u64 \<Rightarrow> u64 \<Rightarrow> erase_state \<Rightarrow> (filter_info option \<times> erase_state) option" where
  "extract_filter_info start_paddr end_paddr st =
     (case dropWhile (\<lambda>fi. \<not> starts_in start_paddr end_paddr fi) (filter_list st) of
        [] \<Rightarrow> Some (None, st)
      | fi # rest \<Rightarrow>
          (let size1 = end_paddr - fi_paddr fi;
               (fi', rest', st1) = (if fi_size fi \<le> size1 then (fi, rest, st)
                 else (fi\<lparr>fi_size := size1\<rparr>, split_filter_info fi (fi_paddr fi + size1) (fi_size fi - size1) rest st));
               st2 = st1\<lparr>filter_list := takeWhile (\<lambda>fi. \<not> starts_in start_paddr end_paddr fi) (filter_list st) @ rest'\<rparr> in
           map_option (\<lambda>st3. (Some fi', st3)) (update_erase_info fi' st2)))"

definition erase_byte :: "filter_info \<Rightarrow> u8" where
  "erase_byte fi = (if fi_nullify fi then 0 else of_int (fi_erase_ch fi))"

lemma alloc_list: "filter_list (snd (alloc st)) = filter_list st" "erase_tbl (snd (alloc st)) = erase_tbl st"
  by (simp_all add: alloc_def split: list.splits)

lemma update_erase_info_list: "update_erase_info fi st = Some st' \<Longrightarrow> filter_list st' = filter_list st"
  using alloc_list [of st] by (auto simp: update_erase_info_def Let_def split: if_splits option.splits prod.splits)

text \<open>The node that is taken out, and what is left.\<close>

lemma extract_cases:
  assumes "extract_filter_info s e st = Some (r, st')"
  obtains "r = None" "st' = st" "\<forall>fi\<in>set (filter_list st). \<not> starts_in s e fi"
  | pre fi rest where "filter_list st = pre @ fi # rest" "starts_in s e fi" "\<forall>fi\<in>set pre. \<not> starts_in s e fi"
      "fi_size fi \<le> e - fi_paddr fi" "r = Some fi" "filter_list st' = pre @ rest"
  | pre fi rest where "filter_list st = pre @ fi # rest" "starts_in s e fi" "\<forall>fi\<in>set pre. \<not> starts_in s e fi"
      "e - fi_paddr fi < fi_size fi" "r = Some (fi\<lparr>fi_size := e - fi_paddr fi\<rparr>)"
      "filter_list st' = pre @ (if fst (alloc st) then [fi\<lparr>fi_paddr := e, fi_size := fi_size fi - (e - fi_paddr fi)\<rparr>] else []) @ rest"
proof (cases "dropWhile (\<lambda>fi. \<not> starts_in s e fi) (filter_list st)")
  case Nil
  with assms that(1) show thesis by (simp add: extract_filter_info_def)
next
  case (Cons fi rest)
  let ?pre = "takeWhile (\<lambda>fi. \<not> starts_in s e fi) (filter_list st)"
  have l: "filter_list st = ?pre @ fi # rest" using takeWhile_dropWhile_id [of "\<lambda>fi. \<not> starts_in s e fi" "filter_list st"] Cons by simp
  have "\<not> \<not> starts_in s e fi" using hd_dropWhile [of "\<lambda>fi. \<not> starts_in s e fi" "filter_list st"] Cons by simp
  then have i: "starts_in s e fi" by simp
  have p: "\<forall>fi\<in>set ?pre. \<not> starts_in s e fi" by (auto dest: set_takeWhileD)
  show thesis
  proof (cases "fi_size fi \<le> e - fi_paddr fi")
    case True
    with assms Cons have "r = Some fi" "filter_list st' = ?pre @ rest"
      by (auto simp: extract_filter_info_def Let_def dest: update_erase_info_list)
    with that(2) l i p True show thesis by blast
  next
    case False
    with assms Cons have r: "r = Some (fi\<lparr>fi_size := e - fi_paddr fi\<rparr>)"
      "filter_list st' = ?pre @ (if fst (alloc st) then [fi\<lparr>fi_paddr := e, fi_size := fi_size fi - (e - fi_paddr fi)\<rparr>] else []) @ rest"
      by (auto simp: extract_filter_info_def split_filter_info_def Let_def dest: update_erase_info_list split: prod.splits bool.splits)
    show thesis using False by (intro that(3) [OF l i p _ r]) simp_all
  qed
qed

lemma extract_decreases:
  assumes "extract_filter_info s e st = Some (Some fi, st')"
  shows "length (filter (starts_in s e) (filter_list st')) < length (filter (starts_in s e) (filter_list st))"
proof -
  have "\<not> starts_in s e (f\<lparr>fi_paddr := e, fi_size := n\<rparr>)" for f n by (simp add: starts_in_def)
  with assms show ?thesis by (auto elim!: extract_cases)
qed

text \<open>\<^verbatim>\<open>filter_data_buffer\<close>; the writes stay inside the buffer or the result is \<open>None\<close>.\<close>

function filter_data_buffer :: "u8 list \<Rightarrow> u64 \<Rightarrow> u64 \<Rightarrow> erase_state \<Rightarrow> (u8 list \<times> erase_state) option" where
  "filter_data_buffer buf pa sz st = (case extract_filter_info pa (pa + sz) st of
     None \<Rightarrow> None
   | Some (None, st') \<Rightarrow> Some (buf, st')
   | Some (Some fi, st') \<Rightarrow>
       if length buf < unat (fi_paddr fi - pa) + unat (fi_size fi) then None
       else filter_data_buffer (splice buf (unat (fi_paddr fi - pa)) (replicate (unat (fi_size fi)) (erase_byte fi))) pa sz st')"
  by pat_completeness auto

termination filter_data_buffer
  by (relation "measure (\<lambda>(_, pa, sz, st). length (filter (starts_in pa (pa + sz)) (filter_list st)))")
    (auto dest: extract_decreases)

declare filter_data_buffer.simps [simp del]

text \<open>
  The threads use \<^verbatim>\<open>filter_data_buffer_parallel\<close>, which takes a node out of the list under a lock; for a page it does the same.
\<close>

definition filter_data_buffer_parallel :: "u8 list \<Rightarrow> u64 \<Rightarrow> u64 \<Rightarrow> erase_state \<Rightarrow> (u8 list \<times> erase_state) option" where
  "filter_data_buffer_parallel buf pa sz st = filter_data_buffer buf pa sz st"

section \<open>The account\<close>

text \<open>Numbers as \<^verbatim>\<open>%ld\<close> writes them, and the texts of an erased range.\<close>

definition print_ld :: "u64 \<Rightarrow> u8 list" where
  "print_ld x = (if sint x < 0 then 45 # decimal_digits (nat (- sint x)) else decimal_digits (nat (sint x)))"

definition size_text :: "u64 \<Rightarrow> u8 list" where
  "size_text n = map of_char ''size '' @ print_ld n @ [10]"

definition nullify_text :: "u8 list" where
  "nullify_text = map of_char ''nullify'' @ [10]"

text \<open>
  \<^verbatim>\<open>get_size_eraseinfo\<close>: a node without a node of the table is not passed: the loop does not end
  (\<open>None\<close>).
\<close>

partial_function (option) size_eraseinfo_loop :: "erase_info list \<Rightarrow> filter_info list \<Rightarrow> u64 \<Rightarrow> u64 option" where
  "size_eraseinfo_loop t l acc = (case hd_opt l of None \<Rightarrow> Some acc
     | Some fi \<Rightarrow>
         if fi_erase_info_idx fi = 0 then size_eraseinfo_loop t l acc
         else size_eraseinfo_loop t (tl l) (acc + of_nat (6 + length (ei_symbol_expr (t ! fi_erase_info_idx fi)) + 1 +
           length (if fi_nullify fi then nullify_text else size_text (fi_size fi)))))"

definition get_size_eraseinfo :: "erase_state \<Rightarrow> u64 option" where
  "get_size_eraseinfo st = (case erase_tbl st of Some t \<Rightarrow> size_eraseinfo_loop t (filter_list st) 0
     | None \<Rightarrow> size_eraseinfo_loop [] (filter_list st) 0)"

definition clear_filter_info :: "erase_state \<Rightarrow> erase_state" where
  "clear_filter_info st = st\<lparr>filter_list := [], erase_tbl := None\<rparr>"

section \<open>A page is erased where the ranges say\<close>

definition fi_end :: "filter_info \<Rightarrow> nat" where
  "fi_end fi = unat (fi_paddr fi) + unat (fi_size fi)"

text \<open>A range that begins at \<open>s\<close> or later holds the address \<open>a\<close> and erases with \<open>c\<close>.\<close>

definition erases :: "nat \<Rightarrow> filter_info list \<Rightarrow> nat \<Rightarrow> u8 \<Rightarrow> bool" where
  "erases s l a c \<longleftrightarrow> (\<exists>fi\<in>set l. s \<le> unat (fi_paddr fi) \<and> unat (fi_paddr fi) \<le> a \<and> a < fi_end fi \<and> erase_byte fi = c)"

text \<open>Ranges do not wrap around, and the indices of the nodes are inside the table.\<close>

definition num_slots :: "erase_info \<Rightarrow> nat" where
  "num_slots ei = (case ei_sizes ei of None \<Rightarrow> ei_num_sizes ei | Some sz \<Rightarrow> length sz)"

definition slot_ok :: "erase_info list option \<Rightarrow> nat \<Rightarrow> nat \<Rightarrow> bool" where
  "slot_ok t i k \<longleftrightarrow> i = 0 \<or> t \<noteq> None \<and> i < length (the t) \<and> k < num_slots (the t ! i)"

definition index_ok :: "erase_info list option \<Rightarrow> filter_info \<Rightarrow> bool" where
  "index_ok t fi \<longleftrightarrow> slot_ok t (fi_erase_info_idx fi) (fi_size_idx fi)"

definition erase_ok :: "erase_state \<Rightarrow> bool" where
  "erase_ok st \<longleftrightarrow> (False \<notin> set (allocs st)) \<and> (\<forall>fi\<in>set (filter_list st). fi_end fi < 2 ^ 64 \<and> index_ok (erase_tbl st) fi)"

lemma alloc_ok:
  assumes "False \<notin> set (allocs st)"
  shows "fst (alloc st)" "False \<notin> set (allocs (snd (alloc st)))"
  using assms by (auto simp: alloc_def split: list.splits)

lemma update_erase_info_ok:
  assumes "False \<notin> set (allocs st)" "index_ok (erase_tbl st) fi"
  shows "\<exists>st'. update_erase_info fi st = Some st' \<and> (False \<notin> set (allocs st')) \<and>
     (\<forall>n. index_ok (erase_tbl st) n \<longrightarrow> index_ok (erase_tbl st') n)"
proof (cases "fi_erase_info_idx fi = 0")
  case True
  with assms show ?thesis by (simp add: update_erase_info_def)
next
  case False
  let ?i = "fi_erase_info_idx fi"
  obtain t where t: "erase_tbl st = Some t" "?i < length t" "fi_size_idx fi < num_slots (t ! ?i)"
    using assms(2) False by (auto simp: index_ok_def slot_ok_def)
  obtain st1 sz where a: "(case ei_sizes (t ! ?i) of Some sz \<Rightarrow> (True, st, sz)
      | None \<Rightarrow> (case alloc st of (b, st') \<Rightarrow> (b, st', replicate (ei_num_sizes (t ! ?i)) 0))) = (True, st1, sz)"
    "False \<notin> set (allocs st1)" "erase_tbl st1 = erase_tbl st" "length sz = num_slots (t ! ?i)"
    using alloc_ok [OF assms(1)] alloc_list [of st] assms(1)
    by (cases "ei_sizes (t ! ?i)"; cases "alloc st") (auto simp: num_slots_def)
  define ei where "ei = (t ! ?i)\<lparr>ei_erased := True,
      ei_sizes := Some (sz[fi_size_idx fi := if fi_nullify fi then -1 else sz ! fi_size_idx fi + fi_size fi])\<rparr>"
  have u: "update_erase_info fi st = Some (st1\<lparr>erase_tbl := Some (t[?i := ei])\<rparr>)"
    using False t a by (simp add: update_erase_info_def ei_def Let_def)
  have "num_slots ei = num_slots (t ! ?i)" by (simp add: ei_def num_slots_def [of "_\<lparr>ei_sizes := _\<rparr>"] a(4))
  then have "slot_ok (Some (t[?i := ei])) i k" if "slot_ok (Some t) i k" for i k
    using that by (cases "i = ?i") (auto simp: slot_ok_def)
  with u a(2) t(1) show ?thesis by (auto simp: index_ok_def)
qed

lemma index_ok_upd [simp]:
  "index_ok t (fi\<lparr>fi_size := n\<rparr>) = index_ok t fi" "index_ok t (fi\<lparr>fi_paddr := p\<rparr>) = index_ok t fi"
  by (simp_all add: index_ok_def)

lemma erase_ok_allocs: "erase_ok st \<Longrightarrow> False \<notin> set (allocs st)"
  unfolding erase_ok_def by blast

lemma fi_end_rest:
  assumes "e - fi_paddr fi < fi_size fi" "fi_paddr fi < e"
  shows "fi_end (fi\<lparr>fi_paddr := e, fi_size := fi_size fi - (e - fi_paddr fi)\<rparr>) = fi_end fi"
    "fi_end (fi\<lparr>fi_size := e - fi_paddr fi\<rparr>) = unat e"
proof -
  have p: "fi_paddr fi \<le> e" using assms(2) by simp
  have u: "unat (e - fi_paddr fi) = unat e - unat (fi_paddr fi)" using p by (rule unat_minus64)
  have "unat (fi_size fi - (e - fi_paddr fi)) = unat (fi_size fi) - (unat e - unat (fi_paddr fi))"
    using assms(1) by (simp add: unat_minus64 u)
  then show "fi_end (fi\<lparr>fi_paddr := e, fi_size := fi_size fi - (e - fi_paddr fi)\<rparr>) = fi_end fi"
    "fi_end (fi\<lparr>fi_size := e - fi_paddr fi\<rparr>) = unat e"
    using assms u by (simp_all add: fi_end_def word_less_nat_alt)
qed

lemma extract_total:
  assumes "erase_ok st"
  shows "\<exists>r st'. extract_filter_info s e st = Some (r, st') \<and> erase_ok st'"
proof (cases "dropWhile (\<lambda>fi. \<not> starts_in s e fi) (filter_list st)")
  case Nil
  then have "extract_filter_info s e st = Some (None, st)" unfolding extract_filter_info_def by (simp only: list.case)
  with assms show ?thesis by blast
next
  case (Cons fi rest)
  let ?pre = "takeWhile (\<lambda>fi. \<not> starts_in s e fi) (filter_list st)"
  have l: "filter_list st = ?pre @ fi # rest" using takeWhile_dropWhile_id [of "\<lambda>fi. \<not> starts_in s e fi" "filter_list st"] Cons by simp
  have "\<not> \<not> starts_in s e fi" using hd_dropWhile [of "\<lambda>fi. \<not> starts_in s e fi" "filter_list st"] Cons by simp
  then have i: "fi_paddr fi < e" by (simp add: starts_in_def)
  have ok: "False \<notin> set (allocs st)" "\<forall>n\<in>set (?pre @ fi # rest). fi_end n < 2 ^ 64 \<and> index_ok (erase_tbl st) n"
    using assms by (simp_all add: erase_ok_def flip: l)
  obtain st1 where al: "alloc st = (True, st1)" "False \<notin> set (allocs st1)" "erase_tbl st1 = erase_tbl st"
    using alloc_ok [OF ok(1)] alloc_list [of st] by (cases "alloc st") auto
  define fi' rest' st2 where "fi' = (if fi_size fi \<le> e - fi_paddr fi then fi else fi\<lparr>fi_size := e - fi_paddr fi\<rparr>)"
    and "rest' = (if fi_size fi \<le> e - fi_paddr fi then rest else fi\<lparr>fi_paddr := e, fi_size := fi_size fi - (e - fi_paddr fi)\<rparr> # rest)"
    and "st2 = (if fi_size fi \<le> e - fi_paddr fi then st else st1)\<lparr>filter_list := ?pre @ rest'\<rparr>"
  have x: "extract_filter_info s e st = map_option (\<lambda>st3. (Some fi', st3)) (update_erase_info fi' st2)"
    using Cons al(1) by (simp add: extract_filter_info_def split_filter_info_def Let_def fi'_def rest'_def st2_def)
  have s2: "False \<notin> set (allocs st2)" "erase_tbl st2 = erase_tbl st" "filter_list st2 = ?pre @ rest'" "index_ok (erase_tbl st) fi'"
    using al ok by (simp_all add: st2_def fi'_def)
  have n: "\<forall>n\<in>set (?pre @ rest'). fi_end n < 2 ^ 64 \<and> index_ok (erase_tbl st) n"
    using ok(2) fi_end_rest(1) [of e fi] i by (auto simp: rest'_def not_le)
  from update_erase_info_ok [OF s2(1)] s2 obtain st' where u: "update_erase_info fi' st2 = Some st'" "False \<notin> set (allocs st')"
    "\<forall>n. index_ok (erase_tbl st) n \<longrightarrow> index_ok (erase_tbl st') n" by auto
  with update_erase_info_list [OF u(1)] s2 n have "erase_ok st'" by (auto simp: erase_ok_def)
  with x u(1) show ?thesis by simp
qed

text \<open>One node: what it erases in the page, and that the other addresses keep what will erase them.\<close>

lemma extract_step:
  assumes "erase_ok st" "extract_filter_info s e st = Some (Some fi, st')"
  shows "starts_in s e fi" "fi_end fi \<le> unat e"
    "b \<le> unat s \<Longrightarrow> erases b (filter_list st) a c \<longleftrightarrow> erases b (filter_list st') a c \<or>
       b \<le> unat (fi_paddr fi) \<and> unat (fi_paddr fi) \<le> a \<and> a < fi_end fi \<and> erase_byte fi = c"
proof -
  have al: "fst (alloc st)" using assms(1) by (intro alloc_ok erase_ok_allocs)
  have "starts_in s e fi \<and> fi_end fi \<le> unat e \<and> (\<forall>b a c. b \<le> unat s \<longrightarrow> erases b (filter_list st) a c = (erases b (filter_list st') a c \<or>
       b \<le> unat (fi_paddr fi) \<and> unat (fi_paddr fi) \<le> a \<and> a < fi_end fi \<and> erase_byte fi = c))"
    using assms(2)
  proof (rule extract_cases)
    fix pre n rest assume l: "filter_list st = pre @ n # rest" "starts_in s e n" "fi_size n \<le> e - fi_paddr n"
      "Some fi = Some n" "filter_list st' = pre @ rest"
    then have "fi_end n \<le> unat e" by (auto simp: fi_end_def starts_in_def word_le_nat_alt unat_minus64 word_less_nat_alt)
    with l show ?thesis by (auto simp: erases_def)
  next
    fix pre n rest assume l: "filter_list st = pre @ n # rest" "starts_in s e n" "e - fi_paddr n < fi_size n"
      "Some fi = Some (n\<lparr>fi_size := e - fi_paddr n\<rparr>)"
      "filter_list st' = pre @ (if fst (alloc st) then [n\<lparr>fi_paddr := e, fi_size := fi_size n - (e - fi_paddr n)\<rparr>] else []) @ rest"
    let ?r = "n\<lparr>fi_paddr := e, fi_size := fi_size n - (e - fi_paddr n)\<rparr>"
    have r: "fi_end ?r = fi_end n" "fi_end fi = unat e" "fi_paddr fi = fi_paddr n" "erase_byte fi = erase_byte n" "erase_byte ?r = erase_byte n"
      using fi_end_rest [OF l(3)] l(2,4) by (auto simp: starts_in_def erase_byte_def)
    have se: "unat s \<le> unat (fi_paddr n)" "unat (fi_paddr n) < unat e" using l(2) by (auto simp: starts_in_def word_le_nat_alt word_less_nat_alt)
    have "unat e < fi_end n" using l(3) se by (simp add: fi_end_def word_less_nat_alt unat_minus64 word_le_nat_alt)
    then have "(b \<le> unat (fi_paddr n) \<and> unat (fi_paddr n) \<le> a \<and> a < fi_end n \<and> erase_byte n = c) \<longleftrightarrow>
       (b \<le> unat (fi_paddr ?r) \<and> unat (fi_paddr ?r) \<le> a \<and> a < fi_end ?r \<and> erase_byte ?r = c) \<or>
       (b \<le> unat (fi_paddr fi) \<and> unat (fi_paddr fi) \<le> a \<and> a < fi_end fi \<and> erase_byte fi = c)" if "b \<le> unat s" for a b c
      unfolding r using se that by auto
    moreover have "erases b (filter_list st) a c \<longleftrightarrow> erases b (pre @ rest) a c \<or>
        (b \<le> unat (fi_paddr n) \<and> unat (fi_paddr n) \<le> a \<and> a < fi_end n \<and> erase_byte n = c)" for a b c
      unfolding l(1) erases_def by auto
    moreover have "erases b (filter_list st') a c \<longleftrightarrow> erases b (pre @ rest) a c \<or>
        (b \<le> unat (fi_paddr ?r) \<and> unat (fi_paddr ?r) \<le> a \<and> a < fi_end ?r \<and> erase_byte ?r = c)" for a b c
      using l(5) al unfolding erases_def by auto
    moreover have "starts_in s e fi" using l(2,4) by (auto simp: starts_in_def)
    ultimately show ?thesis using r(2) by auto
  qed simp
  then show "starts_in s e fi" "fi_end fi \<le> unat e"
    "b \<le> unat s \<Longrightarrow> erases b (filter_list st) a c \<longleftrightarrow> erases b (filter_list st') a c \<or>
       b \<le> unat (fi_paddr fi) \<and> unat (fi_paddr fi) \<le> a \<and> a < fi_end fi \<and> erase_byte fi = c" by blast+
qed

text \<open>A whole page: erased bytes, other bytes, and what is left for the pages behind it.\<close>

definition page_erased :: "nat \<Rightarrow> filter_info list \<Rightarrow> u8 list \<Rightarrow> u8 list \<Rightarrow> bool" where
  "page_erased s l buf buf' \<longleftrightarrow> length buf' = length buf \<and>
     (\<forall>i<length buf. if \<exists>c. erases s l (s + i) c then erases s l (s + i) (buf' ! i) else buf' ! i = buf ! i)"

lemma filter_data_buffer_page:
  assumes "erase_ok st" "length buf = unat sz" "unat pa + unat sz < 2 ^ 64"
  shows "\<exists>buf' st'. filter_data_buffer buf pa sz st = Some (buf', st') \<and> erase_ok st' \<and>
     page_erased (unat pa) (filter_list st) buf buf' \<and>
     (\<forall>a c. unat pa + unat sz \<le> a \<longrightarrow> erases (unat pa) (filter_list st') a c = erases (unat pa) (filter_list st) a c) \<and>
     (\<forall>fi\<in>set (filter_list st'). \<not> starts_in pa (pa + sz) fi)"
  using assms
proof (induction buf pa sz st rule: filter_data_buffer.induct)
  case (1 buf pa sz st)
  have e: "unat (pa + sz) = unat pa + unat sz" using "1.prems"(3) by (rule unat_plus64)
  from extract_total [OF "1.prems"(1)] obtain r st1 where x: "extract_filter_info pa (pa + sz) st = Some (r, st1)" "erase_ok st1" by blast
  show ?case
  proof (cases r)
    case None
    then have f: "filter_data_buffer buf pa sz st = Some (buf, st1)" using x(1) by (subst filter_data_buffer.simps) simp
    from x(1) have n: "st1 = st" "\<forall>fi\<in>set (filter_list st). \<not> starts_in pa (pa + sz) fi"
      unfolding None by (rule extract_cases, simp_all)+
    then have "\<not> erases (unat pa) (filter_list st) (unat pa + i) c" if "i < unat sz" for i c
      using that e by (auto simp: erases_def starts_in_def word_le_nat_alt word_less_nat_alt)
    then have "page_erased (unat pa) (filter_list st) buf buf" using "1.prems"(2) by (simp add: page_erased_def)
    with f x(2) n show ?thesis by auto
  next
    case (Some fi)
    note x' = x(1) [unfolded Some]
    note st = extract_step [OF "1.prems"(1) x']
    let ?o = "unat (fi_paddr fi - pa)" and ?n = "unat (fi_size fi)"
    have in_pg: "unat pa \<le> unat (fi_paddr fi)" "fi_end fi \<le> unat pa + unat sz"
      using st(1,2) e by (auto simp: starts_in_def word_le_nat_alt)
    have o: "?o = unat (fi_paddr fi) - unat pa" using st(1) by (simp add: unat_minus64 starts_in_def)
    then have fit: "\<not> length buf < ?o + ?n" using in_pg "1.prems"(2) by (auto simp: fi_end_def)
    let ?b = "splice buf ?o (replicate ?n (erase_byte fi))"
    have lb: "length ?b = length buf" using fit by (simp add: length_splice)
    have f: "filter_data_buffer buf pa sz st = filter_data_buffer ?b pa sz st1"
      using x' fit by (subst filter_data_buffer.simps) simp
    have bi: "?b ! i = (if unat (fi_paddr fi) \<le> unat pa + i \<and> unat pa + i < fi_end fi then erase_byte fi else buf ! i)"
      if "i < length buf" for i using that lb in_pg o by (auto simp: nth_splice fi_end_def)
    from "1.IH" [OF x' refl refl fit x(2)] lb "1.prems"(2,3) obtain buf' st' where
      IH: "filter_data_buffer ?b pa sz st1 = Some (buf', st')" "erase_ok st'" "page_erased (unat pa) (filter_list st1) ?b buf'"
      "\<forall>a c. unat pa + unat sz \<le> a \<longrightarrow> erases (unat pa) (filter_list st') a c = erases (unat pa) (filter_list st1) a c"
      "\<forall>fi\<in>set (filter_list st'). \<not> starts_in pa (pa + sz) fi" by auto
    have step: "erases (unat pa) (filter_list st) a c \<longleftrightarrow> erases (unat pa) (filter_list st1) a c \<or>
       unat (fi_paddr fi) \<le> a \<and> a < fi_end fi \<and> erase_byte fi = c" for a c
      using st(3) [of "unat pa" a c] in_pg(1) by simp
    have "page_erased (unat pa) (filter_list st) buf buf'"
      unfolding page_erased_def
    proof (intro conjI allI impI)
      show "length buf' = length buf" using IH(3) lb by (simp add: page_erased_def)
      fix i assume i: "i < length buf"
      then have "if \<exists>c. erases (unat pa) (filter_list st1) (unat pa + i) c then erases (unat pa) (filter_list st1) (unat pa + i) (buf' ! i)
          else buf' ! i = ?b ! i" using IH(3) lb by (simp add: page_erased_def)
      with bi [OF i] show "if \<exists>c. erases (unat pa) (filter_list st) (unat pa + i) c then erases (unat pa) (filter_list st) (unat pa + i) (buf' ! i)
          else buf' ! i = buf ! i" unfolding step by (auto split: if_splits)
    qed
    moreover have "erases (unat pa) (filter_list st') a c = erases (unat pa) (filter_list st) a c" if "unat pa + unat sz \<le> a" for a c
      using IH(4) that step in_pg(2) by auto
    ultimately show ?thesis using f IH by auto
  qed
qed

section \<open>All pages\<close>

text \<open>The pages in the order in which they are written.\<close>

fun erase_pages :: "u64 \<Rightarrow> u64 \<Rightarrow> u8 list list \<Rightarrow> erase_state \<Rightarrow> (u8 list list \<times> erase_state) option" where
  "erase_pages psize pa [] st = Some ([], st)"
| "erase_pages psize pa (b # bs) st = (case filter_data_buffer b pa psize st of None \<Rightarrow> None
     | Some (b', st1) \<Rightarrow> map_option (\<lambda>(bs', st2). (b' # bs', st2)) (erase_pages psize (pa + psize) bs st1))"

lemma erases_skip:
  assumes "\<forall>fi\<in>set l. \<not> starts_in pa (pa + sz) fi" "unat pa + unat sz < 2 ^ 64"
  shows "erases (unat pa) l a c = erases (unat pa + unat sz) l a c"
  using assms unat_plus64 [of pa sz] unfolding erases_def
  by (intro bex_cong refl) (auto simp: starts_in_def word_le_nat_alt word_less_nat_alt)

lemma erase_pages_exact_aux:
  assumes "erase_ok st" "\<forall>b\<in>set bufs. length b = unat psize" "unat pa + length bufs * unat psize < 2 ^ 64"
  shows "\<exists>bufs' st'. erase_pages psize pa bufs st = Some (bufs', st') \<and>
     page_erased (unat pa) (filter_list st) (concat bufs) (concat bufs') \<and> erase_ok st'"
  using assms
proof (induction bufs arbitrary: pa st)
  case Nil
  then show ?case by (simp add: page_erased_def)
next
  case (Cons b bs)
  let ?P = "unat psize"
  have lim: "unat pa + ?P < 2 ^ 64" using Cons.prems(3) by simp
  then have pa': "unat (pa + psize) = unat pa + ?P" by (rule unat_plus64)
  have lb: "length b = ?P" using Cons.prems(2) by simp
  from filter_data_buffer_page [OF Cons.prems(1) lb lim] obtain b' st1 where
    1: "filter_data_buffer b pa psize st = Some (b', st1)" "erase_ok st1" "page_erased (unat pa) (filter_list st) b b'"
    "\<forall>a c. unat pa + ?P \<le> a \<longrightarrow> erases (unat pa) (filter_list st1) a c = erases (unat pa) (filter_list st) a c"
    "\<forall>fi\<in>set (filter_list st1). \<not> starts_in pa (pa + psize) fi" by blast
  from Cons.IH [OF 1(2), of "pa + psize"] Cons.prems(2,3) obtain bs' st2 where
    2: "erase_pages psize (pa + psize) bs st1 = Some (bs', st2)" "page_erased (unat pa + ?P) (filter_list st1) (concat bs) (concat bs')"
    "erase_ok st2"
    by (auto simp: pa' algebra_simps)
  have later: "erases (unat pa + ?P) (filter_list st1) a c = erases (unat pa) (filter_list st) a c" if "unat pa + ?P \<le> a" for a c
    using 1(4) that erases_skip [OF 1(5) lim] by simp
  have len: "length b' = ?P" using 1(3) lb by (simp add: page_erased_def)
  have "page_erased (unat pa) (filter_list st) (concat (b # bs)) (concat (b' # bs'))"
    unfolding page_erased_def
  proof (intro conjI allI impI)
    show "length (concat (b' # bs')) = length (concat (b # bs))" using len lb 2(2) by (simp add: page_erased_def)
    fix i assume i: "i < length (concat (b # bs))"
    show "if \<exists>c. erases (unat pa) (filter_list st) (unat pa + i) c
       then erases (unat pa) (filter_list st) (unat pa + i) (concat (b' # bs') ! i)
       else concat (b' # bs') ! i = concat (b # bs) ! i"
    proof (cases "i < ?P")
      case True
      with 1(3) lb len show ?thesis by (simp add: page_erased_def nth_append)
    next
      case False
      then obtain j where j: "i = ?P + j" using le_Suc_ex not_le by blast
      with i lb have "j < length (concat bs)" by simp
      with 2(2) have "if \<exists>c. erases (unat pa + ?P) (filter_list st1) (unat pa + ?P + j) c
        then erases (unat pa + ?P) (filter_list st1) (unat pa + ?P + j) (concat bs' ! j) else concat bs' ! j = concat bs ! j"
        by (simp add: page_erased_def)
      moreover have "erases (unat pa + ?P) (filter_list st1) (unat pa + ?P + j) c = erases (unat pa) (filter_list st) (unat pa + i) c" for c
        using later [of "unat pa + ?P + j" c] by (simp add: j add.assoc)
      ultimately have "if \<exists>c. erases (unat pa) (filter_list st) (unat pa + i) c
        then erases (unat pa) (filter_list st) (unat pa + i) (concat bs' ! j) else concat bs' ! j = concat bs ! j" by (simp only:)
      moreover have "concat (b' # bs') ! i = concat bs' ! j" "concat (b # bs) ! i = concat bs ! j" by (simp_all add: nth_append lb len j)
      ultimately show ?thesis by (simp only:)
    qed
  qed
  with 1(1) 2(1,3) show ?case by auto
qed


text \<open>
  C13. When the pages are written in ascending order without a gap, erasing is exact: it ends, stays inside the page
  buffers, and a byte at an address that a range holds gets the erase character of such a range, also where the
  range goes on over the following pages; every other byte is unchanged. The ranges begin in the
  first page or behind it.
\<close>

theorem erase_pages_exact:
  assumes "erase_ok st" "\<forall>b\<in>set bufs. length b = unat psize" "unat pa + length bufs * unat psize < 2 ^ 64"
    "\<forall>fi\<in>set (filter_list st). pa \<le> fi_paddr fi"
  shows "\<exists>bufs' st'. erase_pages psize pa bufs st = Some (bufs', st') \<and> length (concat bufs') = length (concat bufs) \<and>
     (\<forall>i<length (concat bufs).
       let ranges = filter (\<lambda>fi. unat (fi_paddr fi) \<le> unat pa + i \<and> unat pa + i < fi_end fi) (filter_list st) in
       if ranges = [] then concat bufs' ! i = concat bufs ! i else concat bufs' ! i \<in> set (map erase_byte ranges))"
proof -
  from erase_pages_exact_aux [OF assms(1-3)] obtain bufs' st' where
    1: "erase_pages psize pa bufs st = Some (bufs', st')" "page_erased (unat pa) (filter_list st) (concat bufs) (concat bufs')" by blast
  have e: "erases (unat pa) (filter_list st) a c \<longleftrightarrow>
      c \<in> set (map erase_byte (filter (\<lambda>fi. unat (fi_paddr fi) \<le> a \<and> a < fi_end fi) (filter_list st)))" for a c
    using assms(4) by (auto simp: erases_def word_le_nat_alt)
  have ex: "(\<exists>c. c \<in> set (map erase_byte xs)) = (xs \<noteq> [])" for xs by (cases xs) auto
  show ?thesis using 1 unfolding page_erased_def e ex Let_def by (intro exI [of _ bufs'] exI [of _ st']) (auto split: if_splits)
qed


section \<open>The list of ranges\<close>

definition fi_sorted :: "filter_info list \<Rightarrow> bool" where
  "fi_sorted l \<longleftrightarrow> sorted_wrt (<) (map fi_paddr l)"

lemma insert_paddrs: "set (map fi_paddr (snd (insert_filter_info n l))) = insert (fi_paddr n) (set (map fi_paddr l))"
  by (induction l) (auto split: prod.splits)

lemma insert_sorted_list: "fi_sorted l \<Longrightarrow> fi_sorted (snd (insert_filter_info n l))"
proof (induction l)
  case (Cons p ps)
  have IH: "fi_sorted (snd (insert_filter_info n ps))" using Cons by (simp add: fi_sorted_def)
  show ?case
  proof (cases "fi_paddr n \<le> fi_paddr p")
    case True
    with Cons.prems show ?thesis by (auto simp: fi_sorted_def)
  next
    case False
    have "\<forall>a\<in>set (map fi_paddr (snd (insert_filter_info n ps))). fi_paddr p < a"
      unfolding insert_paddrs using False Cons.prems by (auto simp: fi_sorted_def)
    with False IH show ?thesis by (auto simp: fi_sorted_def split: prod.splits)
  qed
qed (simp add: fi_sorted_def)

definition covered :: "filter_info list \<Rightarrow> nat set" where
  "covered l = (\<Union>fi\<in>set l. {unat (fi_paddr fi) ..< fi_end fi})"

lemma sint_less_unat:
  fixes x y :: u64
  assumes "unat x < 2 ^ 63" "unat y < 2 ^ 63"
  shows "sint x < sint y \<longleftrightarrow> unat x < unat y"
  unfolding sint_u64_nat [OF assms(1)] sint_u64_nat [OF assms(2)] of_nat_less_iff ..

lemma insert_covered:
  assumes "unat (fi_size n) < 2 ^ 63" "\<forall>fi\<in>set l. unat (fi_size fi) < 2 ^ 63"
  shows "covered (snd (insert_filter_info n l)) = {unat (fi_paddr n) ..< fi_end n} \<union> covered l"
  using assms(2)
proof (induction l)
  case (Cons p ps)
  have s: "sint (fi_size p) < sint (fi_size n) \<longleftrightarrow> unat (fi_size p) < unat (fi_size n)"
    using assms(1) Cons.prems by (intro sint_less_unat) auto
  have c: "covered (q # qs) = {unat (fi_paddr q) ..< fi_end q} \<union> covered qs" for q qs by (simp add: covered_def)
  show ?case
  proof (cases "fi_paddr n \<le> fi_paddr p")
    case True
    then show ?thesis using s by (auto simp: c fi_end_def)
  next
    case False
    with Cons show ?thesis by (auto simp: c split: prod.splits)
  qed
qed (simp add: covered_def)

text \<open>
  C29. \<^verbatim>\<open>insert_filter_info\<close> keeps the list sorted by strictly ascending addresses, and the list holds exactly the
  addresses it held and those of the new range.
\<close>

theorem insert_filter_info_union:
  assumes "fi_sorted l" "unat (fi_size n) < 2 ^ 63" "\<forall>fi\<in>set l. unat (fi_size fi) < 2 ^ 63"
  shows "fi_sorted (snd (insert_filter_info n l)) \<and>
     covered (snd (insert_filter_info n l)) = {unat (fi_paddr n) ..< fi_end n} \<union> covered l"
  using insert_sorted_list [OF assms(1)] insert_covered [OF assms(2,3)] by simp

section \<open>The size of the account\<close>

definition account_size :: "erase_info list \<Rightarrow> filter_info list \<Rightarrow> nat" where
  "account_size t l = (\<Sum>fi\<leftarrow>l. 6 + length (ei_symbol_expr (t ! fi_erase_info_idx fi)) + 1 +
     length (if fi_nullify fi then nullify_text else size_text (fi_size fi)))"

lemma size_loop_ends:
  assumes "\<forall>fi\<in>set l. fi_erase_info_idx fi \<noteq> 0"
  shows "size_eraseinfo_loop t l acc = Some (acc + of_nat (account_size t l))"
  using assms
proof (induction l arbitrary: acc)
  case Nil
  then show ?case by (subst size_eraseinfo_loop.simps) (simp add: account_size_def)
next
  case (Cons fi l)
  then show ?case by (subst size_eraseinfo_loop.simps) (simp add: account_size_def algebra_simps)
qed

lemma size_loop_stuck:
  assumes "fi_erase_info_idx fi = 0"
  shows "size_eraseinfo_loop t (fi # l) acc = None"
proof -
  have "fi # l \<noteq> fi # l" if "size_eraseinfo_loop t (fi # l) acc = Some x" for x
    by (rule size_eraseinfo_loop.raw_induct [OF _ that, of "\<lambda>t k acc x. k \<noteq> fi # l"])
      (use assms in \<open>auto split: option.splits if_splits\<close>)
  then show ?thesis by (cases "size_eraseinfo_loop t (fi # l) acc") auto
qed

lemma size_loop_iff: "size_eraseinfo_loop t l acc \<noteq> None \<longleftrightarrow> (\<forall>fi\<in>set l. fi_erase_info_idx fi \<noteq> 0)"
proof (induction l arbitrary: acc)
  case Nil
  then show ?case by (subst size_eraseinfo_loop.simps) simp
next
  case (Cons fi l)
  show ?case
  proof (cases "fi_erase_info_idx fi = 0")
    case True
    then show ?thesis by (simp add: size_loop_stuck)
  next
    case False
    with Cons show ?thesis by (subst size_eraseinfo_loop.simps) simp
  qed
qed

text \<open>
  C38. \<^verbatim>\<open>get_size_eraseinfo\<close> returns exactly when every range belongs to an erase command; a range that
  \<^verbatim>\<open>update_filter_info_raw\<close> has added belongs to none, and the loop does not end.
\<close>

theorem get_size_eraseinfo_returns:
  "get_size_eraseinfo st \<noteq> None \<longleftrightarrow> (\<forall>fi\<in>set (filter_list st). fi_erase_info_idx fi \<noteq> 0)"
  by (cases "erase_tbl st") (simp_all only: get_size_eraseinfo_def option.case size_loop_iff)

section \<open>A small example\<close>

definition sample_range :: filter_info where
  "sample_range = \<lparr>fi_vaddr = 0, fi_paddr = 10, fi_size = 4, fi_erase_info_idx = 0, fi_size_idx = 0, fi_erase_ch = 88, fi_nullify = False\<rparr>"

definition sample_erase :: erase_state where
  "sample_erase = \<lparr>filter_list = [sample_range], erase_tbl = None, allocs = []\<rparr>"

lemma sample_erase_sel: "filter_list sample_erase = [sample_range]" "fi_paddr sample_range = 10" "fi_end sample_range = 14" "erase_byte sample_range = 88"
  by (simp_all add: sample_erase_def sample_range_def fi_end_def erase_byte_def)

lemma sample_erase_ok: "erase_ok sample_erase"
  by (simp add: erase_ok_def sample_erase_def sample_range_def fi_end_def index_ok_def slot_ok_def)

theorem erase_pages_exact_witness:
  "\<exists>bufs' st'. erase_pages 4 8 [[1, 2, 3, 4], [5, 6, 7, 8]] sample_erase = Some (bufs', st') \<and>
     concat bufs' ! 1 = 2 \<and> concat bufs' ! 2 = 88 \<and> concat bufs' ! 5 = 88 \<and> concat bufs' ! 6 = 7"
proof -
  let ?bs = "[[1, 2, 3, 4], [5, 6, 7, 8]] :: u8 list list"
  have "\<exists>bufs' st'. erase_pages 4 8 ?bs sample_erase = Some (bufs', st') \<and> length (concat bufs') = length (concat ?bs) \<and>
     (\<forall>i<length (concat ?bs).
       let ranges = filter (\<lambda>fi. unat (fi_paddr fi) \<le> unat (8 :: u64) + i \<and> unat (8 :: u64) + i < fi_end fi) (filter_list sample_erase) in
       if ranges = [] then concat bufs' ! i = concat ?bs ! i else concat bufs' ! i \<in> set (map erase_byte ranges))"
    by (rule erase_pages_exact [OF sample_erase_ok]) (simp_all add: sample_erase_sel)
  then obtain bufs' st' where 1: "erase_pages 4 8 ?bs sample_erase = Some (bufs', st')" and
    i: "\<And>i. i < 8 \<Longrightarrow> let ranges = filter (\<lambda>fi. unat (fi_paddr fi) \<le> 8 + i \<and> 8 + i < fi_end fi) [sample_range] in
       if ranges = [] then concat bufs' ! i = concat ?bs ! i else concat bufs' ! i \<in> set (map erase_byte ranges)"
    unfolding sample_erase_sel(1) by auto
  from 1 i [of 1] i [of 2] i [of 5] i [of 6] show ?thesis by (simp add: sample_erase_sel)
qed


theorem insert_filter_info_union_witness:
  "fi_sorted (snd (insert_filter_info (sample_range\<lparr>fi_paddr := 2\<rparr>) [sample_range])) \<and>
   covered (snd (insert_filter_info (sample_range\<lparr>fi_paddr := 2\<rparr>) [sample_range])) = {2 ..< 6} \<union> {10 ..< 14}"
proof -
  have "fi_end (sample_range\<lparr>fi_paddr := 2\<rparr>) = 6" "covered [sample_range] = {10 ..< 14}"
    by (simp_all add: fi_end_def sample_range_def covered_def)
  with insert_filter_info_union [of "[sample_range]" "sample_range\<lparr>fi_paddr := 2\<rparr>"] show ?thesis
    by (simp add: fi_sorted_def sample_range_def)
qed

theorem get_size_eraseinfo_returns_witness:
  "get_size_eraseinfo sample_erase = None \<and>
   get_size_eraseinfo (sample_erase\<lparr>filter_list := [sample_range\<lparr>fi_erase_info_idx := 1\<rparr>]\<rparr>) \<noteq> None"
  using get_size_eraseinfo_returns [of sample_erase]
    get_size_eraseinfo_returns [of "sample_erase\<lparr>filter_list := [sample_range\<lparr>fi_erase_info_idx := 1\<rparr>]\<rparr>"]
  by (simp add: sample_erase_def sample_range_def)

end
