(* ===== verification/Kdump_Read.thy ===== *)
theory Kdump_Read
  imports Bitmap_Create Bytes
begin

text \<open>
  Reading the pages of a kdump-compressed file (\<^verbatim>\<open>src/makedumpfile.c\<close>, \<^verbatim>\<open>src/diskdump_mod.h\<close>): the index from page frames to
  page descriptors, the descriptors, and the page data. The libraries that compress and decompress
  are arguments.
\<close>

section \<open>Data\<close>

text \<open>The members of \<^verbatim>\<open>struct disk_dump_header\<close> and \<^verbatim>\<open>struct kdump_sub_header\<close> that locate things in the file.\<close>

record kdump_header =
  kd_header_version :: u32
  kd_block_size :: u32
  kd_sub_hdr_size :: u32
  kd_bitmap_blocks :: u32
  kd_max_mapnr :: u32
  kd_max_mapnr_64 :: u64

text \<open>\<^verbatim>\<open>struct page_desc\<close>, and its 24 bytes in the file.\<close>

record page_desc =
  pd_offset :: u64
  pd_size :: u32
  pd_flags :: u32
  pd_page_flags :: u64

definition pd_bytes :: "page_desc \<Rightarrow> u8 list" where
  "pd_bytes pd = le_bytes 8 (unat (pd_offset pd)) @ le_bytes 4 (unat (pd_size pd)) @ le_bytes 4 (unat (pd_flags pd)) @
     le_bytes 8 (unat (pd_page_flags pd))"

definition pd_of_bytes :: "u8 list \<Rightarrow> page_desc" where
  "pd_of_bytes bs = \<lparr>pd_offset = get64 bs 0, pd_size = get32 bs 8, pd_flags = get32 bs 12, pd_page_flags = get64 bs 16\<rparr>"

definition sizeof_page_desc :: nat where "sizeof_page_desc = 24"

definition DUMP_DH_COMPRESSED_ZLIB :: u32 where "DUMP_DH_COMPRESSED_ZLIB = 0x1"
definition DUMP_DH_COMPRESSED_LZO :: u32 where "DUMP_DH_COMPRESSED_LZO = 0x2"
definition DUMP_DH_COMPRESSED_SNAPPY :: u32 where "DUMP_DH_COMPRESSED_SNAPPY = 0x4"
definition DUMP_DH_COMPRESSED_ZSTD :: u32 where "DUMP_DH_COMPRESSED_ZSTD = 0x20"

lemmas compression_flags = DUMP_DH_COMPRESSED_ZLIB_def DUMP_DH_COMPRESSED_LZO_def DUMP_DH_COMPRESSED_SNAPPY_def DUMP_DH_COMPRESSED_ZSTD_def

text \<open>
  The libraries. A decompressor gets the room for its output and returns the bytes, \<open>None\<close> on an error;
  for snappy the length comes from the data. \<open>use_lzo\<close>, \<open>use_snappy\<close> and \<open>use_zstd\<close> are the
  options of the build.
\<close>

record decoder =
  use_lzo :: bool
  use_snappy :: bool
  use_zstd :: bool
  flag_lzo_support :: bool
  zlib_uncompress :: "u8 list \<Rightarrow> nat \<Rightarrow> u8 list option"
  lzo_decompress :: "u8 list \<Rightarrow> nat \<Rightarrow> u8 list option"
  snappy_uncompress :: "u8 list \<Rightarrow> u8 list option"
  zstd_decompress :: "u8 list \<Rightarrow> nat \<Rightarrow> u8 list option"

section \<open>From a page frame to its descriptor\<close>

definition BITMAP_SECT_LEN :: nat where "BITMAP_SECT_LEN = 4096"

text \<open>The dumpable frames among the \<open>n\<close> frames from \<open>pfn\<close> on are added to \<open>acc\<close>.\<close>

fun count_frames :: "fstate \<Rightarrow> nat \<Rightarrow> u64 \<Rightarrow> dump_bitmap \<Rightarrow> u64 \<Rightarrow> u64 \<times> dump_bitmap" where
  "count_frames f 0 pfn bm acc = (acc, bm)"
| "count_frames f (Suc n) pfn bm acc =
     (let (d, bm') = is_dumpable bm f pfn None in count_frames f n (pfn + 1) bm' (if d then acc + 1 else acc))"

text \<open>\<^verbatim>\<open>initialize_bitmap_memory\<close>: the bitmap in the file and the number of dumpable frames before every section of it.\<close>

definition kd_bitmap_memory :: "kdump_header \<Rightarrow> int \<Rightarrow> dump_bitmap" where
  "kd_bitmap_memory dh fd_memory =
     \<lparr>fd = fd_memory, no_block = -1, buf = replicate BUFSIZE_BITMAP 0,
      offset = unat ((1 + scast (kd_sub_hdr_size dh)) * scast (kd_block_size dh) +
        scast (kd_block_size dh) * ucast (kd_bitmap_blocks dh) div 2 :: u64)\<rparr>"

definition kd_max_sect_len :: "kdump_header \<Rightarrow> u64" where
  "kd_max_sect_len dh = (if sint (kd_header_version dh) \<ge> 6 then divideup (kd_max_mapnr_64 dh) (of_nat BITMAP_SECT_LEN)
     else ucast ((kd_max_mapnr dh + (of_nat BITMAP_SECT_LEN - 1)) div of_nat BITMAP_SECT_LEN))"

fun valid_pages_loop :: "fstate \<Rightarrow> nat \<Rightarrow> u64 \<Rightarrow> dump_bitmap \<Rightarrow> u64 \<Rightarrow> u64 list \<times> dump_bitmap" where
  "valid_pages_loop f 0 pfn bm prev = ([], bm)"
| "valid_pages_loop f (Suc k) pfn bm prev =
     (let (v, bm') = count_frames f BITMAP_SECT_LEN pfn bm prev;
          (vs, bm'') = valid_pages_loop f k (pfn + of_nat BITMAP_SECT_LEN) bm' v in (v # vs, bm''))"

definition initialize_bitmap_memory :: "kdump_header \<Rightarrow> int \<Rightarrow> fstate \<Rightarrow> u64 list \<times> dump_bitmap" where
  "initialize_bitmap_memory dh fd_memory f =
     (let n = unat (kd_max_sect_len dh) in
      if n = 0 then ([], kd_bitmap_memory dh fd_memory)
      else (let (vs, bm) = valid_pages_loop f (n - 1) 0 (kd_bitmap_memory dh fd_memory) 0 in (0 # vs, bm)))"

text \<open>\<open>None\<close>: the index is outside \<^verbatim>\<open>info->valid_pages\<close>.\<close>

definition pfn_to_pos :: "u64 list \<Rightarrow> fstate \<Rightarrow> u64 \<Rightarrow> dump_bitmap \<Rightarrow> (u64 \<times> dump_bitmap) option" where
  "pfn_to_pos vp f pfn bm =
     (let i = unat (pfn div of_nat BITMAP_SECT_LEN) in
      if \<not> i < length vp then None
      else (let start = round_c pfn (of_nat BITMAP_SECT_LEN) in Some (count_frames f (unat pfn - unat start) start bm (vp ! i))))"

section \<open>Descriptors and pages\<close>

text \<open>What the reader has: header, index, file and libraries.\<close>

record kdump_in = page_info +
  ki_header :: kdump_header
  ki_valid_pages :: "u64 list"
  ki_file :: fstate
  ki_decoder :: decoder

definition kd_desc_offset :: "kdump_header \<Rightarrow> u64" where
  "kd_desc_offset dh = (1 + scast (kd_sub_hdr_size dh) + ucast (kd_bitmap_blocks dh)) * scast (kd_block_size dh)"

definition read_page_desc :: "kdump_in \<Rightarrow> u64 \<Rightarrow> dump_bitmap \<Rightarrow> page_desc outcome \<times> dump_bitmap" where
  "read_page_desc ki pa bm =
     (case pfn_to_pos (ki_valid_pages ki) (ki_file ki) (paddr_to_pfn ki pa) bm of None \<Rightarrow> (Undefined, bm)
      | Some (desc_pos, bm') \<Rightarrow>
          (let off = kd_desc_offset (ki_header ki) + desc_pos * of_nat sizeof_page_desc in
           if sint off < 0 then (Failed, bm')
           else (case pread (ki_file ki) (unat off) sizeof_page_desc of None \<Rightarrow> (Failed, bm')
             | Some bs \<Rightarrow> if pd_size (pd_of_bytes bs) > kd_block_size (ki_header ki) then (Failed, bm')
                 else (Done (pd_of_bytes bs), bm'))))"

text \<open>
  The page from the bytes \<open>bs\<close> in the file; an uncompressed page may be shorter than the buffer \<open>old\<close>. The
  output of snappy is not bounded by the buffer.
\<close>

definition kd_decode :: "decoder \<Rightarrow> nat \<Rightarrow> u32 \<Rightarrow> u8 list \<Rightarrow> u8 list \<Rightarrow> u8 list outcome" where
  "kd_decode d psize flags bs old =
     (let exact = (\<lambda>r. case r of Some p \<Rightarrow> if length p = psize then Done p else Failed | None \<Rightarrow> Failed) in
      if flags AND DUMP_DH_COMPRESSED_ZLIB \<noteq> 0 then exact (zlib_uncompress d bs psize)
      else if flags AND DUMP_DH_COMPRESSED_LZO \<noteq> 0
      then (if use_lzo d \<and> flag_lzo_support d then exact (lzo_decompress d bs psize) else Failed)
      else if flags AND DUMP_DH_COMPRESSED_SNAPPY \<noteq> 0
      then (if \<not> use_snappy d then Failed
            else (case snappy_uncompress d bs of Some p \<Rightarrow> if length p > psize then Undefined else exact (Some p) | None \<Rightarrow> Failed))
      else if flags AND DUMP_DH_COMPRESSED_ZSTD \<noteq> 0
      then (if use_zstd d then exact (zstd_decompress d bs psize) else Failed)
      else Done (splice old 0 bs))"

definition readpage_kdump_compressed :: "kdump_in \<Rightarrow> u64 \<Rightarrow> u8 list \<Rightarrow> dump_bitmap \<Rightarrow> u8 list outcome \<times> dump_bitmap" where
  "readpage_kdump_compressed ki pa old bm =
     (case is_dumpable bm (ki_file ki) (paddr_to_pfn ki pa) None of
        (False, bm1) \<Rightarrow> (Failed, bm1)
      | (True, bm1) \<Rightarrow>
          (case read_page_desc ki pa bm1 of
             (Done pd, bm2) \<Rightarrow>
               if sint (pd_offset pd) < 0 then (Failed, bm2)
               else if unat (page_size ki) < unat (pd_size pd) then (Undefined, bm2)
               else (case pread (ki_file ki) (unat (pd_offset pd)) (unat (pd_size pd)) of None \<Rightarrow> (Failed, bm2)
                 | Some bs \<Rightarrow> (kd_decode (ki_decoder ki) (unat (page_size ki)) (pd_flags pd) bs old, bm2))
           | (Failed, bm2) \<Rightarrow> (Failed, bm2)
           | (Undefined, bm2) \<Rightarrow> (Undefined, bm2)))"

text \<open>The threads have a bitmap buffer and a descriptor of their own; the code is otherwise the same.\<close>

definition initialize_bitmap_memory_parallel :: "dump_bitmap \<Rightarrow> int \<Rightarrow> dump_bitmap \<Rightarrow> dump_bitmap" where
  "initialize_bitmap_memory_parallel bitmap_memory fd_parallel bm =
     bm\<lparr>fd := fd_parallel, no_block := -1, buf := replicate BUFSIZE_BITMAP 0 @ drop BUFSIZE_BITMAP (buf bm), offset := offset bitmap_memory\<rparr>"

definition pfn_to_pos_parallel :: "u64 list \<Rightarrow> fstate \<Rightarrow> u64 \<Rightarrow> dump_bitmap \<Rightarrow> (u64 \<times> dump_bitmap) option" where
  "pfn_to_pos_parallel vp f pfn bitmap_memory_parallel = pfn_to_pos vp f pfn bitmap_memory_parallel"

definition read_page_desc_parallel :: "kdump_in \<Rightarrow> fstate \<Rightarrow> u64 \<Rightarrow> dump_bitmap \<Rightarrow> page_desc outcome \<times> dump_bitmap" where
  "read_page_desc_parallel ki fd_memory pa bitmap_memory_parallel =
     read_page_desc (ki\<lparr>ki_file := fd_memory\<rparr>) pa bitmap_memory_parallel"

definition readpage_kdump_compressed_parallel ::
  "kdump_in \<Rightarrow> fstate \<Rightarrow> u64 \<Rightarrow> u8 list \<Rightarrow> dump_bitmap \<Rightarrow> u8 list outcome \<times> dump_bitmap" where
  "readpage_kdump_compressed_parallel ki fd_memory pa old bitmap_memory_parallel =
     readpage_kdump_compressed (ki\<lparr>ki_file := fd_memory\<rparr>) pa old bitmap_memory_parallel"

section \<open>The index counts the frames\<close>

text \<open>The bit of a frame in the bitmap at \<open>off\<close> in the file, and the state of the buffer for it.\<close>

definition fbit :: "fstate \<Rightarrow> nat \<Rightarrow> nat \<Rightarrow> bool" where
  "fbit f off i = bit (content f ! (off + i div 8)) (i mod 8)"

definition reads_bits :: "nat \<Rightarrow> nat \<Rightarrow> fstate \<Rightarrow> dump_bitmap \<Rightarrow> bool" where
  "reads_bits n off f bm \<longleftrightarrow> bm_wf n bm f \<and> bm_clean bm f \<and> offset bm = off"

definition dumped :: "fstate \<Rightarrow> nat \<Rightarrow> nat \<Rightarrow> nat \<Rightarrow> nat" where
  "dumped f off a b = length (filter (fbit f off) [a ..< b])"

lemma reads_bits_query:
  assumes "reads_bits n off f bm" "unat pfn < 32768 * n"
  shows "\<exists>bm'. is_dumpable bm f pfn None = (fbit f off (unat pfn), bm') \<and> reads_bits n off f bm'"
proof -
  have bm: "bm_wf n bm f" "bm_clean bm f" "offset bm = off" using assms(1) by (simp_all add: reads_bits_def)
  have "bm_bit bm f (unat pfn) = fbit f off (unat pfn)"
    using bm(2,3) by (auto simp: bm_bit_def bm_byte_def fbit_def bm_clean_def)
  moreover have "0 \<le> fd bm" using bm(1) by (simp add: bm_wf_def)
  ultimately show ?thesis using is_dumpable_file_correct [OF bm(1,2) assms(2)] bm(3)
    by (auto simp: is_dumpable_def reads_bits_def)
qed

lemma dumped_Suc: "a < b \<Longrightarrow> dumped f off a b = (if fbit f off a then 1 else 0) + dumped f off (Suc a) b"
  unfolding dumped_def by (subst upt_conv_Cons) simp_all

lemma dumped_add: "a \<le> b \<Longrightarrow> b \<le> c \<Longrightarrow> dumped f off a b + dumped f off b c = dumped f off a c"
  unfolding dumped_def by (subst upt_append [of a b c, symmetric]) simp_all

lemma reads_bits_range: "reads_bits n off f bm \<Longrightarrow> 32768 * n \<le> 2 ^ 34"
  by (simp add: reads_bits_def bm_wf_def)

lemma count_frames_dumped:
  assumes "reads_bits n off f bm" "unat pfn + m \<le> 32768 * n"
  shows "\<exists>bm'. count_frames f m pfn bm acc = (acc + of_nat (dumped f off (unat pfn) (unat pfn + m)), bm') \<and> reads_bits n off f bm'"
  using assms
proof (induction m arbitrary: pfn bm acc)
  case 0
  then show ?case by (simp add: dumped_def)
next
  case (Suc m)
  then have lt: "unat pfn < 32768 * n" by simp
  from reads_bits_query [OF Suc.prems(1) this] obtain bm1 where
    1: "is_dumpable bm f pfn None = (fbit f off (unat pfn), bm1)" "reads_bits n off f bm1" by blast
  have u: "unat (pfn + 1) = Suc (unat pfn)"
    using unat_plus64 [of pfn 1] lt reads_bits_range [OF Suc.prems(1)] by simp
  from Suc.IH [OF 1(2), of "pfn + 1" "if fbit f off (unat pfn) then acc + 1 else acc"] Suc.prems(2) u obtain bm' where
    2: "count_frames f m (pfn + 1) bm1 (if fbit f off (unat pfn) then acc + 1 else acc) =
      ((if fbit f off (unat pfn) then acc + 1 else acc) + of_nat (dumped f off (Suc (unat pfn)) (Suc (unat pfn) + m)), bm')" "reads_bits n off f bm'"
    by auto
  with 1 dumped_Suc [of "unat pfn" "Suc (unat pfn) + m" f off] show ?case by (auto simp: algebra_simps)
qed

lemma valid_pages_loop_dumped:
  assumes "reads_bits n off f bm" "unat pfn + 4096 * k \<le> 32768 * n"
  shows "\<exists>bm' vs. valid_pages_loop f k pfn bm (of_nat (dumped f off 0 (unat pfn))) = (vs, bm') \<and> reads_bits n off f bm' \<and>
     length vs = k \<and> (\<forall>i<k. vs ! i = of_nat (dumped f off 0 (unat pfn + 4096 * Suc i)))"
  using assms
proof (induction k arbitrary: pfn bm)
  case (Suc k)
  let ?d = "dumped f off"
  from count_frames_dumped [OF Suc.prems(1), of pfn 4096 "of_nat (?d 0 (unat pfn))"] Suc.prems(2) obtain bm1 where
    1: "count_frames f 4096 pfn bm (of_nat (?d 0 (unat pfn))) = (of_nat (?d 0 (unat pfn) + ?d (unat pfn) (unat pfn + 4096)), bm1)"
    "reads_bits n off f bm1" by auto
  have s: "?d 0 (unat pfn) + ?d (unat pfn) (unat pfn + 4096) = ?d 0 (unat pfn + 4096)" by (rule dumped_add) simp_all
  have u: "unat (pfn + 4096) = unat pfn + 4096"
    using unat_plus64 [of pfn 4096] Suc.prems(2) reads_bits_range [OF Suc.prems(1)] by simp
  from Suc.IH [OF 1(2), of "pfn + 4096"] Suc.prems(2) u obtain bm2 vs where
    2: "valid_pages_loop f k (pfn + 4096) bm1 (of_nat (?d 0 (unat pfn + 4096))) = (vs, bm2)" "reads_bits n off f bm2"
    "length vs = k" "\<forall>i<k. vs ! i = of_nat (?d 0 (unat pfn + 4096 + 4096 * Suc i))" by auto
  have "valid_pages_loop f (Suc k) pfn bm (of_nat (?d 0 (unat pfn))) = (of_nat (?d 0 (unat pfn + 4096)) # vs, bm2)"
    using 1(1) 2(1) unfolding s by (simp add: BITMAP_SECT_LEN_def)
  moreover have "(of_nat (?d 0 (unat pfn + 4096)) # vs) ! i = of_nat (?d 0 (unat pfn + 4096 * Suc i))" if "i < Suc k" for i
    using that 2(4) by (cases i) (simp_all add: algebra_simps)
  ultimately show ?case using 2(2,3) by auto
qed simp

text \<open>What the reader needs of the file: the whole bitmap is there, and it is as long as the header says.\<close>

definition kd_bitmap_ok :: "kdump_header \<Rightarrow> int \<Rightarrow> nat \<Rightarrow> fstate \<Rightarrow> bool" where
  "kd_bitmap_ok dh fd_memory n f \<longleftrightarrow> 0 \<le> fd_memory \<and> offset (kd_bitmap_memory dh fd_memory) + BUFSIZE_BITMAP * n \<le> length (content f) \<and>
     length (content f) \<le> capacity f \<and> n \<le> 2 ^ 19 \<and> 4096 * unat (kd_max_sect_len dh) \<le> 32768 * n"

lemma kd_bitmap_reads: "kd_bitmap_ok dh fd_memory n f \<Longrightarrow> reads_bits n (offset (kd_bitmap_memory dh fd_memory)) f (kd_bitmap_memory dh fd_memory)"
  by (auto simp: kd_bitmap_ok_def reads_bits_def bm_wf_def bm_clean_def kd_bitmap_memory_def)

lemma initialize_bitmap_memory_dumped:
  assumes "kd_bitmap_ok dh fd_memory n f"
  obtains vp bm where "initialize_bitmap_memory dh fd_memory f = (vp, bm)" "reads_bits n (offset (kd_bitmap_memory dh fd_memory)) f bm"
    "length vp = unat (kd_max_sect_len dh)"
    "\<forall>i<length vp. vp ! i = of_nat (dumped f (offset (kd_bitmap_memory dh fd_memory)) 0 (4096 * i))"
proof (cases "unat (kd_max_sect_len dh)")
  case 0
  with that kd_bitmap_reads [OF assms] show thesis by (simp add: initialize_bitmap_memory_def)
next
  case (Suc k)
  let ?o = "offset (kd_bitmap_memory dh fd_memory)" and ?b = "kd_bitmap_memory dh fd_memory"
  have "unat (0 :: u64) + 4096 * k \<le> 32768 * n" using assms Suc by (simp add: kd_bitmap_ok_def)
  from valid_pages_loop_dumped [OF kd_bitmap_reads [OF assms] this] obtain bm vs where
    1: "valid_pages_loop f k 0 ?b 0 = (vs, bm)" "reads_bits n ?o f bm" "length vs = k" "\<forall>i<k. vs ! i = of_nat (dumped f ?o 0 (4096 * Suc i))"
    by (auto simp: dumped_def [of _ _ 0 0])
  have "initialize_bitmap_memory dh fd_memory f = (0 # vs, bm)" using Suc 1(1) by (simp add: initialize_bitmap_memory_def)
  moreover have "(0 # vs) ! i = of_nat (dumped f ?o 0 (4096 * i))" if "i < length (0 # vs)" for i
    using that 1(3,4) by (cases i) (simp_all add: dumped_def [of _ _ 0 0])
  ultimately show thesis using that [of "0 # vs" bm] 1(2,3) Suc by simp
qed

lemma pfn_to_pos_dumped:
  assumes "reads_bits n off f bm" "\<forall>i<length vp. vp ! i = of_nat (dumped f off 0 (4096 * i))" "unat pfn < 4096 * length vp"
    "4096 * length vp \<le> 32768 * n"
  shows "\<exists>bm'. pfn_to_pos vp f pfn bm = Some (of_nat (dumped f off 0 (unat pfn)), bm') \<and> reads_bits n off f bm'"
proof -
  let ?i = "unat pfn div 4096"
  have i: "unat (pfn div of_nat BITMAP_SECT_LEN) = ?i" by (simp add: BITMAP_SECT_LEN_def unat_div64)
  have lt: "?i < length vp" using assms(3) by (intro less_mult_imp_div_less) simp
  have s: "unat (round_c pfn (of_nat BITMAP_SECT_LEN)) = 4096 * ?i" by (simp add: BITMAP_SECT_LEN_def unat_round_c)
  have p: "4096 * ?i + (unat pfn - 4096 * ?i) = unat pfn" by simp
  have "4096 * ?i + (unat pfn - 4096 * ?i) \<le> 32768 * n" unfolding p using assms(3,4) by linarith
  from count_frames_dumped [OF assms(1) this [folded s], of "vp ! ?i"] obtain bm' where
    1: "count_frames f (unat pfn - 4096 * ?i) (round_c pfn (of_nat BITMAP_SECT_LEN)) bm (vp ! ?i) =
      (vp ! ?i + of_nat (dumped f off (4096 * ?i) (unat pfn)), bm')" "reads_bits n off f bm'" unfolding s p by blast
  have "vp ! ?i + of_nat (dumped f off (4096 * ?i) (unat pfn)) = of_nat (dumped f off 0 (unat pfn))"
    using assms(2) lt dumped_add [of 0 "4096 * ?i" "unat pfn" f off] by (simp flip: of_nat_add)
  with 1 lt show ?thesis by (simp add: pfn_to_pos_def i s)
qed

text \<open>
  C25. The position \<^verbatim>\<open>pfn_to_pos\<close> computes with the index of \<^verbatim>\<open>initialize_bitmap_memory\<close> is the number of dumpable
  frames in front of the frame, for every frame the header allows and however often the bitmap buffer was
  refilled before.
\<close>

theorem pfn_to_pos_counts:
  assumes "kd_bitmap_ok dh fd_memory n f" "initialize_bitmap_memory dh fd_memory f = (vp, bm0)" "reads_bits n (offset bm0) f bm"
    "unat pfn < 4096 * unat (kd_max_sect_len dh)"
  shows "map_option fst (pfn_to_pos vp f pfn bm) =
     Some (of_nat (length (filter (fbit f (offset (kd_bitmap_memory dh fd_memory))) [0 ..< unat pfn])))"
proof -
  let ?o = "offset (kd_bitmap_memory dh fd_memory)"
  from initialize_bitmap_memory_dumped [OF assms(1)] obtain vp' bm' where
    1: "initialize_bitmap_memory dh fd_memory f = (vp', bm')" "reads_bits n ?o f bm'" "length vp' = unat (kd_max_sect_len dh)"
    "\<forall>i<length vp'. vp' ! i = of_nat (dumped f ?o 0 (4096 * i))" .
  then have e: "vp = vp'" "bm0 = bm'" using assms(2) by simp_all
  have "offset bm0 = ?o" using 1(2) e by (simp add: reads_bits_def)
  then have "reads_bits n ?o f bm" using assms(3) by simp
  moreover have "4096 * length vp' \<le> 32768 * n" using assms(1) 1(3) by (simp add: kd_bitmap_ok_def)
  ultimately show ?thesis using pfn_to_pos_dumped [of n ?o f bm vp' pfn] 1 assms(4) e by (auto simp: dumped_def)
qed

definition sample_header :: kdump_header where
  "sample_header = \<lparr>kd_header_version = 6, kd_block_size = 4096, kd_sub_hdr_size = 1, kd_bitmap_blocks = 2, kd_max_mapnr = 10, kd_max_mapnr_64 = 10\<rparr>"

lemma sample_header_layout:
  "offset (kd_bitmap_memory sample_header 0) = 12288" "kd_max_sect_len sample_header = 1" "kd_desc_offset sample_header = 16384"
  by (simp_all add: sample_header_def kd_bitmap_memory_def kd_max_sect_len_def kd_desc_offset_def divideup_def BITMAP_SECT_LEN_def)

lemma sample_header_index: "initialize_bitmap_memory sample_header fd_memory f = ([0], kd_bitmap_memory sample_header fd_memory)"
  by (simp add: initialize_bitmap_memory_def sample_header_layout)

theorem pfn_to_pos_counts_witness:
  "map_option fst (pfn_to_pos (fst (initialize_bitmap_memory sample_header 0 \<lparr>content = replicate 12288 0 @ 5 # replicate 4095 0, capacity = 20000\<rparr>))
     \<lparr>content = replicate 12288 0 @ 5 # replicate 4095 0, capacity = 20000\<rparr> 3 (kd_bitmap_memory sample_header 0)) = Some 2"
proof -
  let ?f = "\<lparr>content = replicate 12288 0 @ 5 # replicate 4095 0, capacity = 20000\<rparr> :: fstate"
  have ok: "kd_bitmap_ok sample_header 0 1 ?f"
    by (simp add: kd_bitmap_ok_def sample_header_layout BUFSIZE_BITMAP_def)
  have u: "[0 ..< 3 :: nat] = [0, 1, 2]" by (simp add: upt_conv_Cons)
  have b: "fbit ?f 12288 0" "\<not> fbit ?f 12288 (Suc 0)" "fbit ?f 12288 2" by (simp_all add: fbit_def nth_append)
  show ?thesis
    using pfn_to_pos_counts [OF ok sample_header_index, of "kd_bitmap_memory sample_header 0" 3] kd_bitmap_reads [OF ok]
    by (simp add: sample_header_index sample_header_layout u b del: upt_rec_numeral)
qed

end
