(* ===== verification/Kdump_Write.thy ===== *)
theory Kdump_Write
  imports Kdump_Read Page_Filter Writer Erase
begin

text \<open>
  Writing the pages and bitmaps of a kdump-compressed file (\<^verbatim>\<open>src/makedumpfile.c\<close>): page descriptors and page data go
  through two write-behind buffers to two places of the file. The compression libraries, the reading of the dumped
  memory and the filling of the bitmaps for a cycle are arguments; allocations succeed.
\<close>

section \<open>Data\<close>

text \<open>
  \<open>deflate\<close> gives its status and output for an input and the room in the output buffer; the other libraries
  give the output or \<open>None\<close>.
\<close>

record encoder =
  enc_lzo :: bool
  enc_snappy :: bool
  enc_zstd :: bool
  enc_lzo_support :: bool
  enc_flag_compress :: u32
  len_buf_out :: nat
  deflate :: "u8 list \<Rightarrow> nat \<Rightarrow> int \<times> u8 list"
  deflateReset :: int
  lzo1x_1_compress :: "u8 list \<Rightarrow> u8 list option"
  snappy_compress :: "u8 list \<Rightarrow> u8 list option"
  zstd_compress :: "u8 list \<Rightarrow> u8 list option"

record kdump_env = page_info +
  ke_cyclic :: cyclic_info
  ke_flag_cyclic :: bool
  ke_encoder :: encoder
  ke_dump_level :: u32
  ke_num_dumpable :: u64
  ke_split :: "(u64 \<times> u64) option"
  ke_header :: kdump_header
  ke_readmem :: "u64 \<Rightarrow> u8 list option"

record kdump_state =
  ks_bitmaps :: bitmaps
  ks_header :: cache_data
  ks_page :: cache_data
  ks_writer :: writer
  ks_erase :: erase_state
  ks_offset_data :: u64
  ks_offset_bitmap1 :: u64
  ks_num_dumped :: nat
  ks_pfn_zero :: nat

section \<open>Compressing a page\<close>

definition Z_OK :: int where "Z_OK = 0"
definition Z_STREAM_END :: int where "Z_STREAM_END = 1"
definition Z_BUF_ERROR :: int where "Z_BUF_ERROR = -5"

text \<open>Status and output; the output counts only with \<open>Z_OK\<close>.\<close>

definition compress_mdf :: "encoder \<Rightarrow> u8 list \<Rightarrow> nat \<Rightarrow> int \<times> u8 list" where
  "compress_mdf e source destLen =
     (if unat (of_nat destLen :: u32) \<noteq> destLen then (Z_BUF_ERROR, [])
      else (case deflate e source destLen of (err, dest) \<Rightarrow>
        if err \<noteq> Z_STREAM_END then (if err = Z_OK then Z_BUF_ERROR else err, dest)
        else (deflateReset e, dest)))"

definition compress_page :: "encoder \<Rightarrow> nat \<Rightarrow> u8 list \<Rightarrow> u32 \<times> u8 list" where
  "compress_page e psize pg =
     (let fits = (\<lambda>r. case r of Some z \<Rightarrow> length z < psize | None \<Rightarrow> False);
          zlib = (case compress_mdf e pg (len_buf_out e) of (err, z) \<Rightarrow> if err = Z_OK then Some z else None) in
      if enc_flag_compress e AND DUMP_DH_COMPRESSED_ZLIB \<noteq> 0 \<and> fits zlib
      then (DUMP_DH_COMPRESSED_ZLIB, the zlib)
      else if enc_lzo e \<and> enc_lzo_support e \<and> enc_flag_compress e AND DUMP_DH_COMPRESSED_LZO \<noteq> 0 \<and> fits (lzo1x_1_compress e pg)
      then (DUMP_DH_COMPRESSED_LZO, the (lzo1x_1_compress e pg))
      else if enc_snappy e \<and> enc_flag_compress e AND DUMP_DH_COMPRESSED_SNAPPY \<noteq> 0 \<and> fits (snappy_compress e pg)
      then (DUMP_DH_COMPRESSED_SNAPPY, the (snappy_compress e pg))
      else if enc_zstd e \<and> enc_flag_compress e AND DUMP_DH_COMPRESSED_ZSTD \<noteq> 0 \<and> zstd_compress e pg \<noteq> Some [] \<and> fits (zstd_compress e pg)
      then (DUMP_DH_COMPRESSED_ZSTD, the (zstd_compress e pg))
      else (0, pg))"

section \<open>Writing a page\<close>

definition write_cd_buf :: "cache_data \<Rightarrow> writer \<Rightarrow> (bool \<times> writer) option" where
  "write_cd_buf cd w = (if buf_size cd = 0 then Some (True, w) else write_buffer (cd_offset cd) (take (buf_size cd) (cd_buf cd)) w)"

text \<open>
  \<^verbatim>\<open>get_nr_pages\<close>: how many pages of the descriptors in the buffer are in the file, when the page data did not fit.
  The sizes are added in an \<^verbatim>\<open>int\<close>, and so is the end of the file; \<open>None\<close> when the loop leaves the buffer.
\<close>

function nr_pages_loop :: "u8 list \<Rightarrow> int \<Rightarrow> nat \<Rightarrow> int \<Rightarrow> nat option" where
  "nr_pages_loop b room n sz =
     (if \<not> sz \<le> room then Some n
      else if length b < sizeof_page_desc * (n + 2) then None
      else nr_pages_loop b room (n + 1) (sint (of_int sz + get32 b (sizeof_page_desc * (n + 1) + 8))))"
  by pat_completeness auto

termination nr_pages_loop
  by (relation "measure (\<lambda>(b, _, n, _). length b - n)") (auto simp: sizeof_page_desc_def)

declare nr_pages_loop.simps [simp del]

definition get_nr_pages :: "u8 list \<Rightarrow> cache_data \<Rightarrow> writer \<Rightarrow> (int \<times> writer) option" where
  "get_nr_pages b cdp w =
     (let file_end = to_int (of_nat (if flag_dry_run w then write_bytes w else length (out w)));
          w1 = (if flag_dry_run w then w else w\<lparr>pos := length (out w)\<rparr>) in
      if file_end < 0 then Some (-1, w1)
      else if length b < sizeof_page_desc then None
      else map_option (\<lambda>n. (int n, w1)) (nr_pages_loop b (file_end - sint (cd_offset cdp)) 0 (sint (get32 b 8))))"

definition memset0 :: "cache_data \<Rightarrow> cache_data" where
  "memset0 cd = cd\<lparr>cd_buf := replicate (cache_size cd) 0 @ drop (cache_size cd) (cd_buf cd)\<rparr>"

text \<open>The two buffers, and what is done when one of them cannot be written.\<close>

definition header_lost :: "cache_data \<Rightarrow> writer \<Rightarrow> (cache_data \<times> writer) option" where
  "header_lost cdh w = map_option (\<lambda>(_, w'). (memset0 cdh, w')) (write_cd_buf (memset0 cdh) w)"

definition data_lost :: "cache_data \<Rightarrow> cache_data \<Rightarrow> writer \<Rightarrow> (cache_data \<times> writer) option" where
  "data_lost cdh cdp w = (case get_nr_pages (cd_buf cdh) cdp w of None \<Rightarrow> None
     | Some (nr, w1) \<Rightarrow>
         (let written = int sizeof_page_desc * nr in
          if written < 0 then Some (cdh, w1)
          else if int (buf_size cdh) < written then None
          else (let cdh' = (memset0 cdh)\<lparr>cd_offset := cd_offset cdh + of_int written, buf_size := buf_size cdh - nat written\<rparr>
                in map_option (\<lambda>(_, w2). (cdh', w2)) (write_cd_buf cdh' w1))))"

text \<open>The results of the calls of \<^verbatim>\<open>write_cache\<close> are not checked.\<close>

definition cache_both :: "cache_data \<Rightarrow> cache_data \<Rightarrow> u8 list \<Rightarrow> u8 list \<Rightarrow> writer \<Rightarrow> (bool \<times> cache_data \<times> cache_data \<times> writer) option" where
  "cache_both cdh cdp pd data w = (case write_cache cdh pd w of None \<Rightarrow> None
     | Some (_, cdh', w1) \<Rightarrow> (case write_cache cdp data w1 of None \<Rightarrow> None
       | Some (_, cdp', w2) \<Rightarrow> Some (True, cdh', cdp', w2)))"

definition write_kdump_page ::
  "cache_data \<Rightarrow> cache_data \<Rightarrow> page_desc \<Rightarrow> u8 list \<Rightarrow> writer \<Rightarrow> (bool \<times> cache_data \<times> cache_data \<times> writer) option" where
  "write_kdump_page cdh cdp pd page_data w =
     (let data = take (unat (pd_size pd)) page_data in
      if buf_size cdh + sizeof_page_desc \<ge> cache_size cdh \<or> buf_size cdp + unat (pd_size pd) \<ge> cache_size cdp
      then (case write_cd_buf cdh w of None \<Rightarrow> None
        | Some (False, w1) \<Rightarrow> map_option (\<lambda>(cdh', w2). (False, cdh', cdp, w2)) (header_lost cdh w1)
        | Some (True, w1) \<Rightarrow>
            (case write_cd_buf cdp w1 of None \<Rightarrow> None
             | Some (False, w2) \<Rightarrow> map_option (\<lambda>(cdh', w3). (False, cdh', cdp, w3)) (data_lost cdh cdp w2)
             | Some (True, w2) \<Rightarrow>
                 cache_both (cdh\<lparr>cd_offset := cd_offset cdh + of_nat (buf_size cdh), buf_size := 0\<rparr>)
                   (cdp\<lparr>cd_offset := cd_offset cdp + of_nat (buf_size cdp), buf_size := 0\<rparr>) (pd_bytes pd) data w2))
      else cache_both cdh cdp (pd_bytes pd) data w)"

section \<open>The pages of a cycle\<close>

definition read_pfn :: "kdump_env \<Rightarrow> u64 \<Rightarrow> u8 list option" where
  "read_pfn env pfn = ke_readmem env (pfn_to_paddr env pfn)"

text \<open>A page that was read and filtered is written: the descriptor of the zero page, or a descriptor and the data.\<close>

definition dump_page :: "kdump_env \<Rightarrow> page_desc \<Rightarrow> u8 list \<Rightarrow> kdump_state \<Rightarrow> (bool \<times> kdump_state) option" where
  "dump_page env pd_zero b st =
     (if ke_dump_level env AND DL_EXCLUDE_ZERO \<noteq> 0 \<and> is_zero_page b (unat (page_size env))
      then (case write_cache (ks_header st) (pd_bytes pd_zero) (ks_writer st) of None \<Rightarrow> None
        | Some (False, cdh, w) \<Rightarrow> Some (False, st\<lparr>ks_header := cdh, ks_writer := w\<rparr>)
        | Some (True, cdh, w) \<Rightarrow> Some (True, st\<lparr>ks_header := cdh, ks_writer := w, ks_pfn_zero := ks_pfn_zero st + 1\<rparr>))
      else (case compress_page (ke_encoder env) (unat (page_size env)) b of (fl, data) \<Rightarrow>
        (let pd = \<lparr>pd_offset = ks_offset_data st, pd_size = of_nat (length data), pd_flags = fl, pd_page_flags = 0\<rparr> in
         case write_kdump_page (ks_header st) (ks_page st) pd data (ks_writer st) of None \<Rightarrow> None
         | Some (r, cdh, cdp, w) \<Rightarrow>
             Some (r, st\<lparr>ks_header := cdh, ks_page := cdp, ks_writer := w, ks_offset_data := ks_offset_data st + ucast (pd_size pd)\<rparr>))))"

definition write_frame :: "kdump_env \<Rightarrow> page_desc \<Rightarrow> cycle \<Rightarrow> u64 \<Rightarrow> kdump_state \<Rightarrow> (bool \<times> kdump_state) option" where
  "write_frame env pd_zero c pfn st =
     (case is_dumpable (bitmap2 (ks_bitmaps st)) (bmfile (ks_bitmaps st)) pfn (Some c) of (d, bm) \<Rightarrow>
        let st1 = st\<lparr>ks_bitmaps := (ks_bitmaps st)\<lparr>bitmap2 := bm\<rparr>\<rparr> in
        if \<not> d then Some (True, st1)
        else (let st2 = st1\<lparr>ks_num_dumped := ks_num_dumped st1 + 1\<rparr> in
          case read_pfn env pfn of None \<Rightarrow> Some (False, st2)
          | Some b \<Rightarrow> (case filter_data_buffer b (pfn_to_paddr env pfn) (page_size env) (ks_erase st2) of None \<Rightarrow> None
            | Some (b', er) \<Rightarrow> dump_page env pd_zero b' (st2\<lparr>ks_erase := er\<rparr>))))"

definition write_kdump_pages_cyclic :: "kdump_env \<Rightarrow> page_desc \<Rightarrow> cycle \<Rightarrow> kdump_state \<Rightarrow> (bool \<times> kdump_state) option" where
  "write_kdump_pages_cyclic env pd_zero c st =
     (if flag_elf_dumpfile (ke_cyclic env) then Some (False, st)
      else (let (a, b) = (case ke_split env of None \<Rightarrow> (start_pfn c, end_pfn c)
              | Some (s, e) \<Rightarrow> (if start_pfn c < s then s else start_pfn c, if end_pfn c > e then e else end_pfn c))
            in for_pfns a b (write_frame env pd_zero c) st))"

section \<open>The bitmaps\<close>

text \<open>\<^verbatim>\<open>write_kdump_bitmap_file\<close>: the bitmap in the temporary file is copied block by block.\<close>

function bitmap_file_loop :: "fstate \<Rightarrow> nat \<Rightarrow> u64 \<Rightarrow> int \<Rightarrow> writer \<Rightarrow> (bool \<times> writer) option" where
  "bitmap_file_loop f from to rest w =
     (if \<not> 0 < rest then Some (True, w)
      else (let n = (if int BUFSIZE_BITMAP \<le> rest then BUFSIZE_BITMAP else nat rest) in
        case pread f from n of None \<Rightarrow> Some (False, w)
        | Some b \<Rightarrow> (case write_buffer to b w of None \<Rightarrow> None
          | Some (False, w1) \<Rightarrow> Some (False, w1)
          | Some (True, w1) \<Rightarrow> bitmap_file_loop f (from + n) (to + of_nat n) (rest - int BUFSIZE_BITMAP) w1)))"
  by pat_completeness auto

termination bitmap_file_loop
  by (relation "measure (\<lambda>(_, _, _, rest, _). nat rest)") (auto simp: BUFSIZE_BITMAP_def)

declare bitmap_file_loop.simps [simp del]

definition write_kdump_bitmap_file :: "kdump_env \<Rightarrow> dump_bitmap \<Rightarrow> kdump_state \<Rightarrow> (bool \<times> kdump_state) option" where
  "write_kdump_bitmap_file env bm st =
     (if flag_elf_dumpfile (ke_cyclic env) then Some (False, st)
      else map_option (\<lambda>(r, w). (r, st\<lparr>ks_writer := w\<rparr>))
        (bitmap_file_loop (bmfile (ks_bitmaps st)) (offset bm) (ks_offset_bitmap1 st + of_nat (offset bm)) (int (len_bitmap env div 2)) (ks_writer st)))"

definition bitmap_increment :: "cycle \<Rightarrow> nat" where
  "bitmap_increment c = unat (divideup (end_pfn c - start_pfn c) BITPERBYTE)"

text \<open>\<open>None\<close>: more bytes than the buffer has.\<close>

definition write_kdump_bitmap1_buffer :: "kdump_env \<Rightarrow> cycle \<Rightarrow> kdump_state \<Rightarrow> (bool \<times> kdump_state) option" where
  "write_kdump_bitmap1_buffer env c st =
     (let n = bitmap_increment c; b = buf (bitmap1 (ks_bitmaps st)) in
      if flag_elf_dumpfile (ke_cyclic env) then Some (False, st)
      else if length b < n then None
      else map_option (\<lambda>(r, w). (r, st\<lparr>ks_writer := w\<rparr>))
        (write_buffer (ks_offset_bitmap1 st + of_nat (bufsize_cyclic env) * (start_pfn c div pfn_cyclic (ke_cyclic env))) (take n b) (ks_writer st)))"

definition write_kdump_bitmap2_buffer :: "kdump_env \<Rightarrow> cycle \<Rightarrow> kdump_state \<Rightarrow> (bool \<times> kdump_state) option" where
  "write_kdump_bitmap2_buffer env c st =
     (let n = bitmap_increment c; b = buf (bitmap2 (ks_bitmaps st)) in
      if flag_elf_dumpfile (ke_cyclic env) then Some (False, st)
      else if length b < n then None
      else (case write_buffer (ks_offset_bitmap1 st + of_nat (len_bitmap env div 2)) (take n b) (ks_writer st) of None \<Rightarrow> None
        | Some (False, w) \<Rightarrow> Some (False, st\<lparr>ks_writer := w\<rparr>)
        | Some (True, w) \<Rightarrow> Some (True, st\<lparr>ks_writer := w, ks_offset_bitmap1 := ks_offset_bitmap1 st + of_nat n\<rparr>)))"

definition write_kdump_bitmap1 :: "kdump_env \<Rightarrow> cycle \<Rightarrow> kdump_state \<Rightarrow> (bool \<times> kdump_state) option" where
  "write_kdump_bitmap1 env c st =
     (if fd (bitmap1 (ks_bitmaps st)) \<ge> 0 then write_kdump_bitmap_file env (bitmap1 (ks_bitmaps st)) st else write_kdump_bitmap1_buffer env c st)"

definition write_kdump_bitmap2 :: "kdump_env \<Rightarrow> cycle \<Rightarrow> kdump_state \<Rightarrow> (bool \<times> kdump_state) option" where
  "write_kdump_bitmap2 env c st =
     (if fd (bitmap2 (ks_bitmaps st)) \<ge> 0 then write_kdump_bitmap_file env (bitmap2 (ks_bitmaps st)) st else write_kdump_bitmap2_buffer env c st)"

section \<open>The whole dump\<close>

text \<open>
  A loop body over cycles that stops at the first failure. \<open>mk\<close> is \<^verbatim>\<open>create_1st_bitmap\<close> or \<^verbatim>\<open>create_2nd_bitmap\<close>,
  called in cyclic mode only.
\<close>

type_synonym fill_bitmap = "cycle \<Rightarrow> bitmaps \<Rightarrow> (bool \<times> cycle \<times> bitmaps) option"

definition cycle_step ::
  "kdump_env \<Rightarrow> fill_bitmap \<Rightarrow> (cycle \<Rightarrow> kdump_state \<Rightarrow> (bool \<times> kdump_state) option) \<Rightarrow> cycle \<Rightarrow> (bool \<times> kdump_state) option \<Rightarrow>
   cycle \<times> (bool \<times> kdump_state) option" where
  "cycle_step env mk body c r = (case r of
     Some (True, st) \<Rightarrow>
       if ke_flag_cyclic env
       then (case mk c (ks_bitmaps st) of None \<Rightarrow> (c, None)
         | Some (False, c', b) \<Rightarrow> (c', Some (False, st\<lparr>ks_bitmaps := b\<rparr>))
         | Some (True, c', b) \<Rightarrow> (c', body c' (st\<lparr>ks_bitmaps := b\<rparr>)))
       else (c, body c st)
   | _ \<Rightarrow> (c, r))"

definition pages_step :: "kdump_env \<Rightarrow> page_desc \<Rightarrow> cycle \<Rightarrow> kdump_state \<Rightarrow> (bool \<times> kdump_state) option" where
  "pages_step env pd_zero c st = (case write_kdump_bitmap2 env c st of
     Some (True, st1) \<Rightarrow> write_kdump_pages_cyclic env pd_zero c st1 | r \<Rightarrow> r)"

definition pd_zero :: "kdump_env \<Rightarrow> u64 \<Rightarrow> page_desc" where
  "pd_zero env off = \<lparr>pd_offset = off, pd_size = ucast (page_size env), pd_flags = 0, pd_page_flags = 0\<rparr>"

text \<open>The offsets, and the data of the zero page.\<close>

definition start_data :: "kdump_env \<Rightarrow> kdump_state \<Rightarrow> (bool \<times> kdump_state) option" where
  "start_data env st =
     (let h = kd_desc_offset (ke_header env);
          d = h + of_nat sizeof_page_desc * ke_num_dumpable env;
          st1 = st\<lparr>ks_header := (ks_header st)\<lparr>cd_offset := h\<rparr>, ks_page := (ks_page st)\<lparr>cd_offset := d\<rparr>, ks_offset_data := d\<rparr> in
      if ke_dump_level env AND DL_EXCLUDE_ZERO \<noteq> 0
      then (case write_cache (ks_page st1) (replicate (unat (page_size env)) 0) (ks_writer st1) of None \<Rightarrow> None
        | Some (False, cd, w) \<Rightarrow> Some (False, st1\<lparr>ks_page := cd, ks_writer := w\<rparr>)
        | Some (True, cd, w) \<Rightarrow> Some (True, st1\<lparr>ks_page := cd, ks_writer := w, ks_offset_data := d + page_size env\<rparr>))
      else Some (True, st1))"

definition flush_both :: "kdump_state \<Rightarrow> (bool \<times> kdump_state) option" where
  "flush_both st = (case write_cache_bufsz (ks_page st) (ks_writer st) of None \<Rightarrow> None
     | Some (False, cd, w) \<Rightarrow> Some (False, st\<lparr>ks_page := cd, ks_writer := w\<rparr>)
     | Some (True, cd, w) \<Rightarrow> (case write_cache_bufsz (ks_header st) w of None \<Rightarrow> None
       | Some (r, cd', w') \<Rightarrow> Some (r, st\<lparr>ks_page := cd, ks_header := cd', ks_writer := w'\<rparr>)))"

definition and_then :: "(bool \<times> kdump_state) option \<Rightarrow> (kdump_state \<Rightarrow> (bool \<times> kdump_state) option) \<Rightarrow> (bool \<times> kdump_state) option" where
  "and_then r g = (case r of Some (True, st) \<Rightarrow> g st | _ \<Rightarrow> r)"

definition cycles :: "kdump_env \<Rightarrow> fill_bitmap \<Rightarrow> (cycle \<Rightarrow> kdump_state \<Rightarrow> (bool \<times> kdump_state) option) \<Rightarrow> kdump_state \<Rightarrow> (bool \<times> kdump_state) option" where
  "cycles env mk body st =
     (case for_each_cycle (ke_cyclic env) 0 (max_mapnr env) (cycle_step env mk body)
        \<lparr>start_pfn = 0, end_pfn = 0, exclude_pfn_start = 0, exclude_pfn_end = 0, exclude_pfn_counter = None\<rparr> (Some (True, st)) of
        None \<Rightarrow> None | Some (_, r) \<Rightarrow> r)"

text \<open>
  \<^verbatim>\<open>prepare_bitmap1_buffer\<close> and \<^verbatim>\<open>prepare_bitmap2_buffer\<close> allocate a bitmap; the second also computes \<^verbatim>\<open>info->len_bitmap\<close>
  (\<open>set_len_bitmap\<close>).
\<close>

definition new_bitmap :: dump_bitmap where
  "new_bitmap = \<lparr>fd = -1, no_block = -1, buf = [], offset = 0\<rparr>"

definition prepare_bitmap1_buffer :: "kdump_env \<Rightarrow> kdump_state \<Rightarrow> kdump_state" where
  "prepare_bitmap1_buffer env st =
     st\<lparr>ks_bitmaps := (ks_bitmaps st)\<lparr>bitmap1 := initialize_1st_bitmap (bitmap_info.truncate env) new_bitmap\<rparr>\<rparr>"

definition set_len_bitmap :: "kdump_env \<Rightarrow> kdump_env" where
  "set_len_bitmap env = env\<lparr>len_bitmap := unat (divideup (divideup (max_mapnr env) BITPERBYTE) (page_size env) * page_size env * 2)\<rparr>"

definition prepare_bitmap2_buffer :: "kdump_env \<Rightarrow> kdump_state \<Rightarrow> kdump_state" where
  "prepare_bitmap2_buffer env st =
     st\<lparr>ks_bitmaps := (ks_bitmaps st)\<lparr>bitmap2 := initialize_2nd_bitmap (bitmap_info.truncate env) new_bitmap\<rparr>\<rparr>"

definition write_kdump_pages_and_bitmap_cyclic ::
  "kdump_env \<Rightarrow> fill_bitmap \<Rightarrow> fill_bitmap \<Rightarrow> kdump_state \<Rightarrow> (bool \<times> kdump_state) option" where
  "write_kdump_pages_and_bitmap_cyclic env mk1 mk2 st =
     (let z = pd_zero env (kd_desc_offset (ke_header env) + of_nat sizeof_page_desc * ke_num_dumpable env) in
      and_then (start_data env st) (\<lambda>st1.
      and_then (cycles env mk1 (write_kdump_bitmap1 env)
        (if ke_flag_cyclic env then prepare_bitmap1_buffer env (st1\<lparr>ks_pfn_zero := 0\<rparr>) else st1)) (\<lambda>st2.
      and_then (let env2 = (if ke_flag_cyclic env then set_len_bitmap env else env) in
          cycles env2 mk2 (pages_step env2 z) (if ke_flag_cyclic env then prepare_bitmap2_buffer env2 st2 else st2))
        flush_both)))"

section \<open>Parts of a file\<close>

definition holds_at :: "u8 list \<Rightarrow> nat \<Rightarrow> u8 list \<Rightarrow> bool" where
  "holds_at c off bs \<longleftrightarrow> (\<forall>i<length bs. off + i < length c \<and> c ! (off + i) = bs ! i)"

lemma holds_at_Nil [simp]: "holds_at c off []"
  by (simp add: holds_at_def)

lemma holds_at_append: "holds_at c off (as @ bs) \<longleftrightarrow> holds_at c off as \<and> holds_at c (off + length as) bs"
proof
  assume *: "holds_at c off (as @ bs)"
  have "off + i < length c \<and> c ! (off + i) = as ! i" if "i < length as" for i
    using * that unfolding holds_at_def by (metis length_append nth_append trans_less_add1)
  moreover have "off + length as + i < length c \<and> c ! (off + length as + i) = bs ! i" if "i < length bs" for i
    using * that unfolding holds_at_def
    by (metis add.assoc add_less_cancel_left length_append nth_append_length_plus)
  ultimately show "holds_at c off as \<and> holds_at c (off + length as) bs" by (simp add: holds_at_def)
next
  assume *: "holds_at c off as \<and> holds_at c (off + length as) bs"
  show "holds_at c off (as @ bs)" unfolding holds_at_def
  proof (intro allI impI)
    fix i assume i: "i < length (as @ bs)"
    show "off + i < length c \<and> c ! (off + i) = (as @ bs) ! i"
    proof (cases "i < length as")
      case True
      with * show ?thesis by (simp add: holds_at_def nth_append)
    next
      case False
      then obtain j where "i = length as + j" using le_Suc_ex not_le by blast
      with * i show ?thesis by (simp add: holds_at_def add.assoc)
    qed
  qed
qed

lemma holds_at_splice: "holds_at (splice c off bs) off bs"
  by (auto simp: holds_at_def nth_splice length_splice)

lemma holds_at_splice_other:
  assumes "holds_at c off bs" "off + length bs \<le> p \<or> p + length as \<le> off"
  shows "holds_at (splice c p as) off bs"
  using assms by (auto simp: holds_at_def nth_splice length_splice)

lemma splice_holds: "holds_at c off bs \<Longrightarrow> bs \<noteq> [] \<Longrightarrow> splice c off bs = c"
proof (rule nth_equalityI)
  assume *: "holds_at c off bs" "bs \<noteq> []"
  then have "off + (length bs - 1) < length c" unfolding holds_at_def by (metis diff_less length_greater_0_conv zero_less_one)
  with *(2) show "length (splice c off bs) = length c" by (cases bs) (simp_all add: length_splice)
  fix i assume "i < length (splice c off bs)"
  moreover have "c ! (off + (i - off)) = bs ! (i - off)" if "off \<le> i" "i < off + length bs"
    using *(1) that unfolding holds_at_def by (metis less_diff_conv2 add.commute)
  ultimately show "splice c off bs ! i = c ! i"
    using \<open>length (splice c off bs) = length c\<close> by (auto simp: nth_splice)
qed

lemma holds_at_pread:
  assumes "holds_at (content f) off bs" "bs \<noteq> []"
  shows "pread f off (length bs) = Some bs"
proof -
  have "off + (length bs - 1) < length (content f)" using assms unfolding holds_at_def by (metis diff_less length_greater_0_conv zero_less_one)
  then have l: "off + length bs \<le> length (content f)" using assms(2) by (cases bs) simp_all
  moreover have "take (length bs) (drop off (content f)) = bs"
    using assms(1) l by (intro nth_equalityI) (simp_all add: holds_at_def)
  ultimately show ?thesis by (simp add: pread_def)
qed

section \<open>A write-behind buffer as a stream\<close>

text \<open>What a step leaves alone: everything outside the part of the file that begins at \<open>off\<close> and has \<open>len\<close> bytes.\<close>

definition keeps :: "nat \<Rightarrow> nat \<Rightarrow> writer \<Rightarrow> writer \<Rightarrow> bool" where
  "keeps off len w w' \<longleftrightarrow> (\<forall>c b. (c + length b \<le> off \<or> off + len \<le> c) \<longrightarrow> holds_at (out w) c b \<longrightarrow> holds_at (out w') c b)"

lemma keeps_refl [simp]: "keeps off len w w"
  by (simp add: keeps_def)

lemma keeps_trans: "keeps off len w w' \<Longrightarrow> keeps off len w' w'' \<Longrightarrow> keeps off len w w''"
  unfolding keeps_def by blast

lemma keeps_mono: "keeps off len w w' \<Longrightarrow> off' \<le> off \<Longrightarrow> off + len \<le> off' + len' \<Longrightarrow> keeps off' len' w w'"
  unfolding keeps_def by (meson le_trans)

text \<open>
  The bytes \<open>all\<close> went into the stream at \<open>off\<close>: those that are not pending are in the file. The device takes
  the pending bytes and \<open>n\<close> more.
\<close>

definition stream :: "nat \<Rightarrow> nat \<Rightarrow> u8 list \<Rightarrow> nat \<Rightarrow> cache_data \<Rightarrow> writer \<Rightarrow> bool" where
  "stream ps off all n cd w \<longleftrightarrow> \<not> is_stdout w \<and> ready (length (pending cd) + n) w \<and>
     0 < cache_size cd \<and> ps \<le> cache_size cd \<and> cache_size cd + ps \<le> length (cd_buf cd) \<and> buf_size cd < cache_size cd \<and>
     (\<exists>sent. all = sent @ pending cd \<and> cd_offset cd = of_nat (off + length sent) \<and> holds_at (out w) off sent)"

lemma ready_mono: "ready n w \<Longrightarrow> m \<le> n \<Longrightarrow> ready m w"
  by (auto simp: ready_def steady_def)

lemma stream_inv:
  assumes "stream ps off all n cd w" "off + length all + n < 2 ^ 63"
  obtains sent where "all = sent @ pending cd" "cache_data_inv ps (out w) off sent n cd w"
proof -
  from assms(1) obtain sent where s: "all = sent @ pending cd" "cd_offset cd = of_nat (off + length sent)" "holds_at (out w) off sent"
    by (auto simp: stream_def)
  have "out w = (if sent = [] then out w else splice (out w) off sent)" using splice_holds [OF s(3)] by simp
  with s assms have "cache_data_inv ps (out w) off sent n cd w"
    by (auto simp: cache_data_inv_def cache_data_fits_def stream_def add.assoc)
  with s(1) that show thesis by blast
qed

lemma inv_stream:
  assumes "cache_data_inv ps c off sent n cd w"
  shows "stream ps off (sent @ pending cd) n cd w"
proof -
  have "holds_at (out w) off sent"
    using assms(1) holds_at_splice [of c off sent] by (cases "sent = []") (auto simp: cache_data_inv_def cache_data_fits_def)
  with assms(1) show ?thesis by (auto simp: stream_def cache_data_inv_def cache_data_fits_def)
qed

lemma inv_keeps:
  assumes "cache_data_inv ps (out w) off sent n cd w'" "length sent \<le> len"
  shows "keeps off len w w'"
  unfolding keeps_def
proof (intro allI impI)
  fix c b assume c: "c + length b \<le> off \<or> off + len \<le> c" "holds_at (out w) c b"
  have "out w' = (if sent = [] then out w else splice (out w) off sent)" using assms(1) by (simp add: cache_data_inv_def cache_data_fits_def)
  with c assms(2) show "holds_at (out w') c b" by (auto intro: holds_at_splice_other)
qed

lemma stream_put:
  assumes "stream ps off all (length bs + n) cd w" "length bs \<le> ps" "off + length all + length bs + n < 2 ^ 63"
  obtains cd' w' where "write_cache cd bs w = Some (True, cd', w')" "stream ps off (all @ bs) n cd' w'" "keeps off (length all + length bs) w w'"
proof -
  from assms(3) have "off + length all + (length bs + n) < 2 ^ 63" by simp
  from stream_inv [OF assms(1) this] obtain sent where
    s: "all = sent @ pending cd" "cache_data_inv ps (out w) off sent (length bs + n) cd w" .
  from write_cache_step [OF s(2) assms(2)] obtain cd' w' sent' where
    1: "write_cache cd bs w = Some (True, cd', w')" "cache_data_inv ps (out w) off sent' n cd' w'" "sent' @ pending cd' = sent @ pending cd @ bs" by blast
  have "length sent' \<le> length all + length bs" using arg_cong [OF 1(3), of length] s(1) by simp
  with that 1(1) inv_stream [OF 1(2)] inv_keeps [OF 1(2)] 1(3) s(1) show thesis by simp
qed

lemma stream_flush:
  assumes "stream ps off all n cd w" "off + length all + n < 2 ^ 63"
  obtains w' where "write_cache_bufsz cd w = Some (True, cd\<lparr>cd_offset := cd_offset cd + of_nat (buf_size cd), buf_size := 0\<rparr>, w')"
    "write_cd_buf cd w = Some (True, w')"
    "stream ps off all n (cd\<lparr>cd_offset := cd_offset cd + of_nat (buf_size cd), buf_size := 0\<rparr>) w'" "keeps off (length all) w w'" "ready n w'"
    "holds_at (out w') off all"
proof -
  from stream_inv [OF assms] obtain sent where s: "all = sent @ pending cd" "cache_data_inv ps (out w) off sent n cd w" .
  then have "cache_data_fits ps (out w) off sent n cd w" by (simp add: cache_data_inv_def)
  from cache_flush [OF this] obtain cd' w' where
    1: "write_cache_bufsz cd w = Some (True, cd', w')" "cache_data_inv ps (out w) off (sent @ pending cd) n cd' w'" "buf_size cd' = 0" .
  have p: "pending cd' = []" by (simp add: pending_def 1(3))
  have c: "cd' = cd\<lparr>cd_offset := cd_offset cd + of_nat (buf_size cd), buf_size := 0\<rparr>" and w: "write_cd_buf cd w = Some (True, w')"
    using 1(1) by (auto simp: write_cache_bufsz_def write_cd_buf_def split: if_splits option.splits bool.splits)
  have r: "ready n w'" using 1(2) p by (simp add: cache_data_inv_def cache_data_fits_def)
  have h: "holds_at (out w') off all" using inv_stream [OF 1(2)] p s(1) by (auto simp: stream_def)
  show thesis
    using that [OF _ w _ _ r h] 1(1) inv_stream [OF 1(2)] inv_keeps [OF 1(2)] p s(1) c by simp
qed

text \<open>A step of another stream.\<close>

lemma stream_other:
  assumes "stream ps off all n cd w" "keeps p len w w'" "off + length all \<le> p \<or> p + len \<le> off" "\<not> is_stdout w'"
    "ready (length (pending cd) + m) w'"
  shows "stream ps off all m cd w'"
proof -
  from assms(1) obtain sent where s: "all = sent @ pending cd" "cd_offset cd = of_nat (off + length sent)" "holds_at (out w) off sent"
    by (auto simp: stream_def)
  have "off + length sent \<le> p \<or> p + len \<le> off" using assms(3) s(1) by auto
  with s(3) assms(2) have "holds_at (out w') off sent" unfolding keeps_def by blast
  with s assms(1,4,5) show ?thesis by (auto simp: stream_def)
qed

lemma stream_device: "stream ps off all n cd w \<Longrightarrow> \<not> is_stdout w \<and> ready (length (pending cd) + n) w"
  by (simp add: stream_def)

section \<open>The two streams of a dump\<close>

text \<open>Descriptors \<open>hs\<close> at \<open>h\<close>, page data \<open>ds\<close> at \<open>d\<close>; \<open>nh\<close> and \<open>nd\<close> bytes may follow.\<close>

definition two_streams ::
  "nat \<Rightarrow> nat \<Rightarrow> nat \<Rightarrow> u8 list \<Rightarrow> u8 list \<Rightarrow> nat \<Rightarrow> nat \<Rightarrow> cache_data \<Rightarrow> cache_data \<Rightarrow> writer \<Rightarrow> bool" where
  "two_streams ps h d hs ds nh nd cdh cdp w \<longleftrightarrow>
     stream ps h hs (length (pending cdp) + nh + nd) cdh w \<and> stream ps d ds (length (pending cdh) + nh + nd) cdp w \<and>
     h + length hs + nh \<le> d \<and> d + length hs + length ds + nh + nd < 2 ^ 63"

lemma pending_le: "stream ps off all n cd w \<Longrightarrow> length (pending cd) \<le> length all"
  by (auto simp: stream_def)

lemma two_put_header:
  assumes "two_streams ps h d hs ds (length bs + nh) nd cdh cdp w" "length bs \<le> ps"
  obtains cdh' w' where "write_cache cdh bs w = Some (True, cdh', w')" "two_streams ps h d (hs @ bs) ds nh nd cdh' cdp w'"
    "keeps h (length hs + length bs) w w'"
proof -
  let ?m = "length (pending cdp) + nh + nd"
  have s: "stream ps h hs (length bs + ?m) cdh w" and p: "stream ps d ds (length (pending cdh) + (length bs + nh) + nd) cdp w"
    and b: "h + length hs + (length bs + nh) \<le> d" "d + length hs + length ds + (length bs + nh) + nd < 2 ^ 63"
    using assms(1) by (simp_all add: two_streams_def algebra_simps)
  have "h + length hs + length bs + ?m < 2 ^ 63" using b pending_le [OF p] by linarith
  from stream_put [OF s assms(2) this] obtain cdh' w' where
    1: "write_cache cdh bs w = Some (True, cdh', w')" "stream ps h (hs @ bs) ?m cdh' w'" "keeps h (length hs + length bs) w w'" .
  have r: "\<not> is_stdout w'" "ready (length (pending cdp) + (length (pending cdh') + nh + nd)) w'"
    using stream_device [OF 1(2)] by (simp_all add: algebra_simps)
  have "h + (length hs + length bs) \<le> d" using b by linarith
  then have "stream ps d ds (length (pending cdh') + nh + nd) cdp w'" using stream_other [OF p 1(3) _ r] by blast
  with that 1 b show thesis by (simp add: two_streams_def)
qed

lemma two_put_page:
  assumes "two_streams ps h d hs ds nh (length bs + nd) cdh cdp w" "length bs \<le> ps"
  obtains cdp' w' where "write_cache cdp bs w = Some (True, cdp', w')" "two_streams ps h d hs (ds @ bs) nh nd cdh cdp' w'"
    "keeps d (length ds + length bs) w w'"
proof -
  let ?m = "length (pending cdh) + nh + nd"
  have s: "stream ps d ds (length bs + ?m) cdp w" and p: "stream ps h hs (length (pending cdp) + nh + (length bs + nd)) cdh w"
    and b: "h + length hs + nh \<le> d" "d + length hs + length ds + nh + (length bs + nd) < 2 ^ 63"
    using assms(1) by (simp_all add: two_streams_def algebra_simps)
  have "d + length ds + length bs + ?m < 2 ^ 63" using b pending_le [OF p] by linarith
  from stream_put [OF s assms(2) this] obtain cdp' w' where
    1: "write_cache cdp bs w = Some (True, cdp', w')" "stream ps d (ds @ bs) ?m cdp' w'" "keeps d (length ds + length bs) w w'" .
  have r: "\<not> is_stdout w'" "ready (length (pending cdh) + (length (pending cdp') + nh + nd)) w'"
    using stream_device [OF 1(2)] by (simp_all add: algebra_simps)
  have "h + length hs \<le> d" using b by linarith
  then have "stream ps h hs (length (pending cdp') + nh + nd) cdh w'" using stream_other [OF p 1(3) _ r] by blast
  with that 1 b show thesis by (simp add: two_streams_def)
qed

abbreviation flushed :: "cache_data \<Rightarrow> cache_data" where
  "flushed cd \<equiv> cd\<lparr>cd_offset := cd_offset cd + of_nat (buf_size cd), buf_size := 0\<rparr>"

lemma pending_flushed [simp]: "pending (flushed cd) = []"
  by (simp add: pending_def)

lemma two_flush_header:
  assumes "two_streams ps h d hs ds nh nd cdh cdp w"
  obtains w' where "write_cd_buf cdh w = Some (True, w')" "write_cache_bufsz cdh w = Some (True, flushed cdh, w')"
    "two_streams ps h d hs ds nh nd (flushed cdh) cdp w'" "keeps h (length hs) w w'" "holds_at (out w') h hs"
proof -
  let ?m = "length (pending cdp) + nh + nd"
  have s: "stream ps h hs ?m cdh w" and p: "stream ps d ds (length (pending cdh) + nh + nd) cdp w"
    and b: "h + length hs + nh \<le> d" "d + length hs + length ds + nh + nd < 2 ^ 63"
    using assms(1) by (simp_all add: two_streams_def)
  have "h + length hs + ?m < 2 ^ 63" using b pending_le [OF p] by linarith
  from stream_flush [OF s this] obtain w' where
    1: "write_cache_bufsz cdh w = Some (True, flushed cdh, w')" "write_cd_buf cdh w = Some (True, w')"
    "stream ps h hs ?m (flushed cdh) w'" "keeps h (length hs) w w'" "ready ?m w'" "holds_at (out w') h hs" .
  have "h + length hs \<le> d" using b by linarith
  then have "stream ps d ds (nh + nd) cdp w'" using stream_other [OF p 1(4), of "nh + nd"] stream_device [OF 1(3)] by (simp add: add.assoc)
  with that [OF 1(2,1) _ 1(4,6)] 1(3) b show thesis by (simp add: two_streams_def)
qed

lemma two_flush_page:
  assumes "two_streams ps h d hs ds nh nd cdh cdp w"
  obtains w' where "write_cd_buf cdp w = Some (True, w')" "write_cache_bufsz cdp w = Some (True, flushed cdp, w')"
    "two_streams ps h d hs ds nh nd cdh (flushed cdp) w'" "keeps d (length ds) w w'" "holds_at (out w') d ds"
proof -
  let ?m = "length (pending cdh) + nh + nd"
  have s: "stream ps d ds ?m cdp w" and p: "stream ps h hs (length (pending cdp) + nh + nd) cdh w"
    and b: "h + length hs + nh \<le> d" "d + length hs + length ds + nh + nd < 2 ^ 63"
    using assms(1) by (simp_all add: two_streams_def)
  have "d + length ds + ?m < 2 ^ 63" using b pending_le [OF p] by linarith
  from stream_flush [OF s this] obtain w' where
    1: "write_cache_bufsz cdp w = Some (True, flushed cdp, w')" "write_cd_buf cdp w = Some (True, w')"
    "stream ps d ds ?m (flushed cdp) w'" "keeps d (length ds) w w'" "ready ?m w'" "holds_at (out w') d ds" .
  have "h + length hs \<le> d" using b by linarith
  then have "stream ps h hs (nh + nd) cdh w'" using stream_other [OF p 1(4), of "nh + nd"] stream_device [OF 1(3)] by (simp add: add.assoc)
  with that [OF 1(2,1) _ 1(4,6)] 1(3) b show thesis by (simp add: two_streams_def)
qed

text \<open>What is before the descriptors is not changed.\<close>

definition keeps_below :: "nat \<Rightarrow> writer \<Rightarrow> writer \<Rightarrow> bool" where
  "keeps_below h w w' \<longleftrightarrow> (\<forall>c b. c + length b \<le> h \<longrightarrow> holds_at (out w) c b \<longrightarrow> holds_at (out w') c b)"

lemma keeps_below_refl [simp]: "keeps_below h w w"
  by (simp add: keeps_below_def)

lemma keeps_below_trans: "keeps_below h w w' \<Longrightarrow> keeps_below h w' w'' \<Longrightarrow> keeps_below h w w''"
  unfolding keeps_below_def by blast

lemma keeps_imp_below: "keeps off len w w' \<Longrightarrow> h \<le> off \<Longrightarrow> keeps_below h w w'"
  unfolding keeps_def keeps_below_def by (meson le_trans)

lemma two_h_le_d: "two_streams ps h d hs ds nh nd cdh cdp w \<Longrightarrow> h \<le> d"
  by (simp add: two_streams_def)

lemma two_streams_weaken:
  assumes "two_streams ps h d hs ds nh nd cdh cdp w" "nd' \<le> nd"
  shows "two_streams ps h d hs ds nh nd' cdh cdp w"
proof -
  have "stream ps o' a m cd w" if "stream ps o' a n cd w" "m \<le> n" for o' a m n cd
    using that ready_mono [of "length (pending cd) + n" w "length (pending cd) + m"] by (auto simp: stream_def)
  from this [of h hs "length (pending cdp) + nh + nd" cdh "length (pending cdp) + nh + nd'"]
    this [of d ds "length (pending cdh) + nh + nd" cdp "length (pending cdh) + nh + nd'"] assms show ?thesis
    by (simp add: two_streams_def)
qed

text \<open>\<^verbatim>\<open>write_kdump_page\<close> appends a descriptor and the data.\<close>

lemma length_pd_bytes [simp]: "length (pd_bytes pd) = 24"
  by (simp add: pd_bytes_def)

lemma cache_both_appends:
  assumes "two_streams ps h d hs ds (24 + nh) (length data + nd) cdh cdp w" "length data \<le> ps" "24 \<le> ps"
  shows "\<exists>cdh' cdp' w'. cache_both cdh cdp (pd_bytes pd) data w = Some (True, cdh', cdp', w') \<and>
     two_streams ps h d (hs @ pd_bytes pd) (ds @ data) nh nd cdh' cdp' w' \<and> keeps_below h w w'"
proof -
  have "two_streams ps h d hs ds (length (pd_bytes pd) + nh) (length data + nd) cdh cdp w" "length (pd_bytes pd) \<le> ps"
    using assms by simp_all
  from two_put_header [OF this] obtain cdh' w1 where 1: "write_cache cdh (pd_bytes pd) w = Some (True, cdh', w1)"
    "two_streams ps h d (hs @ pd_bytes pd) ds nh (length data + nd) cdh' cdp w1" "keeps h (length hs + length (pd_bytes pd)) w w1" .
  from two_put_page [OF 1(2) assms(2)] obtain cdp' w2 where 2: "write_cache cdp data w1 = Some (True, cdp', w2)"
    "two_streams ps h d (hs @ pd_bytes pd) (ds @ data) nh nd cdh' cdp' w2" "keeps d (length ds + length data) w1 w2" .
  have "keeps_below h w w2"
    using keeps_below_trans [OF keeps_imp_below [OF 1(3) order_refl] keeps_imp_below [OF 2(3) two_h_le_d [OF 2(2)]]] .
  with 1(1) 2(1,2) show ?thesis by (simp add: cache_both_def)
qed

lemma write_kdump_page_appends:
  assumes "two_streams ps h d hs ds (24 + nh) (length data + nd) cdh cdp w" "length data \<le> ps" "24 \<le> ps"
    "unat (pd_size pd) = length data"
  shows "\<exists>cdh' cdp' w'. write_kdump_page cdh cdp pd data w = Some (True, cdh', cdp', w') \<and>
     two_streams ps h d (hs @ pd_bytes pd) (ds @ data) nh nd cdh' cdp' w' \<and> keeps_below h w w'"
proof (cases "buf_size cdh + sizeof_page_desc \<ge> cache_size cdh \<or> buf_size cdp + unat (pd_size pd) \<ge> cache_size cdp")
  case False
  with cache_both_appends [OF assms(1-3), of pd] assms(4) show ?thesis by (simp add: write_kdump_page_def)
next
  case True
  from two_flush_header [OF assms(1)] obtain w1 where 1: "write_cd_buf cdh w = Some (True, w1)"
    "two_streams ps h d hs ds (24 + nh) (length data + nd) (flushed cdh) cdp w1" "keeps h (length hs) w w1" by metis
  from two_flush_page [OF 1(2)] obtain w2 where 2: "write_cd_buf cdp w1 = Some (True, w2)"
    "two_streams ps h d hs ds (24 + nh) (length data + nd) (flushed cdh) (flushed cdp) w2" "keeps d (length ds) w1 w2" by metis
  have k: "keeps_below h w w2"
    using keeps_below_trans [OF keeps_imp_below [OF 1(3) order_refl] keeps_imp_below [OF 2(3) two_h_le_d [OF 2(2)]]] .
  from cache_both_appends [OF 2(2) assms(2,3), of pd] True 1(1) 2(1) assms(4) keeps_below_trans [OF k] show ?thesis
    by (fastforce simp: write_kdump_page_def)
qed

section \<open>Descriptors\<close>

lemma get64_word: "length pre = off \<Longrightarrow> get64 (pre @ le_bytes 8 (unat x) @ post) off = x"
proof -
  have "unat x < 256 ^ 8" using unsigned_less [of x] by simp
  then show "length pre = off \<Longrightarrow> ?thesis" by (simp add: get64_def get_le_here)
qed

lemma get32_word: "length pre = off \<Longrightarrow> get32 (pre @ le_bytes 4 (unat x) @ post) off = x"
proof -
  have "unat x < 256 ^ 4" using unsigned_less [of x] by simp
  then show "length pre = off \<Longrightarrow> ?thesis" by (simp add: get32_def get_le_here)
qed

lemma pd_of_pd_bytes: "pd_of_bytes (pd_bytes pd) = pd"
proof -
  have "get64 (pd_bytes pd) 0 = pd_offset pd" using get64_word [of "[]" 0 "pd_offset pd"] by (simp add: pd_bytes_def)
  moreover have "get32 (pd_bytes pd) 8 = pd_size pd"
    using get32_word [of "le_bytes 8 (unat (pd_offset pd))" 8 "pd_size pd"] by (simp add: pd_bytes_def)
  moreover have "get32 (pd_bytes pd) 12 = pd_flags pd"
    using get32_word [of "le_bytes 8 (unat (pd_offset pd)) @ le_bytes 4 (unat (pd_size pd))" 12 "pd_flags pd"] by (simp add: pd_bytes_def)
  moreover have "get64 (pd_bytes pd) 16 = pd_page_flags pd"
    using get64_word [of "le_bytes 8 (unat (pd_offset pd)) @ le_bytes 4 (unat (pd_size pd)) @ le_bytes 4 (unat (pd_flags pd))" 16 "pd_page_flags pd" "[]"]
    by (simp add: pd_bytes_def)
  ultimately show ?thesis by (simp add: pd_of_bytes_def)
qed

section \<open>Compression and decompression\<close>

text \<open>
  What the libraries promise: what was compressed is decompressed to the same bytes, and is not empty. The
  reader was built with the libraries the writer was built with.
\<close>

definition codec_ok :: "encoder \<Rightarrow> decoder \<Rightarrow> bool" where
  "codec_ok e d \<longleftrightarrow> (enc_lzo e \<longrightarrow> use_lzo d) \<and> (enc_lzo_support e \<longrightarrow> flag_lzo_support d) \<and> (enc_snappy e \<longrightarrow> use_snappy d) \<and> (enc_zstd e \<longrightarrow> use_zstd d) \<and>
     (\<forall>pg n z. deflate e pg n = (Z_STREAM_END, z) \<longrightarrow> z \<noteq> [] \<and> zlib_uncompress d z (length pg) = Some pg) \<and>
     (\<forall>pg z. lzo1x_1_compress e pg = Some z \<longrightarrow> z \<noteq> [] \<and> lzo_decompress d z (length pg) = Some pg) \<and>
     (\<forall>pg z. snappy_compress e pg = Some z \<longrightarrow> z \<noteq> [] \<and> snappy_uncompress d z = Some pg) \<and>
     (\<forall>pg z. zstd_compress e pg = Some z \<longrightarrow> zstd_decompress d z (length pg) = Some pg)"

lemma compress_mdf_ok:
  assumes "codec_ok e d" "compress_mdf e pg n = (Z_OK, z)"
  shows "z \<noteq> [] \<and> zlib_uncompress d z (length pg) = Some pg"
proof -
  obtain err z' where "deflate e pg n = (err, z')" by (cases "deflate e pg n")
  with assms(2) have "deflate e pg n = (Z_STREAM_END, z)"
    by (auto simp: compress_mdf_def Z_OK_def Z_BUF_ERROR_def split: if_splits)
  with assms(1) show ?thesis by (simp add: codec_ok_def)
qed

lemma splice_all: "length bs = length old \<Longrightarrow> splice old 0 bs = bs"
  by (simp add: splice_def)

lemma kd_decode_compress:
  assumes "codec_ok e d" "compress_page e (length pg) pg = (fl, z)" "length old = length pg" "pg \<noteq> []"
  shows "kd_decode d (length pg) fl z old = Done pg \<and> length z \<le> length pg \<and> z \<noteq> []"
proof -
  obtain err zz where m: "compress_mdf e pg (len_buf_out e) = (err, zz)" by (cases "compress_mdf e pg (len_buf_out e)")
  have zl: "err = Z_OK \<Longrightarrow> zz \<noteq> [] \<and> zlib_uncompress d zz (length pg) = Some pg" using compress_mdf_ok [OF assms(1)] m by simp
  consider "fl = DUMP_DH_COMPRESSED_ZLIB" "err = Z_OK" "z = zz" "length z < length pg"
    | "fl = DUMP_DH_COMPRESSED_LZO" "enc_lzo e" "enc_lzo_support e" "lzo1x_1_compress e pg = Some z" "length z < length pg"
    | "fl = DUMP_DH_COMPRESSED_SNAPPY" "enc_snappy e" "snappy_compress e pg = Some z" "length z < length pg"
    | "fl = DUMP_DH_COMPRESSED_ZSTD" "enc_zstd e" "zstd_compress e pg = Some z" "length z < length pg" "z \<noteq> []"
    | "fl = 0" "z = pg"
    using assms(2) m by (auto simp: compress_page_def Let_def split: if_splits option.splits)
  then show ?thesis
    using assms(1,3,4) zl by cases (auto simp: kd_decode_def codec_ok_def Let_def compression_flags splice_all)
qed

section \<open>Pages in the data stream\<close>

text \<open>The descriptor \<open>pd\<close> finds the page \<open>pg\<close> in the data \<open>ds\<close> at \<open>d\<close>.\<close>

definition stored :: "decoder \<Rightarrow> nat \<Rightarrow> nat \<Rightarrow> u8 list \<Rightarrow> page_desc \<Rightarrow> u8 list \<Rightarrow> bool" where
  "stored dec psize d ds pd pg \<longleftrightarrow> (\<exists>o' data. pd_offset pd = of_nat (d + o') \<and> unat (pd_size pd) = length data \<and> length data \<le> psize \<and>
     data \<noteq> [] \<and> holds_at ds o' data \<and> (\<forall>old. length old = psize \<longrightarrow> kd_decode dec psize (pd_flags pd) data old = Done pg))"

lemma stored_mono: "stored dec psize d ds pd pg \<Longrightarrow> stored dec psize d (ds @ ds') pd pg"
  unfolding stored_def holds_at_def by (auto simp: nth_append)

lemma is_zero_page_zero:
  assumes "is_zero_page b psize" "length b = psize" "8 dvd psize"
  shows "b = replicate psize 0"
proof (rule nth_equalityI)
  fix i assume i: "i < length b"
  then have "i div 8 < psize div 8" using assms(2,3) by (metis dvd_div_mult_self less_mult_imp_div_less)
  then have "get64 b (8 * (i div 8)) = 0" using assms(1) by (simp add: is_zero_page_def list_all_iff)
  let ?f = "take 8 (drop (8 * (i div 8)) b)"
  have "(256 :: nat) ^ length ?f \<le> 256 ^ 8" by (rule power_increasing) simp_all
  also have "(256 :: nat) ^ 8 = 2 ^ 64" by simp
  finally have "le_nat ?f < 2 ^ 64" by (rule order_less_le_trans [OF le_nat_less])
  have "(of_nat (le_nat ?f) :: u64) = 0" using \<open>get64 b (8 * (i div 8)) = 0\<close> by (simp add: get64_def get_le_def)
  then have z: "le_nat ?f = 0" using \<open>le_nat ?f < 2 ^ 64\<close> of_nat64_eq [of "le_nat ?f" 0] by simp
  have zero: "le_nat bs = 0 \<Longrightarrow> x \<in> set bs \<Longrightarrow> x = 0" for bs and x :: u8 by (induction bs) (auto simp: unat_eq_0)
  have m: "8 * (i div 8) + i mod 8 = i" "i mod 8 < 8" by simp_all
  then have "i mod 8 < length b - 8 * (i div 8)" using i by linarith
  with m have "b ! i = ?f ! (i mod 8)" "i mod 8 < length ?f" by simp_all
  then have "b ! i \<in> set ?f" using nth_mem by metis
  with zero [OF z] show "b ! i = replicate psize 0 ! i" using i assms(2) by simp
qed (simp add: assms(2))

text \<open>
  The state of the dump: descriptors and data of the pages \<open>pages\<close> are in the streams, and the zero page is there when
  pages of zeros are not written.
\<close>

definition dump_inv :: "kdump_env \<Rightarrow> decoder \<Rightarrow> nat \<Rightarrow> nat \<Rightarrow> page_desc \<Rightarrow> u8 list list \<Rightarrow> nat \<Rightarrow> nat \<Rightarrow> kdump_state \<Rightarrow> bool" where
  "dump_inv env dec h d z pages nh nd st \<longleftrightarrow> (\<exists>pds ds.
     two_streams (unat (page_size env)) h d (concat (map pd_bytes pds)) ds nh nd (ks_header st) (ks_page st) (ks_writer st) \<and>
     length pds = length pages \<and> (\<forall>k<length pages. stored dec (unat (page_size env)) d ds (pds ! k) (pages ! k)) \<and>
     ks_offset_data st = of_nat (d + length ds) \<and>
     (ke_dump_level env AND DL_EXCLUDE_ZERO \<noteq> 0 \<longrightarrow> stored dec (unat (page_size env)) d ds z (replicate (unat (page_size env)) 0)))"

definition page_size_ok :: "kdump_env \<Rightarrow> bool" where
  "page_size_ok env \<longleftrightarrow> 24 \<le> unat (page_size env) \<and> 8 dvd unat (page_size env) \<and> unat (page_size env) < 2 ^ 32"

lemma ucast_of_nat32: "n < 2 ^ 32 \<Longrightarrow> (ucast (of_nat n :: u32) :: u64) = of_nat n"
proof -
  assume n: "n < 2 ^ 32"
  have "unat (ucast (of_nat n :: u32) :: u64) = n" using unat_of_nat32 [OF n] by simp
  moreover have "unat (of_nat n :: u64) = n" using n by (intro unat_of_nat64) simp
  ultimately show ?thesis by (metis word_unat_eq_iff)
qed

text \<open>The members of the state that writing pages does not change.\<close>

definition same_rest :: "kdump_state \<Rightarrow> kdump_state \<Rightarrow> bool" where
  "same_rest st st' \<longleftrightarrow> ks_bitmaps st' = ks_bitmaps st \<and> ks_erase st' = ks_erase st \<and> ks_offset_bitmap1 st' = ks_offset_bitmap1 st"

lemma stored_step:
  assumes "\<forall>k<length pages. stored dec ps d ds (pds ! k) (pages ! k)" "length pds = length pages" "stored dec ps d (ds @ ds') pd b"
  shows "\<forall>k<length (pages @ [b]). stored dec ps d (ds @ ds') ((pds @ [pd]) ! k) ((pages @ [b]) ! k)"
  using assms stored_mono by (auto simp: nth_append less_Suc_eq)

lemma dump_page_step:
  assumes ok: "page_size_ok env" "codec_ok (ke_encoder env) dec" "length b = unat (page_size env)"
    and inv: "dump_inv env dec h d z pages (24 + nh) (unat (page_size env) + nd) st"
  shows "\<exists>st'. dump_page env z b st = Some (True, st') \<and> dump_inv env dec h d z (pages @ [b]) nh nd st' \<and>
     keeps_below h (ks_writer st) (ks_writer st') \<and> same_rest st st'"
proof -
  let ?ps = "unat (page_size env)"
  from inv obtain pds ds where
    s: "two_streams ?ps h d (concat (map pd_bytes pds)) ds (24 + nh) (?ps + nd) (ks_header st) (ks_page st) (ks_writer st)"
    and p: "length pds = length pages" "\<forall>k<length pages. stored dec ?ps d ds (pds ! k) (pages ! k)"
    and o: "ks_offset_data st = of_nat (d + length ds)"
    and z: "ke_dump_level env AND DL_EXCLUDE_ZERO \<noteq> 0 \<longrightarrow> stored dec ?ps d ds z (replicate ?ps 0)"
    by (auto simp: dump_inv_def)
  have ps: "24 \<le> ?ps" "8 dvd ?ps" "?ps < 2 ^ 32" using ok(1) by (simp_all add: page_size_ok_def)
  show ?thesis
  proof (cases "ke_dump_level env AND DL_EXCLUDE_ZERO \<noteq> 0 \<and> is_zero_page b ?ps")
    case True
    then have b: "b = replicate ?ps 0" using is_zero_page_zero ok(3) ps(2) by blast
    have s': "two_streams ?ps h d (concat (map pd_bytes pds)) ds (length (pd_bytes z) + nh) nd (ks_header st) (ks_page st) (ks_writer st)"
      using two_streams_weaken [OF s, of nd] by simp
    from two_put_header [OF s'] ps(1) obtain cdh w where
      1: "write_cache (ks_header st) (pd_bytes z) (ks_writer st) = Some (True, cdh, w)"
      "two_streams ?ps h d (concat (map pd_bytes pds) @ pd_bytes z) ds nh nd cdh (ks_page st) w"
      "keeps h (length (concat (map pd_bytes pds)) + length (pd_bytes z)) (ks_writer st) w" by auto
    let ?st = "st\<lparr>ks_header := cdh, ks_writer := w, ks_pfn_zero := ks_pfn_zero st + 1\<rparr>"
    have "dump_page env z b st = Some (True, ?st)" using True 1(1) by (simp add: dump_page_def)
    moreover have "dump_inv env dec h d z (pages @ [b]) nh nd ?st"
      unfolding dump_inv_def using 1(2) p o z True b stored_step [OF p(2,1), of "[]" z b]
      by (intro exI [of _ "pds @ [z]"] exI [of _ ds]) simp
    ultimately show ?thesis using keeps_imp_below [OF 1(3)] by (auto simp: same_rest_def)
  next
    case False
    obtain fl data where c: "compress_page (ke_encoder env) ?ps b = (fl, data)" by (cases "compress_page (ke_encoder env) ?ps b")
    have bne: "b \<noteq> []" using ok(3) ps(1) by auto
    have dec: "kd_decode dec ?ps fl data old = Done b" "length data \<le> ?ps" "data \<noteq> []" if "length old = ?ps" for old
      using kd_decode_compress [OF ok(2), of b fl data old] c ok(3) that bne by simp_all
    then have ld: "length data \<le> ?ps" "data \<noteq> []" using dec(2,3) [of "replicate ?ps 0"] by simp_all
    let ?pd = "\<lparr>pd_offset = ks_offset_data st, pd_size = of_nat (length data), pd_flags = fl, pd_page_flags = 0\<rparr>"
    have sz: "unat (of_nat (length data) :: u32) = length data" using ld ps(3) by (intro unat_of_nat32) simp
    have "length data + nd \<le> ?ps + nd" using ld by simp
    from write_kdump_page_appends [OF two_streams_weaken [OF s this] ld(1) ps(1), of ?pd] obtain cdh cdp w where
      1: "write_kdump_page (ks_header st) (ks_page st) ?pd data (ks_writer st) = Some (True, cdh, cdp, w)"
      "two_streams ?ps h d (concat (map pd_bytes pds) @ pd_bytes ?pd) (ds @ data) nh nd cdh cdp w" "keeps_below h (ks_writer st) w"
      by (auto simp: sz)
    have st1: "stored dec ?ps d (ds @ data) ?pd b"
      unfolding stored_def using ld sz dec(1) o holds_at_append [of "ds @ data" 0 ds data]
      by (intro exI [of _ "length ds"] exI [of _ data]) (simp add: holds_at_def)
    let ?st = "st\<lparr>ks_header := cdh, ks_page := cdp, ks_writer := w, ks_offset_data := ks_offset_data st + ucast (pd_size ?pd)\<rparr>"
    have "dump_page env z b st = Some (True, ?st)"
      unfolding dump_page_def if_not_P [OF False] c prod.case Let_def 1(1) option.case ..
    moreover have "ks_offset_data ?st = of_nat (d + length (ds @ data))"
      using ucast_of_nat32 [of "length data"] ld ps(3) o by simp
    then have "dump_inv env dec h d z (pages @ [b]) nh nd ?st"
      unfolding dump_inv_def using 1(2) p(1) z stored_step [OF p(2,1) st1] stored_mono
      by (intro exI [of _ "pds @ [?pd]"] exI [of _ "ds @ data"]) simp
    ultimately show ?thesis using 1(3) by (auto simp: same_rest_def)
  qed
qed

section \<open>The pages of a cycle\<close>

text \<open>The second bitmap answers for the frames of a cycle with \<open>dmp\<close>.\<close>

definition answers :: "nat \<Rightarrow> cycle \<Rightarrow> (nat \<Rightarrow> bool) \<Rightarrow> dump_bitmap \<Rightarrow> fstate \<Rightarrow> bool" where
  "answers n c dmp bm f \<longleftrightarrow> bm_ok {unat (start_pfn c) ..< unat (end_pfn c)} n (Some c) bm f \<and> (0 \<le> fd bm \<longrightarrow> bm_clean bm f) \<and>
     (\<forall>i\<in>{unat (start_pfn c) ..< unat (end_pfn c)}. pbit (Some c) bm f i = dmp i)"

lemma answers_query:
  assumes "answers n c dmp bm f" "unat pfn \<in> {unat (start_pfn c) ..< unat (end_pfn c)}"
  shows "\<exists>bm'. is_dumpable bm f pfn (Some c) = (dmp (unat pfn), bm') \<and> answers n c dmp bm' f \<and> fd bm' = fd bm \<and> (fd bm < 0 \<longrightarrow> bm' = bm)"
proof -
  let ?R = "{unat (start_pfn c) ..< unat (end_pfn c)}"
  have ok: "bm_ok ?R n (Some c) bm f" "0 \<le> fd bm \<longrightarrow> bm_clean bm f" "\<forall>i\<in>?R. pbit (Some c) bm f i = dmp i"
    using assms(1) by (auto simp: answers_def)
  have r: "fst (is_dumpable bm f pfn (Some c)) = dmp (unat pfn)" using is_dumpable_ok [OF ok(1,2) assms(2)] ok(3) assms(2) by simp
  show ?thesis
  proof (cases "0 \<le> fd bm")
    case False
    then have "is_dumpable bm f pfn (Some c) = (is_dumpable_buffer bm pfn (Some c), bm)" by (simp add: is_dumpable_def)
    with r assms(1) show ?thesis by auto
  next
    case True
    then have w: "bm_wf n bm f" "?R \<subseteq> {..<32768 * n}" using ok(1) by (auto simp: bm_ok_def)
    then have lt: "unat pfn < 32768 * n" using assms(2) by blast
    from is_dumpable_file_correct [OF w(1) _ lt] ok(2) True obtain bm' where
      1: "is_dumpable_file bm f pfn = (bm_bit bm f (unat pfn), bm')" "bm_wf n bm' f" "bm_clean bm' f"
      "\<forall>k < BUFSIZE_BITMAP * n. bm_byte bm' f k = bm_byte bm f k" by blast
    have fd: "fd bm' = fd bm" using 1(1) by (auto simp: is_dumpable_file_def Let_def)
    have "pbit (Some c) bm' f i = pbit (Some c) bm f i" if "i \<in> ?R" for i
      using 1(4) byte_bound [of i n] w(2) that True fd by (auto simp: pbit_def bm_bit_def)
    then have "answers n c dmp bm' f" using 1 w ok(3) True fd by (auto simp: answers_def bm_ok_def)
    moreover have "is_dumpable bm f pfn (Some c) = (dmp (unat pfn), bm')" using r 1(1) True by (simp add: is_dumpable_def)
    ultimately show ?thesis using fd True by auto
  qed
qed

text \<open>The pages of a list of frames as they are written: read, then filtered one after the other.\<close>

fun filter_pages :: "kdump_env \<Rightarrow> u64 list \<Rightarrow> erase_state \<Rightarrow> (u8 list list \<times> erase_state) option" where
  "filter_pages env [] er = Some ([], er)"
| "filter_pages env (p # ps) er = (case read_pfn env p of None \<Rightarrow> None
     | Some b \<Rightarrow> (case filter_data_buffer b (pfn_to_paddr env p) (page_size env) er of None \<Rightarrow> None
       | Some (b', er1) \<Rightarrow> map_option (\<lambda>(bs, er2). (b' # bs, er2)) (filter_pages env ps er1)))"

lemma filter_pages_append:
  "filter_pages env (xs @ ys) er = (case filter_pages env xs er of None \<Rightarrow> None
     | Some (bs, er1) \<Rightarrow> map_option (\<lambda>(cs, er2). (bs @ cs, er2)) (filter_pages env ys er1))"
  by (induction xs arbitrary: er) (auto simp: map_option_case split: option.splits prod.splits)

lemma filter_pages_length: "filter_pages env ps er = Some (bs, er') \<Longrightarrow> length bs = length ps"
  by (induction ps arbitrary: er bs) (auto split: option.splits prod.splits)

lemma filter_data_buffer_length: "filter_data_buffer b pa sz st = Some (b', st') \<Longrightarrow> length b' = length b"
proof (induction b pa sz st rule: filter_data_buffer.induct)
  case (1 b pa sz st)
  from "1.prems" show ?case
    by (subst (asm) filter_data_buffer.simps) (auto split: option.splits prod.splits if_splits dest!: "1.IH" simp: length_splice)
qed

definition frames :: "(nat \<Rightarrow> bool) \<Rightarrow> nat \<Rightarrow> nat \<Rightarrow> u64 list" where
  "frames dmp a b = map of_nat (filter dmp [a ..< b])"

lemma frames_Suc: "a \<le> k \<Longrightarrow> frames dmp a (Suc k) = frames dmp a k @ (if dmp k then [of_nat k] else [])"
  by (simp add: frames_def)

lemma frames_append: "a \<le> b \<Longrightarrow> b \<le> c \<Longrightarrow> frames dmp a b @ frames dmp b c = frames dmp a c"
  unfolding frames_def by (subst upt_append [of a b c, symmetric]) simp_all

definition reads_pages :: "kdump_env \<Rightarrow> bool" where
  "reads_pages env \<longleftrightarrow> (\<forall>pa b. ke_readmem env pa = Some b \<longrightarrow> length b = unat (page_size env))"

text \<open>A frame of the cycle; \<open>k\<close> frames before it and \<open>N\<close> in all are dumpable.\<close>

definition cycle_inv ::
  "kdump_env \<Rightarrow> decoder \<Rightarrow> nat \<Rightarrow> nat \<Rightarrow> page_desc \<Rightarrow> nat \<Rightarrow> cycle \<Rightarrow> (nat \<Rightarrow> bool) \<Rightarrow> u8 list list \<Rightarrow> nat \<Rightarrow> nat \<Rightarrow> nat \<Rightarrow> kdump_state \<Rightarrow> nat \<Rightarrow> kdump_state \<Rightarrow> bool" where
  "cycle_inv env dec h d z n c dmp pages N nh nd st0 k st \<longleftrightarrow> (\<exists>pgs.
     filter_pages env (frames dmp (unat (start_pfn c)) k) (ks_erase st0) = Some (pgs, ks_erase st) \<and> length pgs \<le> N \<and>
     dump_inv env dec h d z (pages @ pgs) (24 * (N - length pgs) + nh) (unat (page_size env) * (N - length pgs) + nd) st) \<and>
     answers n c dmp (bitmap2 (ks_bitmaps st)) (bmfile (ks_bitmaps st)) \<and> bmfile (ks_bitmaps st) = bmfile (ks_bitmaps st0) \<and>
     ks_offset_bitmap1 st = ks_offset_bitmap1 st0 \<and> keeps_below h (ks_writer st0) (ks_writer st) \<and>
     (fd (bitmap2 (ks_bitmaps st0)) < 0 \<longrightarrow> ks_bitmaps st = ks_bitmaps st0)"

lemma bitmap2_same [simp]: "(b :: bitmaps)\<lparr>bitmap2 := bitmap2 b\<rparr> = b"
  by (cases b) simp

lemma write_frame_step:
  assumes ok: "page_size_ok env" "codec_ok (ke_encoder env) dec" "reads_pages env"
    and inv: "cycle_inv env dec h d z n c dmp pages N nh nd st0 (unat q) st"
    and q: "start_pfn c \<le> q" "q < end_pfn c"
    and total: "filter_pages env (frames dmp (unat (start_pfn c)) (unat (end_pfn c))) (ks_erase st0) = Some (all, er)" "length all = N"
  shows "\<exists>st'. write_frame env z c q st = Some (True, st') \<and> cycle_inv env dec h d z n c dmp pages N nh nd st0 (Suc (unat q)) st'"
proof -
  let ?a = "unat (start_pfn c)" and ?e = "unat (end_pfn c)"
  have r: "?a \<le> unat q" "unat q < ?e" using q by (simp_all add: word_le_nat_alt word_less_nat_alt)
  from inv obtain pgs where
    1: "filter_pages env (frames dmp ?a (unat q)) (ks_erase st0) = Some (pgs, ks_erase st)" "length pgs \<le> N"
    "dump_inv env dec h d z (pages @ pgs) (24 * (N - length pgs) + nh) (unat (page_size env) * (N - length pgs) + nd) st"
    "answers n c dmp (bitmap2 (ks_bitmaps st)) (bmfile (ks_bitmaps st))" "bmfile (ks_bitmaps st) = bmfile (ks_bitmaps st0)"
    "ks_offset_bitmap1 st = ks_offset_bitmap1 st0" "keeps_below h (ks_writer st0) (ks_writer st)"
    "fd (bitmap2 (ks_bitmaps st0)) < 0 \<longrightarrow> ks_bitmaps st = ks_bitmaps st0" by (auto simp: cycle_inv_def)
  from answers_query [OF 1(4), of q] r obtain bm where
    2: "is_dumpable (bitmap2 (ks_bitmaps st)) (bmfile (ks_bitmaps st)) q (Some c) = (dmp (unat q), bm)" "answers n c dmp bm (bmfile (ks_bitmaps st))"
    "fd (bitmap2 (ks_bitmaps st)) < 0 \<longrightarrow> bm = bitmap2 (ks_bitmaps st)" by auto
  let ?st1 = "st\<lparr>ks_bitmaps := (ks_bitmaps st)\<lparr>bitmap2 := bm\<rparr>\<rparr>"
  show ?thesis
  proof (cases "dmp (unat q)")
    case False
    then have "write_frame env z c q st = Some (True, ?st1)" using 2(1) by (simp add: write_frame_def Let_def)
    moreover have "dump_inv env dec h d z P x y ?st1 = dump_inv env dec h d z P x y st" for P x y by (simp add: dump_inv_def)
    ultimately show ?thesis using 1 2(2,3) False r(1) by (auto simp: cycle_inv_def frames_Suc)
  next
    case True
    define xs ys where "xs = frames dmp ?a (unat q) @ [q]" and "ys = frames dmp (Suc (unat q)) ?e"
    have fe: "frames dmp ?a ?e = xs @ ys"
      using frames_append [of ?a "Suc (unat q)" ?e dmp] r True by (simp add: frames_Suc xs_def ys_def)
    have "filter_pages env xs (ks_erase st0) \<noteq> None"
      using total(1) unfolding fe filter_pages_append by (auto split: option.splits)
    then have "filter_pages env [q] (ks_erase st) \<noteq> None" unfolding xs_def filter_pages_append 1(1) by simp
    then obtain b b' er1 where b: "read_pfn env q = Some b" "filter_data_buffer b (pfn_to_paddr env q) (page_size env) (ks_erase st) = Some (b', er1)"
      by (auto split: option.splits)
    have fp: "filter_pages env xs (ks_erase st0) = Some (pgs @ [b'], er1)"
      unfolding xs_def filter_pages_append 1(1) using b by simp
    have lb: "length b' = unat (page_size env)"
      using filter_data_buffer_length [OF b(2)] b(1) ok(3) by (auto simp: read_pfn_def reads_pages_def)
    have "length xs \<le> length (frames dmp ?a ?e)" using fe by simp
    then have lt: "length pgs < N" using filter_pages_length [OF fp] filter_pages_length [OF total(1)] total(2) by simp
    then obtain m where m: "N - length pgs = Suc m" "N - length (pgs @ [b']) = m" by (metis Suc_diff_Suc length_append_singleton)
    let ?st2 = "?st1\<lparr>ks_num_dumped := ks_num_dumped ?st1 + 1, ks_erase := er1\<rparr>"
    have "dump_inv env dec h d z (pages @ pgs) (24 + (24 * m + nh)) (unat (page_size env) + (unat (page_size env) * m + nd)) ?st2"
      using 1(3) unfolding m(1) by (simp add: dump_inv_def add.assoc)
    from dump_page_step [OF ok(1,2) lb this] obtain st' where
      3: "dump_page env z b' ?st2 = Some (True, st')" "dump_inv env dec h d z (pages @ pgs @ [b']) (24 * m + nh) (unat (page_size env) * m + nd) st'"
      "keeps_below h (ks_writer st) (ks_writer st')" "same_rest ?st2 st'" by auto
    have "write_frame env z c q st = Some (True, st')"
      using True 2(1) b 3(1) by (simp add: write_frame_def Let_def)
    moreover have "cycle_inv env dec h d z n c dmp pages N nh nd st0 (Suc (unat q)) st'"
      unfolding cycle_inv_def using fp 3 lt m(2) 1(5-8) 2(2,3) True r(1) keeps_below_trans [OF 1(7) 3(3)]
      by (intro conjI exI [of _ "pgs @ [b']"]) (simp_all add: frames_Suc xs_def same_rest_def)
    ultimately show ?thesis by blast
  qed
qed

lemma write_kdump_pages_cyclic_step:
  assumes ok: "page_size_ok env" "codec_ok (ke_encoder env) dec" "reads_pages env" "\<not> flag_elf_dumpfile (ke_cyclic env)" "ke_split env = None"
    and inv: "dump_inv env dec h d z pages (24 * N + nh) (unat (page_size env) * N + nd) st"
    and bits: "answers n c dmp (bitmap2 (ks_bitmaps st)) (bmfile (ks_bitmaps st))" and c: "start_pfn c \<le> end_pfn c"
    and total: "filter_pages env (frames dmp (unat (start_pfn c)) (unat (end_pfn c))) (ks_erase st) = Some (all, er)" "length all = N"
  shows "\<exists>st'. write_kdump_pages_cyclic env z c st = Some (True, st') \<and> dump_inv env dec h d z (pages @ all) nh nd st' \<and>
     ks_erase st' = er \<and> ks_offset_bitmap1 st' = ks_offset_bitmap1 st \<and> keeps_below h (ks_writer st) (ks_writer st') \<and>
     (fd (bitmap2 (ks_bitmaps st)) < 0 \<longrightarrow> ks_bitmaps st' = ks_bitmaps st)"
proof -
  let ?I = "cycle_inv env dec h d z n c dmp pages N nh nd st"
  have "?I (unat (start_pfn c)) st" using inv bits by (simp add: cycle_inv_def frames_def)
  moreover have "\<exists>s'. write_frame env z c q s = Some (True, s') \<and> ?I (Suc (unat q)) s'"
    if "start_pfn c \<le> q" "q < end_pfn c" "?I (unat q) s" for q s using write_frame_step [OF ok(1-3) that(3,1,2) total] .
  ultimately obtain st' where
    1: "for_pfns (start_pfn c) (end_pfn c) (write_frame env z c) st = Some (True, st')" "?I (unat (end_pfn c)) st'"
    using for_pfns_inv [of "start_pfn c" "end_pfn c" ?I st "write_frame env z c"] c by blast
  have "write_kdump_pages_cyclic env z c st = Some (True, st')" using 1(1) ok(4,5) by (simp add: write_kdump_pages_cyclic_def)
  with 1(2) total show ?thesis by (auto simp: cycle_inv_def)
qed

end
