(* ===== verification/Kdump_Roundtrip.thy ===== *)
theory Kdump_Roundtrip
  imports Kdump_Write
begin

text \<open>
  A kdump-compressed file that was written cycle by cycle is read back: invariants of the two loops of
  \<^verbatim>\<open>write_kdump_pages_and_bitmap_cyclic\<close> (bitmaps, descriptors and data are where they belong and do not overwrite each
  other), and the reader of \<^verbatim>\<open>Kdump_Read\<close> on the result.
\<close>

section \<open>Invariants of the loop over the cycles\<close>

lemma for_each_from_inv:
  assumes "0 < pfn_cyclic info" "unat mx + unat (pfn_cyclic info) < 2 ^ 64"
    and step: "\<And>c s. start_pfn c < end_pfn c \<Longrightarrow> end_pfn c \<le> mx \<Longrightarrow> unat (pfn_cyclic info) dvd unat (start_pfn c) \<Longrightarrow>
       unat (end_pfn c) = min (unat (start_pfn c) + unat (pfn_cyclic info)) (unat mx) \<Longrightarrow> I (unat (start_pfn c)) s \<Longrightarrow>
       start_pfn (fst (body c s)) = start_pfn c \<and> end_pfn (fst (body c s)) = end_pfn c \<and> I (unat (end_pfn c)) (snd (body c s))"
    and "I (unat (start_pfn c)) s" "end_pfn c \<le> mx" "start_pfn c \<le> mx"
    "start_pfn c < mx \<longrightarrow> unat (pfn_cyclic info) dvd unat (start_pfn c) \<and> unat (end_pfn c) = min (unat (start_pfn c) + unat (pfn_cyclic info)) (unat mx)"
  shows "\<exists>c' s'. for_each_from info mx body c s = Some (c', s') \<and> I (unat mx) s'"
  using assms(4-7)
proof (induction "unat mx - unat (start_pfn c)" arbitrary: c s rule: less_induct)
  case less
  show ?case
  proof (cases "end_cycle mx c")
    case True
    with less.prems have "start_pfn c = mx" by (simp add: end_cycle_def)
    with True less.prems(1) show ?thesis by (auto simp: for_each_from.simps)
  next
    case False
    then have lt: "start_pfn c < mx" by (simp add: end_cycle_def)
    have p: "0 < unat (pfn_cyclic info)" using assms(1) by (simp add: word_less_nat_alt)
    have e: "unat (pfn_cyclic info) dvd unat (start_pfn c)" "unat (end_pfn c) = min (unat (start_pfn c) + unat (pfn_cyclic info)) (unat mx)" using less.prems(4) lt by auto
    then have se: "start_pfn c < end_pfn c" using lt p by (simp add: word_less_nat_alt)
    let ?b = "fst (body c s)" and ?s = "snd (body c s)"
    from step [OF se less.prems(2) e less.prems(1)] have b: "start_pfn ?b = start_pfn c" "end_pfn ?b = end_pfn c" "I (unat (end_pfn c)) ?s" by auto
    let ?c = "update_cycle info mx ?b"
    have unf: "for_each_from info mx body c s = for_each_from info mx body ?c ?s" using False by (simp add: for_each_from.simps)
    have st: "start_pfn ?c = end_pfn c" using b by (auto simp: update_cycle_def Let_def)
    have le: "end_pfn ?c \<le> mx" by (auto simp: update_cycle_def Let_def not_less)
    have "unat (pfn_cyclic info) dvd unat (end_pfn c) \<and> unat (end_pfn ?c) = min (unat (end_pfn c) + unat (pfn_cyclic info)) (unat mx)" if "end_pfn c < mx"
    proof
      have "unat (end_pfn c) < unat mx" using that by (simp add: word_less_nat_alt)
      with e show "unat (pfn_cyclic info) dvd unat (end_pfn c)" by (simp add: min_def split: if_splits)
      show "unat (end_pfn ?c) = min (unat (end_pfn c) + unat (pfn_cyclic info)) (unat mx)"
        using update_cycle_range(2) [OF _ assms(2), of ?b] that b by simp
    qed
    moreover have "unat mx - unat (start_pfn ?c) < unat mx - unat (start_pfn c)"
      using se lt by (simp add: st word_less_nat_alt)
    ultimately show ?thesis using less.hyps [of ?c ?s] b(3) le less.prems(2) unf by (simp add: st)
  qed
qed

lemma for_each_cycle_inv:
  assumes "0 < pfn_cyclic info" "unat mx + unat (pfn_cyclic info) < 2 ^ 64"
    and step: "\<And>c s. start_pfn c < end_pfn c \<Longrightarrow> end_pfn c \<le> mx \<Longrightarrow> unat (pfn_cyclic info) dvd unat (start_pfn c) \<Longrightarrow>
       unat (end_pfn c) = min (unat (start_pfn c) + unat (pfn_cyclic info)) (unat mx) \<Longrightarrow> I (unat (start_pfn c)) s \<Longrightarrow>
       start_pfn (fst (body c s)) = start_pfn c \<and> end_pfn (fst (body c s)) = end_pfn c \<and> I (unat (end_pfn c)) (snd (body c s))"
    and "I 0 s"
  shows "\<exists>c' s'. for_each_cycle info 0 mx body c s = Some (c', s') \<and> I (unat mx) s'"
proof -
  let ?c = "first_cycle info 0 mx c"
  have r: "round_c 0 y = 0" for y by (simp add: round_c_def)
  have s: "start_pfn ?c = 0" by (simp add: first_cycle_def r Let_def)
  have e: "unat (end_pfn ?c) = min (unat (pfn_cyclic info)) (unat mx)"
    by (auto simp: first_cycle_def r Let_def word_less_nat_alt)
  have le: "end_pfn ?c \<le> mx" using e by (simp add: word_le_nat_alt)
  show ?thesis unfolding for_each_cycle_def
    by (rule for_each_from_inv [where I = I, OF assms(1,2) step]) (use assms(4) s e le in simp_all)
qed

section \<open>Bitmaps and pages of all cycles\<close>

text \<open>The bitmaps are in front of the descriptors; writing them does not disturb the streams.\<close>

lemma dump_inv_below:
  assumes "dump_inv env dec h d z pages nh (length b + nd) st" "b \<noteq> []" "p + length b \<le> h"
  shows "\<exists>w'. write_buffer (of_nat p) b (ks_writer st) = Some (True, w') \<and> dump_inv env dec h d z pages nh nd (st\<lparr>ks_writer := w'\<rparr>) \<and>
     out w' = splice (out (ks_writer st)) p b"
proof -
  let ?ps = "unat (page_size env)" and ?w = "ks_writer st" and ?ch = "ks_header st" and ?cp = "ks_page st"
  from assms(1) obtain pds ds where
    s: "two_streams ?ps h d (concat (map pd_bytes pds)) ds nh (length b + nd) ?ch ?cp ?w" and
    rest: "length pds = length pages" "\<forall>k<length pages. stored dec ?ps d ds (pds ! k) (pages ! k)" "ks_offset_data st = of_nat (d + length ds)"
     "ke_dump_level env AND DL_EXCLUDE_ZERO \<noteq> 0 \<longrightarrow> stored dec ?ps d ds z (replicate ?ps 0)" by (auto simp: dump_inv_def)
  let ?hs = "concat (map pd_bytes pds)"
  have t: "stream ?ps h ?hs (length (pending ?cp) + nh + (length b + nd)) ?ch ?w" "stream ?ps d ds (length (pending ?ch) + nh + (length b + nd)) ?cp ?w"
    "h + length ?hs + nh \<le> d" "d + length ?hs + length ds + nh + (length b + nd) < 2 ^ 63" using s by (simp_all add: two_streams_def)
  have r: "\<not> is_stdout ?w" "ready (length b + (length (pending ?ch) + length (pending ?cp) + nh + nd)) ?w"
    using stream_device [OF t(1)] by (simp_all add: algebra_simps)
  have p: "p < 2 ^ 63" using assms(3) t(3,4) by linarith
  then have u: "unat (of_nat p :: u64) = p" by (intro unat_of_nat64) simp
  have "unat (of_nat p :: u64) < 2 ^ 63" unfolding u by (rule p)
  from write_buffer_file [OF r(2,1) this assms(2)] obtain w' where
    1: "write_buffer (of_nat p) b ?w = Some (True, w')" "ready (length (pending ?ch) + length (pending ?cp) + nh + nd) w'"
    "out w' = splice (out ?w) p b" "\<not> is_stdout w'" unfolding u .
  have k: "keeps p (length b) ?w w'" unfolding keeps_def 1(3) by (auto intro: holds_at_splice_other)
  have "stream ?ps h ?hs (length (pending ?cp) + nh + nd) ?ch w'" "stream ?ps d ds (length (pending ?ch) + nh + nd) ?cp w'"
    using assms(3) t(3) 1(2,4) by (auto intro!: stream_other [OF t(1) k] stream_other [OF t(2) k] simp: algebra_simps)
  with t(3,4) rest have "dump_inv env dec h d z pages nh nd (st\<lparr>ks_writer := w'\<rparr>)"
    unfolding dump_inv_def two_streams_def by (intro exI [of _ pds] exI [of _ ds]) simp
  with 1(1,3) show ?thesis by blast
qed

definition bytes_of :: "nat \<Rightarrow> nat" where
  "bytes_of k = (k + 7) div 8"

lemma bytes_of_mono: "a \<le> b \<Longrightarrow> bytes_of a \<le> bytes_of b"
  by (simp add: bytes_of_def div_le_mono)

lemma bytes_of_dvd: "8 dvd k \<Longrightarrow> bytes_of k = k div 8"
  by (auto simp: bytes_of_def)

lemma bytes_of_diff: "8 dvd a \<Longrightarrow> a \<le> b \<Longrightarrow> bytes_of b = a div 8 + bytes_of (b - a)"
  by (auto simp: bytes_of_def elim!: dvdE)

lemma bitmap_increment_bytes:
  assumes "start_pfn c \<le> end_pfn c" "unat (end_pfn c) + 7 < 2 ^ 64"
  shows "bitmap_increment c = bytes_of (unat (end_pfn c) - unat (start_pfn c))"
proof -
  have "unat (end_pfn c - start_pfn c) = unat (end_pfn c) - unat (start_pfn c)" using assms(1) by (rule unat_minus64)
  moreover have "unat (end_pfn c - start_pfn c + (BITPERBYTE - 1)) = unat (end_pfn c - start_pfn c) + 7"
    using assms(2) \<open>unat (end_pfn c - start_pfn c) = _\<close> by (subst unat_plus64) (simp_all add: BITPERBYTE_def)
  ultimately show ?thesis by (simp add: bitmap_increment_def divideup_def unat_div64 bytes_of_def BITPERBYTE_def)
qed

text \<open>The bits of the next frames are appended to the bitmap in the file.\<close>

lemma nbit_append:
  assumes "8 dvd s" "length bs = s div 8" "\<forall>i < s. nbit bs i = dmp i" "\<forall>i. s \<le> i \<and> i < e \<longrightarrow> nbit b (i - s) = dmp i"
    "n = bytes_of (e - s)" "n \<le> length b"
  shows "\<forall>i<e. nbit (bs @ take n b) i = dmp i"
proof (intro allI impI)
  fix i assume i: "i < e"
  obtain q where q: "s = 8 * q" using assms(1) by (elim dvdE)
  show "nbit (bs @ take n b) i = dmp i"
  proof (cases "i < s")
    case True
    with assms(2,3) q show ?thesis by (simp add: nbit_def nth_append less_mult_imp_div_less mult.commute)
  next
    case False
    then obtain j where j: "i = s + j" using le_Suc_ex not_le by blast
    have "j div 8 < n" using i j assms(5) by (auto simp: bytes_of_def)
    then have "nbit (bs @ take n b) i = nbit b j" using assms(2,6) q j by (simp add: nbit_def nth_append)
    with spec [OF assms(4), of i] i j show ?thesis by simp
  qed
qed

lemma filter_pages_part:
  assumes "filter_pages env (frames dmp 0 m) er0 = Some (all, er)" "s \<le> e" "e \<le> m" "filter_pages env (frames dmp 0 s) er0 = Some (pgs, er1)"
  obtains pgs' er2 where "filter_pages env (frames dmp s e) er1 = Some (pgs', er2)" "filter_pages env (frames dmp 0 e) er0 = Some (pgs @ pgs', er2)"
    "length pgs + length pgs' \<le> length all"
proof -
  have "frames dmp 0 m = (frames dmp 0 s @ frames dmp s e) @ frames dmp e m"
    using frames_append [of 0 s e dmp] frames_append [of 0 e m dmp] assms(2,3) by simp
  then have "filter_pages env ((frames dmp 0 s @ frames dmp s e) @ frames dmp e m) er0 = Some (all, er)" using assms(1) by simp
  then obtain bs er2 cs where 1: "filter_pages env (frames dmp 0 s @ frames dmp s e) er0 = Some (bs, er2)" "all = bs @ cs"
    by (subst (asm) filter_pages_append) (auto split: option.splits)
  then obtain pgs' where 2: "filter_pages env (frames dmp s e) er1 = Some (pgs', er2)" "bs = pgs @ pgs'"
    by (subst (asm) filter_pages_append) (auto simp: assms(4) split: option.splits)
  moreover have "frames dmp 0 s @ frames dmp s e = frames dmp 0 e" using frames_append [of 0 s e dmp] assms(2) by simp
  ultimately show thesis using that 1 by simp
qed

text \<open>
  In cyclic mode the bitmaps are buffers of \<open>bufsize_cyclic\<close> bytes. What the argument for \<^verbatim>\<open>create_2nd_bitmap\<close> does: it sets the
  bits of the frames of the cycle to \<open>dmp\<close>; the one for \<^verbatim>\<open>create_1st_bitmap\<close> fills the first buffer with any bits.
\<close>

definition buffer_bm :: "kdump_env \<Rightarrow> dump_bitmap \<Rightarrow> bool" where
  "buffer_bm env bm \<longleftrightarrow> fd bm < 0 \<and> length (buf bm) = bufsize_cyclic env"

definition fills_2nd :: "kdump_env \<Rightarrow> (nat \<Rightarrow> bool) \<Rightarrow> fill_bitmap \<Rightarrow> bool" where
  "fills_2nd env dmp mk \<longleftrightarrow> (\<forall>c bms. buffer_bm env (bitmap2 bms) \<longrightarrow> unat (end_pfn c) - unat (start_pfn c) \<le> 8 * bufsize_cyclic env \<longrightarrow>
     (\<exists>c' bms'. mk c bms = Some (True, c', bms') \<and> start_pfn c' = start_pfn c \<and> end_pfn c' = end_pfn c \<and> buffer_bm env (bitmap2 bms') \<and>
       (\<forall>i. unat (start_pfn c) \<le> i \<and> i < unat (end_pfn c) \<longrightarrow> nbit (buf (bitmap2 bms')) (i - unat (start_pfn c)) = dmp i)))"

definition fills_1st :: "kdump_env \<Rightarrow> fill_bitmap \<Rightarrow> bool" where
  "fills_1st env mk \<longleftrightarrow> (\<forall>c bms. buffer_bm env (bitmap1 bms) \<longrightarrow> unat (end_pfn c) - unat (start_pfn c) \<le> 8 * bufsize_cyclic env \<longrightarrow>
     (\<exists>c' bms'. mk c bms = Some (True, c', bms') \<and> start_pfn c' = start_pfn c \<and> end_pfn c' = end_pfn c \<and> buffer_bm env (bitmap1 bms')))"

text \<open>Sizes: a cycle fills the buffer, the length of the bitmaps is known, they fit in front of the descriptors.\<close>

definition cyclic_ok :: "kdump_env \<Rightarrow> nat \<Rightarrow> nat \<Rightarrow> bool" where
  "cyclic_ok env B h \<longleftrightarrow> ke_flag_cyclic env \<and> set_len_bitmap env = env \<and> \<not> flag_elf_dumpfile (ke_cyclic env) \<and> ke_split env = None \<and> fd_bitmap env < 0 \<and>
     0 < bufsize_cyclic env \<and> bufsize_cyclic env < 2 ^ 31 \<and> unat (pfn_cyclic (ke_cyclic env)) = 8 * bufsize_cyclic env \<and>
     unat (max_mapnr env) + unat (pfn_cyclic (ke_cyclic env)) < 2 ^ 64 \<and>
     bytes_of (unat (max_mapnr env)) \<le> len_bitmap env div 2 \<and> B + len_bitmap env div 2 + len_bitmap env div 2 \<le> h \<and> h < 2 ^ 63"

text \<open>After the frames below \<open>k\<close>.\<close>

definition pages_inv ::
  "kdump_env \<Rightarrow> decoder \<Rightarrow> nat \<Rightarrow> nat \<Rightarrow> nat \<Rightarrow> page_desc \<Rightarrow> (nat \<Rightarrow> bool) \<Rightarrow> erase_state \<Rightarrow> nat \<Rightarrow> nat \<Rightarrow> kdump_state \<Rightarrow> bool" where
  "pages_inv env dec B h d z dmp er0 N k st \<longleftrightarrow>
     (\<exists>pgs. filter_pages env (frames dmp 0 k) er0 = Some (pgs, ks_erase st) \<and> length pgs \<le> N \<and>
        dump_inv env dec h d z pgs (24 * (N - length pgs))
          (unat (page_size env) * (N - length pgs) + (bytes_of (unat (max_mapnr env)) - bytes_of k)) st) \<and>
     ks_offset_bitmap1 st = of_nat (B + bytes_of k) \<and> buffer_bm env (bitmap2 (ks_bitmaps st)) \<and>
     (\<exists>bs. length bs = bytes_of k \<and> holds_at (out (ks_writer st)) (B + len_bitmap env div 2) bs \<and> (\<forall>i<k. nbit bs i = dmp i))"

lemma cycle_bounds:
  assumes "cyclic_ok env B h" "start_pfn c < end_pfn c" "end_pfn c \<le> max_mapnr env" "unat (pfn_cyclic (ke_cyclic env)) dvd unat (start_pfn c)"
    "unat (end_pfn c) = min (unat (start_pfn c) + unat (pfn_cyclic (ke_cyclic env))) (unat (max_mapnr env))"
  defines "s \<equiv> unat (start_pfn c)" and "e \<equiv> unat (end_pfn c)"
  shows "8 dvd s" "s < e" "e \<le> unat (max_mapnr env)" "e - s \<le> 8 * bufsize_cyclic env" "bitmap_increment c = bytes_of (e - s)"
    "bitmap_increment c \<le> bufsize_cyclic env" "0 < bitmap_increment c" "bytes_of e = s div 8 + bitmap_increment c"
    "bytes_of e \<le> bytes_of (unat (max_mapnr env))" "bytes_of s = s div 8"
proof -
  have P: "unat (pfn_cyclic (ke_cyclic env)) = 8 * bufsize_cyclic env" "unat (max_mapnr env) + unat (pfn_cyclic (ke_cyclic env)) < 2 ^ 64" "0 < bufsize_cyclic env"
    using assms(1) by (simp_all add: cyclic_ok_def)
  show d: "8 dvd s" using assms(4) unfolding P(1) s_def by (meson dvd_mult_left)
  show se: "s < e" using assms(2) by (simp add: s_def e_def word_less_nat_alt)
  show em: "e \<le> unat (max_mapnr env)" using assms(3) by (simp add: e_def word_le_nat_alt)
  show es: "e - s \<le> 8 * bufsize_cyclic env" using assms(5) P(1) by (simp add: s_def e_def)
  have "unat (end_pfn c) + 7 < 2 ^ 64" using em P by (simp add: e_def)
  with assms(2) show i: "bitmap_increment c = bytes_of (e - s)" by (simp add: bitmap_increment_bytes s_def e_def)
  show "bitmap_increment c \<le> bufsize_cyclic env" unfolding i using es by (simp add: bytes_of_def)
  show "0 < bitmap_increment c" unfolding i using se by (simp add: bytes_of_def)
  show "bytes_of e = s div 8 + bitmap_increment c" unfolding i using bytes_of_diff [OF d] se by simp
  show "bytes_of e \<le> bytes_of (unat (max_mapnr env))" using em by (rule bytes_of_mono)
  show "bytes_of s = s div 8" using d by (rule bytes_of_dvd)
qed

lemma dump_inv_upd [simp]:
  "dump_inv env dec h d z pages nh nd (st\<lparr>ks_bitmaps := b\<rparr>) = dump_inv env dec h d z pages nh nd st"
  "dump_inv env dec h d z pages nh nd (st\<lparr>ks_offset_bitmap1 := o'\<rparr>) = dump_inv env dec h d z pages nh nd st"
  "dump_inv env dec h d z pages nh nd (st\<lparr>ks_pfn_zero := pz\<rparr>) = dump_inv env dec h d z pages nh nd st"
  by (simp_all add: dump_inv_def)

lemma pages_step_inv:
  assumes ok: "page_size_ok env" "codec_ok (ke_encoder env) dec" "reads_pages env" "cyclic_ok env B h" "fills_2nd env dmp mk"
    and c: "start_pfn c < end_pfn c" "end_pfn c \<le> max_mapnr env" "unat (pfn_cyclic (ke_cyclic env)) dvd unat (start_pfn c)"
    "unat (end_pfn c) = min (unat (start_pfn c) + unat (pfn_cyclic (ke_cyclic env))) (unat (max_mapnr env))"
    and total: "filter_pages env (frames dmp 0 (unat (max_mapnr env))) er0 = Some (all, er)" "length all = N"
    and inv: "pages_inv env dec B h d z dmp er0 N (unat (start_pfn c)) st"
  shows "\<exists>c' st'. cycle_step env mk (pages_step env z) c (Some (True, st)) = (c', Some (True, st')) \<and> start_pfn c' = start_pfn c \<and>
     end_pfn c' = end_pfn c \<and> pages_inv env dec B h d z dmp er0 N (unat (end_pfn c)) st'"
proof -
  let ?s = "unat (start_pfn c)" and ?e = "unat (end_pfn c)" and ?ps = "unat (page_size env)" and ?n = "bitmap_increment c"
  let ?M = "bytes_of (unat (max_mapnr env))" and ?B2 = "B + len_bitmap env div 2"
  note cb = cycle_bounds [OF ok(4) c]
  have cy: "ke_flag_cyclic env" "\<not> flag_elf_dumpfile (ke_cyclic env)" "ke_split env = None" "?M \<le> len_bitmap env div 2"
    "?B2 + len_bitmap env div 2 \<le> h" "bufsize_cyclic env < 2 ^ 31" using ok(4) by (simp_all add: cyclic_ok_def)
  from inv obtain pgs bs where I: "filter_pages env (frames dmp 0 ?s) er0 = Some (pgs, ks_erase st)" "length pgs \<le> N"
    "dump_inv env dec h d z pgs (24 * (N - length pgs)) (?ps * (N - length pgs) + (?M - bytes_of ?s)) st"
    "ks_offset_bitmap1 st = of_nat (B + bytes_of ?s)" "buffer_bm env (bitmap2 (ks_bitmaps st))"
    "length bs = bytes_of ?s" "holds_at (out (ks_writer st)) ?B2 bs" "\<forall>i<?s. nbit bs i = dmp i" by (auto simp: pages_inv_def)
  from ok(5) I(5) cb(4) obtain c' bms where m: "mk c (ks_bitmaps st) = Some (True, c', bms)" "start_pfn c' = start_pfn c" "end_pfn c' = end_pfn c"
    "buffer_bm env (bitmap2 bms)" "\<forall>i. ?s \<le> i \<and> i < ?e \<longrightarrow> nbit (buf (bitmap2 bms)) (i - ?s) = dmp i"
    unfolding fills_2nd_def by blast
  have lb: "fd (bitmap2 bms) < 0" "length (buf (bitmap2 bms)) = bufsize_cyclic env" using m(4) by (simp_all add: buffer_bm_def)
  have n': "bitmap_increment c' = ?n" using m(2,3) by (simp add: bitmap_increment_def)
  let ?st1 = "st\<lparr>ks_bitmaps := bms\<rparr>" and ?b = "take ?n (buf (bitmap2 bms))"
  have len: "length ?b = ?n" using lb cb(6) by simp
  then have ne: "?b \<noteq> []" using cb(7) by auto
  have split: "?ps * (N - length pgs) + (?M - bytes_of ?s) = length ?b + (?ps * (N - length pgs) + (?M - bytes_of ?e))"
    using len cb(8-10) by simp
  have lim: "?B2 + bytes_of ?s + length ?b \<le> h" using len cb(8-10) cy(4,5) by linarith
  have D1: "dump_inv env dec h d z pgs (24 * (N - length pgs)) (length ?b + (?ps * (N - length pgs) + (?M - bytes_of ?e))) ?st1"
    using I(3) unfolding split by simp
  from dump_inv_below [OF D1 ne lim] obtain w where w: "write_buffer (of_nat (?B2 + bytes_of ?s)) ?b (ks_writer st) = Some (True, w)"
    "dump_inv env dec h d z pgs (24 * (N - length pgs)) (?ps * (N - length pgs) + (?M - bytes_of ?e)) (?st1\<lparr>ks_writer := w\<rparr>)"
    "out w = splice (out (ks_writer st)) (?B2 + bytes_of ?s) ?b" by auto
  let ?st2 = "?st1\<lparr>ks_writer := w, ks_offset_bitmap1 := ks_offset_bitmap1 st + of_nat ?n\<rparr>"
  have wb: "write_kdump_bitmap2 env c' ?st1 = Some (True, ?st2)"
    using w(1) lb cy(2) cb(6) by (simp add: write_kdump_bitmap2_def write_kdump_bitmap2_buffer_def n' I(4) Let_def add_ac)
  from filter_pages_part [OF total(1) _ cb(3) I(1)] cb(2) obtain pgs' er2 where
    f: "filter_pages env (frames dmp ?s ?e) (ks_erase st) = Some (pgs', er2)" "filter_pages env (frames dmp 0 ?e) er0 = Some (pgs @ pgs', er2)"
    "length pgs + length pgs' \<le> N" using total(2) by (metis less_imp_le)
  define m' where "m' = N - length pgs - length pgs'"
  have N: "N - length pgs = length pgs' + m'" "N - length (pgs @ pgs') = m'" using f(3) by (simp_all add: m'_def)
  have D2: "dump_inv env dec h d z pgs (24 * length pgs' + 24 * m') (?ps * length pgs' + (?ps * m' + (?M - bytes_of ?e))) ?st2"
    using w(2) unfolding N(1) by (simp add: algebra_simps)
  have A: "answers 0 c' dmp (bitmap2 (ks_bitmaps ?st2)) (bmfile (ks_bitmaps ?st2))"
    using m(5) lb cb(4) cy(6) by (simp add: answers_def bm_ok_def pbit_def m(2,3))
  have le: "start_pfn c' \<le> end_pfn c'" using c(1) m by simp
  have F: "filter_pages env (frames dmp (unat (start_pfn c')) (unat (end_pfn c'))) (ks_erase ?st2) = Some (pgs', er2)" using f(1) m by simp
  from write_kdump_pages_cyclic_step [OF ok(1-3) cy(2,3) D2 A le F refl] obtain st3 where
    3: "write_kdump_pages_cyclic env z c' ?st2 = Some (True, st3)"
    "dump_inv env dec h d z (pgs @ pgs') (24 * m') (?ps * m' + (?M - bytes_of ?e)) st3" "ks_erase st3 = er2"
    "ks_offset_bitmap1 st3 = ks_offset_bitmap1 ?st2" "keeps_below h w (ks_writer st3)"
    "ks_bitmaps st3 = bms" using lb(1) by auto
  have h0: "holds_at (out (ks_writer st3)) ?B2 (bs @ ?b)"
  proof -
    have "holds_at (out w) ?B2 bs" unfolding w(3) using I(6,7) by (intro holds_at_splice_other) auto
    moreover have "holds_at (out w) (?B2 + length bs) ?b" unfolding w(3) I(6) by (rule holds_at_splice)
    ultimately have "holds_at (out w) ?B2 (bs @ ?b)" by (simp add: holds_at_append)
    moreover have "?B2 + length (bs @ ?b) \<le> h" using lim I(6) by simp
    ultimately show ?thesis using 3(5) unfolding keeps_below_def by blast
  qed
  have bits: "\<forall>i<?e. nbit (bs @ ?b) i = dmp i"
    using nbit_append [OF cb(1) _ I(8) m(5) cb(5)] I(6) cb(6,10) lb(2) by simp
  have "pages_inv env dec B h d z dmp er0 N ?e st3"
    unfolding pages_inv_def
  proof (intro conjI exI [of _ "pgs @ pgs'"] exI [of _ "bs @ ?b"])
    show "filter_pages env (frames dmp 0 ?e) er0 = Some (pgs @ pgs', ks_erase st3)" using f(2) 3(3) by simp
    show "length (pgs @ pgs') \<le> N" using f(3) by simp
    show "dump_inv env dec h d z (pgs @ pgs') (24 * (N - length (pgs @ pgs'))) (?ps * (N - length (pgs @ pgs')) + (?M - bytes_of ?e)) st3"
      unfolding N(2) by (rule 3(2))
    show "ks_offset_bitmap1 st3 = of_nat (B + bytes_of ?e)" using 3(4) I(4) cb(8,10) by (simp add: add.assoc)
    show "length (bs @ ?b) = bytes_of ?e" using len I(6) cb(8,10) by simp
  qed (use 3(6) m(4) h0 bits in simp_all)
  moreover have "cycle_step env mk (pages_step env z) c (Some (True, st)) = (c', Some (True, st3))"
    using cy(1) m(1) wb 3(1) by (simp add: cycle_step_def pages_step_def)
  ultimately show ?thesis using m(2,3) by blast
qed

text \<open>The first bitmap.\<close>

definition first_inv :: "kdump_env \<Rightarrow> decoder \<Rightarrow> nat \<Rightarrow> nat \<Rightarrow> nat \<Rightarrow> page_desc \<Rightarrow> erase_state \<Rightarrow> nat \<Rightarrow> nat \<Rightarrow> nat \<Rightarrow> kdump_state \<Rightarrow> bool" where
  "first_inv env dec B h d z er0 nh nd k st \<longleftrightarrow> dump_inv env dec h d z [] nh (nd + (bytes_of (unat (max_mapnr env)) - bytes_of k)) st \<and>
     ks_offset_bitmap1 st = of_nat B \<and> ks_erase st = er0 \<and> buffer_bm env (bitmap1 (ks_bitmaps st))"

lemma first_step_inv:
  assumes ok: "cyclic_ok env B h" "fills_1st env mk"
    and c: "start_pfn c < end_pfn c" "end_pfn c \<le> max_mapnr env" "unat (pfn_cyclic (ke_cyclic env)) dvd unat (start_pfn c)"
    "unat (end_pfn c) = min (unat (start_pfn c) + unat (pfn_cyclic (ke_cyclic env))) (unat (max_mapnr env))"
    and inv: "first_inv env dec B h d z er0 nh nd (unat (start_pfn c)) st"
  shows "\<exists>c' st'. cycle_step env mk (write_kdump_bitmap1 env) c (Some (True, st)) = (c', Some (True, st')) \<and> start_pfn c' = start_pfn c \<and>
     end_pfn c' = end_pfn c \<and> first_inv env dec B h d z er0 nh nd (unat (end_pfn c)) st'"
proof -
  let ?s = "unat (start_pfn c)" and ?e = "unat (end_pfn c)" and ?n = "bitmap_increment c" and ?M = "bytes_of (unat (max_mapnr env))"
  note cb = cycle_bounds [OF ok(1) c]
  have cy: "ke_flag_cyclic env" "\<not> flag_elf_dumpfile (ke_cyclic env)" "?M \<le> len_bitmap env div 2"
    "B + len_bitmap env div 2 + len_bitmap env div 2 \<le> h" "unat (pfn_cyclic (ke_cyclic env)) = 8 * bufsize_cyclic env" "0 < bufsize_cyclic env"
    using ok(1) by (simp_all add: cyclic_ok_def)
  have I: "dump_inv env dec h d z [] nh (nd + (?M - bytes_of ?s)) st" "ks_offset_bitmap1 st = of_nat B" "ks_erase st = er0"
    "buffer_bm env (bitmap1 (ks_bitmaps st))" using inv by (simp_all add: first_inv_def)
  from ok(2) I(4) cb(4) obtain c' bms where m: "mk c (ks_bitmaps st) = Some (True, c', bms)" "start_pfn c' = start_pfn c" "end_pfn c' = end_pfn c"
    "buffer_bm env (bitmap1 bms)" unfolding fills_1st_def by blast
  have lb: "fd (bitmap1 bms) < 0" "length (buf (bitmap1 bms)) = bufsize_cyclic env" using m(4) by (simp_all add: buffer_bm_def)
  have n': "bitmap_increment c' = ?n" using m(2,3) by (simp add: bitmap_increment_def)
  let ?st1 = "st\<lparr>ks_bitmaps := bms\<rparr>" and ?b = "take ?n (buf (bitmap1 bms))"
  have len: "length ?b = ?n" using lb cb(6) by simp
  then have ne: "?b \<noteq> []" using cb(7) by auto
  have "bufsize_cyclic env * (?s div (8 * bufsize_cyclic env)) = ?s div 8"
    using c(3) cy(6) unfolding cy(5) by (auto elim!: dvdE)
  moreover have "start_pfn c div pfn_cyclic (ke_cyclic env) = of_nat (?s div (8 * bufsize_cyclic env))"
  proof -
    have "?s div (8 * bufsize_cyclic env) \<le> ?s" "?s < 2 ^ 64" by simp_all
    then have "unat (of_nat (?s div (8 * bufsize_cyclic env)) :: u64) = ?s div (8 * bufsize_cyclic env)"
      by (intro unat_of_nat64) linarith
    then show ?thesis by (simp add: word_unat_eq_iff unat_div64 cy(5))
  qed
  ultimately have a: "of_nat (bufsize_cyclic env) * (start_pfn c div pfn_cyclic (ke_cyclic env)) = (of_nat (?s div 8) :: u64)"
    by (metis of_nat_mult)
  have split: "nd + (?M - bytes_of ?s) = length ?b + (nd + (?M - bytes_of ?e))" using len cb(8-10) by simp
  have lim: "B + ?s div 8 + length ?b \<le> h" using len cb(8-10) cy(3,4) by linarith
  have D1: "dump_inv env dec h d z [] nh (length ?b + (nd + (?M - bytes_of ?e))) ?st1" using I(1) unfolding split by simp
  from dump_inv_below [OF D1 ne lim] obtain w where w: "write_buffer (of_nat (B + ?s div 8)) ?b (ks_writer st) = Some (True, w)"
    "dump_inv env dec h d z [] nh (nd + (?M - bytes_of ?e)) (?st1\<lparr>ks_writer := w\<rparr>)" by auto
  have wb: "write_kdump_bitmap1 env c' ?st1 = Some (True, ?st1\<lparr>ks_writer := w\<rparr>)"
    using w(1) lb cy(2) cb(6) by (simp add: write_kdump_bitmap1_def write_kdump_bitmap1_buffer_def n' m(2) a I(2) Let_def)
  have "cycle_step env mk (write_kdump_bitmap1 env) c (Some (True, st)) = (c', Some (True, ?st1\<lparr>ks_writer := w\<rparr>))"
    using cy(1) m(1) wb by (simp add: cycle_step_def)
  moreover have "first_inv env dec B h d z er0 nh nd ?e (?st1\<lparr>ks_writer := w\<rparr>)"
    using w(2) I(2,3) m(4) by (simp add: first_inv_def)
  ultimately show ?thesis using m(2,3) by blast
qed

lemma cycles_inv:
  assumes "cyclic_ok env B h"
    and step: "\<And>c st. start_pfn c < end_pfn c \<Longrightarrow> end_pfn c \<le> max_mapnr env \<Longrightarrow> unat (pfn_cyclic (ke_cyclic env)) dvd unat (start_pfn c) \<Longrightarrow>
       unat (end_pfn c) = min (unat (start_pfn c) + unat (pfn_cyclic (ke_cyclic env))) (unat (max_mapnr env)) \<Longrightarrow> J (unat (start_pfn c)) st \<Longrightarrow>
       \<exists>c' st'. cycle_step env mk body c (Some (True, st)) = (c', Some (True, st')) \<and> start_pfn c' = start_pfn c \<and> end_pfn c' = end_pfn c \<and>
         J (unat (end_pfn c)) st'"
    and "J 0 st"
  shows "\<exists>st'. cycles env mk body st = Some (True, st') \<and> J (unat (max_mapnr env)) st'"
proof -
  let ?I = "\<lambda>k r. \<exists>st. r = Some (True, st) \<and> J k st"
  have p: "0 < pfn_cyclic (ke_cyclic env)" "unat (max_mapnr env) + unat (pfn_cyclic (ke_cyclic env)) < 2 ^ 64"
    using assms(1) by (simp_all add: cyclic_ok_def word_less_nat_alt)
  let ?c0 = "\<lparr>start_pfn = 0, end_pfn = 0, exclude_pfn_start = 0, exclude_pfn_end = 0, exclude_pfn_counter = None\<rparr>"
  have "\<exists>c' s'. for_each_cycle (ke_cyclic env) 0 (max_mapnr env) (cycle_step env mk body) ?c0 (Some (True, st)) = Some (c', s') \<and> ?I (unat (max_mapnr env)) s'"
  proof (rule for_each_cycle_inv [where I = ?I, OF p])
    fix c :: cycle and s
    assume c: "start_pfn c < end_pfn c" "end_pfn c \<le> max_mapnr env" "unat (pfn_cyclic (ke_cyclic env)) dvd unat (start_pfn c)"
       "unat (end_pfn c) = min (unat (start_pfn c) + unat (pfn_cyclic (ke_cyclic env))) (unat (max_mapnr env))" "?I (unat (start_pfn c)) s"
    then obtain st where s: "s = Some (True, st)" "J (unat (start_pfn c)) st" by blast
    from step [OF c(1-4) s(2)] show "start_pfn (fst (cycle_step env mk body c s)) = start_pfn c \<and> end_pfn (fst (cycle_step env mk body c s)) = end_pfn c \<and>
       ?I (unat (end_pfn c)) (snd (cycle_step env mk body c s))" unfolding s(1) by auto
  qed (use assms(3) in blast)
  then show ?thesis by (auto simp: cycles_def)
qed

text \<open>The beginning and the end.\<close>

definition fresh_cd :: "nat \<Rightarrow> cache_data \<Rightarrow> bool" where
  "fresh_cd ps cd \<longleftrightarrow> buf_size cd = 0 \<and> 0 < cache_size cd \<and> ps \<le> cache_size cd \<and> cache_size cd + ps \<le> length (cd_buf cd)"

lemma prepare_fresh: "0 < ps \<Longrightarrow> ps * 2 ^ k + ps \<le> length mem \<Longrightarrow> fresh_cd ps (prepare_cache_data ps k off mem)"
  by (simp add: fresh_cd_def prepare_cache_data_def)

lemma unat_ucast_small: "unat (x :: u64) < 2 ^ 32 \<Longrightarrow> unat (ucast x :: u32) = unat x"
  by (simp add: unsigned_ucast_eq take_bit_nat_eq_self_iff)

lemma start_data_inv:
  fixes h d :: nat
  assumes "page_size_ok env" "fresh_cd (unat (page_size env)) (ks_header st)" "fresh_cd (unat (page_size env)) (ks_page st)"
    "\<not> is_stdout (ks_writer st)" "h = unat (kd_desc_offset (ke_header env))" "N = unat (ke_num_dumpable env)" "d = h + 24 * N"
    "ready (24 * N + (unat (page_size env) + nd)) (ks_writer st)" "d + 24 * N + (unat (page_size env) + nd) < 2 ^ 63"
    "z = pd_zero env (kd_desc_offset (ke_header env) + of_nat sizeof_page_desc * ke_num_dumpable env)"
  shows "\<exists>st'. start_data env st = Some (True, st') \<and> dump_inv env dec h d z [] (24 * N) nd st' \<and> same_rest st st'"
proof -
  let ?ps = "unat (page_size env)" and ?ch = "(ks_header st)\<lparr>cd_offset := of_nat h\<rparr>" and ?cp = "(ks_page st)\<lparr>cd_offset := of_nat d\<rparr>"
  have ps: "24 \<le> ?ps" "?ps < 2 ^ 32" using assms(1) by (simp_all add: page_size_ok_def)
  have hw: "kd_desc_offset (ke_header env) = of_nat h" "of_nat h + of_nat sizeof_page_desc * ke_num_dumpable env = of_nat d"
    by (simp_all add: assms(5-7) sizeof_page_desc_def)
  have pend: "pending ?ch = []" "pending ?cp = []" using assms(2,3) by (simp_all add: pending_def fresh_cd_def)
  have S: "two_streams ?ps h d [] [] (24 * N) (?ps + nd) ?ch ?cp (ks_writer st)"
    using assms(2-4,7-9) ready_mono [OF assms(8)] unfolding two_streams_def stream_def pend by (simp add: fresh_cd_def)
  let ?st1 = "st\<lparr>ks_header := ?ch, ks_page := ?cp, ks_offset_data := of_nat d\<rparr>"
  show ?thesis
  proof (cases "ke_dump_level env AND DL_EXCLUDE_ZERO \<noteq> 0")
    case False
    have "start_data env st = Some (True, ?st1)" unfolding start_data_def Let_def hw if_not_P [OF False] ..
    moreover have "dump_inv env dec h d z [] (24 * N) nd ?st1"
      unfolding dump_inv_def using two_streams_weaken [OF S, of nd] False by (intro exI [of _ "[]"]) auto
    ultimately show ?thesis by (auto simp: same_rest_def)
  next
    case True
    let ?zp = "replicate ?ps 0 :: u8 list"
    have "two_streams ?ps h d [] [] (24 * N) (length ?zp + nd) ?ch ?cp (ks_writer st)" using S by simp
    from two_put_page [OF this] obtain cdp w where
      1: "write_cache ?cp ?zp (ks_writer st) = Some (True, cdp, w)" "two_streams ?ps h d [] ([] @ ?zp) (24 * N) nd ?ch cdp w"
      by (metis length_replicate order_refl)
    let ?st2 = "?st1\<lparr>ks_page := cdp, ks_writer := w, ks_offset_data := of_nat d + page_size env\<rparr>"
    have "start_data env st = Some (True, ?st2)"
      unfolding start_data_def Let_def hw if_P [OF True] using 1(1) by simp
    moreover have "stored dec ?ps d ?zp z ?zp"
      unfolding stored_def using ps unat_ucast_small [of "page_size env"]
      by (intro exI [of _ 0] exI [of _ ?zp]) (auto simp: assms(10) pd_zero_def hw holds_at_def kd_decode_def splice_all)
    then have "dump_inv env dec h d z [] (24 * N) nd ?st2"
      unfolding dump_inv_def using 1(2) by (intro exI [of _ "[]"] exI [of _ ?zp]) simp
    ultimately show ?thesis by (auto simp: same_rest_def)
  qed
qed

lemma flush_both_inv:
  assumes "dump_inv env dec h d z pages nh nd st"
  shows "\<exists>st' pds ds. flush_both st = Some (True, st') \<and> holds_at (out (ks_writer st')) h (concat (map pd_bytes pds)) \<and>
     holds_at (out (ks_writer st')) d ds \<and> length pds = length pages \<and>
     (\<forall>k<length pages. stored dec (unat (page_size env)) d ds (pds ! k) (pages ! k)) \<and>
     keeps_below h (ks_writer st) (ks_writer st') \<and> ks_erase st' = ks_erase st \<and> d + length ds < 2 ^ 63 \<and> h \<le> d"
proof -
  let ?ps = "unat (page_size env)"
  from assms obtain pds ds where
    s: "two_streams ?ps h d (concat (map pd_bytes pds)) ds nh nd (ks_header st) (ks_page st) (ks_writer st)" and
    r: "length pds = length pages" "\<forall>k<length pages. stored dec ?ps d ds (pds ! k) (pages ! k)" by (auto simp: dump_inv_def)
  let ?hs = "concat (map pd_bytes pds)"
  from two_flush_page [OF s] obtain w1 where 1: "write_cache_bufsz (ks_page st) (ks_writer st) = Some (True, flushed (ks_page st), w1)"
    "two_streams ?ps h d ?hs ds nh nd (ks_header st) (flushed (ks_page st)) w1" "keeps d (length ds) (ks_writer st) w1" "holds_at (out w1) d ds" by metis
  from two_flush_header [OF 1(2)] obtain w2 where 2: "write_cache_bufsz (ks_header st) w1 = Some (True, flushed (ks_header st), w2)"
    "keeps h (length ?hs) w1 w2" "holds_at (out w2) h ?hs" by metis
  have b: "h + length ?hs \<le> d" "d + length ds < 2 ^ 63" using s by (auto simp: two_streams_def)
  have "holds_at (out w2) d ds" using 2(2) 1(4) b(1) unfolding keeps_def by blast
  moreover have "keeps_below h (ks_writer st) w2"
    using keeps_below_trans [OF keeps_imp_below [OF 1(3)] keeps_imp_below [OF 2(2)]] b by simp
  ultimately show ?thesis using 1(1) 2(1,3) r b
    by (intro exI [of _ "st\<lparr>ks_page := flushed (ks_page st), ks_header := flushed (ks_header st), ks_writer := w2\<rparr>"] exI [of _ pds] exI [of _ ds])
      (simp add: flush_both_def)
qed

text \<open>
  Everything a dump needs: the bitmaps in memory are filled by the arguments, the frames are \<open>num_dumpable\<close> many and can
  be read and filtered to \<open>pages\<close>, the buffers are empty, and the device takes all the bytes.
\<close>

definition kdump_ok ::
  "kdump_env \<Rightarrow> (nat \<Rightarrow> bool) \<Rightarrow> fill_bitmap \<Rightarrow> fill_bitmap \<Rightarrow> u8 list list \<Rightarrow> kdump_state \<Rightarrow> bool" where
  "kdump_ok env dmp mk1 mk2 pages st \<longleftrightarrow> (let h = unat (kd_desc_offset (ke_header env)); N = unat (ke_num_dumpable env); ps = unat (page_size env);
       total = 24 * N + (ps + (ps * N + 2 * bytes_of (unat (max_mapnr env)))) in
     page_size_ok env \<and> reads_pages env \<and> cyclic_ok env (unat (ks_offset_bitmap1 st)) h \<and> fills_1st env mk1 \<and> fills_2nd env dmp mk2 \<and>
     fresh_cd ps (ks_header st) \<and> fresh_cd ps (ks_page st) \<and> \<not> is_stdout (ks_writer st) \<and> ready total (ks_writer st) \<and>
     h + 24 * N + total < 2 ^ 63 \<and>
     map_option fst (filter_pages env (frames dmp 0 (unat (max_mapnr env))) (ks_erase st)) = Some pages \<and> length pages = N)"

lemma buffer_bm_new:
  "fd_bitmap env < 0 \<Longrightarrow> buffer_bm env (initialize_1st_bitmap (bitmap_info.truncate env) new_bitmap)"
  "fd_bitmap env < 0 \<Longrightarrow> buffer_bm env (initialize_2nd_bitmap (bitmap_info.truncate env) new_bitmap)"
  by (simp_all add: buffer_bm_def initialize_1st_bitmap_def initialize_2nd_bitmap_def initialize_bitmap_def new_bitmap_def bitmap_info.defs)

lemma write_kdump_complete:
  assumes ok: "kdump_ok env dmp mk1 mk2 pages st" and codec: "codec_ok (ke_encoder env) dec"
  defines "h \<equiv> unat (kd_desc_offset (ke_header env))" and "d \<equiv> unat (kd_desc_offset (ke_header env)) + 24 * unat (ke_num_dumpable env)"
    and "B2 \<equiv> unat (ks_offset_bitmap1 st) + len_bitmap env div 2"
  shows "\<exists>st' pds ds bs. write_kdump_pages_and_bitmap_cyclic env mk1 mk2 st = Some (True, st') \<and>
     holds_at (out (ks_writer st')) h (concat (map pd_bytes pds)) \<and> holds_at (out (ks_writer st')) d ds \<and> length pds = length pages \<and>
     (\<forall>k<length pages. stored dec (unat (page_size env)) d ds (pds ! k) (pages ! k)) \<and> d + length ds < 2 ^ 63 \<and>
     length bs = bytes_of (unat (max_mapnr env)) \<and> holds_at (out (ks_writer st')) B2 bs \<and> (\<forall>i<unat (max_mapnr env). nbit bs i = dmp i)"
proof -
  let ?N = "unat (ke_num_dumpable env)" and ?ps = "unat (page_size env)" and ?M = "bytes_of (unat (max_mapnr env))" and ?mx = "unat (max_mapnr env)"
  let ?B = "unat (ks_offset_bitmap1 st)"
  define z where "z = pd_zero env (kd_desc_offset (ke_header env) + of_nat sizeof_page_desc * ke_num_dumpable env)"
  have K: "page_size_ok env" "reads_pages env" "cyclic_ok env ?B h" "fills_1st env mk1" "fills_2nd env dmp mk2" "fresh_cd ?ps (ks_header st)"
    "fresh_cd ?ps (ks_page st)" "\<not> is_stdout (ks_writer st)" "ready (24 * ?N + (?ps + (?ps * ?N + 2 * ?M))) (ks_writer st)"
    "d + 24 * ?N + (?ps + (?ps * ?N + 2 * ?M)) < 2 ^ 63" "length pages = ?N"
    using ok by (simp_all add: kdump_ok_def Let_def h_def d_def)
  from ok obtain er where F: "filter_pages env (frames dmp 0 ?mx) (ks_erase st) = Some (pages, er)" by (auto simp: kdump_ok_def Let_def)
  have len: "set_len_bitmap env = env" using K(3) by (simp add: cyclic_ok_def)
  have cy: "ke_flag_cyclic env" "fd_bitmap env < 0" "?M \<le> len_bitmap env div 2" "?B + len_bitmap env div 2 + len_bitmap env div 2 \<le> h"
    using K(3) by (simp_all add: cyclic_ok_def)
  have hd: "h = unat (kd_desc_offset (ke_header env))" "d = h + 24 * ?N" by (simp_all add: h_def d_def)
  from start_data_inv [OF K(1,6-8) hd(1) refl hd(2) K(9,10) z_def] obtain st1 where
    1: "start_data env st = Some (True, st1)" "dump_inv env dec h d z [] (24 * ?N) (?ps * ?N + 2 * ?M) st1" "same_rest st st1" by blast
  let ?st1 = "prepare_bitmap1_buffer env (st1\<lparr>ks_pfn_zero := 0\<rparr>)"
  have b0: "bytes_of 0 = 0" by (simp add: bytes_of_def)
  have "first_inv env dec ?B h d z (ks_erase st) (24 * ?N) (?ps * ?N + ?M) 0 ?st1"
    using 1(2,3) buffer_bm_new(1) [OF cy(2)] by (simp add: first_inv_def prepare_bitmap1_buffer_def same_rest_def b0 mult_2 add.assoc)
  from cycles_inv [where J = "first_inv env dec ?B h d z (ks_erase st) (24 * ?N) (?ps * ?N + ?M)", OF K(3) first_step_inv [OF K(3,4)] this] obtain st2 where
    2: "cycles env mk1 (write_kdump_bitmap1 env) ?st1 = Some (True, st2)" "first_inv env dec ?B h d z (ks_erase st) (24 * ?N) (?ps * ?N + ?M) ?mx st2" by blast
  let ?st2 = "prepare_bitmap2_buffer env st2"
  have "pages_inv env dec ?B h d z dmp (ks_erase st) ?N 0 ?st2"
    using 2(2) buffer_bm_new(2) [OF cy(2)]
    by (auto simp: pages_inv_def first_inv_def prepare_bitmap2_buffer_def frames_def b0 intro!: exI [of _ "[]"])
  from cycles_inv [where J = "pages_inv env dec ?B h d z dmp (ks_erase st) ?N", OF K(3) pages_step_inv [OF K(1) codec K(2,3,5) _ _ _ _ F K(11)] this]
  obtain st3 where 3: "cycles env mk2 (pages_step env z) ?st2 = Some (True, st3)" "pages_inv env dec ?B h d z dmp (ks_erase st) ?N ?mx st3" by blast
  from 3(2) F obtain bs where 4: "dump_inv env dec h d z pages (24 * (?N - length pages)) (?ps * (?N - length pages) + (?M - ?M)) st3"
    "length bs = ?M" "holds_at (out (ks_writer st3)) B2 bs" "\<forall>i<?mx. nbit bs i = dmp i" by (auto simp: pages_inv_def B2_def)
  from flush_both_inv [OF 4(1)] obtain st4 pds ds where
    5: "flush_both st3 = Some (True, st4)" "holds_at (out (ks_writer st4)) h (concat (map pd_bytes pds))" "holds_at (out (ks_writer st4)) d ds"
    "length pds = length pages" "\<forall>k<length pages. stored dec ?ps d ds (pds ! k) (pages ! k)" "keeps_below h (ks_writer st3) (ks_writer st4)"
    "d + length ds < 2 ^ 63" by blast
  have "B2 + length bs \<le> h" using cy(3,4) 4(2) by (simp add: B2_def)
  then have "holds_at (out (ks_writer st4)) B2 bs" using 5(6) 4(3) unfolding keeps_below_def by blast
  moreover have "write_kdump_pages_and_bitmap_cyclic env mk1 mk2 st = Some (True, st4)"
    using 1(1) 2(1) 3(1) 5(1) cy(1) len by (simp add: write_kdump_pages_and_bitmap_cyclic_def and_then_def z_def Let_def)
  ultimately show ?thesis using 5 4(2,4) by blast
qed

section \<open>Reading what was written\<close>

lemma concat_pd_bytes_at:
  assumes "holds_at c off (concat (map pd_bytes pds))" "k < length pds"
  shows "holds_at c (off + 24 * k) (pd_bytes (pds ! k))"
proof -
  have "length (concat (map pd_bytes xs)) = 24 * length xs" for xs by (induction xs) simp_all
  then have l: "length (concat (map pd_bytes (take k pds))) = 24 * k" using assms(2) by simp
  have "concat (map pd_bytes pds) = concat (map pd_bytes (take k pds)) @ pd_bytes (pds ! k) @ concat (map pd_bytes (drop (Suc k) pds))"
    using id_take_nth_drop [OF assms(2)] by (metis concat.simps(2) concat_append list.map(2) map_append)
  with assms(1) l show ?thesis by (simp add: holds_at_append)
qed

lemma holds_at_trans: "holds_at c off bs \<Longrightarrow> holds_at bs p data \<Longrightarrow> holds_at c (off + p) data"
  unfolding holds_at_def by (auto simp: add.assoc)

lemma dumped_eq: "\<forall>i<m. fbit f off i = dmp i \<Longrightarrow> k \<le> m \<Longrightarrow> dumped f off 0 k = length (filter dmp [0 ..< k])"
  unfolding dumped_def by (intro arg_cong [where f = length] filter_cong refl) auto

lemma readpage_from_file:
  assumes bits: "reads_bits n off (ki_file ki) bm" "\<forall>i<m. fbit (ki_file ki) off i = dmp i"
    and vp: "\<forall>i<length (ki_valid_pages ki). ki_valid_pages ki ! i = of_nat (dumped (ki_file ki) off 0 (4096 * i))"
      "m \<le> 4096 * length (ki_valid_pages ki)" "4096 * length (ki_valid_pages ki) \<le> 32768 * n"
    and p: "unat (paddr_to_pfn ki pa) < m"
  shows "fst (readpage_kdump_compressed ki pa old bm) =
     (if dmp (unat (paddr_to_pfn ki pa))
      then (let k = length (filter dmp [0 ..< unat (paddr_to_pfn ki pa)]); o' = kd_desc_offset (ki_header ki) + of_nat k * of_nat sizeof_page_desc in
        if sint o' < 0 then Failed
        else (case pread (ki_file ki) (unat o') sizeof_page_desc of None \<Rightarrow> Failed
          | Some bs \<Rightarrow>
              (let pd = pd_of_bytes bs in
               if pd_size pd > kd_block_size (ki_header ki) then Failed
               else if sint (pd_offset pd) < 0 then Failed
               else if unat (page_size ki) < unat (pd_size pd) then Undefined
               else (case pread (ki_file ki) (unat (pd_offset pd)) (unat (pd_size pd)) of None \<Rightarrow> Failed
                 | Some data \<Rightarrow> kd_decode (ki_decoder ki) (unat (page_size ki)) (pd_flags pd) data old))))
      else Failed)"
proof -
  let ?p = "paddr_to_pfn ki pa"
  have "unat ?p < 32768 * n" using p vp by linarith
  from reads_bits_query [OF bits(1) this] bits(2) p obtain bm1 where
    1: "is_dumpable bm (ki_file ki) ?p None = (dmp (unat ?p), bm1)" "reads_bits n off (ki_file ki) bm1" by auto
  have "unat ?p < 4096 * length (ki_valid_pages ki)" using p vp(2) by linarith
  from pfn_to_pos_dumped [OF 1(2) vp(1) this vp(3)] dumped_eq [OF bits(2), of "unat ?p"] p obtain bm2 where
    2: "pfn_to_pos (ki_valid_pages ki) (ki_file ki) ?p bm1 = Some (of_nat (length (filter dmp [0 ..< unat ?p])), bm2)" by auto
  show ?thesis
  proof (cases "dmp (unat ?p)")
    case False
    with 1(1) show ?thesis by (simp add: readpage_kdump_compressed_def)
  next
    case True
    with 1(1) 2 show ?thesis
      by (simp add: readpage_kdump_compressed_def read_page_desc_def Let_def split: option.splits)
  qed
qed

lemma filter_index_less: "p < m \<Longrightarrow> dmp p \<Longrightarrow> length (filter dmp [0 ..< p]) < length (filter dmp [0 ..< m])"
proof -
  assume p: "p < m" "dmp p"
  have "[0 ..< m] = [0 ..< p] @ p # [Suc p ..< m]" using upt_append [of 0 p m] p(1) by (simp add: upt_conv_Cons)
  then show ?thesis using p(2) by simp
qed

lemma stored_read:
  assumes "stored dec psize d ds pd pg" "holds_at (content f) d ds" "d + length ds < 2 ^ 63" "length old = psize"
  shows "\<not> sint (pd_offset pd) < 0 \<and> unat (pd_size pd) \<le> psize \<and> (\<exists>data. pread f (unat (pd_offset pd)) (unat (pd_size pd)) = Some data \<and>
     kd_decode dec psize (pd_flags pd) data old = Done pg)"
proof -
  from assms(1) obtain p data where s: "pd_offset pd = of_nat (d + p)" "unat (pd_size pd) = length data" "length data \<le> psize" "data \<noteq> []"
    "holds_at ds p data" "\<forall>old. length old = psize \<longrightarrow> kd_decode dec psize (pd_flags pd) data old = Done pg" by (auto simp: stored_def)
  have "p < length ds" using s(4,5) unfolding holds_at_def by (metis add.right_neutral length_greater_0_conv)
  then have lt: "d + p < 2 ^ 63" using assms(3) by linarith
  then have u: "unat (pd_offset pd) = d + p" unfolding s(1) by (intro unat_of_nat64) simp
  then have "sint (pd_offset pd) = int (unat (pd_offset pd))" using lt by (intro sint_u64_nat) simp
  then have "\<not> sint (pd_offset pd) < 0" by linarith
  moreover have "pread f (d + p) (length data) = Some data" using holds_at_pread [OF holds_at_trans [OF assms(2) s(5)] s(4)] .
  ultimately show ?thesis using s u assms(4) by auto
qed

text \<open>A reader that is set up for the file the writer writes.\<close>

definition reader_ok :: "kdump_env \<Rightarrow> kdump_state \<Rightarrow> int \<Rightarrow> nat \<Rightarrow> kdump_in \<Rightarrow> bool" where
  "reader_ok env st fd_memory n ki \<longleftrightarrow> ki_header ki = ke_header env \<and> page_size ki = page_size env \<and>
     unat (kd_block_size (ke_header env)) = unat (page_size env) \<and> 0 \<le> fd_memory \<and> n \<le> 2 ^ 19 \<and>
     offset (kd_bitmap_memory (ke_header env) fd_memory) = unat (ks_offset_bitmap1 st) + len_bitmap env div 2 \<and> 4096 * n \<le> len_bitmap env div 2 \<and>
     unat (max_mapnr env) \<le> 4096 * unat (kd_max_sect_len (ke_header env)) \<and> 4096 * unat (kd_max_sect_len (ke_header env)) \<le> 32768 * n"

lemma reader_file:
  assumes "kdump_ok env dmp mk1 mk2 pages st" "reader_ok env st fd_memory n ki" "pages \<noteq> []" "length (content f) \<le> capacity f"
    "holds_at (content f) (unat (kd_desc_offset (ke_header env))) (concat (map pd_bytes pds))" "length pds = length pages"
  shows "kd_bitmap_ok (ke_header env) fd_memory n f"
proof -
  let ?h = "unat (kd_desc_offset (ke_header env))"
  have "0 < length pds" using assms(3,6) by simp
  from concat_pd_bytes_at [OF assms(5) this] have "?h < length (content f)" by (auto simp: holds_at_def dest: spec [where x = 0])
  moreover have "offset (kd_bitmap_memory (ke_header env) fd_memory) + len_bitmap env div 2 \<le> ?h"
    using assms(1,2) by (auto simp: kdump_ok_def cyclic_ok_def reader_ok_def Let_def)
  ultimately show ?thesis using assms(2,4) by (simp add: reader_ok_def kd_bitmap_ok_def BUFSIZE_BITMAP_def)
qed

lemma reader_pages:
  assumes ok: "kdump_ok env dmp mk1 mk2 pages st" and rd: "reader_ok env st fd_memory n ki" and ne: "pages \<noteq> []"
    and f: "ki_file ki = f" "length (content f) \<le> capacity f" and vp: "initialize_bitmap_memory (ke_header env) fd_memory f = (ki_valid_pages ki, bm0)"
    and bm: "reads_bits n (offset bm0) f bm"
    and hs: "holds_at (content f) (unat (kd_desc_offset (ke_header env))) (concat (map pd_bytes pds))" "length pds = length pages"
    and ds: "holds_at (content f) d ds" "d + length ds < 2 ^ 63" "\<forall>k<length pages. stored (ki_decoder ki) (unat (page_size env)) d ds (pds ! k) (pages ! k)"
    and bs: "length bs = bytes_of (unat (max_mapnr env))" "holds_at (content f) (unat (ks_offset_bitmap1 st) + len_bitmap env div 2) bs"
      "\<forall>i<unat (max_mapnr env). nbit bs i = dmp i"
    and p: "unat (paddr_to_pfn ki pa) < unat (max_mapnr env)" "length old = unat (page_size env)"
  shows "fst (readpage_kdump_compressed ki pa old bm) =
     (if dmp (unat (paddr_to_pfn ki pa)) then Done (pages ! length (filter dmp [0 ..< unat (paddr_to_pfn ki pa)])) else Failed)"
proof -
  let ?h = "unat (kd_desc_offset (ke_header env))" and ?B2 = "unat (ks_offset_bitmap1 st) + len_bitmap env div 2" and ?mx = "unat (max_mapnr env)"
    and ?N = "unat (ke_num_dumpable env)" and ?p = "unat (paddr_to_pfn ki pa)" and ?vp = "ki_valid_pages ki"
  have R: "ki_header ki = ke_header env" "page_size ki = page_size env" "unat (kd_block_size (ke_header env)) = unat (page_size env)"
    "offset (kd_bitmap_memory (ke_header env) fd_memory) = ?B2" "4096 * n \<le> len_bitmap env div 2"
    "?mx \<le> 4096 * unat (kd_max_sect_len (ke_header env))" "4096 * unat (kd_max_sect_len (ke_header env)) \<le> 32768 * n" "0 \<le> fd_memory" "n \<le> 2 ^ 19"
    using rd by (auto simp: reader_ok_def)
  have K: "?B2 + len_bitmap env div 2 \<le> ?h" "?h + 24 * ?N < 2 ^ 63" "length pages = ?N"
    using ok by (auto simp: kdump_ok_def cyclic_ok_def Let_def)
  from ok obtain er where F: "filter_pages env (frames dmp 0 ?mx) (ks_erase st) = Some (pages, er)" by (auto simp: kdump_ok_def Let_def)
  have "kd_bitmap_ok (ke_header env) fd_memory n f" using reader_file [OF ok rd _ f(2) hs] ne by simp
  from initialize_bitmap_memory_dumped [OF this] vp have
    V: "reads_bits n ?B2 f bm0" "length ?vp = unat (kd_max_sect_len (ke_header env))" "\<forall>i<length ?vp. ?vp ! i = of_nat (dumped f ?B2 0 (4096 * i))"
    unfolding R(4) by (metis Pair_inject)+
  have bm': "reads_bits n ?B2 f bm" using bm V(1) by (simp add: reads_bits_def)
  have bits: "\<forall>i<?mx. fbit f ?B2 i = dmp i"
  proof (intro allI impI)
    fix i assume i: "i < ?mx"
    then have "i div 8 < length bs" using bs(1) by (simp add: bytes_of_def)
    then show "fbit f ?B2 i = dmp i" using bs(2,3) i by (simp add: holds_at_def fbit_def nbit_def)
  qed
  note rp = readpage_from_file [of n ?B2 ki bm ?mx dmp pa old, unfolded f(1) V(2), OF bm' bits V(3) [unfolded V(2)] R(6,7) p(1)]
  show ?thesis
  proof (cases "dmp ?p")
    case False
    with rp show ?thesis by simp
  next
    case True
    define k where "k = length (filter dmp [0 ..< ?p])"
    have "k < length (frames dmp 0 ?mx)" using filter_index_less [of ?p ?mx dmp] p(1) True by (simp add: k_def frames_def)
    then have k: "k < length pages" using filter_pages_length [OF F] by simp
    have lt: "?h + 24 * k < 2 ^ 63" using k K(2,3) by linarith
    let ?o = "kd_desc_offset (ke_header env) + of_nat k * of_nat sizeof_page_desc"
    have "?o = of_nat (?h + 24 * k)" by (simp add: sizeof_page_desc_def)
    then have u: "unat ?o = ?h + 24 * k" using lt by (simp only:) (intro unat_of_nat64, simp)
    then have "sint ?o = int (unat ?o)" using lt by (intro sint_u64_nat) simp
    then have s: "\<not> sint ?o < 0" by linarith
    have "pread f (?h + 24 * k) (length (pd_bytes (pds ! k))) = Some (pd_bytes (pds ! k))"
    proof (rule holds_at_pread)
      show "holds_at (content f) (?h + 24 * k) (pd_bytes (pds ! k))" using concat_pd_bytes_at [OF hs(1)] k hs(2) by simp
      show "pd_bytes (pds ! k) \<noteq> []" using length_pd_bytes [of "pds ! k"] by (metis list.size(3) zero_neq_numeral)
    qed
    then have pr: "pread f (unat ?o) sizeof_page_desc = Some (pd_bytes (pds ! k))" unfolding u by (simp add: sizeof_page_desc_def)
    from stored_read [OF _ ds(1,2) p(2)] ds(3) k obtain data where
      D: "\<not> sint (pd_offset (pds ! k)) < 0" "unat (pd_size (pds ! k)) \<le> unat (page_size env)"
      "pread f (unat (pd_offset (pds ! k))) (unat (pd_size (pds ! k))) = Some data"
      "kd_decode (ki_decoder ki) (unat (page_size env)) (pd_flags (pds ! k)) data old = Done (pages ! k)" by blast
    then have "\<not> kd_block_size (ke_header env) < pd_size (pds ! k)" using R(3) by (simp add: word_less_nat_alt)
    with rp True s pr D show ?thesis unfolding R(1,2) k_def [symmetric] Let_def by (simp add: pd_of_pd_bytes)
  qed
qed

text \<open>
  C2. Writing and reading back: when \<^verbatim>\<open>write_kdump_pages_and_bitmap_cyclic\<close> dumps the frames \<open>dmp\<close> cycle by cycle, it
  succeeds, the file it leaves has the bitmap where the reader looks for it, and \<^verbatim>\<open>readpage_kdump_compressed\<close> on that file returns for every dumped frame exactly the page that was
  read and filtered for it, whether it was stored compressed, raw or as the shared page of zeros, and refuses every
  other frame. The compression libraries keep their promise and at least one frame is dumped.
\<close>

theorem kdump_roundtrip:
  assumes "kdump_ok env dmp mk1 mk2 pages st" "codec_ok (ke_encoder env) dec" "reader_ok env st fd_memory n ki" "pages \<noteq> []"
  shows "\<exists>st'. write_kdump_pages_and_bitmap_cyclic env mk1 mk2 st = Some (True, st') \<and>
     (\<forall>f. content f = out (ks_writer st') \<and> length (content f) \<le> capacity f \<longrightarrow> kd_bitmap_ok (ke_header env) fd_memory n f) \<and>
     (\<forall>f vp bm0 bm pa old. content f = out (ks_writer st') \<and> length (content f) \<le> capacity f \<and>
        initialize_bitmap_memory (ke_header env) fd_memory f = (vp, bm0) \<and> reads_bits n (offset bm0) f bm \<and>
        unat (paddr_to_pfn ki pa) < unat (max_mapnr env) \<and> length old = unat (page_size env) \<longrightarrow>
        fst (readpage_kdump_compressed (ki\<lparr>ki_file := f, ki_valid_pages := vp, ki_decoder := dec\<rparr>) pa old bm) =
          (if dmp (unat (paddr_to_pfn ki pa)) then Done (pages ! length (filter dmp [0 ..< unat (paddr_to_pfn ki pa)])) else Failed))"
proof -
  from write_kdump_complete [OF assms(1,2)] obtain st' pds ds bs where
    1: "write_kdump_pages_and_bitmap_cyclic env mk1 mk2 st = Some (True, st')" and
    2: "holds_at (out (ks_writer st')) (unat (kd_desc_offset (ke_header env))) (concat (map pd_bytes pds))"
      "holds_at (out (ks_writer st')) (unat (kd_desc_offset (ke_header env)) + 24 * unat (ke_num_dumpable env)) ds" "length pds = length pages"
      "\<forall>k<length pages. stored dec (unat (page_size env)) (unat (kd_desc_offset (ke_header env)) + 24 * unat (ke_num_dumpable env)) ds (pds ! k) (pages ! k)"
      "unat (kd_desc_offset (ke_header env)) + 24 * unat (ke_num_dumpable env) + length ds < 2 ^ 63"
      "length bs = bytes_of (unat (max_mapnr env))" "holds_at (out (ks_writer st')) (unat (ks_offset_bitmap1 st) + len_bitmap env div 2) bs"
      "\<forall>i<unat (max_mapnr env). nbit bs i = dmp i" by blast
  have "fst (readpage_kdump_compressed (ki\<lparr>ki_file := f, ki_valid_pages := vp, ki_decoder := dec\<rparr>) pa old bm) =
      (if dmp (unat (paddr_to_pfn ki pa)) then Done (pages ! length (filter dmp [0 ..< unat (paddr_to_pfn ki pa)])) else Failed)"
    if f: "content f = out (ks_writer st')" "length (content f) \<le> capacity f" "initialize_bitmap_memory (ke_header env) fd_memory f = (vp, bm0)"
      "reads_bits n (offset bm0) f bm" "unat (paddr_to_pfn ki pa) < unat (max_mapnr env)" "length old = unat (page_size env)" for f vp bm0 bm pa old
  proof -
    let ?ki = "ki\<lparr>ki_file := f, ki_valid_pages := vp, ki_decoder := dec\<rparr>"
    have r: "reader_ok env st fd_memory n ?ki" using assms(3) by (simp add: reader_ok_def)
    have pf: "paddr_to_pfn ?ki pa = paddr_to_pfn ki pa" by (simp add: paddr_to_pfn_def)
    show ?thesis
      using reader_pages [OF assms(1) r assms(4), of f bm0 bm pds _ ds bs pa old] f 2 unfolding pf by simp
  qed
  moreover have "kd_bitmap_ok (ke_header env) fd_memory n f" if "content f = out (ks_writer st')" "length (content f) \<le> capacity f" for f
    using reader_file [OF assms(1,3,4) that(2), unfolded that(1), OF 2(1,3)] .
  ultimately show ?thesis using 1 by blast
qed

text \<open>A machine of ten frames, two of them dumped: frame 1 is a page of zeros, frame 9 is not.\<close>

definition sample_dmp :: "nat \<Rightarrow> bool" where
  "sample_dmp i \<longleftrightarrow> i = 1 \<or> i = 9"

definition sample_encoder :: encoder where
  "sample_encoder = \<lparr>enc_lzo = False, enc_snappy = False, enc_zstd = False, enc_lzo_support = False, enc_flag_compress = 1, len_buf_out = 4096,
     deflate = (\<lambda>b n. (if b = replicate 4096 1 then (Z_STREAM_END, [1]) else (Z_OK, []))), deflateReset = Z_OK, lzo1x_1_compress = (\<lambda>b. None),
     snappy_compress = (\<lambda>b. None), zstd_compress = (\<lambda>b. None)\<rparr>"

definition sample_decoder :: decoder where
  "sample_decoder = \<lparr>use_lzo = False, use_snappy = False, use_zstd = False, flag_lzo_support = False,
     zlib_uncompress = (\<lambda>b n. Some (replicate 4096 1)), lzo_decompress = (\<lambda>b n. None), snappy_uncompress = (\<lambda>b. None), zstd_decompress = (\<lambda>b n. None)\<rparr>"

definition sample_page :: "u64 \<Rightarrow> u8 list" where
  "sample_page pa = replicate 4096 (if pa = 4096 then 0 else 1)"

definition sample_info :: page_info where
  "sample_info = \<lparr>fd_bitmap = -1, bufsize_cyclic = 1, len_bitmap = 8192, page_size = 4096, page_shift = 12, arch_pfn_offset = 0, max_mapnr = 10,
     xen_memory = False, p2m_mfn_frame_list = []\<rparr>"

definition sample_env :: kdump_env where
  "sample_env = page_info.extend sample_info
     \<lparr>ke_cyclic = \<lparr>pfn_cyclic = 8, flag_elf_dumpfile = False\<rparr>, ke_flag_cyclic = True, ke_encoder = sample_encoder, ke_dump_level = 1,
      ke_num_dumpable = 2, ke_split = None, ke_header = sample_header, ke_readmem = (\<lambda>pa. Some (sample_page pa))\<rparr>"

definition sample_kdump_in :: kdump_in where
  "sample_kdump_in = page_info.extend sample_info
     \<lparr>ki_header = sample_header, ki_valid_pages = [], ki_file = \<lparr>content = [], capacity = 0\<rparr>, ki_decoder = sample_decoder\<rparr>"

definition sample_fill2 :: fill_bitmap where
  "sample_fill2 c b = Some (True, c, b\<lparr>bitmap2 := (bitmap2 b)\<lparr>buf := [horner_sum of_bool 2 (map (\<lambda>j. sample_dmp (unat (start_pfn c) + j)) [0 ..< 8])]\<rparr>\<rparr>)"

definition sample_kdump :: kdump_state where
  "sample_kdump = \<lparr>ks_bitmaps = \<lparr>bitmap1 = new_bitmap, bitmap2 = new_bitmap, bmfile = \<lparr>content = [], capacity = 0\<rparr>\<rparr>,
     ks_header = prepare_cache_data 4096 0 0 (replicate 8192 0), ks_page = prepare_cache_data 4096 0 0 (replicate 8192 0),
     ks_writer = sample_device False (replicate 20000 (Wrote 1)), ks_erase = \<lparr>filter_list = [], erase_tbl = None, allocs = []\<rparr>,
     ks_offset_data = 0, ks_offset_bitmap1 = 8192, ks_num_dumped = 0, ks_pfn_zero = 0\<rparr>"

lemmas sample_kdump_defs = sample_env_def sample_info_def sample_kdump_def sample_kdump_in_def page_info.defs

lemma sample_frames: "frames sample_dmp 0 10 = [1, 9]"
proof -
  have "[0 ..< 10 :: nat] = [0, 1, 2, 3, 4, 5, 6, 7, 8, 9]" by (simp add: upt_conv_Cons)
  then show ?thesis unfolding frames_def by (simp add: sample_dmp_def)
qed

lemma filter_data_buffer_none: "filter_list er = [] \<Longrightarrow> filter_data_buffer b pa sz er = Some (b, er)"
  by (subst filter_data_buffer.simps) (simp add: extract_filter_info_def)

lemma sample_pages:
  "filter_pages sample_env [1, 9] (ks_erase sample_kdump) = Some ([replicate 4096 0, replicate 4096 1], ks_erase sample_kdump)"
  by (simp add: read_pfn_def filter_data_buffer_none sample_kdump_defs pfn_to_paddr_def sample_page_def)

lemma sample_codec: "codec_ok sample_encoder sample_decoder"
  by (auto simp: codec_ok_def sample_encoder_def sample_decoder_def Z_STREAM_END_def Z_OK_def split: if_splits)

lemma sample_fills2: "fills_2nd sample_env sample_dmp sample_fill2"
  unfolding fills_2nd_def
proof (intro allI impI)
  fix c :: cycle and bms :: bitmaps
  assume b: "buffer_bm sample_env (bitmap2 bms)" and l: "unat (end_pfn c) - unat (start_pfn c) \<le> 8 * bufsize_cyclic sample_env"
  have "nbit [horner_sum of_bool 2 (map (\<lambda>j. sample_dmp (unat (start_pfn c) + j)) [0 ..< 8])] (i - unat (start_pfn c)) = sample_dmp i"
    if "unat (start_pfn c) \<le> i \<and> i < unat (end_pfn c)" for i
  proof -
    have "i - unat (start_pfn c) < 8" using that l by (auto simp: sample_kdump_defs)
    then show ?thesis using that by (simp add: nbit_def bit_horner_sum_bit_iff possible_bit_def)
  qed
  then show "\<exists>c' bms'. sample_fill2 c bms = Some (True, c', bms') \<and> start_pfn c' = start_pfn c \<and> end_pfn c' = end_pfn c \<and>
       buffer_bm sample_env (bitmap2 bms') \<and>
       (\<forall>i. unat (start_pfn c) \<le> i \<and> i < unat (end_pfn c) \<longrightarrow> nbit (buf (bitmap2 bms')) (i - unat (start_pfn c)) = sample_dmp i)"
    using b by (simp add: sample_fill2_def buffer_bm_def sample_kdump_defs)
qed

lemma sample_kdump_ok: "kdump_ok sample_env sample_dmp (\<lambda>c b. Some (True, c, b)) sample_fill2 [replicate 4096 0, replicate 4096 1] sample_kdump"
proof -
  have s: "max_mapnr sample_env = 10" "page_size sample_env = 4096" "ke_header sample_env = sample_header" "ke_num_dumpable sample_env = 2"
    "ks_offset_bitmap1 sample_kdump = 8192" "ks_writer sample_kdump = sample_device False (replicate 20000 (Wrote 1))"
    by (simp_all add: sample_kdump_defs)
  have "page_size_ok sample_env" by (simp add: page_size_ok_def s)
  moreover have "reads_pages sample_env" by (simp add: reads_pages_def sample_kdump_defs sample_page_def)
  moreover have "cyclic_ok sample_env 8192 16384"
    by (simp add: cyclic_ok_def set_len_bitmap_def divideup_def BITPERBYTE_def sample_kdump_defs bytes_of_def)
  moreover have "fills_1st sample_env (\<lambda>c b. Some (True, c, b))" by (simp add: fills_1st_def)
  moreover have "fresh_cd 4096 (ks_header sample_kdump)" "fresh_cd 4096 (ks_page sample_kdump)"
    by (simp_all add: sample_kdump_defs prepare_fresh)
  moreover have "\<not> is_stdout (sample_device False (replicate 20000 (Wrote 1)))" by (simp add: sample_device_def)
  moreover have "ready 12340 (sample_device False (replicate 20000 (Wrote 1)))" by (rule ready_sample_device) simp_all
  ultimately show ?thesis using sample_fills2
    by (simp add: kdump_ok_def Let_def s sample_header_layout sample_frames sample_pages bytes_of_def del: filter_pages.simps)
qed

theorem kdump_roundtrip_witness:
  "\<exists>st'. write_kdump_pages_and_bitmap_cyclic sample_env (\<lambda>c b. Some (True, c, b)) sample_fill2 sample_kdump = Some (True, st') \<and>
     fst (readpage_kdump_compressed
       (sample_kdump_in\<lparr>ki_file := \<lparr>content = out (ks_writer st'), capacity = length (out (ks_writer st'))\<rparr>, ki_valid_pages := [0], ki_decoder := sample_decoder\<rparr>)
       0x9000 (replicate 4096 7) (kd_bitmap_memory sample_header 0)) = Done (replicate 4096 1)"
proof -
  have r: "reader_ok sample_env sample_kdump 0 1 sample_kdump_in"
    by (simp add: reader_ok_def sample_kdump_defs sample_header_layout, simp add: sample_header_def)
  have c: "codec_ok (ke_encoder sample_env) sample_decoder" using sample_codec by (simp add: sample_kdump_defs)
  have p: "unat (paddr_to_pfn sample_kdump_in 0x9000) = 9" by (simp add: paddr_to_pfn_def sample_kdump_defs)
  have "[0 ..< 9 :: nat] = [0, 1, 2, 3, 4, 5, 6, 7, 8]" by (simp add: upt_conv_Cons)
  then have k: "length (filter sample_dmp [0 ..< 9]) = 1" "sample_dmp 9" by (simp_all add: sample_dmp_def del: upt_rec_numeral)
  have m: "max_mapnr sample_env = 10" "page_size sample_env = 4096" "ke_header sample_env = sample_header" by (simp_all add: sample_kdump_defs)
  from kdump_roundtrip [OF sample_kdump_ok c r, unfolded m] obtain st' where
    1: "write_kdump_pages_and_bitmap_cyclic sample_env (\<lambda>c b. Some (True, c, b)) sample_fill2 sample_kdump = Some (True, st')" and
    2: "\<forall>f. content f = out (ks_writer st') \<and> length (content f) \<le> capacity f \<longrightarrow> kd_bitmap_ok sample_header 0 1 f" and
    3: "\<forall>f vp bm0 bm pa old. content f = out (ks_writer st') \<and> length (content f) \<le> capacity f \<and>
        initialize_bitmap_memory sample_header 0 f = (vp, bm0) \<and> reads_bits 1 (offset bm0) f bm \<and>
        unat (paddr_to_pfn sample_kdump_in pa) < unat (10 :: u64) \<and> length old = unat (4096 :: u64) \<longrightarrow>
        fst (readpage_kdump_compressed (sample_kdump_in\<lparr>ki_file := f, ki_valid_pages := vp, ki_decoder := sample_decoder\<rparr>) pa old bm) =
          (if sample_dmp (unat (paddr_to_pfn sample_kdump_in pa))
           then Done ([replicate 4096 0, replicate 4096 1] ! length (filter sample_dmp [0 ..< unat (paddr_to_pfn sample_kdump_in pa)])) else Failed)"
    by auto
  let ?f = "\<lparr>content = out (ks_writer st'), capacity = length (out (ks_writer st'))\<rparr> :: fstate"
  have "kd_bitmap_ok sample_header 0 1 ?f" using 2 by simp
  with 3 [rule_format, of ?f "[0]" "kd_bitmap_memory sample_header 0" "kd_bitmap_memory sample_header 0" "0x9000" "replicate 4096 7"] 1
  show ?thesis by (auto simp: sample_header_index p k kd_bitmap_reads simp del: upt_rec_numeral)
qed

end
