(* ===== verification/Parallel.thy ===== *)
theory Parallel
  imports Kdump_Roundtrip
begin

text \<open>
  The writer with threads (\<^verbatim>\<open>src/makedumpfile.c\<close>, \<^verbatim>\<open>kdump_thread_function_cyclic\<close> and
  \<^verbatim>\<open>write_kdump_pages_parallel_cyclic\<close>): the threads take page frames one after the other, read and compress them into shared
  buffers, and the main thread writes the pages in the order of their frames. A step of a thread accesses
  shared memory once, or several times where a lock or the state of a buffer keeps the others away; the order of the
  steps is arbitrary. Memory is sequentially consistent. Reading a page is an argument; allocations and the creation of
  threads and locks succeed.
\<close>

section \<open>State\<close>

text \<open>
  \<^verbatim>\<open>page_flag_buf\<close> is a ring of \<open>PAGE_FLAG_NUM\<close> nodes for every thread; a pointer into it is a position. The length
  of the bytes in a data buffer is its \<^verbatim>\<open>size\<close>. \<^verbatim>\<open>index\<close> is a \<^verbatim>\<open>short\<close>.
\<close>

datatype page_flag_state = FLAG_UNUSED | FLAG_READY | FLAG_FILLING

record page_flag =
  pf_pfn :: u64
  pf_zero :: bool
  pf_ready :: page_flag_state
  pf_index :: "16 word"

record page_data =
  pg_used :: bool
  pg_flags :: u32
  pg_buf :: "u8 list"

definition PAGE_FLAG_NUM :: nat where "PAGE_FLAG_NUM = 20"
definition PAGE_DATA_NUM :: nat where "PAGE_DATA_NUM = 5"

text \<open>Where a thread is, and its local variables. \<open>P_Ready\<close> keeps \<^verbatim>\<open>buf_ready\<close>.\<close>

datatype producer_pc =
    P_Loop | P_Lock_Data | P_Take | P_Check | P_Lock_Pfn | P_Search | P_Pfn | P_Filling | P_Unlock | P_Post | P_End | P_Free
  | P_Read | P_Filter | P_Data | P_Ready bool | P_Exit | P_Fail

record producer =
  p_pc :: producer_pc
  p_pfn :: u64
  p_index :: nat
  p_node :: nat
  p_buf :: "u8 list"
  p_bitmap :: dump_bitmap

datatype consumer_pc = C_Wait | C_Start | C_Scan | C_Pfn | C_Ends | C_Ready | C_Compare | C_Write | C_Free | C_Release | C_Finish | C_Out

text \<open>\<open>c_node\<close> are the pointers \<^verbatim>\<open>info->page_flag_buf\<close>.\<close>

record consumer =
  c_pc :: consumer_pc
  c_i :: nat
  c_consuming :: nat
  c_current :: u64
  c_end_count :: nat
  c_index :: nat
  c_node :: "nat \<Rightarrow> nat"

record par_state =
  page_data_buf :: "page_data list"
  page_flag_buf :: "nat \<Rightarrow> nat \<Rightarrow> page_flag"
  current_pfn :: u64
  current_pfn_mutex :: "nat option"
  page_data_mutex :: "nat option"
  page_flag_buf_sem :: nat
  producers :: "nat \<Rightarrow> producer"
  consumer :: consumer
  par_ks :: kdump_state

record par_env =
  pe_env :: kdump_env
  pe_cycle :: cycle
  pe_pd_zero :: page_desc
  pe_num_threads :: nat
  pe_read :: "u64 \<Rightarrow> u8 list option"

section \<open>A thread\<close>

text \<open>The loop for the next dumpable frame.\<close>

function next_dumpable :: "fstate \<Rightarrow> cycle \<Rightarrow> u64 \<Rightarrow> dump_bitmap \<Rightarrow> u64 \<times> dump_bitmap" where
  "next_dumpable f c pfn bm =
     (if pfn < end_pfn c
      then (case is_dumpable bm f pfn (Some c) of (d, bm') \<Rightarrow> if d then (pfn, bm') else next_dumpable f c (pfn + 1) bm')
      else (pfn, bm))"
  by pat_completeness auto

termination next_dumpable
  by (relation "measure (\<lambda>(_, c, pfn, _). unat (end_pfn c) - unat pfn)") (auto simp: unat_Suc_less word_less_nat_alt)

declare next_dumpable.simps [simp del]

definition set_producer :: "nat \<Rightarrow> producer \<Rightarrow> par_state \<Rightarrow> par_state" where
  "set_producer t p s = s\<lparr>producers := (producers s)(t := p)\<rparr>"

definition set_node :: "nat \<Rightarrow> nat \<Rightarrow> (page_flag \<Rightarrow> page_flag) \<Rightarrow> par_state \<Rightarrow> par_state" where
  "set_node t k g s = s\<lparr>page_flag_buf := (page_flag_buf s)(t := (page_flag_buf s t)(k := g (page_flag_buf s t k)))\<rparr>"

definition set_used :: "nat \<Rightarrow> bool \<Rightarrow> par_state \<Rightarrow> par_state" where
  "set_used b u s = s\<lparr>page_data_buf := (page_data_buf s)[b := (page_data_buf s ! b)\<lparr>pg_used := u\<rparr>]\<rparr>"

text \<open>The result for a page: a page of zeros, or the compressed bytes.\<close>

definition page_result :: "kdump_env \<Rightarrow> u8 list \<Rightarrow> (u32 \<times> u8 list) option" where
  "page_result env b =
     (if ke_dump_level env AND DL_EXCLUDE_ZERO \<noteq> 0 \<and> is_zero_page b (unat (page_size env)) then None
      else Some (compress_page (ke_encoder env) (unat (page_size env)) b))"

text \<open>\<open>None\<close>: the thread waits for a lock, has ended, or the erasing of the page is not defined.\<close>

definition claim_pfn :: "par_env \<Rightarrow> nat \<Rightarrow> par_state \<Rightarrow> par_state" where
  "claim_pfn e t s =
     (let p = producers s t; own = (fd_bitmap (pe_env e) \<ge> 0);
          (pfn, bm) = next_dumpable (bmfile (ks_bitmaps (par_ks s))) (pe_cycle e) (current_pfn s)
            (if own then p_bitmap p else bitmap2 (ks_bitmaps (par_ks s))) in
      set_producer t (p\<lparr>p_pc := P_Pfn, p_pfn := pfn, p_bitmap := if own then bm else p_bitmap p\<rparr>) (s\<lparr>current_pfn := pfn + 1\<rparr>))"

definition store_data :: "par_env \<Rightarrow> nat \<Rightarrow> par_state \<Rightarrow> par_state" where
  "store_data e t s = (let p = producers s t in
     case page_result (pe_env e) (p_buf p) of
       None \<Rightarrow> set_producer t (p\<lparr>p_pc := P_Ready False\<rparr>) (set_node t (p_node p) (\<lambda>n. n\<lparr>pf_zero := True\<rparr>) s)
     | Some (fl, data) \<Rightarrow>
         set_producer t (p\<lparr>p_pc := P_Ready True\<rparr>) (set_node t (p_node p) (\<lambda>n. n\<lparr>pf_zero := False, pf_index := of_nat (p_index p)\<rparr>)
           (s\<lparr>page_data_buf := (page_data_buf s)[p_index p := (page_data_buf s ! p_index p)\<lparr>pg_flags := fl, pg_buf := data\<rparr>]\<rparr>)))"

definition erase_step :: "par_env \<Rightarrow> nat \<Rightarrow> par_state \<Rightarrow> par_state option" where
  "erase_step e t s =
     (let p = producers s t; env = pe_env e; pa = pfn_to_paddr env (p_pfn p) in
      case extract_filter_info pa (pa + page_size env) (ks_erase (par_ks s)) of
        None \<Rightarrow> None
      | Some (None, er) \<Rightarrow> Some (set_producer t (p\<lparr>p_pc := P_Data\<rparr>) (s\<lparr>par_ks := (par_ks s)\<lparr>ks_erase := er\<rparr>\<rparr>))
      | Some (Some fi, er) \<Rightarrow>
          if length (p_buf p) < unat (fi_paddr fi - pa) + unat (fi_size fi) then None
          else Some (set_producer t (p\<lparr>p_buf := splice (p_buf p) (unat (fi_paddr fi - pa)) (replicate (unat (fi_size fi)) (erase_byte fi))\<rparr>)
            (s\<lparr>par_ks := (par_ks s)\<lparr>ks_erase := er\<rparr>\<rparr>)))"

definition kdump_thread_function_cyclic :: "par_env \<Rightarrow> nat \<Rightarrow> par_state \<Rightarrow> par_state option" where
  "kdump_thread_function_cyclic e t s =
     (let p = producers s t; go = (\<lambda>pc. set_producer t (p\<lparr>p_pc := pc\<rparr>)); end_reached = (end_pfn (pe_cycle e) \<le> p_pfn p) in
      case p_pc p of
        P_Loop \<Rightarrow> Some (go (if end_reached then P_Exit else P_Lock_Data) s)
      | P_Lock_Data \<Rightarrow> if page_data_mutex s = None then Some (go P_Take (s\<lparr>page_data_mutex := Some t\<rparr>)) else None
      | P_Take \<Rightarrow>
          if \<not> p_index p < length (page_data_buf s) then None
          else if pg_used (page_data_buf s ! p_index p)
          then Some (set_producer t (p\<lparr>p_index := (p_index p + 1) mod length (page_data_buf s)\<rparr>) s)
          else Some (go P_Check (set_used (p_index p) True (s\<lparr>page_data_mutex := None\<rparr>)))
      | P_Check \<Rightarrow> Some (if pf_ready (page_flag_buf s t (p_node p)) = FLAG_READY then s else go P_Lock_Pfn s)
      | P_Lock_Pfn \<Rightarrow> if current_pfn_mutex s = None then Some (go P_Search (s\<lparr>current_pfn_mutex := Some t\<rparr>)) else None
      | P_Search \<Rightarrow> Some (claim_pfn e t s)
      | P_Pfn \<Rightarrow> Some (go P_Filling (set_node t (p_node p) (\<lambda>n. n\<lparr>pf_pfn := p_pfn p\<rparr>) s))
      | P_Filling \<Rightarrow> Some (go P_Unlock (set_node t (p_node p) (\<lambda>n. n\<lparr>pf_ready := FLAG_FILLING\<rparr>) s))
      | P_Unlock \<Rightarrow> Some (go P_Post (s\<lparr>current_pfn_mutex := None\<rparr>))
      | P_Post \<Rightarrow> Some (go (if end_reached then P_End else P_Read) (s\<lparr>page_flag_buf_sem := page_flag_buf_sem s + 1\<rparr>))
      | P_End \<Rightarrow> Some (go P_Free (s\<lparr>current_pfn := end_pfn (pe_cycle e)\<rparr>))
      | P_Free \<Rightarrow> Some (go P_Exit (set_used (p_index p) False s))
      | P_Read \<Rightarrow> (case pe_read e (p_pfn p) of None \<Rightarrow> Some (go P_Fail s)
          | Some b \<Rightarrow> Some (set_producer t (p\<lparr>p_pc := P_Filter, p_buf := b\<rparr>) s))
      | P_Filter \<Rightarrow> erase_step e t s
      | P_Data \<Rightarrow> Some (store_data e t s)
      | P_Ready buf_ready \<Rightarrow>
          Some (set_producer t (p\<lparr>p_pc := if buf_ready then P_Loop else P_Check, p_node := (p_node p + 1) mod PAGE_FLAG_NUM\<rparr>)
            (set_node t (p_node p) (\<lambda>n. n\<lparr>pf_ready := FLAG_READY\<rparr>) s))
      | P_Exit \<Rightarrow> None
      | P_Fail \<Rightarrow> None)"

section \<open>The main thread\<close>

text \<open>A page is written; the result is the return value of the calls of \<^verbatim>\<open>write_cache\<close>.\<close>

definition consume_page :: "page_desc \<Rightarrow> (u32 \<times> u8 list) option \<Rightarrow> kdump_state \<Rightarrow> (bool \<times> kdump_state) option" where
  "consume_page z r st0 =
     (let st = st0\<lparr>ks_num_dumped := ks_num_dumped st0 + 1\<rparr> in
      case r of
        None \<Rightarrow> (case write_cache (ks_header st) (pd_bytes z) (ks_writer st) of None \<Rightarrow> None
          | Some (False, cdh, w) \<Rightarrow> Some (False, st\<lparr>ks_header := cdh, ks_writer := w\<rparr>)
          | Some (True, cdh, w) \<Rightarrow> Some (True, st\<lparr>ks_header := cdh, ks_writer := w, ks_pfn_zero := ks_pfn_zero st + 1\<rparr>))
      | Some (fl, data) \<Rightarrow>
          (let pd = \<lparr>pd_offset = ks_offset_data st, pd_size = of_nat (length data), pd_flags = fl, pd_page_flags = 0\<rparr>;
               st1 = st\<lparr>ks_offset_data := ks_offset_data st + ucast (pd_size pd)\<rparr> in
           case write_cache (ks_header st1) (pd_bytes pd) (ks_writer st1) of None \<Rightarrow> None
           | Some (False, cdh, w) \<Rightarrow> Some (False, st1\<lparr>ks_header := cdh, ks_writer := w\<rparr>)
           | Some (True, cdh, w) \<Rightarrow>
               (case write_cache (ks_page st1) (take (unat (pd_size pd)) data) w of None \<Rightarrow> None
                | Some (r, cdp, w') \<Rightarrow> Some (r, st1\<lparr>ks_header := cdh, ks_page := cdp, ks_writer := w'\<rparr>))))"

text \<open>
  The main thread after the threads are started. \<open>timeout\<close> says whether \<^verbatim>\<open>WAIT_TIME\<close> has passed when a page is not
  ready. \<open>C_Finish\<close> is the label \<^verbatim>\<open>finish\<close>, \<open>C_Out\<close> an error.
\<close>

definition scan_node :: "par_env \<Rightarrow> par_state \<Rightarrow> par_state" where
  "scan_node e s =
     (let c = consumer s; i = c_i c; nd = page_flag_buf s i (c_node c i); temp_pfn = pf_pfn nd; next = c\<lparr>c_pc := C_Scan, c_i := i + 1\<rparr> in
      if end_pfn (pe_cycle e) \<le> temp_pfn
      then (set_node i (c_node c i) (\<lambda>n. n\<lparr>pf_ready := FLAG_UNUSED\<rparr>) s)\<lparr>consumer := next\<lparr>c_end_count := c_end_count c + 1\<rparr>\<rparr>
      else if c_current c < temp_pfn then s\<lparr>consumer := next\<rparr>
      else s\<lparr>consumer := next\<lparr>c_consuming := i, c_current := temp_pfn\<rparr>\<rparr>)"

definition write_next :: "par_env \<Rightarrow> par_state \<Rightarrow> par_state option" where
  "write_next e s =
     (let c = consumer s; nd = page_flag_buf s (c_consuming c) (c_node c (c_consuming c)); b = unat (pf_index nd) in
      if \<not> pf_zero nd \<and> (sint (pf_index nd) < 0 \<or> \<not> b < length (page_data_buf s)) then None
      else map_option (\<lambda>(r, st). s\<lparr>par_ks := st,
          consumer := c\<lparr>c_pc := (if \<not> r then C_Out else if pf_zero nd then C_Release else C_Free), c_index := b\<rparr>\<rparr>)
        (consume_page (pe_pd_zero e) (if pf_zero nd then None else Some (pg_flags (page_data_buf s ! b), pg_buf (page_data_buf s ! b))) (par_ks s)))"

definition write_kdump_pages_parallel_cyclic :: "par_env \<Rightarrow> bool \<Rightarrow> par_state \<Rightarrow> par_state option" where
  "write_kdump_pages_parallel_cyclic e timeout s =
     (let c = consumer s; go = (\<lambda>pc s'. s'\<lparr>consumer := c\<lparr>c_pc := pc\<rparr>\<rparr>); k = c_consuming c; cur = page_flag_buf s k (c_node c k) in
      case c_pc c of
        C_Wait \<Rightarrow> if page_flag_buf_sem s = 0 then None
          else Some (s\<lparr>page_flag_buf_sem := page_flag_buf_sem s - 1, consumer := c\<lparr>c_pc := C_Start, c_consuming := 0\<rparr>\<rparr>)
      | C_Start \<Rightarrow> Some (s\<lparr>consumer := c\<lparr>c_pc := C_Scan, c_i := 0, c_current := end_pfn (pe_cycle e)\<rparr>\<rparr>)
      | C_Scan \<Rightarrow>
          if \<not> c_i c < pe_num_threads e then Some (go C_Ends s)
          else if pf_ready (page_flag_buf s (c_i c) (c_node c (c_i c))) = FLAG_UNUSED then Some (s\<lparr>consumer := c\<lparr>c_i := c_i c + 1\<rparr>\<rparr>)
          else Some (go C_Pfn s)
      | C_Pfn \<Rightarrow> Some (scan_node e s)
      | C_Ends \<Rightarrow> Some (go (if pe_num_threads e \<le> c_end_count c then C_Finish else C_Ready) s)
      | C_Ready \<Rightarrow> Some (go (if pf_ready cur = FLAG_READY then C_Compare else if timeout then C_Out else C_Start) s)
      | C_Compare \<Rightarrow> Some (go (if c_current c = pf_pfn cur then C_Write else C_Start) s)
      | C_Write \<Rightarrow> write_next e s
      | C_Free \<Rightarrow> Some (go C_Release (set_used (c_index c) False s))
      | C_Release \<Rightarrow> Some ((set_node k (c_node c k) (\<lambda>n. n\<lparr>pf_ready := FLAG_UNUSED\<rparr>) s)
          \<lparr>consumer := c\<lparr>c_pc := C_Wait, c_node := (c_node c)(k := (c_node c k + 1) mod PAGE_FLAG_NUM)\<rparr>\<rparr>)
      | C_Finish \<Rightarrow> None
      | C_Out \<Rightarrow> None)"

section \<open>All threads\<close>

inductive par_step :: "par_env \<Rightarrow> par_state \<Rightarrow> par_state \<Rightarrow> bool" for e where
  thread: "t < pe_num_threads e \<Longrightarrow> kdump_thread_function_cyclic e t s = Some s' \<Longrightarrow> par_step e s s'"
| main: "write_kdump_pages_parallel_cyclic e timeout s = Some s' \<Longrightarrow> par_step e s s'"

text \<open>
  Before the threads start: \<open>ptrs\<close> are the pointers \<^verbatim>\<open>info->page_flag_buf\<close>, all nodes unused after the initialisation and after a cycle.
\<close>

definition start_threads :: "par_env \<Rightarrow> (nat \<Rightarrow> nat) \<Rightarrow> (nat \<Rightarrow> nat \<Rightarrow> page_flag) \<Rightarrow> page_data list \<Rightarrow> (nat \<Rightarrow> dump_bitmap) \<Rightarrow> kdump_state \<Rightarrow> par_state" where
  "start_threads e ptrs nodes bufs tbms st =
     \<lparr>page_data_buf = map (\<lambda>b. b\<lparr>pg_used := False\<rparr>) bufs, page_flag_buf = nodes, current_pfn = start_pfn (pe_cycle e),
      current_pfn_mutex = None, page_data_mutex = None, page_flag_buf_sem = 0,
      producers = (\<lambda>t. \<lparr>p_pc = P_Loop, p_pfn = start_pfn (pe_cycle e), p_index = t, p_node = ptrs t, p_buf = [], p_bitmap = tbms t\<rparr>),
      consumer = \<lparr>c_pc = C_Wait, c_i = 0, c_consuming = 0, c_current = 0, c_end_count = 0, c_index = 0, c_node = ptrs\<rparr>,
      par_ks = st\<rparr>"

inductive par_reach :: "par_env \<Rightarrow> par_state \<Rightarrow> par_state \<Rightarrow> bool" for e where
  start: "par_reach e s s"
| step: "par_reach e s s' \<Longrightarrow> par_step e s' s'' \<Longrightarrow> par_reach e s s''"

section \<open>The ring of a thread\<close>

text \<open>
  The frames \<open>qs\<close> of a thread that the main thread has not released are in the nodes from the pointer \<open>cn\<close> of the main thread on;
  the last one is being filled while the thread works on it (\<open>act\<close>). Behind them there may be the mark of the end (\<open>mark\<close>).
\<close>

definition node_at :: "(nat \<Rightarrow> page_flag) \<Rightarrow> nat \<Rightarrow> nat \<Rightarrow> page_flag" where
  "node_at nd cn j = nd ((cn + j) mod PAGE_FLAG_NUM)"

definition nodes_ok :: "nat list \<Rightarrow> bool \<Rightarrow> bool \<Rightarrow> (nat \<Rightarrow> page_flag) \<Rightarrow> bool" where
  "nodes_ok qs act mark n \<longleftrightarrow>
     (\<forall>j<length qs. pf_pfn (n j) = of_nat (qs ! j) \<and> pf_ready (n j) = (if act \<and> Suc j = length qs then FLAG_FILLING else FLAG_READY)) \<and>
     (\<forall>j<PAGE_FLAG_NUM. length qs \<le> j \<longrightarrow> pf_ready (n j) = (if mark \<and> j = length qs then FLAG_FILLING else FLAG_UNUSED))"

lemma ring_inj: "j < R \<Longrightarrow> k < R \<Longrightarrow> ((cn + j) mod R = (cn + k) mod R) = (j = (k :: nat))"
proof -
  have "j = k" if "j < R" "k < R" "(cn + j) mod R = (cn + k) mod R" "j \<le> k" for j k :: nat
  proof -
    have "R dvd (cn + k) - (cn + j)" using that(3,4) by (metis add_le_cancel_left mod_eq_dvd_iff_nat)
    moreover have "(cn + k) - (cn + j) < R" using that by simp
    ultimately show ?thesis using that(4) by (auto dest: dvd_imp_le)
  qed
  then show "j < R \<Longrightarrow> k < R \<Longrightarrow> ((cn + j) mod R = (cn + k) mod R) = (j = k)" by (metis nle_le)
qed

lemma PAGE_FLAG_NUM_pos: "0 < PAGE_FLAG_NUM"
  by (simp add: PAGE_FLAG_NUM_def)

text \<open>Nodes counted from the pointer: a write, and the pointer moved by one.\<close>

lemma node_at_upd:
  assumes "j < PAGE_FLAG_NUM" "k < PAGE_FLAG_NUM"
  shows "node_at (nd((cn + k) mod PAGE_FLAG_NUM := x)) cn j = (if j = k then x else node_at nd cn j)"
  using ring_inj [OF assms, of cn] by (auto simp: node_at_def)

lemma node_at_next:
  assumes "j < PAGE_FLAG_NUM"
  shows "node_at nd ((cn + 1) mod PAGE_FLAG_NUM) j = (if Suc j = PAGE_FLAG_NUM then node_at nd cn 0 else node_at nd cn (Suc j))"
proof -
  have e: "((cn + 1) mod PAGE_FLAG_NUM + j) mod PAGE_FLAG_NUM = (cn + Suc j) mod PAGE_FLAG_NUM" by (simp add: mod_simps)
  show ?thesis
  proof (cases "Suc j = PAGE_FLAG_NUM")
    case True
    then show ?thesis unfolding node_at_def e True by simp
  next
    case False
    then show ?thesis unfolding node_at_def e by simp
  qed
qed

lemma nodes_cong:
  assumes "nodes_ok qs act mark n" "\<And>j. j < PAGE_FLAG_NUM \<Longrightarrow> n' j = n j" "length qs \<le> PAGE_FLAG_NUM"
  shows "nodes_ok qs act mark n'"
  using assms(1,3) unfolding nodes_ok_def by (simp add: assms(2))

lemma nodes_pfn:
  assumes "nodes_ok qs False False n"
  shows "nodes_ok qs False False (n(length qs := (n (length qs))\<lparr>pf_pfn := x\<rparr>))"
  using assms unfolding nodes_ok_def by simp

lemma nodes_claim:
  assumes "nodes_ok qs False False n" "pf_pfn (n (length qs)) = of_nat x"
  shows "nodes_ok (qs @ [x]) True False (n(length qs := (n (length qs))\<lparr>pf_ready := FLAG_FILLING\<rparr>))"
  using assms unfolding nodes_ok_def by (simp add: nth_append less_Suc_eq)

lemma nodes_mark:
  assumes "nodes_ok qs False False n"
  shows "nodes_ok qs False True (n(length qs := (n (length qs))\<lparr>pf_ready := FLAG_FILLING\<rparr>))"
  using assms unfolding nodes_ok_def by simp

lemma nodes_ready:
  assumes "nodes_ok qs True False n" "qs \<noteq> []"
  shows "nodes_ok qs False False (n(length qs - 1 := (n (length qs - 1))\<lparr>pf_ready := FLAG_READY\<rparr>))"
proof -
  have "Suc j = length qs \<longleftrightarrow> j = length qs - 1" for j using assms(2) by (cases qs) auto
  with assms show ?thesis unfolding nodes_ok_def by (cases qs) auto
qed

lemma nodes_release:
  assumes "nodes_ok (q # qs) act mark n" "pf_ready (n 0) = FLAG_READY" "mark \<longrightarrow> Suc (length qs) < PAGE_FLAG_NUM" "length (q # qs) \<le> PAGE_FLAG_NUM"
  shows "nodes_ok qs act mark (\<lambda>j. if Suc j = PAGE_FLAG_NUM then (n 0)\<lparr>pf_ready := FLAG_UNUSED\<rparr> else n (Suc j))"
proof -
  have 1: "\<forall>j<length qs. pf_pfn (n (Suc j)) = of_nat (qs ! j) \<and> pf_ready (n (Suc j)) = (if act \<and> Suc j = length qs then FLAG_FILLING else FLAG_READY)"
    using assms(1) unfolding nodes_ok_def by (auto dest!: spec [where x = "Suc _"])
  have 2: "\<forall>j. Suc j < PAGE_FLAG_NUM \<longrightarrow> length qs \<le> j \<longrightarrow> pf_ready (n (Suc j)) = (if mark \<and> j = length qs then FLAG_FILLING else FLAG_UNUSED)"
    using assms(1) unfolding nodes_ok_def by simp
  show ?thesis unfolding nodes_ok_def
  proof (intro conjI allI impI)
    fix j assume "j < length qs"
    then show "pf_pfn (if Suc j = PAGE_FLAG_NUM then (n 0)\<lparr>pf_ready := FLAG_UNUSED\<rparr> else n (Suc j)) = of_nat (qs ! j)"
      "pf_ready (if Suc j = PAGE_FLAG_NUM then (n 0)\<lparr>pf_ready := FLAG_UNUSED\<rparr> else n (Suc j)) = (if act \<and> Suc j = length qs then FLAG_FILLING else FLAG_READY)"
      using 1 assms(4) by auto
  next
    fix j assume "j < PAGE_FLAG_NUM" "length qs \<le> j"
    then show "pf_ready (if Suc j = PAGE_FLAG_NUM then (n 0)\<lparr>pf_ready := FLAG_UNUSED\<rparr> else n (Suc j)) = (if mark \<and> j = length qs then FLAG_FILLING else FLAG_UNUSED)"
      using 2 assms(3) by (cases "Suc j = PAGE_FLAG_NUM") auto
  qed
qed

lemma nodes_count:
  assumes "nodes_ok [] act mark n"
  shows "nodes_ok [] False False (n(0 := (n 0)\<lparr>pf_ready := FLAG_UNUSED\<rparr>))"
  using assms unfolding nodes_ok_def by simp

text \<open>A thread and its ring.\<close>

fun claimed_pc :: "producer_pc \<Rightarrow> bool" where
  "claimed_pc P_Unlock = True" | "claimed_pc P_Post = True" | "claimed_pc P_Read = True" | "claimed_pc P_Filter = True"
| "claimed_pc P_Data = True" | "claimed_pc (P_Ready _) = True" | "claimed_pc P_Fail = True" | "claimed_pc _ = False"

definition active :: "u64 \<Rightarrow> producer \<Rightarrow> bool" where
  "active E p \<longleftrightarrow> p_pfn p < E \<and> claimed_pc (p_pc p)"

definition ended :: "u64 \<Rightarrow> producer \<Rightarrow> bool" where
  "ended E p \<longleftrightarrow> E \<le> p_pfn p \<and> p_pc p \<in> {P_Unlock, P_Post, P_End, P_Free, P_Exit}"

definition flight :: "producer \<Rightarrow> bool" where
  "flight p \<longleftrightarrow> p_pc p \<in> {P_Pfn, P_Filling}"

text \<open>\<open>l\<close> nodes are taken.\<close>

definition thread_ok :: "u64 \<Rightarrow> nat \<Rightarrow> producer \<Rightarrow> (nat \<Rightarrow> page_flag) \<Rightarrow> nat \<Rightarrow> bool \<Rightarrow> bool" where
  "thread_ok E l p nd cn ct \<longleftrightarrow>
     p_node p = (cn + (if active E p then l - 1 else l)) mod PAGE_FLAG_NUM \<and>
     (p_pc p \<in> {P_Lock_Pfn, P_Search, P_Pfn, P_Filling} \<or> ended E p \<longrightarrow> l < PAGE_FLAG_NUM) \<and>
     (p_pc p = P_Filling \<or> ended E p \<longrightarrow> pf_pfn (nd (p_node p)) = p_pfn p) \<and>
     (E \<le> p_pfn p \<longrightarrow> flight p \<or> ended E p) \<and>
     (p_pc p \<in> {P_End, P_Free, P_Exit} \<longrightarrow> E \<le> p_pfn p) \<and>
     (ct \<longrightarrow> ended E p \<and> l = 0)"

definition ring_ok :: "u64 \<Rightarrow> nat list \<Rightarrow> producer \<Rightarrow> (nat \<Rightarrow> page_flag) \<Rightarrow> nat \<Rightarrow> bool \<Rightarrow> bool" where
  "ring_ok E qs p nd cn ct \<longleftrightarrow> cn < PAGE_FLAG_NUM \<and> length qs \<le> PAGE_FLAG_NUM \<and>
     nodes_ok qs (active E p) (ended E p \<and> \<not> ct) (node_at nd cn) \<and> (active E p \<longrightarrow> qs \<noteq> [] \<and> last qs = unat (p_pfn p)) \<and>
     thread_ok E (length qs) p nd cn ct"

text \<open>A step that changes only the program counter, between places that are equal for the ring.\<close>

lemma ring_pc:
  assumes "ring_ok E qs p nd cn ct" "p_pfn p' = p_pfn p" "p_node p' = p_node p" "active E p' = active E p" "ended E p' = ended E p"
    "p_pc p' \<in> {P_Lock_Pfn, P_Search, P_Pfn, P_Filling} \<longrightarrow> length qs < PAGE_FLAG_NUM"
    "E \<le> p_pfn p \<longrightarrow> flight p' \<or> ended E p" "p_pc p' \<in> {P_End, P_Free, P_Exit} \<longrightarrow> E \<le> p_pfn p" "p_pc p' \<noteq> P_Filling"
  shows "ring_ok E qs p' nd cn ct"
proof -
  have "thread_ok E (length qs) p nd cn ct" using assms(1) by (simp add: ring_ok_def)
  then have "thread_ok E (length qs) p' nd cn ct" using assms(6-) unfolding thread_ok_def assms(2-5) by blast
  with assms(1-5) show ?thesis by (simp add: ring_ok_def)
qed

lemma ring_search:
  assumes "ring_ok E qs p nd cn ct" "p_pc p = P_Search"
  shows "ring_ok E qs (p\<lparr>p_pc := P_Pfn, p_pfn := x, p_bitmap := bm\<rparr>) nd cn ct"
  using assms unfolding ring_ok_def thread_ok_def by (simp add: active_def ended_def flight_def)

lemma node_at_self: "p_node p = (cn + k) mod PAGE_FLAG_NUM \<Longrightarrow> nd (p_node p) = node_at nd cn k"
  by (simp add: node_at_def)

lemma node_at_fun_upd:
  assumes "m = (cn + k) mod PAGE_FLAG_NUM" "k < PAGE_FLAG_NUM" "nodes_ok qs act mark ((node_at nd cn)(k := x))" "length qs \<le> PAGE_FLAG_NUM"
  shows "nodes_ok qs act mark (node_at (nd(m := x)) cn)"
  by (rule nodes_cong [OF assms(3) _ assms(4)]) (simp add: assms(1) node_at_upd [OF _ assms(2)])

lemma ring_store_pfn:
  assumes "ring_ok E qs p nd cn ct" "p_pc p = P_Pfn"
  shows "ring_ok E qs (p\<lparr>p_pc := P_Filling\<rparr>) (nd(p_node p := (nd (p_node p))\<lparr>pf_pfn := p_pfn p\<rparr>)) cn ct"
proof -
  have a: "\<not> active E p" "\<not> ended E p" "\<not> active E (p\<lparr>p_pc := P_Filling\<rparr>)" "\<not> ended E (p\<lparr>p_pc := P_Filling\<rparr>)"
    using assms(2) by (auto simp: active_def ended_def)
  have l: "length qs < PAGE_FLAG_NUM" "p_node p = (cn + length qs) mod PAGE_FLAG_NUM" "nodes_ok qs False False (node_at nd cn)"
    using assms a unfolding ring_ok_def thread_ok_def by simp_all
  have "nodes_ok qs False False (node_at (nd(p_node p := (nd (p_node p))\<lparr>pf_pfn := p_pfn p\<rparr>)) cn)"
    using node_at_fun_upd [OF l(2,1) nodes_pfn [OF l(3)]] l(1) node_at_self [OF l(2)] by simp
  then show ?thesis using assms a unfolding ring_ok_def thread_ok_def by (simp add: flight_def)
qed

lemma ring_store_filling:
  assumes "ring_ok E qs p nd cn ct" "p_pc p = P_Filling"
  shows "ring_ok E (if p_pfn p < E then qs @ [unat (p_pfn p)] else qs) (p\<lparr>p_pc := P_Unlock\<rparr>)
     (nd(p_node p := (nd (p_node p))\<lparr>pf_ready := FLAG_FILLING\<rparr>)) cn ct"
proof -
  let ?p = "p\<lparr>p_pc := P_Unlock\<rparr>" and ?nd = "nd(p_node p := (nd (p_node p))\<lparr>pf_ready := FLAG_FILLING\<rparr>)"
  have a: "\<not> active E p" "\<not> ended E p" "active E ?p = (p_pfn p < E)" "ended E ?p = (E \<le> p_pfn p)"
    using assms(2) by (auto simp: active_def ended_def)
  have l: "length qs < PAGE_FLAG_NUM" "p_node p = (cn + length qs) mod PAGE_FLAG_NUM" "nodes_ok qs False False (node_at nd cn)" "\<not> ct"
    "pf_pfn (nd (p_node p)) = p_pfn p" "cn < PAGE_FLAG_NUM"
    using assms a unfolding ring_ok_def thread_ok_def by auto
  note n = node_at_self [OF l(2)]
  show ?thesis
  proof (cases "p_pfn p < E")
    case True
    have "nodes_ok (qs @ [unat (p_pfn p)]) True False (node_at ?nd cn)"
      using node_at_fun_upd [OF l(2,1) nodes_claim [OF l(3), of "unat (p_pfn p)"]] l(1,5) n by simp
    moreover have "\<not> E \<le> p_pfn p" using True by simp
    ultimately show ?thesis using True a l unfolding ring_ok_def thread_ok_def by simp
  next
    case False
    have "nodes_ok qs False True (node_at ?nd cn)"
      using node_at_fun_upd [OF l(2,1) nodes_mark [OF l(3)]] l(1) n by simp
    moreover have "E \<le> p_pfn p" using False by simp
    ultimately show ?thesis using False a l unfolding ring_ok_def thread_ok_def by simp
  qed
qed

lemma ring_ready:
  assumes "ring_ok E qs p nd cn ct" "p_pc p = P_Ready b"
  shows "ring_ok E qs (p\<lparr>p_pc := if b then P_Loop else P_Check, p_node := (p_node p + 1) mod PAGE_FLAG_NUM\<rparr>)
     (nd(p_node p := (nd (p_node p))\<lparr>pf_ready := FLAG_READY\<rparr>)) cn ct"
proof -
  let ?p = "p\<lparr>p_pc := if b then P_Loop else P_Check, p_node := (p_node p + 1) mod PAGE_FLAG_NUM\<rparr>"
  have lt: "p_pfn p < E" using assms unfolding ring_ok_def thread_ok_def by (simp add: flight_def ended_def linorder_not_le [symmetric])
  then have a: "active E p" "\<not> ended E p" "\<not> active E ?p" "\<not> ended E ?p" "\<not> E \<le> p_pfn p"
    using assms(2) by (auto simp: active_def ended_def)
  have l: "length qs \<le> PAGE_FLAG_NUM" "p_node p = (cn + (length qs - 1)) mod PAGE_FLAG_NUM" "\<not> ct" "qs \<noteq> []" "nodes_ok qs True False (node_at nd cn)"
    "cn < PAGE_FLAG_NUM"
    using assms a unfolding ring_ok_def thread_ok_def by simp_all
  have lt: "length qs - 1 < PAGE_FLAG_NUM" using l(1,4) by (cases qs) auto
  have nx: "(p_node p + 1) mod PAGE_FLAG_NUM = (cn + length qs) mod PAGE_FLAG_NUM" using l(2,4) by (cases qs) (auto simp: mod_simps)
  have "nodes_ok qs False False (node_at (nd(p_node p := (nd (p_node p))\<lparr>pf_ready := FLAG_READY\<rparr>)) cn)"
    using node_at_fun_upd [OF l(2) lt nodes_ready [OF l(5,4)] l(1)] node_at_self [OF l(2)] by simp
  then show ?thesis using a l nx unfolding ring_ok_def thread_ok_def by simp
qed

lemma ring_data:
  assumes "ring_ok E qs p nd cn ct" "p_pc p = P_Data" "pf_pfn x = pf_pfn (nd m)" "pf_ready x = pf_ready (nd m)"
  shows "ring_ok E qs (p\<lparr>p_pc := P_Ready b\<rparr>) (nd(m := x)) cn ct"
proof -
  have "pf_pfn (node_at (nd(m := x)) cn j) = pf_pfn (node_at nd cn j) \<and> pf_ready (node_at (nd(m := x)) cn j) = pf_ready (node_at nd cn j)" for j
    using assms(3,4) by (simp add: node_at_def)
  then have "nodes_ok qs act mark (node_at (nd(m := x)) cn) = nodes_ok qs act mark (node_at nd cn)" for act mark unfolding nodes_ok_def by simp
  with assms show ?thesis unfolding ring_ok_def thread_ok_def by (simp add: active_def ended_def flight_def)
qed

lemma unat_of_nat_below: "n < unat (E :: u64) \<Longrightarrow> unat (of_nat n :: u64) = n"
proof -
  assume "n < unat E"
  moreover have "unat E < 2 ^ 64" by simp
  ultimately have "n < 2 ^ 64" by (rule less_trans)
  then show ?thesis by (rule unat_of_nat64)
qed

text \<open>The main thread releases the first node, or counts the end.\<close>

lemma node_at_0: "cn < PAGE_FLAG_NUM \<Longrightarrow> node_at nd cn 0 = nd cn"
  by (simp add: node_at_def)

lemma ring_release:
  assumes "ring_ok E (q # qs) p nd cn ct" "pf_ready (nd cn) = FLAG_READY"
  shows "ring_ok E qs p (nd(cn := (nd cn)\<lparr>pf_ready := FLAG_UNUSED\<rparr>)) ((cn + 1) mod PAGE_FLAG_NUM) ct"
proof -
  let ?R = PAGE_FLAG_NUM and ?nd = "nd(cn := (nd cn)\<lparr>pf_ready := FLAG_UNUSED\<rparr>)"
  have r: "cn < ?R" "length (q # qs) \<le> ?R" "nodes_ok (q # qs) (active E p) (ended E p \<and> \<not> ct) (node_at nd cn)"
    and t: "thread_ok E (Suc (length qs)) p nd cn ct" using assms(1) unfolding ring_ok_def by simp_all
  have r4: "ended E p \<longrightarrow> Suc (length qs) < ?R" "\<not> ct" using t unfolding thread_ok_def by auto
  note r = r r4 t
  note n0 = node_at_0 [OF r(1)]
  have ne: "active E p \<Longrightarrow> qs \<noteq> []" using r(3) assms(2) n0 unfolding nodes_ok_def by (auto dest: spec [where x = 0])
  have o: "node_at ?nd cn j = (if j = 0 then (nd cn)\<lparr>pf_ready := FLAG_UNUSED\<rparr> else node_at nd cn j)" if "j < ?R" for j
    using node_at_upd [OF that PAGE_FLAG_NUM_pos, of nd cn] r(1) by simp
  have nk: "nodes_ok qs (active E p) (ended E p \<and> \<not> ct) (node_at ?nd ((cn + 1) mod ?R))"
  proof (rule nodes_cong [OF nodes_release [OF r(3) _ _ r(2)]])
    show "pf_ready (node_at nd cn 0) = FLAG_READY" using assms(2) n0 by simp
    show "ended E p \<and> \<not> ct \<longrightarrow> Suc (length qs) < ?R" using r4 by simp
    show "length qs \<le> ?R" using r(2) by simp
    fix j assume "j < ?R"
    then show "node_at ?nd ((cn + 1) mod ?R) j = (if Suc j = ?R then (node_at nd cn 0)\<lparr>pf_ready := FLAG_UNUSED\<rparr> else node_at nd cn (Suc j))"
      using node_at_next [of j ?nd cn] o [of 0] o [of "Suc j"] n0 PAGE_FLAG_NUM_pos by auto
  qed
  have pn: "ended E p \<or> p_pc p = P_Filling \<Longrightarrow> p_node p \<noteq> cn"
  proof -
    assume ef: "ended E p \<or> p_pc p = P_Filling"
    then have na: "\<not> active E p" by (auto simp: active_def ended_def)
    from ef have sl: "Suc (length qs) < ?R" using t unfolding thread_ok_def by blast
    from na have "p_node p = (cn + Suc (length qs)) mod ?R" using t unfolding thread_ok_def by simp
    then show ?thesis using r(1) sl ring_inj [of "Suc (length qs)" ?R 0 cn] PAGE_FLAG_NUM_pos by auto
  qed
  moreover have "p_node p = ((cn + 1) mod ?R + (if active E p then length qs - 1 else length qs)) mod ?R"
  proof -
    have "p_node p = (cn + (if active E p then Suc (length qs) - 1 else Suc (length qs))) mod ?R" using t unfolding thread_ok_def by blast
    moreover have "(if active E p then Suc (length qs) - 1 else Suc (length qs)) = Suc (if active E p then length qs - 1 else length qs)"
      using ne by (cases qs) auto
    ultimately show ?thesis by (simp only:) (simp add: mod_simps)
  qed
  moreover have "(ended E p \<or> p_pc p = P_Filling) \<longrightarrow> ?nd (p_node p) = nd (p_node p)" using pn by simp
  then have "p_pc p = P_Filling \<or> ended E p \<longrightarrow> pf_pfn (?nd (p_node p)) = p_pfn p" using t unfolding thread_ok_def by metis
  ultimately have "thread_ok E (length qs) p ?nd ((cn + 1) mod ?R) ct" using t r4 unfolding thread_ok_def by (metis Suc_lessD)
  moreover have "active E p \<longrightarrow> qs \<noteq> [] \<and> last qs = unat (p_pfn p)" using assms(1) ne unfolding ring_ok_def by auto
  ultimately show ?thesis using nk r(2) PAGE_FLAG_NUM_pos unfolding ring_ok_def by simp
qed

lemma ring_count:
  assumes "ring_ok E qs p nd cn ct" "pf_ready (nd cn) \<noteq> FLAG_UNUSED" "E \<le> pf_pfn (nd cn)" "\<forall>q\<in>set qs. q < unat E"
  shows "qs = [] \<and> ended E p \<and> \<not> ct \<and> ring_ok E [] p (nd(cn := (nd cn)\<lparr>pf_ready := FLAG_UNUSED\<rparr>)) cn True"
proof -
  let ?nd = "nd(cn := (nd cn)\<lparr>pf_ready := FLAG_UNUSED\<rparr>)"
  have r: "cn < PAGE_FLAG_NUM" "nodes_ok qs (active E p) (ended E p \<and> \<not> ct) (node_at nd cn)" using assms(1) unfolding ring_ok_def by simp_all
  note n0 = node_at_0 [OF r(1)]
  have qs: "qs = []"
  proof (rule ccontr)
    assume ne: "qs \<noteq> []"
    then have "pf_pfn (nd cn) = of_nat (qs ! 0)" using r(2) n0 unfolding nodes_ok_def by auto
    moreover have "qs ! 0 < unat E" using assms(4) ne by auto
    then have "unat (of_nat (qs ! 0) :: u64) = qs ! 0" by (rule unat_of_nat_below)
    ultimately show False using assms(3) \<open>qs ! 0 < unat E\<close> by (simp add: word_le_nat_alt)
  qed
  then have e: "ended E p" "\<not> ct" using r(2) n0 assms(2) PAGE_FLAG_NUM_pos unfolding nodes_ok_def by (auto split: if_splits)
  then have na: "\<not> active E p" by (auto simp: active_def ended_def)
  have "nodes_ok [] False False (node_at ?nd cn)"
    using node_at_fun_upd [of cn cn 0 "[]" False False nd "(nd cn)\<lparr>pf_ready := FLAG_UNUSED\<rparr>"] nodes_count [OF r(2) [unfolded qs]] r(1) n0 by simp
  then show ?thesis using assms(1) qs e na unfolding ring_ok_def thread_ok_def by auto
qed

section \<open>The order of the pages\<close>

text \<open>The next frame of a cycle.\<close>

lemma next_dumpable_spec:
  assumes "answers m c dmp bm f" "unat (start_pfn c) \<le> unat pfn" "next_dumpable f c pfn bm = (pfn', bm')"
  shows "answers m c dmp bm' f \<and> fd bm' = fd bm \<and> pfn \<le> pfn' \<and> (\<forall>i. unat pfn \<le> i \<and> i < unat pfn' \<longrightarrow> \<not> (dmp i \<and> i < unat (end_pfn c))) \<and>
     (pfn' < end_pfn c \<longrightarrow> dmp (unat pfn')) \<and> (end_pfn c \<le> pfn' \<longrightarrow> pfn' = max pfn (end_pfn c))"
  using assms
proof (induction f c pfn bm rule: next_dumpable.induct)
  case (1 f c pfn bm)
  show ?case
  proof (cases "pfn < end_pfn c")
    case True
    then have "unat pfn \<in> {unat (start_pfn c) ..< unat (end_pfn c)}" using "1.prems"(2) by (simp add: word_less_nat_alt)
    from answers_query [OF "1.prems"(1) this] obtain bm1 where
      q: "is_dumpable bm f pfn (Some c) = (dmp (unat pfn), bm1)" "answers m c dmp bm1 f" "fd bm1 = fd bm" by blast
    show ?thesis
    proof (cases "dmp (unat pfn)")
      case d: True
      then have "next_dumpable f c pfn bm = (pfn, bm1)" using True q(1) by (subst next_dumpable.simps) simp
      then show ?thesis using "1.prems"(3) q d True by auto
    next
      case False
      then have n: "next_dumpable f c pfn bm = next_dumpable f c (pfn + 1) bm1" using True q(1) by (subst next_dumpable.simps) simp
      have s: "unat (pfn + 1) = Suc (unat pfn)" using True by (rule unat_Suc_less)
      have ih: "answers m c dmp bm' f \<and> fd bm' = fd bm1 \<and> pfn + 1 \<le> pfn' \<and> (\<forall>i. unat (pfn + 1) \<le> i \<and> i < unat pfn' \<longrightarrow> \<not> (dmp i \<and> i < unat (end_pfn c))) \<and>
         (pfn' < end_pfn c \<longrightarrow> dmp (unat pfn')) \<and> (end_pfn c \<le> pfn' \<longrightarrow> pfn' = max (pfn + 1) (end_pfn c))"
        by (rule "1.IH" [OF True q(1) [symmetric] False q(2)]) (use "1.prems"(2,3) n s in auto)
      have l: "pfn \<le> pfn'" using ih s by (simp add: word_le_nat_alt)
      have m: "max (pfn + 1) (end_pfn c) = max pfn (end_pfn c)"
        using True s by (simp add: max_def word_le_nat_alt word_less_nat_alt)
      have "\<forall>i. unat pfn \<le> i \<and> i < unat pfn' \<longrightarrow> \<not> (dmp i \<and> i < unat (end_pfn c))"
        using ih s False by (metis Suc_leI le_neq_implies_less)
      with ih l m q(3) show ?thesis by simp
    qed
  next
    case False
    then have "next_dumpable f c pfn bm = (pfn, bm)" by (subst next_dumpable.simps) simp
    then show ?thesis using "1.prems"(1,3) False by (auto simp: max_def)
  qed
qed

text \<open>
  Variables of the proof: \<open>g_K\<close> frames are released, \<open>g_M\<close> are in the rings or released, \<open>g_who k\<close> is the thread that took
  frame number \<open>k\<close>, \<open>g_counted\<close> are the threads whose end is counted.
\<close>

record ghost =
  g_who :: "nat \<Rightarrow> nat"
  g_K :: nat
  g_M :: nat
  g_counted :: "nat set"

definition queue :: "nat list \<Rightarrow> ghost \<Rightarrow> nat \<Rightarrow> nat list" where
  "queue F g t = map (\<lambda>k. F ! k) (filter (\<lambda>k. g_who g k = t) [g_K g ..< g_M g])"

definition critical :: "producer_pc \<Rightarrow> bool" where
  "critical pc \<longleftrightarrow> pc \<in> {P_Search, P_Pfn, P_Filling, P_Unlock}"

definition unposted :: "producer \<Rightarrow> bool" where
  "unposted p \<longleftrightarrow> p_pc p \<in> {P_Unlock, P_Post}"

text \<open>The number of threads with a property.\<close>

definition count_threads :: "nat \<Rightarrow> (producer \<Rightarrow> bool) \<Rightarrow> (nat \<Rightarrow> producer) \<Rightarrow> nat" where
  "count_threads n P ps = (\<Sum>t<n. of_bool (P (ps t)))"

lemma count_threads_upd:
  assumes "t < n"
  shows "count_threads n P (ps(t := p)) + of_bool (P (ps t)) = count_threads n P ps + of_bool (P p)"
proof -
  have "count_threads n P (ps(t := p)) = of_bool (P p) + (\<Sum>u\<in>{..<n} - {t}. of_bool (P (ps u)))"
    unfolding count_threads_def using assms by (subst sum.remove [of _ t]) auto
  moreover have "count_threads n P ps = of_bool (P (ps t)) + (\<Sum>u\<in>{..<n} - {t}. of_bool (P (ps u)))"
    unfolding count_threads_def using assms by (subst sum.remove [of _ t]) auto
  ultimately show ?thesis by simp
qed

lemma count_threads_le: "count_threads n P ps \<le> n"
proof -
  have "count_threads n P ps \<le> (\<Sum>t<n. 1)" unfolding count_threads_def by (rule sum_mono) simp
  then show ?thesis by simp
qed

lemma count_threads_0: "count_threads n P ps = 0 \<longleftrightarrow> (\<forall>t<n. \<not> P (ps t))"
  by (auto simp: count_threads_def)

definition claims_ok :: "u64 \<Rightarrow> nat list \<Rightarrow> nat \<Rightarrow> ghost \<Rightarrow> u64 \<Rightarrow> (nat \<Rightarrow> producer) \<Rightarrow> bool" where
  "claims_ok E F n g cur ps \<longleftrightarrow> g_K g \<le> g_M g \<and> g_M g \<le> length F \<and> (\<forall>k<g_M g. g_who g k < n) \<and>
     (\<forall>t<n. flight (ps t) \<longrightarrow> (if p_pfn (ps t) < E then g_M g < length F \<and> unat (p_pfn (ps t)) = F ! g_M g \<and> (\<forall>k<length F. F ! k < unat cur \<longleftrightarrow> k \<le> g_M g)
        else g_M g = length F \<and> E \<le> cur)) \<and>
     ((\<forall>t<n. \<not> flight (ps t)) \<longrightarrow> (\<forall>k<length F. F ! k < unat cur \<longleftrightarrow> k < g_M g)) \<and>
     (\<forall>t<n. ended E (ps t) \<longrightarrow> g_M g = length F) \<and>
     unat cur \<le> unat E + count_threads n (\<lambda>p. E \<le> p_pfn p) ps"

definition seen :: "u64 \<Rightarrow> nat list \<Rightarrow> ghost \<Rightarrow> nat \<Rightarrow> consumer \<Rightarrow> bool" where
  "seen E F g i c \<longleftrightarrow> (if g_K g < length F
     then (if g_who g (g_K g) < i then c_consuming c = g_who g (g_K g) \<and> unat (c_current c) = F ! g_K g else F ! g_K g < unat (c_current c))
     else c_current c = E)"

definition main_ok :: "u64 \<Rightarrow> nat list \<Rightarrow> nat \<Rightarrow> ghost \<Rightarrow> (nat \<Rightarrow> page_flag_state) \<Rightarrow> consumer \<Rightarrow> bool" where
  "main_ok E F n g hf c \<longleftrightarrow> c_consuming c < n \<and> c_end_count c = card (g_counted g) \<and> g_counted g \<subseteq> {..<n} \<and> (case c_pc c of
       C_Scan \<Rightarrow> seen E F g (c_i c) c \<and> c_i c \<le> n
     | C_Pfn \<Rightarrow> seen E F g (c_i c) c \<and> c_i c < n \<and> hf (c_i c) \<noteq> FLAG_UNUSED
     | C_Ends \<Rightarrow> seen E F g n c
     | C_Ready \<Rightarrow> seen E F g n c
     | C_Compare \<Rightarrow> seen E F g n c \<and> hf (c_consuming c) = FLAG_READY
     | C_Write \<Rightarrow> g_K g < g_M g \<and> c_consuming c = g_who g (g_K g) \<and> hf (c_consuming c) = FLAG_READY
     | C_Free \<Rightarrow> g_K g < g_M g \<and> c_consuming c = g_who g (g_K g) \<and> hf (c_consuming c) = FLAG_READY
     | C_Release \<Rightarrow> g_K g < g_M g \<and> c_consuming c = g_who g (g_K g) \<and> hf (c_consuming c) = FLAG_READY
     | C_Finish \<Rightarrow> g_counted g = {..<n}
     | _ \<Rightarrow> True)"

definition head_flag :: "par_state \<Rightarrow> nat \<Rightarrow> page_flag_state" where
  "head_flag s t = pf_ready (page_flag_buf s t (c_node (consumer s) t))"

definition rings_ok :: "u64 \<Rightarrow> nat list \<Rightarrow> nat \<Rightarrow> ghost \<Rightarrow> par_state \<Rightarrow> bool" where
  "rings_ok E F n g s \<longleftrightarrow> (\<forall>t<n. ring_ok E (queue F g t) (producers s t) (page_flag_buf s t) (c_node (consumer s) t) (t \<in> g_counted g))"

definition locks_ok :: "nat \<Rightarrow> par_state \<Rightarrow> bool" where
  "locks_ok n s \<longleftrightarrow> (\<forall>t<n. critical (p_pc (producers s t)) = (current_pfn_mutex s = Some t))"

definition sem_ok :: "u64 \<Rightarrow> nat \<Rightarrow> ghost \<Rightarrow> par_state \<Rightarrow> bool" where
  "sem_ok E n g s \<longleftrightarrow> page_flag_buf_sem s + g_K g + of_bool (c_pc (consumer s) \<noteq> C_Wait) + count_threads n unposted (producers s) =
     g_M g + count_threads n (ended E) (producers s)"

definition order_inv :: "u64 \<Rightarrow> nat list \<Rightarrow> nat \<Rightarrow> ghost \<Rightarrow> par_state \<Rightarrow> bool" where
  "order_inv E F n g s \<longleftrightarrow> rings_ok E F n g s \<and> locks_ok n s \<and> claims_ok E F n g (current_pfn s) (producers s) \<and> sem_ok E n g s \<and>
     main_ok E F n g (head_flag s) (consumer s)"

text \<open>While the main thread looks for a page, the next frame is in a ring.\<close>

lemma next_claimed:
  assumes "order_inv E F n g s" "c_pc (consumer s) \<noteq> C_Wait" "g_K g < length F"
  shows "g_K g < g_M g"
proof (cases "\<exists>t<n. ended E (producers s t)")
  case True
  then show ?thesis using assms(1,3) by (auto simp: order_inv_def claims_ok_def)
next
  case False
  then have "count_threads n (ended E) (producers s) = 0" by (simp add: count_threads_0)
  then show ?thesis using assms(1,2) by (simp add: order_inv_def sem_ok_def)
qed

text \<open>
  A step of a thread: the main thread's part is kept when the flags of its nodes are only raised.
\<close>

definition raised :: "(nat \<Rightarrow> page_flag_state) \<Rightarrow> (nat \<Rightarrow> page_flag_state) \<Rightarrow> bool" where
  "raised h h' \<longleftrightarrow> (\<forall>t. (h t = FLAG_READY \<longrightarrow> h' t = FLAG_READY) \<and> (h t \<noteq> FLAG_UNUSED \<longrightarrow> h' t \<noteq> FLAG_UNUSED))"

lemma raised_refl [simp]: "raised h h"
  by (simp add: raised_def)

lemma main_raised:
  assumes "main_ok E F n g hf c" "raised hf hf'" "g_K g' = g_K g" "g_M g \<le> g_M g'" "g_counted g' = g_counted g"
    "c_pc c \<noteq> C_Wait \<and> g_K g < length F \<longrightarrow> g_who g' (g_K g) = g_who g (g_K g)" "g_M g' \<le> length F"
  shows "main_ok E F n g' hf' c"
proof -
  have s: "seen E F g' i c = seen E F g i c" if "c_pc c \<noteq> C_Wait" for i using assms(3,6) that by (simp add: seen_def)
  have w: "c_pc c \<noteq> C_Wait \<Longrightarrow> g_K g < g_M g \<Longrightarrow> g_who g' (g_K g) = g_who g (g_K g)" using assms(4,6,7) by simp
  show ?thesis using assms(1-5) s w unfolding main_ok_def by (cases "c_pc c") (auto simp: raised_def)
qed

text \<open>A step of a thread that takes no frame and no lock.\<close>

lemma quiet_step:
  assumes inv: "order_inv E F n g s" and t: "t < n"
    and ps: "producers s' = (producers s)(t := p')" and "flight p' = flight (producers s t)" "ended E p' = ended E (producers s t)"
    "p_pfn p' = p_pfn (producers s t)" "critical (p_pc p') = critical (p_pc (producers s t))" "unposted p' = unposted (producers s t)"
    and "current_pfn s' = current_pfn s" "current_pfn_mutex s' = current_pfn_mutex s" "page_flag_buf_sem s' = page_flag_buf_sem s" "consumer s' = consumer s"
    and nd: "page_flag_buf s' = (page_flag_buf s)(t := nd')"
    and ring: "ring_ok E (queue F g t) p' nd' (c_node (consumer s) t) (t \<in> g_counted g)"
    and "raised (head_flag s) (head_flag s')"
  shows "order_inv E F n g s'"
proof -
  have sum: "count_threads n P (producers s') = count_threads n P (producers s)" if "P p' = P (producers s t)" for P
    using count_threads_upd [OF t, of P "producers s" p'] that ps by simp
  have "count_threads n unposted (producers s') = count_threads n unposted (producers s)" by (rule sum) (simp add: assms)
  moreover have "count_threads n (ended E) (producers s') = count_threads n (ended E) (producers s)" by (rule sum) (simp add: assms)
  moreover have "count_threads n (\<lambda>p. E \<le> p_pfn p) (producers s') = count_threads n (\<lambda>p. E \<le> p_pfn p) (producers s)" by (rule sum) (simp add: assms)
  moreover have "flight (producers s' u) = flight (producers s u)" "ended E (producers s' u) = ended E (producers s u)"
    "p_pfn (producers s' u) = p_pfn (producers s u)" "critical (p_pc (producers s' u)) = critical (p_pc (producers s u))" for u
    using assms by auto
  moreover have "rings_ok E F n g s'" using inv ring assms(12) unfolding order_inv_def rings_ok_def ps nd by auto
  moreover have "main_ok E F n g (head_flag s') (consumer s')"
    using inv main_raised [OF _ assms(15), of E F n g "consumer s" g] assms(12) by (auto simp: order_inv_def claims_ok_def)
  ultimately show ?thesis using inv assms(9-12) unfolding order_inv_def locks_ok_def claims_ok_def sem_ok_def by simp
qed

text \<open>Any step of a thread.\<close>

lemma thread_step:
  assumes inv: "order_inv E F n g s" and ps: "producers s' = (producers s)(t := p')"
    and nd: "page_flag_buf s' = (page_flag_buf s)(t := nd')" and c: "consumer s' = consumer s"
    and gq: "g_K g' = g_K g" "g_M g \<le> g_M g'" "g_counted g' = g_counted g" "\<And>u. u \<noteq> t \<Longrightarrow> queue F g' u = queue F g u"
      "\<forall>k<g_M g. g_who g' k = g_who g k"
    and ring: "ring_ok E (queue F g' t) p' nd' (c_node (consumer s) t) (t \<in> g_counted g)"
    and "raised (head_flag s) (head_flag s')" "locks_ok n s'" "claims_ok E F n g' (current_pfn s') (producers s')" "sem_ok E n g' s'"
  shows "order_inv E F n g' s'"
proof -
  have "rings_ok E F n g' s'" using inv ring gq c unfolding order_inv_def rings_ok_def ps nd by auto
  moreover have "main_ok E F n g' (head_flag s') (consumer s')"
    using inv main_raised [OF _ assms(11) gq(1,2,3)] c next_claimed [OF inv] gq(5) assms(13) by (auto simp: order_inv_def claims_ok_def)
  ultimately show ?thesis using assms by (simp add: order_inv_def)
qed

lemma queue_claim:
  assumes "g' = g\<lparr>g_who := (g_who g)(g_M g := t), g_M := g_M g + 1\<rparr>" "g_K g \<le> g_M g"
  shows "queue F g' u = (if u = t then queue F g t @ [F ! g_M g] else queue F g u)"
proof -
  have "filter (\<lambda>k. ((g_who g)(g_M g := t)) k = u) [g_K g ..< g_M g] = filter (\<lambda>k. g_who g k = u) [g_K g ..< g_M g]"
    by (rule filter_cong) auto
  then show ?thesis using assms(2) by (auto simp: queue_def assms(1))
qed

lemma locks_other:
  assumes "locks_ok n s" "t < n" "u < n" "critical (p_pc (producers s t))" "critical (p_pc (producers s u))"
  shows "u = t"
  using assms by (auto simp: locks_ok_def)

lemma critical_flight: "flight p \<Longrightarrow> critical (p_pc p)"
  by (auto simp: flight_def critical_def)

text \<open>The frames of the cycle, and the threads' bitmaps.\<close>

definition frames_ok :: "par_env \<Rightarrow> (nat \<Rightarrow> bool) \<Rightarrow> nat list \<Rightarrow> bool" where
  "frames_ok e dmp F \<longleftrightarrow> F = filter dmp [unat (start_pfn (pe_cycle e)) ..< unat (end_pfn (pe_cycle e))] \<and>
     start_pfn (pe_cycle e) < end_pfn (pe_cycle e) \<and> unat (end_pfn (pe_cycle e)) + pe_num_threads e < 2 ^ 64 - 1 \<and> 0 < pe_num_threads e"

lemma frames_sorted: "frames_ok e dmp F \<Longrightarrow> j < length F \<Longrightarrow> k < length F \<Longrightarrow> (F ! j < F ! k) = (j < k)"
proof -
  assume F: "frames_ok e dmp F" and jk: "j < length F" "k < length F"
  have "sorted_wrt (<) F" using F by (simp add: frames_ok_def sorted_wrt_filter)
  then have "a < b \<Longrightarrow> b < length F \<Longrightarrow> F ! a < F ! b" for a b by (rule sorted_wrt_nth_less)
  then show ?thesis using jk by (metis less_asym' less_irrefl_nat linorder_neqE_nat)
qed

lemma frame_range: "frames_ok e dmp F \<Longrightarrow> k < length F \<Longrightarrow>
    unat (start_pfn (pe_cycle e)) \<le> F ! k \<and> F ! k < unat (end_pfn (pe_cycle e)) \<and> dmp (F ! k)"
  using nth_mem [of k F] by (auto simp: frames_ok_def)

definition thread_bitmap :: "par_env \<Rightarrow> par_state \<Rightarrow> nat \<Rightarrow> dump_bitmap" where
  "thread_bitmap e s t = (if fd_bitmap (pe_env e) \<ge> 0 then p_bitmap (producers s t) else bitmap2 (ks_bitmaps (par_ks s)))"

definition bits_inv :: "par_env \<Rightarrow> nat \<Rightarrow> (nat \<Rightarrow> bool) \<Rightarrow> par_state \<Rightarrow> bool" where
  "bits_inv e m dmp s \<longleftrightarrow> unat (start_pfn (pe_cycle e)) \<le> unat (current_pfn s) \<and>
     (\<forall>t<pe_num_threads e. answers m (pe_cycle e) dmp (thread_bitmap e s t) (bmfile (ks_bitmaps (par_ks s))))"

text \<open>The thread that holds the lock takes the next frame.\<close>

lemma search_claims:
  assumes F: "frames_ok e dmp F" and cl: "claims_ok (end_pfn (pe_cycle e)) F n g cur ps" and n: "n = pe_num_threads e" "t < n"
    and nf: "\<forall>u<n. \<not> flight (ps u)" and lt: "p_pfn (ps t) < end_pfn (pe_cycle e)" and ne: "\<not> ended (end_pfn (pe_cycle e)) p'"
    and a: "answers m (pe_cycle e) dmp bm f" "unat (start_pfn (pe_cycle e)) \<le> unat cur" and nx: "next_dumpable f (pe_cycle e) cur bm = (pfn, bm')"
    and p': "flight p'" "p_pfn p' = pfn"
  shows "claims_ok (end_pfn (pe_cycle e)) F n g (pfn + 1) (ps(t := p')) \<and> answers m (pe_cycle e) dmp bm' f \<and> unat (start_pfn (pe_cycle e)) \<le> unat (pfn + 1)"
proof -
  let ?E = "end_pfn (pe_cycle e)" and ?M = "g_M g"
  let ?c = "count_threads n (\<lambda>p. ?E \<le> p_pfn p)"
  from next_dumpable_spec [OF a nx] have
    N: "answers m (pe_cycle e) dmp bm' f" "cur \<le> pfn" "\<forall>i. unat cur \<le> i \<and> i < unat pfn \<longrightarrow> \<not> (dmp i \<and> i < unat ?E)" "pfn < ?E \<longrightarrow> dmp (unat pfn)"
    "?E \<le> pfn \<longrightarrow> pfn = max cur ?E" by auto
  have C: "g_K g \<le> ?M" "?M \<le> length F" "\<forall>k<?M. g_who g k < n" "\<forall>k<length F. F ! k < unat cur \<longleftrightarrow> k < ?M" "\<forall>u<n. ended ?E (ps u) \<longrightarrow> ?M = length F"
    "unat cur \<le> unat ?E + ?c ps" using cl nf by (auto simp: claims_ok_def)
  have lt': "\<not> ?E \<le> p_pfn (ps t)" using lt by simp
  have sum: "?c (ps(t := p')) = ?c ps + of_bool (?E \<le> pfn)"
    using count_threads_upd [OF n(2), of "\<lambda>p. ?E \<le> p_pfn p" ps p'] p'(2) lt' by simp
  have cn: "?c (ps(t := p')) \<le> n" by (rule count_threads_le)
  have En: "unat ?E + n < 2 ^ 64 - 1" using F n(1) by (simp add: frames_ok_def)
  have other: "\<not> flight ((ps(t := p')) u)" if "u < n" "u \<noteq> t" for u using nf that by simp
  have en: "\<forall>u<n. ended ?E ((ps(t := p')) u) \<longrightarrow> ?M = length F" using C(5) ne by auto
  show ?thesis
  proof (cases "pfn < ?E")
    case True
    then have s: "unat (pfn + 1) = Suc (unat pfn)" by (rule unat_Suc_less)
    have lE: "unat pfn < unat ?E" using True by (simp add: word_less_nat_alt)
    have "unat pfn \<in> set F" using F N(2,4) True a(2) by (auto simp: frames_ok_def word_le_nat_alt word_less_nat_alt)
    then obtain j where j: "j < length F" "F ! j = unat pfn" by (auto simp: in_set_conv_nth)
    have "\<not> j < ?M" using C(4) j N(2) by (auto simp: word_le_nat_alt)
    moreover have "\<not> ?M < j"
    proof
      assume "?M < j"
      then have "?M < length F" "F ! ?M < unat pfn" using j frames_sorted [OF F, of ?M j] by auto
      moreover from this have "unat cur \<le> F ! ?M" using C(4) by (metis less_irrefl_nat not_le_imp_less)
      ultimately show False using N(3) frame_range [OF F, of ?M] by blast
    qed
    ultimately have jM: "j = ?M" by simp
    have "F ! k < unat (pfn + 1) \<longleftrightarrow> k \<le> ?M" if "k < length F" for k
      using frames_sorted [OF F that j(1)] frames_sorted [OF F j(1) that] j(2) jM s by (metis less_Suc_eq_le not_less)
    then show ?thesis using n(2) C j jM True p' other en N(1) s lE sum a(2) N(2) by (auto simp: claims_ok_def word_le_nat_alt)
  next
    case False
    then have m: "pfn = max cur ?E" "?E \<le> pfn" using N(5) by auto
    have M: "?M = length F"
    proof (rule ccontr)
      assume "?M \<noteq> length F"
      then have "?M < length F" using C(2) by simp
      moreover from this have "unat cur \<le> F ! ?M" using C(4) by (metis less_irrefl_nat not_le_imp_less)
      moreover have "unat ?E \<le> unat pfn" using m(2) by (simp add: word_le_nat_alt)
      ultimately show False using N(3) frame_range [OF F, of ?M] by (meson order_less_le_trans)
    qed
    have up: "unat pfn \<le> unat ?E + ?c ps" using m(1) C(6) by (auto simp: max_def)
    then have s: "unat (pfn + 1) = Suc (unat pfn)" using cn En sum m(2) by (subst unat_plus64) auto
    have b: "unat (pfn + 1) \<le> unat ?E + ?c (ps(t := p'))" using up s sum m(2) by simp
    have e: "?E \<le> pfn + 1" using m(2) s by (simp add: word_le_nat_alt)
    show ?thesis using n(2) C M False p' other en N(1) s b e a(2) N(2) by (auto simp: claims_ok_def word_le_nat_alt)
  qed
qed

definition claim_ghost :: "par_env \<Rightarrow> nat \<Rightarrow> par_state \<Rightarrow> ghost \<Rightarrow> ghost" where
  "claim_ghost e t s g = (if p_pc (producers s t) = P_Filling \<and> p_pfn (producers s t) < end_pfn (pe_cycle e)
     then g\<lparr>g_who := (g_who g)(g_M g := t), g_M := g_M g + 1\<rparr> else g)"

lemma raised_node:
  assumes "page_flag_buf s' = (page_flag_buf s)(t := (page_flag_buf s t)(k := x))" "consumer s' = consumer s"
    "pf_ready (page_flag_buf s t k) = FLAG_READY \<longrightarrow> pf_ready x = FLAG_READY" "pf_ready (page_flag_buf s t k) \<noteq> FLAG_UNUSED \<longrightarrow> pf_ready x \<noteq> FLAG_UNUSED"
  shows "raised (head_flag s) (head_flag s')"
  using assms unfolding raised_def head_flag_def by auto

lemma ring_here: "order_inv E F n g s \<Longrightarrow> t < n \<Longrightarrow>
    ring_ok E (queue F g t) (producers s t) (page_flag_buf s t) (c_node (consumer s) t) (t \<in> g_counted g)"
  by (simp add: order_inv_def rings_ok_def)

lemma ring_pfn_before_end: "ring_ok E qs p nd cn ct \<Longrightarrow> \<not> flight p \<Longrightarrow> \<not> ended E p \<Longrightarrow> p_pfn p < E"
  by (auto simp: ring_ok_def thread_ok_def linorder_not_le)

text \<open>The steps that take no frame and no lock.\<close>

lemma quiet_pc:
  assumes "order_inv E F n g s" "t < n" "producers s' = (producers s)(t := p')"
    "p_pfn p' = p_pfn (producers s t)" "p_node p' = p_node (producers s t)" "active E p' = active E (producers s t)" "ended E p' = ended E (producers s t)"
    "flight p' = flight (producers s t)" "critical (p_pc p') = critical (p_pc (producers s t))" "unposted p' = unposted (producers s t)"
    "p_pc p' \<in> {P_Lock_Pfn, P_Search, P_Pfn, P_Filling} \<longrightarrow> length (queue F g t) < PAGE_FLAG_NUM"
    "p_pc p' \<in> {P_End, P_Free, P_Exit} \<longrightarrow> E \<le> p_pfn (producers s t)" "p_pc p' \<noteq> P_Filling"
    "current_pfn s' = current_pfn s" "current_pfn_mutex s' = current_pfn_mutex s" "page_flag_buf_sem s' = page_flag_buf_sem s" "consumer s' = consumer s"
    "page_flag_buf s' = page_flag_buf s"
  shows "order_inv E F n g s'"
proof (rule quiet_step [OF assms(1,2,3)])
  note r = ring_here [OF assms(1,2)]
  have "E \<le> p_pfn (producers s t) \<longrightarrow> flight p' \<or> ended E (producers s t)" using r assms(8) by (auto simp: ring_ok_def thread_ok_def)
  then show "ring_ok E (queue F g t) p' (page_flag_buf s t) (c_node (consumer s) t) (t \<in> g_counted g)"
    using assms(4-7,11-13) by (intro ring_pc [OF r]) auto
  have "head_flag s' = head_flag s" using assms(17,18) by (auto simp: head_flag_def)
  then show "raised (head_flag s) (head_flag s')" by simp
qed (use assms in auto)

lemma producer_sel [simp]: "producers (set_producer t p s) = (producers s)(t := p)" "consumer (set_producer t p s) = consumer s"
  "page_flag_buf (set_producer t p s) = page_flag_buf s" "current_pfn (set_producer t p s) = current_pfn s"
  "current_pfn_mutex (set_producer t p s) = current_pfn_mutex s" "page_flag_buf_sem (set_producer t p s) = page_flag_buf_sem s"
  "page_data_buf (set_producer t p s) = page_data_buf s" "par_ks (set_producer t p s) = par_ks s" "page_data_mutex (set_producer t p s) = page_data_mutex s"
  by (simp_all add: set_producer_def)

lemma node_sel [simp]: "producers (set_node t k f s) = producers s" "consumer (set_node t k f s) = consumer s"
  "page_flag_buf (set_node t k f s) = (page_flag_buf s)(t := (page_flag_buf s t)(k := f (page_flag_buf s t k)))" "current_pfn (set_node t k f s) = current_pfn s"
  "current_pfn_mutex (set_node t k f s) = current_pfn_mutex s" "page_flag_buf_sem (set_node t k f s) = page_flag_buf_sem s"
  "page_data_buf (set_node t k f s) = page_data_buf s" "par_ks (set_node t k f s) = par_ks s" "page_data_mutex (set_node t k f s) = page_data_mutex s"
  by (simp_all add: set_node_def)

lemma used_sel [simp]: "producers (set_used b u s) = producers s" "consumer (set_used b u s) = consumer s"
  "page_flag_buf (set_used b u s) = page_flag_buf s" "current_pfn (set_used b u s) = current_pfn s"
  "current_pfn_mutex (set_used b u s) = current_pfn_mutex s" "page_flag_buf_sem (set_used b u s) = page_flag_buf_sem s"
  "page_data_buf (set_used b u s) = (page_data_buf s)[b := (page_data_buf s ! b)\<lparr>pg_used := u\<rparr>]" "par_ks (set_used b u s) = par_ks s"
  "page_data_mutex (set_used b u s) = page_data_mutex s"
  by (simp_all add: set_used_def)

lemmas thread_pcs = active_def ended_def flight_def critical_def unposted_def

definition quiet_at :: "producer_pc \<Rightarrow> bool" where
  "quiet_at pc \<longleftrightarrow> pc \<in> {P_Loop, P_Lock_Data, P_Take, P_Check, P_Free, P_Read, P_Filter}"

lemma queue_room:
  assumes "order_inv E F n g s" "t < n" "p_pc (producers s t) = P_Check" "pf_ready (page_flag_buf s t (p_node (producers s t))) \<noteq> FLAG_READY"
  shows "length (queue F g t) < PAGE_FLAG_NUM"
proof (rule ccontr)
  let ?q = "queue F g t" and ?cn = "c_node (consumer s) t" and ?nd = "page_flag_buf s t"
  note r = ring_here [OF assms(1,2)]
  assume "\<not> length ?q < PAGE_FLAG_NUM"
  then have l: "length ?q = PAGE_FLAG_NUM" using r by (simp add: ring_ok_def)
  have a: "\<not> active E (producers s t)" using assms(3) by (simp add: active_def)
  then have "p_node (producers s t) = ?cn" using r l by (simp add: ring_ok_def thread_ok_def)
  moreover have "pf_ready (node_at ?nd ?cn 0) = FLAG_READY" using r a l PAGE_FLAG_NUM_pos by (simp add: ring_ok_def nodes_ok_def)
  ultimately show False using assms(4) r by (simp add: ring_ok_def node_at_0)
qed

lemma thread_quiet:
  assumes inv: "order_inv (end_pfn (pe_cycle e)) F n g s" and t: "t < n" and step: "kdump_thread_function_cyclic e t s = Some s'"
    and pc: "quiet_at (p_pc (producers s t))"
  shows "order_inv (end_pfn (pe_cycle e)) F n g s'"
proof -
  let ?p = "producers s t" and ?E = "end_pfn (pe_cycle e)"
  have pfn: "p_pc ?p = P_Loop \<or> p_pc ?p = P_Read \<or> p_pc ?p = P_Filter \<Longrightarrow> p_pfn ?p < ?E"
    using ring_pfn_before_end [OF ring_here [OF inv t]] by (auto simp: flight_def ended_def)
  have same: "s' = s \<Longrightarrow> ?thesis" using inv by simp
  consider (loop) "p_pc ?p = P_Loop" | (lock) "p_pc ?p = P_Lock_Data" | (take) "p_pc ?p = P_Take" | (check) "p_pc ?p = P_Check" | (free) "p_pc ?p = P_Free"
    | (read) "p_pc ?p = P_Read" | (filter) "p_pc ?p = P_Filter" using pc by (auto simp: quiet_at_def)
  then show ?thesis
  proof cases
    case loop
    then have "s' = set_producer t (?p\<lparr>p_pc := P_Lock_Data\<rparr>) s"
      using step pfn by (simp add: kdump_thread_function_cyclic_def Let_def not_le [symmetric] split: if_splits)
    then show ?thesis using loop by (intro quiet_pc [OF inv t, of s' "?p\<lparr>p_pc := P_Lock_Data\<rparr>"]) (simp_all add: thread_pcs)
  next
    case lock
    then have "s' = set_producer t (?p\<lparr>p_pc := P_Take\<rparr>) (s\<lparr>page_data_mutex := Some t\<rparr>)"
      using step by (simp add: kdump_thread_function_cyclic_def split: if_splits)
    then show ?thesis using lock by (intro quiet_pc [OF inv t, of s' "?p\<lparr>p_pc := P_Take\<rparr>"]) (simp_all add: thread_pcs)
  next
    case take
    then consider "s' = set_producer t (?p\<lparr>p_index := (p_index ?p + 1) mod length (page_data_buf s)\<rparr>) s"
      | "s' = set_producer t (?p\<lparr>p_pc := P_Check\<rparr>) (set_used (p_index ?p) True (s\<lparr>page_data_mutex := None\<rparr>))"
      using step by (auto simp: kdump_thread_function_cyclic_def Let_def split: if_splits)
    then show ?thesis
    proof cases
      case 1
      then show ?thesis using take by (intro quiet_pc [OF inv t, of s' "?p\<lparr>p_index := (p_index ?p + 1) mod length (page_data_buf s)\<rparr>"]) (simp_all add: thread_pcs)
    next
      case 2
      then show ?thesis using take by (intro quiet_pc [OF inv t, of s' "?p\<lparr>p_pc := P_Check\<rparr>"]) (simp_all add: thread_pcs)
    qed
  next
    case check
    show ?thesis
    proof (cases "pf_ready (page_flag_buf s t (p_node ?p)) = FLAG_READY")
      case True
      then show ?thesis using step check same by (simp add: kdump_thread_function_cyclic_def)
    next
      case False
      then have "s' = set_producer t (?p\<lparr>p_pc := P_Lock_Pfn\<rparr>) s" using step check by (simp add: kdump_thread_function_cyclic_def Let_def)
      then show ?thesis using check queue_room [OF inv t check False]
        by (intro quiet_pc [OF inv t, of s' "?p\<lparr>p_pc := P_Lock_Pfn\<rparr>"]) (simp_all add: thread_pcs)
    qed
  next
    case free
    have "?E \<le> p_pfn ?p" using ring_here [OF inv t] free by (simp add: ring_ok_def thread_ok_def)
    moreover have "s' = set_producer t (?p\<lparr>p_pc := P_Exit\<rparr>) (set_used (p_index ?p) False s)" using step free by (simp add: kdump_thread_function_cyclic_def Let_def)
    ultimately show ?thesis using free by (intro quiet_pc [OF inv t, of s' "?p\<lparr>p_pc := P_Exit\<rparr>"]) (simp_all add: thread_pcs)
  next
    case read
    then consider "s' = set_producer t (?p\<lparr>p_pc := P_Fail\<rparr>) s" | b where "s' = set_producer t (?p\<lparr>p_pc := P_Filter, p_buf := b\<rparr>) s"
      using step by (auto simp: kdump_thread_function_cyclic_def Let_def split: option.splits)
    then show ?thesis
    proof cases
      case 1
      then show ?thesis using read pfn by (intro quiet_pc [OF inv t, of s' "?p\<lparr>p_pc := P_Fail\<rparr>"]) (simp_all add: thread_pcs)
    next
      case (2 b)
      then show ?thesis using read pfn by (intro quiet_pc [OF inv t, of s' "?p\<lparr>p_pc := P_Filter, p_buf := b\<rparr>"]) (simp_all add: thread_pcs)
    qed
  next
    case filter
    have st: "erase_step e t s = Some s'" using step filter by (simp add: kdump_thread_function_cyclic_def)
    from st consider (1) er where "s' = set_producer t (?p\<lparr>p_pc := P_Data\<rparr>) (s\<lparr>par_ks := (par_ks s)\<lparr>ks_erase := er\<rparr>\<rparr>)"
      | (2) b er where "s' = set_producer t (?p\<lparr>p_buf := b\<rparr>) (s\<lparr>par_ks := (par_ks s)\<lparr>ks_erase := er\<rparr>\<rparr>)"
      by (auto simp: erase_step_def Let_def split: option.splits if_splits)
    then show ?thesis
    proof cases
      case 1
      then show ?thesis using filter pfn by (intro quiet_pc [OF inv t, of s' "?p\<lparr>p_pc := P_Data\<rparr>"]) (simp_all add: thread_pcs)
    next
      case (2 b)
      then show ?thesis using filter pfn by (intro quiet_pc [OF inv t, of s' "?p\<lparr>p_buf := b\<rparr>"]) (simp_all add: thread_pcs)
    qed
  qed
qed

lemma order_parts: "order_inv E F n g s \<Longrightarrow> locks_ok n s \<and> claims_ok E F n g (current_pfn s) (producers s) \<and> sem_ok E n g s"
  by (simp add: order_inv_def)

text \<open>The same frames are claimed after a step.\<close>

lemma claims_same:
  assumes "claims_ok E F n g cur ps" "t < n" "flight p' = flight (ps t)" "ended E p' = ended E (ps t)" "p_pfn p' = p_pfn (ps t)"
  shows "claims_ok E F n g cur (ps(t := p'))"
proof -
  have "count_threads n (\<lambda>p. E \<le> p_pfn p) (ps(t := p')) = count_threads n (\<lambda>p. E \<le> p_pfn p) ps"
    using count_threads_upd [OF assms(2), of "\<lambda>p. E \<le> p_pfn p" ps p'] assms(5) by simp
  moreover have "flight ((ps(t := p')) u) = flight (ps u)" "ended E ((ps(t := p')) u) = ended E (ps u)" "p_pfn ((ps(t := p')) u) = p_pfn (ps u)" for u
    using assms(3-5) by auto
  ultimately show ?thesis using assms(1) unfolding claims_ok_def by simp
qed

lemma sem_step:
  assumes "sem_ok E n g s" "t < n" "producers s' = (producers s)(t := p')" "consumer s' = consumer s" "g_K g' = g_K g"
    "page_flag_buf_sem s' + of_bool (unposted p') + g_M g + of_bool (ended E (producers s t)) =
     page_flag_buf_sem s + of_bool (unposted (producers s t)) + g_M g' + of_bool (ended E p')"
  shows "sem_ok E n g' s'"
  using assms(1,6) count_threads_upd [OF assms(2), of unposted "producers s" p'] count_threads_upd [OF assms(2), of "ended E" "producers s" p']
  unfolding sem_ok_def assms(3,4,5) by linarith

text \<open>Taking and releasing the lock.\<close>

lemma thread_lock:
  assumes inv: "order_inv (end_pfn (pe_cycle e)) F n g s" and t: "t < n" and step: "kdump_thread_function_cyclic e t s = Some s'"
    and pc: "p_pc (producers s t) \<in> {P_Lock_Pfn, P_Unlock}"
  shows "order_inv (end_pfn (pe_cycle e)) F n g s'"
proof -
  let ?p = "producers s t" and ?E = "end_pfn (pe_cycle e)"
  obtain pc' where s': "s' = set_producer t (?p\<lparr>p_pc := pc'\<rparr>) (s\<lparr>current_pfn_mutex := (if pc' = P_Search then Some t else None)\<rparr>)"
    "pc' = (if p_pc ?p = P_Lock_Pfn then P_Search else P_Post)" "p_pc ?p = P_Lock_Pfn \<longrightarrow> current_pfn_mutex s = None"
    using step pc by (auto simp: kdump_thread_function_cyclic_def Let_def split: if_splits)
  let ?p' = "?p\<lparr>p_pc := pc'\<rparr>"
  note r = ring_here [OF inv t] and parts = order_parts [OF inv]
  have e: "flight ?p' = flight ?p" "ended ?E ?p' = ended ?E ?p" "active ?E ?p' = active ?E ?p" "unposted ?p' = unposted ?p" "p_pfn ?p' = p_pfn ?p"
    using pc s'(2) by (auto simp: thread_pcs)
  have ps: "producers s' = (producers s)(t := ?p')" "page_flag_buf s' = (page_flag_buf s)(t := page_flag_buf s t)" "consumer s' = consumer s"
    by (simp_all add: s'(1))
  have h: "head_flag s' = head_flag s" by (auto simp: head_flag_def s'(1))
  show ?thesis
  proof (rule thread_step [OF inv ps])
    have "p_pc ?p = P_Lock_Pfn \<longrightarrow> length (queue F g t) < PAGE_FLAG_NUM" using r by (simp add: ring_ok_def thread_ok_def)
    moreover have "?E \<le> p_pfn ?p \<longrightarrow> flight ?p' \<or> ended ?E ?p" using r e(1) by (auto simp: ring_ok_def thread_ok_def)
    ultimately show "ring_ok ?E (queue F g t) ?p' (page_flag_buf s t) (c_node (consumer s) t) (t \<in> g_counted g)"
      using e s'(2) pc by (intro ring_pc [OF r]) auto
    show "raised (head_flag s) (head_flag s')" by (simp add: h)
    have L: "\<forall>u<n. critical (p_pc (producers s u)) = (current_pfn_mutex s = Some u)" using parts by (simp add: locks_ok_def)
    have m: "current_pfn_mutex s = (if p_pc ?p = P_Lock_Pfn then None else Some t)" using L t pc s'(3) by (auto simp: critical_def)
    have c: "critical pc' = (pc' = P_Search)" using s'(2) by (auto simp: critical_def)
    have "critical (p_pc (producers s' u)) = (current_pfn_mutex s' = Some u)" if "u < n" for u
      using L [rule_format, OF that] m c s'(2) by (auto simp: s'(1))
    then show "locks_ok n s'" by (simp add: locks_ok_def)
    show "claims_ok ?E F n g (current_pfn s') (producers s')" using claims_same [of ?E F n g "current_pfn s" "producers s" t ?p'] t e parts by (simp add: s'(1))
    show "sem_ok ?E n g s'" using parts by (intro sem_step [OF _ t ps(1,3)]) (simp_all add: s'(1) e)
  qed simp_all
qed

text \<open>The frame is chosen.\<close>

lemma thread_search:
  assumes F: "frames_ok e dmp F" and inv: "order_inv (end_pfn (pe_cycle e)) F n g s" and bits: "bits_inv e m dmp s" and n: "n = pe_num_threads e" and t: "t < n"
    and step: "kdump_thread_function_cyclic e t s = Some s'" and pc: "p_pc (producers s t) = P_Search"
  shows "order_inv (end_pfn (pe_cycle e)) F n g s' \<and> bits_inv e m dmp s'"
proof -
  let ?p = "producers s t" and ?E = "end_pfn (pe_cycle e)" and ?f = "bmfile (ks_bitmaps (par_ks s))"
  obtain pfn bm where nx: "next_dumpable ?f (pe_cycle e) (current_pfn s) (thread_bitmap e s t) = (pfn, bm)" by (rule prod.exhaust)
  define p' where "p' = ?p\<lparr>p_pc := P_Pfn, p_pfn := pfn, p_bitmap := if fd_bitmap (pe_env e) \<ge> 0 then bm else p_bitmap ?p\<rparr>"
  have s': "s' = set_producer t p' (s\<lparr>current_pfn := pfn + 1\<rparr>)"
    using step pc nx by (simp add: kdump_thread_function_cyclic_def claim_pfn_def Let_def thread_bitmap_def p'_def)
  note r = ring_here [OF inv t] and parts = order_parts [OF inv]
  have e: "flight p'" "\<not> ended ?E p'" "p_pfn p' = pfn" "\<not> unposted p'" "critical (p_pc p')" by (simp_all add: p'_def thread_pcs)
  have pe: "\<not> flight ?p" "\<not> ended ?E ?p" "\<not> unposted ?p" "critical (p_pc ?p)" using pc by (simp_all add: thread_pcs)
  have nf: "\<forall>u<n. \<not> flight (producers s u)" using locks_other [OF _ t _ pe(4)] parts critical_flight pe(1) by blast
  from search_claims [OF F _ n t nf ring_pfn_before_end [OF r pe(1,2)] e(2) _ _ nx e(1,3)] parts bits n t
  have c: "claims_ok ?E F n g (pfn + 1) ((producers s)(t := p'))" "answers m (pe_cycle e) dmp bm ?f" "unat (start_pfn (pe_cycle e)) \<le> unat (pfn + 1)"
    by (auto simp: bits_inv_def)
  have ps: "producers s' = (producers s)(t := p')" "page_flag_buf s' = (page_flag_buf s)(t := page_flag_buf s t)" "consumer s' = consumer s"
    by (simp_all add: s')
  have h: "head_flag s' = head_flag s" by (auto simp: head_flag_def s')
  have "order_inv ?E F n g s'"
  proof (rule thread_step [OF inv ps])
    show "ring_ok ?E (queue F g t) p' (page_flag_buf s t) (c_node (consumer s) t) (t \<in> g_counted g)"
      unfolding p'_def by (rule ring_search [OF r pc])
    show "raised (head_flag s) (head_flag s')" by (simp add: h)
    show "locks_ok n s'" using parts pe(4) e(5) unfolding locks_ok_def s' by auto
    show "claims_ok ?E F n g (current_pfn s') (producers s')" using c(1) by (simp add: s')
    show "sem_ok ?E n g s'" using parts by (intro sem_step [OF _ t ps(1,3)]) (simp_all add: s' e pe)
  qed simp_all
  moreover have "bits_inv e m dmp s'"
    using bits c(2,3) unfolding bits_inv_def s' by (auto simp: thread_bitmap_def p'_def)
  ultimately show ?thesis ..
qed

text \<open>The stores to the node.\<close>

lemma thread_pfn:
  assumes inv: "order_inv (end_pfn (pe_cycle e)) F n g s" and t: "t < n" and step: "kdump_thread_function_cyclic e t s = Some s'"
    and pc: "p_pc (producers s t) = P_Pfn"
  shows "order_inv (end_pfn (pe_cycle e)) F n g s'"
proof -
  let ?p = "producers s t" and ?nd = "page_flag_buf s t"
  have s': "s' = set_producer t (?p\<lparr>p_pc := P_Filling\<rparr>) (set_node t (p_node ?p) (\<lambda>x. x\<lparr>pf_pfn := p_pfn ?p\<rparr>) s)"
    using step pc by (simp add: kdump_thread_function_cyclic_def Let_def)
  show ?thesis
    by (rule quiet_step [OF inv t, of s' "?p\<lparr>p_pc := P_Filling\<rparr>" "?nd(p_node ?p := (?nd (p_node ?p))\<lparr>pf_pfn := p_pfn ?p\<rparr>)"])
      (use pc in \<open>simp_all add: s' thread_pcs ring_store_pfn [OF ring_here [OF inv t] pc] raised_node\<close>)
qed

lemma thread_filling:
  assumes F: "frames_ok e dmp F" and inv: "order_inv (end_pfn (pe_cycle e)) F n g s" and t: "t < n" and step: "kdump_thread_function_cyclic e t s = Some s'"
    and pc: "p_pc (producers s t) = P_Filling"
  shows "order_inv (end_pfn (pe_cycle e)) F n (claim_ghost e t s g) s'"
proof -
  let ?p = "producers s t" and ?E = "end_pfn (pe_cycle e)" and ?nd = "page_flag_buf s t" and ?g = "claim_ghost e t s g"
  let ?p' = "?p\<lparr>p_pc := P_Unlock\<rparr>" and ?nd' = "?nd(p_node ?p := (?nd (p_node ?p))\<lparr>pf_ready := FLAG_FILLING\<rparr>)"
  have s': "s' = set_producer t ?p' (set_node t (p_node ?p) (\<lambda>x. x\<lparr>pf_ready := FLAG_FILLING\<rparr>) s)"
    using step pc by (simp add: kdump_thread_function_cyclic_def Let_def)
  have ps: "producers s' = (producers s)(t := ?p')" "page_flag_buf s' = (page_flag_buf s)(t := ?nd')" "consumer s' = consumer s" by (simp_all add: s')
  note r = ring_here [OF inv t] and parts = order_parts [OF inv]
  have fl: "flight ?p" "\<not> ended ?E ?p" "\<not> unposted ?p" "critical (p_pc ?p)" using pc by (simp_all add: thread_pcs)
  have fl': "\<not> flight ?p'" "unposted ?p'" "ended ?E ?p' \<longleftrightarrow> ?E \<le> p_pfn ?p" by (simp_all add: thread_pcs)
  have nf: "u < n \<Longrightarrow> u \<noteq> t \<Longrightarrow> \<not> flight (producers s u)" for u using locks_other [OF _ t _ fl(4)] parts critical_flight by blast
  have C: "if p_pfn ?p < ?E then g_M g < length F \<and> unat (p_pfn ?p) = F ! g_M g \<and> (\<forall>k<length F. F ! k < unat (current_pfn s) \<longleftrightarrow> k \<le> g_M g)
      else g_M g = length F \<and> ?E \<le> current_pfn s" using parts fl(1) t by (auto simp: claims_ok_def)
  have K: "g_K g \<le> g_M g" using parts by (simp add: claims_ok_def)
  have q: "queue F ?g u = (if u = t \<and> p_pfn ?p < ?E then queue F g t @ [unat (p_pfn ?p)] else queue F g u)" for u
    using queue_claim [OF refl K, of F t u] C pc by (auto simp: claim_ghost_def)
  have c: "count_threads n (\<lambda>p. ?E \<le> p_pfn p) ((producers s)(t := ?p')) = count_threads n (\<lambda>p. ?E \<le> p_pfn p) (producers s)"
    using count_threads_upd [OF t, of "\<lambda>p. ?E \<le> p_pfn p" "producers s" ?p'] by simp
  have E: "\<forall>u<n. ended ?E (producers s u) \<longrightarrow> g_M g = length F" using parts by (auto simp: claims_ok_def)
  show ?thesis
  proof (rule thread_step [OF inv ps])
    show "ring_ok ?E (queue F ?g t) ?p' ?nd' (c_node (consumer s) t) (t \<in> g_counted g)"
      unfolding q using ring_store_filling [OF r pc] by (auto split: if_splits)
    have "\<not> active ?E ?p" using pc by (simp add: active_def)
    then have "?nd (p_node ?p) = node_at ?nd (c_node (consumer s) t) (length (queue F g t))" "length (queue F g t) < PAGE_FLAG_NUM"
      using r pc by (simp_all add: ring_ok_def thread_ok_def node_at_def)
    then have "pf_ready (?nd (p_node ?p)) = FLAG_UNUSED" using r fl(2) by (simp add: ring_ok_def nodes_ok_def)
    then show "raised (head_flag s) (head_flag s')" by (intro raised_node [of s' s t "p_node ?p" "(?nd (p_node ?p))\<lparr>pf_ready := FLAG_FILLING\<rparr>"]) (simp_all add: s')
    show "locks_ok n s'" using parts fl(4) unfolding locks_ok_def s' by (auto simp: critical_def)
    show "claims_ok ?E F n ?g (current_pfn s') (producers s')"
    proof (cases "p_pfn ?p < ?E")
      case True
      then have "\<not> ?E \<le> p_pfn ?p" by simp
      then show ?thesis using parts C True fl' nf c E pc t unfolding claims_ok_def claim_ghost_def s' by (auto simp: less_Suc_eq less_Suc_eq_le)
    next
      case False
      then have "\<forall>k<length F. F ! k < unat (current_pfn s)"
        using C frame_range [OF F] by (auto simp: word_le_nat_alt intro: less_le_trans)
      then show ?thesis using parts C False fl' nf c E pc t unfolding claims_ok_def claim_ghost_def s' by auto
    qed
    have sem: "sem_ok ?E n g s" using parts by simp
    show "sem_ok ?E n ?g s'" by (rule sem_step [OF sem t ps(1,3)]) (use fl fl' pc in \<open>auto simp: s' claim_ghost_def\<close>)
    show "\<And>u. u \<noteq> t \<Longrightarrow> queue F ?g u = queue F g u" using q by simp
  qed (auto simp: claim_ghost_def)
qed

lemma thread_post:
  assumes inv: "order_inv (end_pfn (pe_cycle e)) F n g s" and t: "t < n" and step: "kdump_thread_function_cyclic e t s = Some s'"
    and pc: "p_pc (producers s t) = P_Post"
  shows "order_inv (end_pfn (pe_cycle e)) F n g s'"
proof -
  let ?p = "producers s t" and ?E = "end_pfn (pe_cycle e)"
  let ?p' = "?p\<lparr>p_pc := if ?E \<le> p_pfn ?p then P_End else P_Read\<rparr>"
  have s': "s' = set_producer t ?p' (s\<lparr>page_flag_buf_sem := page_flag_buf_sem s + 1\<rparr>)"
    using step pc by (simp add: kdump_thread_function_cyclic_def Let_def)
  note r = ring_here [OF inv t] and parts = order_parts [OF inv]
  have e: "flight ?p' = flight ?p" "ended ?E ?p' = ended ?E ?p" "active ?E ?p' = active ?E ?p" "p_pfn ?p' = p_pfn ?p" "critical (p_pc ?p') = critical (p_pc ?p)"
    "unposted ?p" "\<not> unposted ?p'"
    using pc by (auto simp: thread_pcs)
  have ps: "producers s' = (producers s)(t := ?p')" "page_flag_buf s' = (page_flag_buf s)(t := page_flag_buf s t)" "consumer s' = consumer s"
    by (simp_all add: s')
  have h: "head_flag s' = head_flag s" by (auto simp: head_flag_def s')
  show ?thesis
  proof (rule thread_step [OF inv ps])
    have "?E \<le> p_pfn ?p \<longrightarrow> flight ?p' \<or> ended ?E ?p" using pc by (simp add: ended_def)
    then show "ring_ok ?E (queue F g t) ?p' (page_flag_buf s t) (c_node (consumer s) t) (t \<in> g_counted g)"
      using e by (intro ring_pc [OF r]) auto
    show "raised (head_flag s) (head_flag s')" by (simp add: h)
    show "locks_ok n s'" using parts e(5) unfolding locks_ok_def s' by auto
    show "claims_ok ?E F n g (current_pfn s') (producers s')"
      using claims_same [of ?E F n g "current_pfn s" "producers s" t ?p'] t e parts by (simp add: s')
    have sem: "sem_ok ?E n g s" using parts by simp
    show "sem_ok ?E n g s'" by (rule sem_step [OF sem t ps(1,3)]) (use e in \<open>auto simp: s'\<close>)
  qed simp_all
qed

lemma thread_end:
  assumes F: "frames_ok e dmp F" and inv: "order_inv (end_pfn (pe_cycle e)) F n g s" and t: "t < n" and step: "kdump_thread_function_cyclic e t s = Some s'"
    and pc: "p_pc (producers s t) = P_End"
  shows "order_inv (end_pfn (pe_cycle e)) F n g s'"
proof -
  let ?p = "producers s t" and ?E = "end_pfn (pe_cycle e)" and ?p' = "producers s t\<lparr>p_pc := P_Free\<rparr>"
  have s': "s' = set_producer t ?p' (s\<lparr>current_pfn := ?E\<rparr>)" using step pc by (simp add: kdump_thread_function_cyclic_def Let_def)
  note r = ring_here [OF inv t] and parts = order_parts [OF inv]
  have pE: "?E \<le> p_pfn ?p" using r pc by (simp add: ring_ok_def thread_ok_def)
  have e: "flight ?p' = flight ?p" "ended ?E ?p' = ended ?E ?p" "active ?E ?p' = active ?E ?p" "p_pfn ?p' = p_pfn ?p" "critical (p_pc ?p') = critical (p_pc ?p)"
    "unposted ?p' = unposted ?p" "ended ?E ?p"
    using pc pE by (auto simp: thread_pcs)
  have ps: "producers s' = (producers s)(t := ?p')" "page_flag_buf s' = (page_flag_buf s)(t := page_flag_buf s t)" "consumer s' = consumer s"
    by (simp_all add: s')
  have h: "head_flag s' = head_flag s" by (auto simp: head_flag_def s')
  show ?thesis
  proof (rule thread_step [OF inv ps])
    show "ring_ok ?E (queue F g t) ?p' (page_flag_buf s t) (c_node (consumer s) t) (t \<in> g_counted g)"
      using e pE by (intro ring_pc [OF r]) auto
    show "raised (head_flag s) (head_flag s')" by (simp add: h)
    show "locks_ok n s'" using parts e(5) unfolding locks_ok_def s' by auto
    have cl: "claims_ok ?E F n g (current_pfn s) ((producers s)(t := ?p'))"
      using claims_same [of ?E F n g "current_pfn s" "producers s" t ?p'] t e parts by simp
    have "g_M g = length F" using parts e(7) t by (auto simp: claims_ok_def)
    then show "claims_ok ?E F n g (current_pfn s') (producers s')" using cl frame_range [OF F] unfolding claims_ok_def s' by auto
    have sem: "sem_ok ?E n g s" using parts by simp
    show "sem_ok ?E n g s'" by (rule sem_step [OF sem t ps(1,3)]) (use e in \<open>auto simp: s'\<close>)
  qed simp_all
qed

lemma thread_data:
  assumes inv: "order_inv (end_pfn (pe_cycle e)) F n g s" and t: "t < n" and step: "kdump_thread_function_cyclic e t s = Some s'"
    and pc: "p_pc (producers s t) = P_Data"
  shows "order_inv (end_pfn (pe_cycle e)) F n g s'"
proof -
  let ?p = "producers s t" and ?nd = "page_flag_buf s t"
  obtain b x where s': "producers s' = (producers s)(t := ?p\<lparr>p_pc := P_Ready b\<rparr>)" "page_flag_buf s' = (page_flag_buf s)(t := ?nd(p_node ?p := x))"
    "consumer s' = consumer s" "current_pfn s' = current_pfn s" "current_pfn_mutex s' = current_pfn_mutex s" "page_flag_buf_sem s' = page_flag_buf_sem s"
    and x: "pf_pfn x = pf_pfn (?nd (p_node ?p))" "pf_ready x = pf_ready (?nd (p_node ?p))"
    using step pc by (auto simp: kdump_thread_function_cyclic_def store_data_def Let_def split: option.splits)
  have lt: "p_pfn ?p < end_pfn (pe_cycle e)"
    by (rule ring_pfn_before_end [OF ring_here [OF inv t]]) (use pc in \<open>simp_all add: thread_pcs\<close>)
  have r: "raised (head_flag s) (head_flag s')" using raised_node [OF s'(2,3)] x(2) by simp
  show ?thesis
    by (rule quiet_step [OF inv t s'(1) _ _ _ _ _ s'(4,5,6,3,2) ring_data [OF ring_here [OF inv t] pc x] r]) (use pc lt in \<open>simp_all add: thread_pcs\<close>)
qed

lemma thread_ready:
  assumes inv: "order_inv (end_pfn (pe_cycle e)) F n g s" and t: "t < n" and step: "kdump_thread_function_cyclic e t s = Some s'"
    and pc: "p_pc (producers s t) = P_Ready b"
  shows "order_inv (end_pfn (pe_cycle e)) F n g s'"
proof -
  let ?p = "producers s t" and ?nd = "page_flag_buf s t"
  let ?p' = "?p\<lparr>p_pc := if b then P_Loop else P_Check, p_node := (p_node ?p + 1) mod PAGE_FLAG_NUM\<rparr>"
  let ?x = "(?nd (p_node ?p))\<lparr>pf_ready := FLAG_READY\<rparr>"
  have s: "s' = set_producer t ?p' (set_node t (p_node ?p) (\<lambda>n. n\<lparr>pf_ready := FLAG_READY\<rparr>) s)"
    using step pc by (simp add: kdump_thread_function_cyclic_def Let_def)
  then have s': "producers s' = (producers s)(t := ?p')" "page_flag_buf s' = (page_flag_buf s)(t := ?nd(p_node ?p := ?x))"
    "consumer s' = consumer s" "current_pfn s' = current_pfn s" "current_pfn_mutex s' = current_pfn_mutex s" "page_flag_buf_sem s' = page_flag_buf_sem s"
    by simp_all
  have lt: "p_pfn ?p < end_pfn (pe_cycle e)"
    by (rule ring_pfn_before_end [OF ring_here [OF inv t]]) (use pc in \<open>simp_all add: thread_pcs\<close>)
  have r: "raised (head_flag s) (head_flag s')" using raised_node [OF s'(2,3)] by simp
  show ?thesis
    by (rule quiet_step [OF inv t s'(1) _ _ _ _ _ s'(4,5,6,3,2) ring_ready [OF ring_here [OF inv t] pc] r]) (use pc lt in \<open>simp_all add: thread_pcs\<close>)
qed

text \<open>The bitmaps are changed by the search only.\<close>

lemma bits_same:
  assumes "bits_inv e m dmp s" "unat (start_pfn (pe_cycle e)) \<le> unat (current_pfn s')" "ks_bitmaps (par_ks s') = ks_bitmaps (par_ks s)"
    "\<And>t. p_bitmap (producers s' t) = p_bitmap (producers s t)"
  shows "bits_inv e m dmp s'"
proof -
  have "thread_bitmap e s' t = thread_bitmap e s t" for t using assms(3,4) by (simp add: thread_bitmap_def)
  with assms(1-3) show ?thesis unfolding bits_inv_def by simp
qed

lemma thread_bits:
  assumes "frames_ok e dmp F" "bits_inv e m dmp s" "kdump_thread_function_cyclic e t s = Some s'" "p_pc (producers s t) \<noteq> P_Search"
  shows "bits_inv e m dmp s'"
proof (rule bits_same [OF assms(2)])
  have "unat (start_pfn (pe_cycle e)) \<le> unat (end_pfn (pe_cycle e))" "unat (start_pfn (pe_cycle e)) \<le> unat (current_pfn s)"
    using assms(1,2) by (auto simp: frames_ok_def bits_inv_def word_less_nat_alt)
  then show "unat (start_pfn (pe_cycle e)) \<le> unat (current_pfn s')"
    using assms(3,4) by (auto simp: kdump_thread_function_cyclic_def erase_step_def store_data_def Let_def split: producer_pc.splits option.splits if_splits)
  show "ks_bitmaps (par_ks s') = ks_bitmaps (par_ks s)"
    using assms(3,4) by (auto simp: kdump_thread_function_cyclic_def erase_step_def store_data_def Let_def split: producer_pc.splits option.splits if_splits)
  show "p_bitmap (producers s' u) = p_bitmap (producers s u)" for u
    using assms(3,4) by (auto simp: kdump_thread_function_cyclic_def erase_step_def store_data_def Let_def split: producer_pc.splits option.splits if_splits)
qed

lemma thread_order:
  assumes F: "frames_ok e dmp F" and inv: "order_inv (end_pfn (pe_cycle e)) F n g s" and bits: "bits_inv e m dmp s" and n: "n = pe_num_threads e" and t: "t < n"
    and step: "kdump_thread_function_cyclic e t s = Some s'"
  shows "order_inv (end_pfn (pe_cycle e)) F n (claim_ghost e t s g) s' \<and> bits_inv e m dmp s'"
proof (cases "p_pc (producers s t) = P_Search")
  case True
  then show ?thesis using thread_search [OF F inv bits n t step] by (simp add: claim_ghost_def)
next
  case False
  note b = thread_bits [OF F bits step False]
  have g: "p_pc (producers s t) \<noteq> P_Filling \<Longrightarrow> claim_ghost e t s g = g" by (simp add: claim_ghost_def)
  have "order_inv (end_pfn (pe_cycle e)) F n (claim_ghost e t s g) s'"
  proof (cases "p_pc (producers s t)")
    case P_Filling
    then show ?thesis by (rule thread_filling [OF F inv t step])
  qed (use False g thread_quiet [OF inv t step] thread_lock [OF inv t step] thread_pfn [OF inv t step] thread_post [OF inv t step] thread_end [OF F inv t step]
      thread_data [OF inv t step] thread_ready [OF inv t step] step in \<open>auto simp: quiet_at_def kdump_thread_function_cyclic_def Let_def\<close>)
  with b show ?thesis by simp
qed

text \<open>The main thread.\<close>

definition main_ghost :: "par_env \<Rightarrow> par_state \<Rightarrow> ghost \<Rightarrow> ghost" where
  "main_ghost e s g = (let c = consumer s in
     if c_pc c = C_Release then g\<lparr>g_K := g_K g + 1\<rparr>
     else if c_pc c = C_Pfn \<and> end_pfn (pe_cycle e) \<le> pf_pfn (page_flag_buf s (c_i c) (c_node c (c_i c))) then g\<lparr>g_counted := insert (c_i c) (g_counted g)\<rparr>
     else g)"

lemma queue_head:
  assumes "g_K g < g_M g"
  shows "queue F g (g_who g (g_K g)) = F ! g_K g # queue F (g\<lparr>g_K := g_K g + 1\<rparr>) (g_who g (g_K g))"
    "u \<noteq> g_who g (g_K g) \<Longrightarrow> queue F (g\<lparr>g_K := g_K g + 1\<rparr>) u = queue F g u"
proof -
  have u: "[g_K g ..< g_M g] = g_K g # [Suc (g_K g) ..< g_M g]" using assms by (rule upt_conv_Cons)
  show "queue F g (g_who g (g_K g)) = F ! g_K g # queue F (g\<lparr>g_K := g_K g + 1\<rparr>) (g_who g (g_K g))" by (simp add: queue_def u)
  show "u \<noteq> g_who g (g_K g) \<Longrightarrow> queue F (g\<lparr>g_K := g_K g + 1\<rparr>) u = queue F g u" unfolding queue_def u by simp
qed

lemma queue_member: "q \<in> set (queue F g t) \<longleftrightarrow> (\<exists>k. g_K g \<le> k \<and> k < g_M g \<and> g_who g k = t \<and> q = F ! k)"
  by (auto simp: queue_def)

lemma queue_below:
  assumes "frames_ok e dmp F" "g_M g \<le> length F"
  shows "\<forall>q\<in>set (queue F g t). q < unat (end_pfn (pe_cycle e))"
  using assms frame_range [OF assms(1)] by (auto simp: queue_member)

text \<open>The first node of a ring.\<close>

lemma head_node:
  assumes "order_inv E F n g s" "t < n" "queue F g t \<noteq> []"
  shows "head_flag s t \<noteq> FLAG_UNUSED \<and> pf_pfn (page_flag_buf s t (c_node (consumer s) t)) = of_nat (hd (queue F g t))"
proof -
  have r: "ring_ok E (queue F g t) (producers s t) (page_flag_buf s t) (c_node (consumer s) t) (t \<in> g_counted g)" by (rule ring_here [OF assms(1,2)])
  then have n0: "node_at (page_flag_buf s t) (c_node (consumer s) t) 0 = page_flag_buf s t (c_node (consumer s) t)" by (simp add: ring_ok_def node_at_0)
  from r have "nodes_ok (queue F g t) (active E (producers s t)) (ended E (producers s t) \<and> t \<notin> g_counted g) (node_at (page_flag_buf s t) (c_node (consumer s) t))"
    by (simp add: ring_ok_def)
  then show ?thesis using assms(3) n0 unfolding nodes_ok_def by (auto simp: head_flag_def hd_conv_nth split: if_splits)
qed

lemma head_empty:
  assumes "order_inv E F n g s" "t < n" "queue F g t = []"
  shows "head_flag s t \<noteq> FLAG_READY \<and> (head_flag s t \<noteq> FLAG_UNUSED \<longrightarrow> E \<le> pf_pfn (page_flag_buf s t (c_node (consumer s) t)))"
proof -
  have r: "ring_ok E [] (producers s t) (page_flag_buf s t) (c_node (consumer s) t) (t \<in> g_counted g)" using ring_here [OF assms(1,2)] assms(3) by simp
  then have n0: "node_at (page_flag_buf s t) (c_node (consumer s) t) 0 = page_flag_buf s t (c_node (consumer s) t)" by (simp add: ring_ok_def node_at_0)
  have f: "head_flag s t = (if ended E (producers s t) \<and> t \<notin> g_counted g then FLAG_FILLING else FLAG_UNUSED)"
    using r PAGE_FLAG_NUM_pos unfolding ring_ok_def nodes_ok_def head_flag_def n0 [symmetric] by simp
  moreover have "ended E (producers s t) \<Longrightarrow> pf_pfn (page_flag_buf s t (c_node (consumer s) t)) = p_pfn (producers s t) \<and> E \<le> p_pfn (producers s t)"
    using r by (auto simp: ring_ok_def thread_ok_def active_def ended_def)
  ultimately show ?thesis by (auto split: if_splits)
qed

lemma next_nonempty:
  assumes "order_inv E F n g s" "c_pc (consumer s) \<noteq> C_Wait" "g_K g < length F"
  shows "g_who g (g_K g) < n \<and> queue F g (g_who g (g_K g)) \<noteq> [] \<and> hd (queue F g (g_who g (g_K g))) = F ! g_K g"
proof -
  note k = next_claimed [OF assms]
  have "g_who g (g_K g) < n" using assms(1) k by (simp add: order_inv_def claims_ok_def)
  then show ?thesis using queue_head(1) [OF k, of F] by simp
qed

lemma all_empty: "order_inv E F n g s \<Longrightarrow> \<not> g_K g < length F \<Longrightarrow> queue F g t = []"
  by (auto simp: order_inv_def claims_ok_def queue_def)

text \<open>A step that changes only the local variables of the main thread.\<close>

lemma main_local:
  assumes "order_inv E F n g s" "producers s' = producers s" "page_flag_buf s' = page_flag_buf s" "current_pfn s' = current_pfn s"
    "current_pfn_mutex s' = current_pfn_mutex s" "c_node (consumer s') = c_node (consumer s)"
    "page_flag_buf_sem s' + of_bool (c_pc (consumer s') \<noteq> C_Wait) = page_flag_buf_sem s + of_bool (c_pc (consumer s) \<noteq> C_Wait)"
    "main_ok E F n g (head_flag s) (consumer s')"
  shows "order_inv E F n g s'"
proof -
  have "head_flag s' = head_flag s" using assms(3,6) by (auto simp: head_flag_def)
  then show ?thesis using assms unfolding order_inv_def rings_ok_def locks_ok_def sem_ok_def by simp
qed

lemma main_scan:
  assumes F: "frames_ok e dmp F" and inv: "order_inv (end_pfn (pe_cycle e)) F n g s" and n: "n = pe_num_threads e" and step: "write_kdump_pages_parallel_cyclic e b s = Some s'"
    and pc: "c_pc (consumer s) \<in> {C_Wait, C_Start, C_Scan, C_Ends, C_Ready, C_Compare}"
  shows "order_inv (end_pfn (pe_cycle e)) F n g s'"
proof -
  let ?c = "consumer s" and ?E = "end_pfn (pe_cycle e)"
  have m: "main_ok ?E F n g (head_flag s) ?c" using inv by (simp add: order_inv_def)
  have n0: "0 < n" using F n by (simp add: frames_ok_def)
  consider (wait) "c_pc ?c = C_Wait" | (start) "c_pc ?c = C_Start" | (scan) "c_pc ?c = C_Scan" | (ends) "c_pc ?c = C_Ends" | (ready) "c_pc ?c = C_Ready"
    | (compare) "c_pc ?c = C_Compare" using pc by blast
  then show ?thesis
  proof cases
    case wait
    then have "0 < page_flag_buf_sem s" "s' = s\<lparr>page_flag_buf_sem := page_flag_buf_sem s - 1, consumer := ?c\<lparr>c_pc := C_Start, c_consuming := 0\<rparr>\<rparr>"
      using step by (auto simp: write_kdump_pages_parallel_cyclic_def Let_def split: if_splits)
    then show ?thesis using wait m n0 by (intro main_local [OF inv]) (simp_all add: main_ok_def)
  next
    case start
    then have "s' = s\<lparr>consumer := ?c\<lparr>c_pc := C_Scan, c_i := 0, c_current := ?E\<rparr>\<rparr>"
      using step by (auto simp: write_kdump_pages_parallel_cyclic_def Let_def)
    then show ?thesis using start m frame_range [OF F] by (intro main_local [OF inv]) (simp_all add: main_ok_def seen_def)
  next
    case scan
    then have S: "seen ?E F g (c_i ?c) ?c" "c_i ?c \<le> n" using m by (simp_all add: main_ok_def)
    have w: "c_pc ?c \<noteq> C_Wait" using scan by simp
    consider (over) "\<not> c_i ?c < n" "s' = s\<lparr>consumer := ?c\<lparr>c_pc := C_Ends\<rparr>\<rparr>"
      | (unused) "c_i ?c < n" "head_flag s (c_i ?c) = FLAG_UNUSED" "s' = s\<lparr>consumer := ?c\<lparr>c_i := c_i ?c + 1\<rparr>\<rparr>"
      | (used) "c_i ?c < n" "head_flag s (c_i ?c) \<noteq> FLAG_UNUSED" "s' = s\<lparr>consumer := ?c\<lparr>c_pc := C_Pfn\<rparr>\<rparr>"
      using step scan n by (auto simp: write_kdump_pages_parallel_cyclic_def head_flag_def Let_def split: if_splits)
    then show ?thesis
    proof cases
      case over
      then have "c_i ?c = n" using S by simp
      then show ?thesis using over scan m S by (intro main_local [OF inv]) (simp_all add: main_ok_def seen_def)
    next
      case unused
      have "g_who g (g_K g) \<noteq> c_i ?c" if k: "g_K g < length F"
        using head_node [OF inv, of "g_who g (g_K g)"] next_nonempty [OF inv w k] unused(2) by auto
      then have "g_K g < length F \<Longrightarrow> (g_who g (g_K g) < c_i ?c + 1) = (g_who g (g_K g) < c_i ?c)" by linarith
      then have "seen ?E F g (c_i ?c + 1) (?c\<lparr>c_i := c_i ?c + 1\<rparr>)" using S(1) by (simp add: seen_def)
      then show ?thesis using unused scan m by (intro main_local [OF inv]) (simp_all add: main_ok_def)
    next
      case used
      then show ?thesis using scan m S by (intro main_local [OF inv]) (simp_all add: main_ok_def seen_def)
    qed
  next
    case ends
    then have s': "s' = s\<lparr>consumer := ?c\<lparr>c_pc := if n \<le> c_end_count ?c then C_Finish else C_Ready\<rparr>\<rparr>"
      using step n by (simp add: write_kdump_pages_parallel_cyclic_def Let_def)
    have M: "c_end_count ?c = card (g_counted g)" "g_counted g \<subseteq> {..<n}" using m by (simp_all add: main_ok_def)
    have f: "n \<le> c_end_count ?c \<longrightarrow> g_counted g = {..<n}" using M card_seteq [OF _ M(2)] by simp
    have "main_ok ?E F n g (head_flag s) (?c\<lparr>c_pc := if n \<le> c_end_count ?c then C_Finish else C_Ready\<rparr>)"
    proof (cases "n \<le> c_end_count ?c")
      case True
      then have "g_counted g = {..<n}" using f by blast
      then show ?thesis using True m ends unfolding main_ok_def by simp
    next
      case False
      then show ?thesis using m ends unfolding main_ok_def by (simp add: seen_def)
    qed
    then show ?thesis by (intro main_local [OF inv]) (simp_all add: s' ends)
  next
    case ready
    have "head_flag s (c_consuming ?c) = pf_ready (page_flag_buf s (c_consuming ?c) (c_node ?c (c_consuming ?c)))" by (simp add: head_flag_def)
    then have s': "s' = s\<lparr>consumer := ?c\<lparr>c_pc := if head_flag s (c_consuming ?c) = FLAG_READY then C_Compare else if b then C_Out else C_Start\<rparr>\<rparr>"
      using step ready by (simp add: write_kdump_pages_parallel_cyclic_def Let_def)
    then show ?thesis using ready m by (intro main_local [OF inv]) (simp_all add: main_ok_def seen_def)
  next
    case compare
    then have S: "seen ?E F g n ?c" "head_flag s (c_consuming ?c) = FLAG_READY" "c_consuming ?c < n" using m by (simp_all add: main_ok_def)
    have w: "c_pc ?c \<noteq> C_Wait" using compare by simp
    have k: "g_K g < length F" using head_empty [OF inv S(3)] all_empty [OF inv, of "c_consuming ?c"] S(2) by auto
    have K: "g_K g < g_M g" "c_consuming ?c = g_who g (g_K g)" using next_claimed [OF inv w k] next_nonempty [OF inv w k] S(1) k by (auto simp: seen_def)
    obtain pc' where s': "s' = s\<lparr>consumer := ?c\<lparr>c_pc := pc'\<rparr>\<rparr>" "pc' = C_Write \<or> pc' = C_Start"
      using step compare by (auto simp: write_kdump_pages_parallel_cyclic_def Let_def)
    then show ?thesis using compare m S K by (intro main_local [OF inv]) (auto simp: main_ok_def)
  qed
qed

lemma queue_hd:
  assumes "queue F g t \<noteq> []"
  shows "\<exists>k. g_K g \<le> k \<and> k < g_M g \<and> g_who g k = t \<and> hd (queue F g t) = F ! k"
  using hd_in_set [OF assms] by (simp add: queue_member)

text \<open>The node of a thread is compared.\<close>

lemma main_compare_node:
  assumes F: "frames_ok e dmp F" and inv: "order_inv (end_pfn (pe_cycle e)) F n g s" and pc: "c_pc (consumer s) = C_Pfn"
    and lt: "\<not> end_pfn (pe_cycle e) \<le> pf_pfn (page_flag_buf s (c_i (consumer s)) (c_node (consumer s) (c_i (consumer s))))"
  shows "order_inv (end_pfn (pe_cycle e)) F n g (scan_node e s)"
proof -
  let ?c = "consumer s" and ?E = "end_pfn (pe_cycle e)"
  let ?i = "c_i ?c" and ?K = "g_K g"
  let ?x = "pf_pfn (page_flag_buf s ?i (c_node ?c ?i))" and ?w = "g_who g ?K"
  have m: "main_ok ?E F n g (head_flag s) ?c" using inv by (simp add: order_inv_def)
  then have S: "seen ?E F g ?i ?c" "?i < n" "head_flag s ?i \<noteq> FLAG_UNUSED" using pc by (simp_all add: main_ok_def)
  have w: "c_pc ?c \<noteq> C_Wait" using pc by simp
  have ne: "queue F g ?i \<noteq> []" using head_empty [OF inv S(2)] S(3) lt by auto
  from queue_hd [OF ne] obtain k where k: "?K \<le> k" "k < g_M g" "g_who g k = ?i" "hd (queue F g ?i) = F ! k" by blast
  have M: "g_M g \<le> length F" using inv by (simp add: order_inv_def claims_ok_def)
  have KN: "?K < length F" using k M by simp
  have kl: "k < length F" using k M by simp
  have "?x = of_nat (F ! k)" using head_node [OF inv S(2) ne] k(4) by simp
  then have x: "unat ?x = F ! k" using frame_range [OF F kl] unat_of_nat_below [of "F ! k" ?E] by simp
  have wK: "?w = ?i \<Longrightarrow> F ! k = F ! ?K" using next_nonempty [OF inv w KN] k(4) by simp
  have wl: "?w \<noteq> ?i \<Longrightarrow> F ! ?K < F ! k" using k frames_sorted [OF F KN kl] by (metis le_neq_implies_less)
  have sn: "if ?w < ?i then c_consuming ?c = ?w \<and> unat (c_current ?c) = F ! ?K else F ! ?K < unat (c_current ?c)" using S(1) KN by (simp add: seen_def)
  let ?nx = "?c\<lparr>c_pc := C_Scan, c_i := ?i + 1\<rparr>"
  show ?thesis
  proof (cases "c_current ?c < ?x")
    case True
    then have "F ! k > unat (c_current ?c)" using x by (simp add: word_less_nat_alt)
    then have wi: "?w \<noteq> ?i" using sn wK by auto
    then have "(?w < ?i + 1) = (?w < ?i)" by linarith
    then have "seen ?E F g (?i + 1) ?nx" using sn KN by (simp add: seen_def)
    moreover have "scan_node e s = s\<lparr>consumer := ?nx\<rparr>" using True lt by (simp add: scan_node_def Let_def)
    ultimately show ?thesis using m pc S(2) by (intro main_local [OF inv]) (simp_all add: main_ok_def)
  next
    case False
    let ?nx' = "?nx\<lparr>c_consuming := ?i, c_current := ?x\<rparr>"
    have le: "F ! k \<le> unat (c_current ?c)" using False x by (simp add: word_less_nat_alt)
    have "\<not> ?w < ?i" using le sn wl by fastforce
    then have "seen ?E F g (?i + 1) ?nx'" using KN x wK wl by (auto simp: seen_def)
    moreover have "scan_node e s = s\<lparr>consumer := ?nx'\<rparr>" using False lt by (simp add: scan_node_def Let_def)
    ultimately show ?thesis using m pc S(2) by (intro main_local [OF inv]) (simp_all add: main_ok_def)
  qed
qed

text \<open>The end of a thread is counted.\<close>

lemma main_count_end:
  assumes F: "frames_ok e dmp F" and inv: "order_inv (end_pfn (pe_cycle e)) F n g s" and pc: "c_pc (consumer s) = C_Pfn"
    and ge: "end_pfn (pe_cycle e) \<le> pf_pfn (page_flag_buf s (c_i (consumer s)) (c_node (consumer s) (c_i (consumer s))))"
  shows "order_inv (end_pfn (pe_cycle e)) F n (g\<lparr>g_counted := insert (c_i (consumer s)) (g_counted g)\<rparr>) (scan_node e s)"
proof -
  let ?c = "consumer s" and ?E = "end_pfn (pe_cycle e)"
  let ?i = "c_i ?c" and ?K = "g_K g" and ?g = "g\<lparr>g_counted := insert (c_i (consumer s)) (g_counted g)\<rparr>"
  let ?nd = "page_flag_buf s ?i" and ?cn = "c_node ?c ?i" and ?w = "g_who g (g_K g)"
  let ?c' = "?c\<lparr>c_pc := C_Scan, c_i := ?i + 1, c_end_count := c_end_count ?c + 1\<rparr>"
  have m: "main_ok ?E F n g (head_flag s) ?c" using inv by (simp add: order_inv_def)
  then have S: "seen ?E F g ?i ?c" "?i < n" "head_flag s ?i \<noteq> FLAG_UNUSED" "c_end_count ?c = card (g_counted g)" "g_counted g \<subseteq> {..<n}" "c_consuming ?c < n"
    using pc by (simp_all add: main_ok_def)
  have w: "c_pc ?c \<noteq> C_Wait" using pc by simp
  have M: "g_M g \<le> length F" using inv by (simp add: order_inv_def claims_ok_def)
  from ring_count [OF ring_here [OF inv S(2)] _ ge queue_below [OF F M]] S(3) have
    r: "queue F g ?i = []" "?i \<notin> g_counted g" "ring_ok ?E [] (producers s ?i) (?nd(?cn := (?nd ?cn)\<lparr>pf_ready := FLAG_UNUSED\<rparr>)) ?cn True"
    by (simp_all add: head_flag_def)
  have q: "queue F ?g = queue F g" by (simp add: queue_def fun_eq_iff)
  have s': "producers (scan_node e s) = producers s" "page_flag_buf (scan_node e s) = (page_flag_buf s)(?i := ?nd(?cn := (?nd ?cn)\<lparr>pf_ready := FLAG_UNUSED\<rparr>))"
    "consumer (scan_node e s) = ?c'" "current_pfn (scan_node e s) = current_pfn s" "current_pfn_mutex (scan_node e s) = current_pfn_mutex s"
    "page_flag_buf_sem (scan_node e s) = page_flag_buf_sem s"
    using ge by (simp_all add: scan_node_def Let_def)
  have "rings_ok ?E F n ?g (scan_node e s)"
    using inv r unfolding order_inv_def rings_ok_def s' q by (auto simp: r(1))
  moreover have "main_ok ?E F n ?g (head_flag (scan_node e s)) ?c'"
  proof -
    have "?w \<noteq> ?i" if "?K < length F" using next_nonempty [OF inv w that] r(1) by auto
    then have "?K < length F \<Longrightarrow> (?w < ?i + 1) = (?w < ?i)" by linarith
    then have "seen ?E F ?g (?i + 1) ?c'" using S(1) by (simp add: seen_def)
    moreover have "card (insert ?i (g_counted g)) = card (g_counted g) + 1" using r(2) S(5) finite_subset [OF S(5)] by simp
    ultimately show ?thesis using S by (simp add: main_ok_def)
  qed
  ultimately show ?thesis using inv pc unfolding order_inv_def locks_ok_def claims_ok_def sem_ok_def s' by simp
qed

lemma main_release:
  assumes inv: "order_inv (end_pfn (pe_cycle e)) F n g s" and step: "write_kdump_pages_parallel_cyclic e b s = Some s'" and pc: "c_pc (consumer s) = C_Release"
  shows "order_inv (end_pfn (pe_cycle e)) F n (g\<lparr>g_K := g_K g + 1\<rparr>) s'"
proof -
  let ?c = "consumer s" and ?E = "end_pfn (pe_cycle e)" and ?k = "c_consuming (consumer s)"
  let ?g = "g\<lparr>g_K := g_K g + 1\<rparr>" and ?nd = "page_flag_buf s ?k" and ?cn = "c_node ?c ?k"
  have m: "main_ok ?E F n g (head_flag s) ?c" using inv by (simp add: order_inv_def)
  then have S: "g_K g < g_M g" "?k = g_who g (g_K g)" "pf_ready (?nd ?cn) = FLAG_READY" "?k < n" "c_end_count ?c = card (g_counted g)" "g_counted g \<subseteq> {..<n}"
    using pc unfolding main_ok_def head_flag_def by auto
  have s': "producers s' = producers s" "page_flag_buf s' = (page_flag_buf s)(?k := ?nd(?cn := (?nd ?cn)\<lparr>pf_ready := FLAG_UNUSED\<rparr>))"
    "consumer s' = ?c\<lparr>c_pc := C_Wait, c_node := (c_node ?c)(?k := (?cn + 1) mod PAGE_FLAG_NUM)\<rparr>" "current_pfn s' = current_pfn s"
    "current_pfn_mutex s' = current_pfn_mutex s" "page_flag_buf_sem s' = page_flag_buf_sem s"
    using step pc by (auto simp: write_kdump_pages_parallel_cyclic_def Let_def)
  have q: "queue F g ?k = F ! g_K g # queue F ?g ?k" "\<And>u. u \<noteq> ?k \<Longrightarrow> queue F ?g u = queue F g u"
    unfolding S(2) using queue_head(1) [OF S(1), of F] queue_head(2) [OF S(1)] by blast+
  have "ring_ok ?E (queue F ?g ?k) (producers s ?k) (?nd(?cn := (?nd ?cn)\<lparr>pf_ready := FLAG_UNUSED\<rparr>)) ((?cn + 1) mod PAGE_FLAG_NUM) (?k \<in> g_counted g)"
    using ring_release [OF ring_here [OF inv S(4), unfolded q(1)] S(3)] .
  then have "rings_ok ?E F n ?g s'" using inv q(2) unfolding order_inv_def rings_ok_def s' by auto
  moreover have "main_ok ?E F n ?g (head_flag s') (consumer s')" using S by (simp add: main_ok_def s'(3))
  ultimately show ?thesis using inv pc S(1) unfolding order_inv_def locks_ok_def claims_ok_def sem_ok_def s' by simp
qed

lemma main_write_free:
  assumes inv: "order_inv (end_pfn (pe_cycle e)) F n g s" and step: "write_kdump_pages_parallel_cyclic e b s = Some s'" and pc: "c_pc (consumer s) \<in> {C_Write, C_Free}"
  shows "order_inv (end_pfn (pe_cycle e)) F n g s'"
proof -
  let ?c = "consumer s"
  have m: "main_ok (end_pfn (pe_cycle e)) F n g (head_flag s) ?c" using inv by (simp add: order_inv_def)
  obtain pc' x where c: "consumer s' = ?c\<lparr>c_pc := pc', c_index := x\<rparr>" "pc' \<in> {C_Out, C_Free, C_Release}"
    and s': "producers s' = producers s" "page_flag_buf s' = page_flag_buf s" "current_pfn s' = current_pfn s"
    "current_pfn_mutex s' = current_pfn_mutex s" "page_flag_buf_sem s' = page_flag_buf_sem s"
  proof (cases "c_pc ?c = C_Write")
    case True
    then have "write_next e s = Some s'" using step by (simp add: write_kdump_pages_parallel_cyclic_def Let_def)
    then show ?thesis using that by (auto simp: write_next_def Let_def split: if_splits)
  next
    case False
    then have "s' = (set_used (c_index ?c) False s)\<lparr>consumer := ?c\<lparr>c_pc := C_Release\<rparr>\<rparr>" using step pc by (simp add: write_kdump_pages_parallel_cyclic_def Let_def)
    then show ?thesis using that [of "c_index ?c" C_Release] by simp
  qed
  show ?thesis using m pc c s' by (intro main_local [OF inv]) (auto simp: main_ok_def)
qed

lemma main_order:
  assumes F: "frames_ok e dmp F" and inv: "order_inv (end_pfn (pe_cycle e)) F n g s" and n: "n = pe_num_threads e" and step: "write_kdump_pages_parallel_cyclic e b s = Some s'"
  shows "order_inv (end_pfn (pe_cycle e)) F n (main_ghost e s g) s'"
proof (cases "c_pc (consumer s) = C_Pfn")
  case True
  then have "s' = scan_node e s" using step by (simp add: write_kdump_pages_parallel_cyclic_def Let_def)
  then show ?thesis using main_compare_node [OF F inv True] main_count_end [OF F inv True] True by (auto simp: main_ghost_def Let_def)
next
  case False
  have g: "c_pc (consumer s) \<noteq> C_Release \<Longrightarrow> main_ghost e s g = g" using False by (simp add: main_ghost_def Let_def)
  show ?thesis
  proof (cases "c_pc (consumer s)")
    case C_Release
    then show ?thesis using main_release [OF inv step] by (simp add: main_ghost_def Let_def)
  qed (use False g main_scan [OF F inv n step] main_write_free [OF inv step] step in \<open>auto simp: write_kdump_pages_parallel_cyclic_def Let_def\<close>)
qed

end
