(* ===== verification/Parallel_Data.thy ===== *)
theory Parallel_Data
  imports Parallel
begin

text \<open>
  The data in the buffers that the threads share: who owns a buffer, and that the main thread writes the page of the frame it has chosen.
  With the order of the frames from \<^verbatim>\<open>Parallel\<close> this gives what the writer with threads has written in every state it can reach.
\<close>

section \<open>The contents of the pages\<close>

text \<open>The pages of frames written one after the other, without threads.\<close>

fun consume_frames :: "par_env \<Rightarrow> u64 list \<Rightarrow> kdump_state \<Rightarrow> (bool \<times> kdump_state) option" where
  "consume_frames e [] st = Some (True, st)"
| "consume_frames e (pfn # pfns) st = (case pe_read e pfn of None \<Rightarrow> Some (False, st)
     | Some b \<Rightarrow> (case consume_page (pe_pd_zero e) (page_result (pe_env e) b) st of
         Some (True, st') \<Rightarrow> consume_frames e pfns st' | r \<Rightarrow> r))"

lemma consume_frames_snoc:
  "consume_frames e pfns st = Some (True, st') \<Longrightarrow> pe_read e pfn = Some b \<Longrightarrow>
     consume_frames e (pfns @ [pfn]) st = consume_page (pe_pd_zero e) (page_result (pe_env e) b) st'"
  by (induction pfns arbitrary: st) (auto split: option.splits bool.splits prod.splits)

text \<open>A data buffer belongs to a thread, or to a frame that is ready.\<close>

datatype owner = Thread nat | Frame nat

definition node_content :: "par_env \<Rightarrow> nat list \<Rightarrow> (nat \<Rightarrow> owner option) \<Rightarrow> page_data list \<Rightarrow> nat \<Rightarrow> page_flag \<Rightarrow> bool" where
  "node_content e F own bufs k nd \<longleftrightarrow> (\<exists>b. pe_read e (of_nat (F ! k)) = Some b \<and> (case page_result (pe_env e) b of
       None \<Rightarrow> pf_zero nd
     | Some (fl, data) \<Rightarrow> \<not> pf_zero nd \<and> (\<exists>i<length bufs. pf_index nd = of_nat i \<and> own i = Some (Frame k) \<and> pg_flags (bufs ! i) = fl \<and> pg_buf (bufs ! i) = data)))"

definition local_data :: "par_env \<Rightarrow> page_data list \<Rightarrow> producer \<Rightarrow> (nat \<Rightarrow> page_flag) \<Rightarrow> bool" where
  "local_data e bufs p nd \<longleftrightarrow> (case p_pc p of
       P_Filter \<Rightarrow> pe_read e (p_pfn p) = Some (p_buf p)
     | P_Data \<Rightarrow> pe_read e (p_pfn p) = Some (p_buf p)
     | P_Ready r \<Rightarrow> (\<exists>b. pe_read e (p_pfn p) = Some b \<and> (case page_result (pe_env e) b of
           None \<Rightarrow> \<not> r \<and> pf_zero (nd (p_node p))
         | Some (fl, data) \<Rightarrow> r \<and> \<not> pf_zero (nd (p_node p)) \<and> pf_index (nd (p_node p)) = of_nat (p_index p) \<and>
             pg_flags (bufs ! p_index p) = fl \<and> pg_buf (bufs ! p_index p) = data))
     | _ \<Rightarrow> True)"

definition holding :: "producer_pc \<Rightarrow> bool" where
  "holding pc \<longleftrightarrow> pc \<notin> {P_Loop, P_Lock_Data, P_Take, P_Exit}"

definition numbers :: "ghost \<Rightarrow> nat \<Rightarrow> nat list" where
  "numbers g t = filter (\<lambda>k. g_who g k = t) [g_K g ..< g_M g]"

lemma queue_numbers: "queue F g t = map (\<lambda>k. F ! k) (numbers g t)"
  by (simp add: queue_def numbers_def)

definition thread_data_ok :: "par_env \<Rightarrow> nat list \<Rightarrow> (nat \<Rightarrow> owner option) \<Rightarrow> page_data list \<Rightarrow> nat \<Rightarrow> producer \<Rightarrow> (nat \<Rightarrow> page_flag) \<Rightarrow> nat \<Rightarrow> nat list \<Rightarrow> nat option \<Rightarrow> bool" where
  "thread_data_ok e F own bufs t p nd cn ks skip \<longleftrightarrow> p_index p < length bufs \<and> (holding (p_pc p) \<longrightarrow> own (p_index p) = Some (Thread t)) \<and>
     local_data e bufs p nd \<and>
     (\<forall>j<length ks. pf_ready (node_at nd cn j) = FLAG_READY \<and> skip \<noteq> Some (ks ! j) \<longrightarrow> node_content e F own bufs (ks ! j) (node_at nd cn j))"

text \<open>The buffers of a thread and its frames are not changed by the others.\<close>

definition same_data :: "(owner \<Rightarrow> bool) \<Rightarrow> (nat \<Rightarrow> owner option) \<Rightarrow> page_data list \<Rightarrow> (nat \<Rightarrow> owner option) \<Rightarrow> page_data list \<Rightarrow> bool" where
  "same_data P own bufs own' bufs' \<longleftrightarrow> length bufs' = length bufs \<and> (\<forall>i o1. own i = Some o1 \<and> P o1 \<longrightarrow> own' i = own i \<and>
     pg_flags (bufs' ! i) = pg_flags (bufs ! i) \<and> pg_buf (bufs' ! i) = pg_buf (bufs ! i))"

lemma node_content_frame:
  assumes "node_content e F own bufs k nd" "same_data P own bufs own' bufs'" "P (Frame k)"
  shows "node_content e F own' bufs' k nd"
proof -
  obtain b where b: "pe_read e (of_nat (F ! k)) = Some b" "case page_result (pe_env e) b of
       None \<Rightarrow> pf_zero nd
     | Some (fl, data) \<Rightarrow> \<not> pf_zero nd \<and> (\<exists>i<length bufs. pf_index nd = of_nat i \<and> own i = Some (Frame k) \<and> pg_flags (bufs ! i) = fl \<and> pg_buf (bufs ! i) = data)"
    using assms(1) by (auto simp: node_content_def)
  show ?thesis
  proof (cases "page_result (pe_env e) b")
    case None
    with b show ?thesis by (auto simp: node_content_def)
  next
    case (Some r)
    obtain fl data where r: "r = (fl, data)" by (cases r)
    from b(2) Some r obtain i where i: "i < length bufs" "pf_index nd = of_nat i" "own i = Some (Frame k)" "pg_flags (bufs ! i) = fl" "pg_buf (bufs ! i) = data" "\<not> pf_zero nd"
      by auto
    from i(3) assms(2,3) have "own' i = Some (Frame k)" "pg_flags (bufs' ! i) = fl" "pg_buf (bufs' ! i) = data" "i < length bufs'"
      using i by (auto simp: same_data_def)
    with i b(1) Some r show ?thesis unfolding node_content_def by auto
  qed
qed

lemma thread_data_frame:
  assumes "thread_data_ok e F own bufs t p nd cn ks skip" "same_data P own bufs own' bufs'" "P (Thread t)"
    "\<forall>k\<in>set ks. skip' \<noteq> Some k \<longrightarrow> skip \<noteq> Some k \<and> P (Frame k)"
  shows "thread_data_ok e F own' bufs' t p nd cn ks skip'"
proof -
  have h: "holding (p_pc p) \<longrightarrow> own (p_index p) = Some (Thread t)" and l: "local_data e bufs p nd" using assms(1) by (auto simp: thread_data_ok_def)
  have "holding (p_pc p) \<longrightarrow> own' (p_index p) = Some (Thread t) \<and> pg_flags (bufs' ! p_index p) = pg_flags (bufs ! p_index p) \<and> pg_buf (bufs' ! p_index p) = pg_buf (bufs ! p_index p)"
    using h assms(2,3) by (auto simp: same_data_def)
  moreover from this have "local_data e bufs' p nd" using l by (cases "p_pc p") (auto simp: local_data_def holding_def split: option.splits prod.splits)
  moreover have "node_content e F own' bufs' (ks ! j) (node_at nd cn j)" if "j < length ks" "pf_ready (node_at nd cn j) = FLAG_READY" "skip' \<noteq> Some (ks ! j)" for j
    using node_content_frame [OF _ assms(2)] assms(1,4) that by (auto simp: thread_data_ok_def)
  ultimately show ?thesis using assms(1,2) by (auto simp: thread_data_ok_def same_data_def)
qed

definition released :: "par_state \<Rightarrow> ghost \<Rightarrow> nat option" where
  "released s g = (if c_pc (consumer s) = C_Release then Some (g_K g) else None)"

definition data_inv :: "par_env \<Rightarrow> nat list \<Rightarrow> nat \<Rightarrow> kdump_state \<Rightarrow> ghost \<Rightarrow> (nat \<Rightarrow> owner option) \<Rightarrow> par_state \<Rightarrow> bool" where
  "data_inv e F n st0 g own s \<longleftrightarrow>
     (\<forall>t<n. thread_data_ok e F own (page_data_buf s) t (producers s t) (page_flag_buf s t) (c_node (consumer s) t) (numbers g t) (released s g)) \<and>
     (\<forall>i. own i \<noteq> None \<longrightarrow> i < length (page_data_buf s) \<and> pg_used (page_data_buf s ! i)) \<and>
     0 < length (page_data_buf s) \<and> length (page_data_buf s) \<le> 2 ^ 15 \<and> filter_list (ks_erase (par_ks s)) = [] \<and>
     (c_pc (consumer s) \<noteq> C_Out \<longrightarrow> consume_frames e (map of_nat (take (g_K g + of_bool (c_pc (consumer s) \<in> {C_Free, C_Release})) F)) st0 = Some (True, par_ks s)) \<and>
     (c_pc (consumer s) = C_Free \<longrightarrow> own (c_index (consumer s)) = Some (Frame (g_K g)))"

text \<open>A step of a thread: the part of the others follows from the owners.\<close>

lemma data_step:
  assumes inv: "data_inv e F n st0 g own s" and t: "t < n" and ps: "producers s' = (producers s)(t := p')" and nd: "page_flag_buf s' = (page_flag_buf s)(t := nd')"
    and c: "consumer s' = consumer s" and ks: "par_ks s' = par_ks s" and K: "g_K g' = g_K g" and nums: "\<And>u. u \<noteq> t \<Longrightarrow> numbers g' u = numbers g u"
    and others: "same_data (\<lambda>o1. o1 \<noteq> Thread t) own (page_data_buf s) own' (page_data_buf s')"
    and mine: "thread_data_ok e F own' (page_data_buf s') t p' nd' (c_node (consumer s) t) (numbers g' t) (released s g)"
    and used: "\<forall>i. own' i \<noteq> None \<longrightarrow> i < length (page_data_buf s') \<and> pg_used (page_data_buf s' ! i)"
  shows "data_inv e F n st0 g' own' s'"
proof -
  have r: "released s' g' = released s g" using c K by (simp add: released_def)
  have "thread_data_ok e F own' (page_data_buf s') u (producers s' u) (page_flag_buf s' u) (c_node (consumer s') u) (numbers g' u) (released s' g')" if "u < n" for u
  proof (cases "u = t")
    case True
    then show ?thesis using mine by (simp add: ps nd c r)
  next
    case False
    have "thread_data_ok e F own (page_data_buf s) u (producers s u) (page_flag_buf s u) (c_node (consumer s) u) (numbers g u) (released s g)"
      using inv that by (simp add: data_inv_def)
    from thread_data_frame [OF this others] False show ?thesis by (simp add: ps nd c r nums)
  qed
  moreover have "length (page_data_buf s') = length (page_data_buf s)" using others by (simp add: same_data_def)
  moreover have "own' (c_index (consumer s)) = Some (Frame (g_K g))" if "own (c_index (consumer s)) = Some (Frame (g_K g))"
    using others that by (auto simp: same_data_def)
  ultimately show ?thesis using inv used by (auto simp: data_inv_def c ks K)
qed

lemma same_data_refl [simp]: "same_data P own bufs own bufs"
  by (simp add: same_data_def)

lemma data_here: "data_inv e F n st0 g own s \<Longrightarrow> t < n \<Longrightarrow>
    thread_data_ok e F own (page_data_buf s) t (producers s t) (page_flag_buf s t) (c_node (consumer s) t) (numbers g t) (released s g)"
  by (simp add: data_inv_def)

text \<open>A step that leaves the buffers and nodes alone.\<close>

lemma data_local:
  assumes inv: "data_inv e F n st0 g own s" and t: "t < n" and ps: "producers s' = (producers s)(t := p')"
    and "page_flag_buf s' = page_flag_buf s" "consumer s' = consumer s" "par_ks s' = par_ks s" "page_data_buf s' = page_data_buf s"
    and "p_index p' = p_index (producers s t)" "holding (p_pc p') \<longrightarrow> holding (p_pc (producers s t))" "local_data e (page_data_buf s) p' (page_flag_buf s t)"
  shows "data_inv e F n st0 g own s'"
proof (rule data_step [OF inv t ps])
  show "page_flag_buf s' = (page_flag_buf s)(t := page_flag_buf s t)" using assms(4) by simp
  show "thread_data_ok e F own (page_data_buf s') t p' (page_flag_buf s t) (c_node (consumer s) t) (numbers g t) (released s g)"
    using data_here [OF inv t] assms(7-10) by (simp add: thread_data_ok_def)
  show "\<forall>i. own i \<noteq> None \<longrightarrow> i < length (page_data_buf s') \<and> pg_used (page_data_buf s' ! i)" using inv assms(7) by (simp add: data_inv_def)
qed (use assms in simp_all)

lemma numbers_claim:
  assumes "g_K g \<le> g_M g"
  shows "numbers (claim_ghost e t s g) u = (if u = t \<and> p_pc (producers s t) = P_Filling \<and> p_pfn (producers s t) < end_pfn (pe_cycle e)
     then numbers g t @ [g_M g] else numbers g u)"
proof -
  have "filter (\<lambda>k. ((g_who g)(g_M g := t)) k = u) [g_K g ..< g_M g] = filter (\<lambda>k. g_who g k = u) [g_K g ..< g_M g]"
    by (rule filter_cong) auto
  then have "filter (\<lambda>k. ((g_who g)(g_M g := t)) k = u) [g_K g ..< Suc (g_M g)] = filter (\<lambda>k. g_who g k = u) [g_K g ..< g_M g] @ (if u = t then [g_M g] else [])"
    using assms by (simp only: upt_Suc if_True filter_append) simp
  then show ?thesis by (auto simp: numbers_def claim_ghost_def simp del: upt_Suc fun_upd_apply)
qed

lemma extract_none: "filter_list er = [] \<Longrightarrow> extract_filter_info a b er = Some (None, er)"
  by (simp add: extract_filter_info_def)

lemma node_content_cong:
  assumes "pf_zero nd' = pf_zero nd" "pf_index nd' = pf_index nd"
  shows "node_content e F own bufs k nd' = node_content e F own bufs k nd"
  unfolding node_content_def assms ..

text \<open>Nodes that are not ready do not matter.\<close>

lemma data_nodes:
  assumes "thread_data_ok e F own bufs t p nd cn ks skip" "p_index p' = p_index p" "holding (p_pc p') \<longrightarrow> holding (p_pc p)" "local_data e bufs p' nd'"
    "\<forall>j<length ks'. pf_ready (node_at nd' cn j) = FLAG_READY \<longrightarrow> j < length ks \<and> ks' ! j = ks ! j \<and> pf_ready (node_at nd cn j) = FLAG_READY \<and>
       pf_zero (node_at nd' cn j) = pf_zero (node_at nd cn j) \<and> pf_index (node_at nd' cn j) = pf_index (node_at nd cn j)"
  shows "thread_data_ok e F own bufs t p' nd' cn ks' skip"
proof -
  have "node_content e F own bufs (ks' ! j) (node_at nd' cn j)" if "j < length ks'" "pf_ready (node_at nd' cn j) = FLAG_READY" "skip \<noteq> Some (ks' ! j)" for j
  proof -
    have j: "j < length ks" "ks' ! j = ks ! j" "pf_ready (node_at nd cn j) = FLAG_READY" "pf_zero (node_at nd' cn j) = pf_zero (node_at nd cn j)"
      "pf_index (node_at nd' cn j) = pf_index (node_at nd cn j)" using assms(5) that by auto
    have "node_content e F own bufs (ks ! j) (node_at nd cn j)" using assms(1) j that(3) by (simp add: thread_data_ok_def)
    then show ?thesis unfolding j(2) node_content_cong [OF j(4,5)] .
  qed
  with assms(1-4) show ?thesis by (simp add: thread_data_ok_def)
qed

lemma node_at_written:
  assumes "p_node p = (cn + k) mod PAGE_FLAG_NUM" "k < PAGE_FLAG_NUM" "j < PAGE_FLAG_NUM"
  shows "node_at (nd(p_node p := x)) cn j = (if j = k then x else node_at nd cn j)"
  unfolding assms(1) by (rule node_at_upd [OF assms(3,2)])

lemma ring_position:
  assumes "ring_ok E (map f ks) p nd cn ct"
  shows "length ks \<le> PAGE_FLAG_NUM" "\<not> active E p \<Longrightarrow> p_node p = (cn + length ks) mod PAGE_FLAG_NUM"
    "active E p \<Longrightarrow> ks \<noteq> [] \<and> p_node p = (cn + (length ks - 1)) mod PAGE_FLAG_NUM \<and> f (last ks) = unat (p_pfn p) \<and>
       pf_ready (node_at nd cn (length ks - 1)) = FLAG_FILLING \<and> length ks - 1 < PAGE_FLAG_NUM"
    "p_pc p \<in> {P_Lock_Pfn, P_Search, P_Pfn, P_Filling} \<Longrightarrow> length ks < PAGE_FLAG_NUM"
proof -
  have r: "length ks \<le> PAGE_FLAG_NUM" "nodes_ok (map f ks) (active E p) (ended E p \<and> \<not> ct) (node_at nd cn)" "active E p \<longrightarrow> ks \<noteq> [] \<and> last (map f ks) = unat (p_pfn p)"
    "thread_ok E (length ks) p nd cn ct" using assms by (auto simp: ring_ok_def)
  show "length ks \<le> PAGE_FLAG_NUM" by (rule r)
  show "\<not> active E p \<Longrightarrow> p_node p = (cn + length ks) mod PAGE_FLAG_NUM" "p_pc p \<in> {P_Lock_Pfn, P_Search, P_Pfn, P_Filling} \<Longrightarrow> length ks < PAGE_FLAG_NUM"
    using r(4) by (auto simp: thread_ok_def)
  assume a: "active E p"
  then have ne: "ks \<noteq> []" using r(3) by simp
  have "pf_ready (node_at nd cn (length ks - 1)) = FLAG_FILLING" using r(2) a ne unfolding nodes_ok_def by simp
  moreover have "p_node p = (cn + (length ks - 1)) mod PAGE_FLAG_NUM" using r(4) a by (simp add: thread_ok_def)
  ultimately show "ks \<noteq> [] \<and> p_node p = (cn + (length ks - 1)) mod PAGE_FLAG_NUM \<and> f (last ks) = unat (p_pfn p) \<and>
     pf_ready (node_at nd cn (length ks - 1)) = FLAG_FILLING \<and> length ks - 1 < PAGE_FLAG_NUM"
    using a ne r(1,3) by (cases ks rule: rev_cases) (auto simp: last_map)
qed

lemma ring_numbers: "order_inv E F n g s \<Longrightarrow> t < n \<Longrightarrow>
    ring_ok E (map (\<lambda>k. F ! k) (numbers g t)) (producers s t) (page_flag_buf s t) (c_node (consumer s) t) (t \<in> g_counted g)"
  using ring_here [of E F n g s t] by (simp add: queue_numbers)

text \<open>The stores of the frame and of the flag \<^verbatim>\<open>FLAG_FILLING\<close>.\<close>

lemma data_claim:
  assumes ord: "order_inv (end_pfn (pe_cycle e)) F n g s" and inv: "data_inv e F n st0 g own s" and t: "t < n"
    and step: "kdump_thread_function_cyclic e t s = Some s'" and pc: "p_pc (producers s t) \<in> {P_Pfn, P_Filling}"
  shows "data_inv e F n st0 (claim_ghost e t s g) own s'"
proof -
  let ?p = "producers s t" and ?nd = "page_flag_buf s t" and ?cn = "c_node (consumer s) t" and ?E = "end_pfn (pe_cycle e)"
  obtain pc' x where s': "s' = set_producer t (?p\<lparr>p_pc := pc'\<rparr>) (set_node t (p_node ?p) (\<lambda>n. x) s)" "pc' \<in> {P_Filling, P_Unlock}"
    and x: "pf_ready x = (if p_pc ?p = P_Pfn then pf_ready (?nd (p_node ?p)) else FLAG_FILLING)" "pf_zero x = pf_zero (?nd (p_node ?p))" "pf_index x = pf_index (?nd (p_node ?p))"
  proof (cases "p_pc ?p = P_Pfn")
    case True
    then have "s' = set_producer t (?p\<lparr>p_pc := P_Filling\<rparr>) (set_node t (p_node ?p) (\<lambda>n. (?nd (p_node ?p))\<lparr>pf_pfn := p_pfn ?p\<rparr>) s)"
      using step by (simp add: kdump_thread_function_cyclic_def set_node_def Let_def)
    then show ?thesis using that True by simp
  next
    case False
    then have "s' = set_producer t (?p\<lparr>p_pc := P_Unlock\<rparr>) (set_node t (p_node ?p) (\<lambda>n. (?nd (p_node ?p))\<lparr>pf_ready := FLAG_FILLING\<rparr>) s)"
      using step pc by (simp add: kdump_thread_function_cyclic_def set_node_def Let_def)
    then show ?thesis using that False by simp
  qed
  have K: "g_K g \<le> g_M g" using ord by (simp add: order_inv_def claims_ok_def)
  note r = ring_numbers [OF ord t]
  have na: "\<not> active ?E ?p" using pc by (auto simp: active_def)
  note pos = ring_position(2) [OF r na] ring_position(4) [OF r] ring_position(1) [OF r]
  have lt: "length (numbers g t) < PAGE_FLAG_NUM" using pos(2) pc by auto
  have x0: "pf_ready (?nd (p_node ?p)) = FLAG_UNUSED"
    using r na pos(1) lt pc unfolding ring_ok_def nodes_ok_def by (auto simp: node_at_def ended_def)
  let ?ks = "numbers (claim_ghost e t s g) t"
  have ks: "?ks = numbers g t \<or> ?ks = numbers g t @ [g_M g]" using numbers_claim [OF K, of e t s t] by auto
  show ?thesis
  proof (rule data_step [OF inv t])
    show "producers s' = (producers s)(t := ?p\<lparr>p_pc := pc'\<rparr>)" "page_flag_buf s' = (page_flag_buf s)(t := ?nd(p_node ?p := x))" "consumer s' = consumer s"
      "par_ks s' = par_ks s" "same_data (\<lambda>o1. o1 \<noteq> Thread t) own (page_data_buf s) own (page_data_buf s')"
      "\<forall>i. own i \<noteq> None \<longrightarrow> i < length (page_data_buf s') \<and> pg_used (page_data_buf s' ! i)"
      using inv by (simp_all add: s'(1) data_inv_def)
    show "g_K (claim_ghost e t s g) = g_K g" by (simp add: claim_ghost_def)
    show "u \<noteq> t \<Longrightarrow> numbers (claim_ghost e t s g) u = numbers g u" for u by (simp add: numbers_claim [OF K])
    have "thread_data_ok e F own (page_data_buf s) t (?p\<lparr>p_pc := pc'\<rparr>) (?nd(p_node ?p := x)) ?cn ?ks (released s g)"
    proof (rule data_nodes [OF data_here [OF inv t]])
      show "holding (p_pc (?p\<lparr>p_pc := pc'\<rparr>)) \<longrightarrow> holding (p_pc ?p)" using pc by (auto simp: holding_def)
      show "local_data e (page_data_buf s) (?p\<lparr>p_pc := pc'\<rparr>) (?nd(p_node ?p := x))" using s'(2) by (auto simp: local_data_def)
      show "\<forall>j<length ?ks. pf_ready (node_at (?nd(p_node ?p := x)) ?cn j) = FLAG_READY \<longrightarrow> j < length (numbers g t) \<and> ?ks ! j = numbers g t ! j \<and>
         pf_ready (node_at ?nd ?cn j) = FLAG_READY \<and> pf_zero (node_at (?nd(p_node ?p := x)) ?cn j) = pf_zero (node_at ?nd ?cn j) \<and>
         pf_index (node_at (?nd(p_node ?p := x)) ?cn j) = pf_index (node_at ?nd ?cn j)"
        using node_at_written [OF pos(1) lt] ks lt x x0 by (auto simp: nth_append split: if_splits)
    qed simp
    then show "thread_data_ok e F own (page_data_buf s') t (?p\<lparr>p_pc := pc'\<rparr>) (?nd(p_node ?p := x)) ?cn ?ks (released s g)" by (simp add: s'(1))
  qed
qed

text \<open>The page is stored, and becomes ready.\<close>

lemma data_store:
  assumes ord: "order_inv (end_pfn (pe_cycle e)) F n g s" and inv: "data_inv e F n st0 g own s" and t: "t < n"
    and step: "kdump_thread_function_cyclic e t s = Some s'" and pc: "p_pc (producers s t) = P_Data"
  shows "data_inv e F n st0 g own s'"
proof -
  let ?p = "producers s t" and ?nd = "page_flag_buf s t" and ?cn = "c_node (consumer s) t" and ?E = "end_pfn (pe_cycle e)"
  have rd: "pe_read e (p_pfn ?p) = Some (p_buf ?p)" and ix: "p_index ?p < length (page_data_buf s)" "own (p_index ?p) = Some (Thread t)"
    using data_here [OF inv t] pc by (simp_all add: thread_data_ok_def local_data_def holding_def)
  obtain b x bufs where s': "producers s' = (producers s)(t := ?p\<lparr>p_pc := P_Ready b\<rparr>)" "page_flag_buf s' = (page_flag_buf s)(t := ?nd(p_node ?p := x))"
    "consumer s' = consumer s" "par_ks s' = par_ks s" "page_data_buf s' = bufs" and x: "pf_ready x = pf_ready (?nd (p_node ?p))"
    and bufs: "length bufs = length (page_data_buf s)" "\<forall>i. i \<noteq> p_index ?p \<longrightarrow> bufs ! i = page_data_buf s ! i" "\<forall>i. pg_used (bufs ! i) = pg_used (page_data_buf s ! i)"
    and loc: "local_data e bufs (?p\<lparr>p_pc := P_Ready b\<rparr>) (?nd(p_node ?p := x))"
  proof (cases "page_result (pe_env e) (p_buf ?p)")
    case None
    then show ?thesis using that [of False "(?nd (p_node ?p))\<lparr>pf_zero := True\<rparr>" "page_data_buf s"] step pc rd
      by (auto simp: kdump_thread_function_cyclic_def store_data_def local_data_def Let_def)
  next
    case (Some fd)
    obtain fl data where "fd = (fl, data)" by (cases fd)
    then show ?thesis using that [of True "(?nd (p_node ?p))\<lparr>pf_zero := False, pf_index := of_nat (p_index ?p)\<rparr>"
        "(page_data_buf s)[p_index ?p := (page_data_buf s ! p_index ?p)\<lparr>pg_flags := fl, pg_buf := data\<rparr>]"] step pc rd ix Some
      by (auto simp: kdump_thread_function_cyclic_def store_data_def local_data_def Let_def nth_list_update)
  qed
  have lt: "p_pfn ?p < ?E" by (rule ring_pfn_before_end [OF ring_here [OF ord t]]) (use pc in \<open>simp_all add: thread_pcs\<close>)
  then have a: "active ?E ?p" using pc by (simp add: active_def)
  note r = ring_numbers [OF ord t]
  note pos = ring_position(3) [OF r a] ring_position(1) [OF r]
  have x0: "pf_ready x = FLAG_FILLING" using x pos(1) by (simp add: node_at_def)
  have sd: "same_data (\<lambda>o1. o1 \<noteq> Thread t) own (page_data_buf s) own bufs"
    using bufs ix(2) unfolding same_data_def by (metis option.inject)
  have sd': "same_data (\<lambda>o1. o1 \<noteq> Thread t) own (page_data_buf s) own (page_data_buf s')" by (simp add: s'(5) sd)
  show ?thesis
  proof (rule data_step [OF inv t s'(1-4) refl _ sd'])
    show "\<forall>i. own i \<noteq> None \<longrightarrow> i < length (page_data_buf s') \<and> pg_used (page_data_buf s' ! i)"
      using inv bufs by (simp add: data_inv_def s'(5))
    have "node_content e F own bufs (numbers g t ! j) (node_at (?nd(p_node ?p := x)) ?cn j)"
      if j: "j < length (numbers g t)" "pf_ready (node_at (?nd(p_node ?p := x)) ?cn j) = FLAG_READY" "released s g \<noteq> Some (numbers g t ! j)" for j
    proof -
      have w: "node_at (?nd(p_node ?p := x)) ?cn j = (if j = length (numbers g t) - 1 then x else node_at ?nd ?cn j)"
        by (rule node_at_written) (use pos j(1) in auto)
      then have "j \<noteq> length (numbers g t) - 1" using j(2) x0 by auto
      then have e: "node_at (?nd(p_node ?p := x)) ?cn j = node_at ?nd ?cn j" using w by simp
      have "node_content e F own (page_data_buf s) (numbers g t ! j) (node_at ?nd ?cn j)"
        using data_here [OF inv t] j e by (simp add: thread_data_ok_def)
      then show ?thesis unfolding e by (rule node_content_frame [OF _ sd]) simp
    qed
    then show "thread_data_ok e F own (page_data_buf s') t (?p\<lparr>p_pc := P_Ready b\<rparr>) (?nd(p_node ?p := x)) ?cn (numbers g t) (released s g)"
      using ix bufs(1) loc by (simp add: thread_data_ok_def s'(5))
  qed simp
qed

lemma data_ready:
  assumes ord: "order_inv (end_pfn (pe_cycle e)) F n g s" and inv: "data_inv e F n st0 g own s" and t: "t < n"
    and step: "kdump_thread_function_cyclic e t s = Some s'" and pc: "p_pc (producers s t) = P_Ready b"
  shows "\<exists>own'. data_inv e F n st0 g own' s'"
proof -
  let ?p = "producers s t" and ?nd = "page_flag_buf s t" and ?cn = "c_node (consumer s) t" and ?E = "end_pfn (pe_cycle e)" and ?bufs = "page_data_buf s"
  let ?p' = "?p\<lparr>p_pc := if b then P_Loop else P_Check, p_node := (p_node ?p + 1) mod PAGE_FLAG_NUM\<rparr>"
  let ?x = "(?nd (p_node ?p))\<lparr>pf_ready := FLAG_READY\<rparr>" and ?l = "length (numbers g t)"
  have s': "s' = set_producer t ?p' (set_node t (p_node ?p) (\<lambda>n. n\<lparr>pf_ready := FLAG_READY\<rparr>) s)"
    using step pc by (simp add: kdump_thread_function_cyclic_def Let_def)
  have lt: "p_pfn ?p < ?E" by (rule ring_pfn_before_end [OF ring_here [OF ord t]]) (use pc in \<open>simp_all add: thread_pcs\<close>)
  then have a: "active ?E ?p" using pc by (simp add: active_def)
  note r = ring_numbers [OF ord t]
  note pos = ring_position(3) [OF r a] ring_position(1) [OF r]
  define k where "k = last (numbers g t)"
  have k: "F ! k = unat (p_pfn ?p)" "k = numbers g t ! (?l - 1)" using pos by (auto simp: k_def last_conv_nth)
  have L: "p_index ?p < length ?bufs" "own (p_index ?p) = Some (Thread t)" "local_data e ?bufs ?p ?nd"
    using data_here [OF inv t] pc by (simp_all add: thread_data_ok_def holding_def)
  define own' where "own' = (if b then own(p_index ?p := Some (Frame k)) else own)"
  have sd: "same_data (\<lambda>o1. o1 \<noteq> Thread t) own ?bufs own' ?bufs" using L(2) by (auto simp: same_data_def own'_def)
  have pf: "pe_read e (of_nat (F ! k)) = pe_read e (p_pfn ?p)" using k(1) by simp
  have new: "node_content e F own' ?bufs k ?x"
  proof -
    obtain c where c: "pe_read e (p_pfn ?p) = Some c" "case page_result (pe_env e) c of None \<Rightarrow> \<not> b \<and> pf_zero (?nd (p_node ?p))
      | Some (fl, data) \<Rightarrow> b \<and> \<not> pf_zero (?nd (p_node ?p)) \<and> pf_index (?nd (p_node ?p)) = of_nat (p_index ?p) \<and>
          pg_flags (?bufs ! p_index ?p) = fl \<and> pg_buf (?bufs ! p_index ?p) = data"
      using L(3) pc by (auto simp: local_data_def)
    show ?thesis
    proof (cases "page_result (pe_env e) c")
      case None
      then show ?thesis using c pf by (simp add: node_content_def)
    next
      case (Some r)
      obtain fl data where "r = (fl, data)" by (cases r)
      then show ?thesis using c pf Some L(1) unfolding node_content_def by (auto simp: own'_def intro!: exI [of _ "p_index ?p"])
    qed
  qed
  show ?thesis
  proof (intro exI, rule data_step [OF inv t, of s'])
    show "producers s' = (producers s)(t := ?p')" "page_flag_buf s' = (page_flag_buf s)(t := ?nd(p_node ?p := ?x))" "consumer s' = consumer s"
      "par_ks s' = par_ks s" by (simp_all add: s')
    show "same_data (\<lambda>o1. o1 \<noteq> Thread t) own ?bufs own' (page_data_buf s')" using sd by (simp add: s')
    show "\<forall>i. own' i \<noteq> None \<longrightarrow> i < length (page_data_buf s') \<and> pg_used (page_data_buf s' ! i)"
      using inv L(1,2) by (auto simp: data_inv_def s' own'_def)
    have "node_content e F own' ?bufs (numbers g t ! j) (node_at (?nd(p_node ?p := ?x)) ?cn j)"
      if j: "j < ?l" "pf_ready (node_at (?nd(p_node ?p := ?x)) ?cn j) = FLAG_READY" "released s g \<noteq> Some (numbers g t ! j)" for j
    proof -
      have w: "node_at (?nd(p_node ?p := ?x)) ?cn j = (if j = ?l - 1 then ?x else node_at ?nd ?cn j)"
        by (rule node_at_written) (use pos j(1) in auto)
      show ?thesis
      proof (cases "j = ?l - 1")
        case True
        then show ?thesis using w new k(2) by simp
      next
        case False
        then have e: "node_at (?nd(p_node ?p := ?x)) ?cn j = node_at ?nd ?cn j" using w by simp
        have "node_content e F own ?bufs (numbers g t ! j) (node_at ?nd ?cn j)" using data_here [OF inv t] j e by (simp add: thread_data_ok_def)
        then show ?thesis unfolding e by (rule node_content_frame [OF _ sd]) simp
      qed
    qed
    moreover have "holding (p_pc ?p') \<longrightarrow> own' (p_index ?p') = Some (Thread t)" using L(2) by (simp add: holding_def own'_def)
    moreover have "local_data e ?bufs ?p' (?nd(p_node ?p := ?x))" by (simp add: local_data_def)
    ultimately show "thread_data_ok e F own' (page_data_buf s') t ?p' (?nd(p_node ?p := ?x)) ?cn (numbers g t) (released s g)"
      using L(1) by (simp add: thread_data_ok_def s')
  qed simp_all
qed

lemma data_thread:
  assumes ord: "order_inv (end_pfn (pe_cycle e)) F n g s" and inv: "data_inv e F n st0 g own s" and t: "t < n"
    and step: "kdump_thread_function_cyclic e t s = Some s'"
  shows "\<exists>own'. data_inv e F n st0 (claim_ghost e t s g) own' s'"
proof -
  let ?p = "producers s t" and ?bufs = "page_data_buf s" and ?nd = "page_flag_buf s t"
  have g: "p_pc ?p \<noteq> P_Filling \<Longrightarrow> claim_ghost e t s g = g" by (simp add: claim_ghost_def)
  note d = data_here [OF inv t]
  have ix: "p_index ?p < length ?bufs" using d by (simp add: thread_data_ok_def)
  have loc: "s' = set_producer t p' s1 \<Longrightarrow> page_flag_buf s1 = page_flag_buf s \<Longrightarrow> producers s1 = producers s \<Longrightarrow> consumer s1 = consumer s \<Longrightarrow> par_ks s1 = par_ks s \<Longrightarrow> page_data_buf s1 = ?bufs \<Longrightarrow>
      p_index p' = p_index ?p \<Longrightarrow> (holding (p_pc p') \<longrightarrow> holding (p_pc ?p)) \<Longrightarrow> local_data e ?bufs p' ?nd \<Longrightarrow> \<exists>own'. data_inv e F n st0 g own' s'" for p' s1
    using data_local [OF inv t, of s' p'] by auto
  show ?thesis
  proof (cases "p_pc ?p")
    case P_Take
    then consider "s' = set_producer t (?p\<lparr>p_index := (p_index ?p + 1) mod length ?bufs\<rparr>) s"
      | "\<not> pg_used (?bufs ! p_index ?p)" "s' = set_producer t (?p\<lparr>p_pc := P_Check\<rparr>) (set_used (p_index ?p) True (s\<lparr>page_data_mutex := None\<rparr>))"
      using step by (auto simp: kdump_thread_function_cyclic_def Let_def split: if_splits)
    then show ?thesis
    proof cases
      case 1
      have "data_inv e F n st0 g own s'"
        by (rule data_step [OF inv t, of s' "?p\<lparr>p_index := (p_index ?p + 1) mod length ?bufs\<rparr>" ?nd])
          (use d ix inv P_Take in \<open>auto simp: 1 thread_data_ok_def local_data_def holding_def data_inv_def\<close>)
      then show ?thesis using g P_Take by auto
    next
      case 2
      have none: "own (p_index ?p) = None" using inv 2(1) by (auto simp: data_inv_def)
      let ?own = "own(p_index ?p := Some (Thread t))" and ?bufs' = "?bufs[p_index ?p := (?bufs ! p_index ?p)\<lparr>pg_used := True\<rparr>]"
      have sd: "same_data P own ?bufs ?own ?bufs'" for P using none by (auto simp: same_data_def nth_list_update)
      have "thread_data_ok e F ?own ?bufs' t ?p ?nd (c_node (consumer s) t) (numbers g t) (released s g)"
        by (rule thread_data_frame [OF d sd [of "\<lambda>_. True"]]) simp_all
      then have "thread_data_ok e F ?own ?bufs' t (?p\<lparr>p_pc := P_Check\<rparr>) ?nd (c_node (consumer s) t) (numbers g t) (released s g)"
        by (simp add: thread_data_ok_def local_data_def)
      then have "data_inv e F n st0 g ?own s'"
        by (intro data_step [OF inv t, of s' "?p\<lparr>p_pc := P_Check\<rparr>" ?nd]) (use sd inv ix in \<open>auto simp: 2(2) data_inv_def nth_list_update\<close>)
      then show ?thesis using g P_Take by auto
    qed
  next
    case P_Free
    then have s': "s' = set_producer t (?p\<lparr>p_pc := P_Exit\<rparr>) (set_used (p_index ?p) False s)" using step by (simp add: kdump_thread_function_cyclic_def Let_def)
    let ?own = "own(p_index ?p := None)" and ?bufs' = "?bufs[p_index ?p := (?bufs ! p_index ?p)\<lparr>pg_used := False\<rparr>]"
    have o: "own (p_index ?p) = Some (Thread t)" using d P_Free by (simp add: thread_data_ok_def holding_def)
    have sd: "same_data (\<lambda>o1. o1 \<noteq> Thread t) own ?bufs ?own ?bufs'" using o by (auto simp: same_data_def nth_list_update)
    have "node_content e F ?own ?bufs' k nd" if "node_content e F own ?bufs k nd" for k nd using node_content_frame [OF that sd] by simp
    then have "thread_data_ok e F ?own ?bufs' t (?p\<lparr>p_pc := P_Exit\<rparr>) ?nd (c_node (consumer s) t) (numbers g t) (released s g)"
      using d by (simp add: thread_data_ok_def local_data_def holding_def)
    then have "data_inv e F n st0 g ?own s'"
      by (intro data_step [OF inv t, of s' "?p\<lparr>p_pc := P_Exit\<rparr>" ?nd]) (use sd inv in \<open>auto simp: s' data_inv_def nth_list_update\<close>)
    then show ?thesis using g P_Free by auto
  next
    case P_Filter
    have "filter_list (ks_erase (par_ks s)) = []" using inv by (simp add: data_inv_def)
    then have "s' = set_producer t (?p\<lparr>p_pc := P_Data\<rparr>) s" using step P_Filter
      by (simp add: kdump_thread_function_cyclic_def erase_step_def extract_none Let_def)
    then have "\<exists>own'. data_inv e F n st0 g own' s'" using P_Filter d by (intro loc [of "?p\<lparr>p_pc := P_Data\<rparr>" s]) (simp_all add: thread_data_ok_def local_data_def holding_def)
    then show ?thesis using g P_Filter by simp
  next
    case P_Read
    then consider "s' = set_producer t (?p\<lparr>p_pc := P_Fail\<rparr>) s" | b where "pe_read e (p_pfn ?p) = Some b" "s' = set_producer t (?p\<lparr>p_pc := P_Filter, p_buf := b\<rparr>) s"
      using step by (auto simp: kdump_thread_function_cyclic_def Let_def split: option.splits)
    then have "\<exists>own'. data_inv e F n st0 g own' s'"
    proof cases
      case 1
      then show ?thesis using P_Read by (intro loc [of "?p\<lparr>p_pc := P_Fail\<rparr>" s]) (simp_all add: local_data_def holding_def)
    next
      case (2 b)
      then show ?thesis using P_Read by (intro loc [of "?p\<lparr>p_pc := P_Filter, p_buf := b\<rparr>" s]) (simp_all add: local_data_def holding_def)
    qed
    then show ?thesis using g P_Read by simp
  next
    case P_Data
    then show ?thesis using data_store [OF ord inv t step] g by auto
  next
    case (P_Ready b)
    then show ?thesis using data_ready [OF ord inv t step] g by auto
  next
    case P_Search
    let ?f = "bmfile (ks_bitmaps (par_ks s))"
    obtain pfn bm where nx: "next_dumpable ?f (pe_cycle e) (current_pfn s) (thread_bitmap e s t) = (pfn, bm)" by (rule prod.exhaust)
    define p' where "p' = ?p\<lparr>p_pc := P_Pfn, p_pfn := pfn, p_bitmap := if fd_bitmap (pe_env e) \<ge> 0 then bm else p_bitmap ?p\<rparr>"
    have "s' = set_producer t p' (s\<lparr>current_pfn := pfn + 1\<rparr>)"
      using step P_Search nx by (simp add: kdump_thread_function_cyclic_def claim_pfn_def Let_def thread_bitmap_def p'_def)
    then have "\<exists>own'. data_inv e F n st0 g own' s'" by (rule loc) (simp_all add: P_Search p'_def local_data_def holding_def)
    then show ?thesis using g P_Search by simp
  next
    case P_Lock_Data
    then have "s' = set_producer t (?p\<lparr>p_pc := P_Take\<rparr>) (s\<lparr>page_data_mutex := Some t\<rparr>)" using step by (simp add: kdump_thread_function_cyclic_def split: if_splits)
    then have "\<exists>own'. data_inv e F n st0 g own' s'" by (rule loc) (simp_all add: local_data_def holding_def)
    then show ?thesis using g P_Lock_Data by simp
  next
    case P_Lock_Pfn
    then have "s' = set_producer t (?p\<lparr>p_pc := P_Search\<rparr>) (s\<lparr>current_pfn_mutex := Some t\<rparr>)" using step by (simp add: kdump_thread_function_cyclic_def split: if_splits)
    then have "\<exists>own'. data_inv e F n st0 g own' s'" by (rule loc) (simp_all add: P_Lock_Pfn local_data_def holding_def)
    then show ?thesis using g P_Lock_Pfn by simp
  next
    case P_Unlock
    then have "s' = set_producer t (?p\<lparr>p_pc := P_Post\<rparr>) (s\<lparr>current_pfn_mutex := None\<rparr>)" using step by (simp add: kdump_thread_function_cyclic_def Let_def)
    then have "\<exists>own'. data_inv e F n st0 g own' s'" by (rule loc) (simp_all add: P_Unlock local_data_def holding_def)
    then show ?thesis using g P_Unlock by simp
  next
    case P_End
    then have "s' = set_producer t (?p\<lparr>p_pc := P_Free\<rparr>) (s\<lparr>current_pfn := end_pfn (pe_cycle e)\<rparr>)" using step by (simp add: kdump_thread_function_cyclic_def Let_def)
    then have "\<exists>own'. data_inv e F n st0 g own' s'" by (rule loc) (simp_all add: P_End local_data_def holding_def)
    then show ?thesis using g P_End by simp
  next
    case P_Post
    then have "s' = set_producer t (?p\<lparr>p_pc := if end_pfn (pe_cycle e) \<le> p_pfn ?p then P_End else P_Read\<rparr>) (s\<lparr>page_flag_buf_sem := page_flag_buf_sem s + 1\<rparr>)"
      using step by (simp add: kdump_thread_function_cyclic_def Let_def)
    then have "\<exists>own'. data_inv e F n st0 g own' s'" by (rule loc) (simp_all add: P_Post local_data_def holding_def)
    then show ?thesis using g P_Post by simp
  next
    case P_Loop
    then have "s' = set_producer t (?p\<lparr>p_pc := if end_pfn (pe_cycle e) \<le> p_pfn ?p then P_Exit else P_Lock_Data\<rparr>) s"
      using step by (simp add: kdump_thread_function_cyclic_def Let_def)
    then have "\<exists>own'. data_inv e F n st0 g own' s'" by (rule loc) (simp_all add: local_data_def holding_def)
    then show ?thesis using g P_Loop by simp
  next
    case P_Check
    then have "s' = s \<or> s' = set_producer t (?p\<lparr>p_pc := P_Lock_Pfn\<rparr>) s" using step by (auto simp: kdump_thread_function_cyclic_def Let_def)
    then have "\<exists>own'. data_inv e F n st0 g own' s'" using inv P_Check loc [of "?p\<lparr>p_pc := P_Lock_Pfn\<rparr>" s] by (auto simp: local_data_def holding_def)
    then show ?thesis using g P_Check by simp
  qed (use data_claim [OF ord inv t step] step in \<open>auto simp: kdump_thread_function_cyclic_def Let_def\<close>)
qed

text \<open>Steps of the main thread that change only its local variables.\<close>

lemma data_main_local:
  assumes inv: "data_inv e F n st0 g own s" and same: "page_flag_buf s' = page_flag_buf s" "producers s' = producers s" "page_data_buf s' = page_data_buf s" "par_ks s' = par_ks s"
    "c_node (consumer s') = c_node (consumer s)"
    and pc: "c_pc (consumer s) \<notin> {C_Free, C_Release, C_Out}" "c_pc (consumer s') \<notin> {C_Free, C_Release}"
  shows "data_inv e F n st0 g own s'"
proof -
  have "released s' g = released s g" using pc by (simp add: released_def)
  then show ?thesis using inv pc unfolding data_inv_def same by simp
qed

lemma numbers_head:
  assumes "g_K g < g_M g"
  shows "numbers g (g_who g (g_K g)) = g_K g # numbers (g\<lparr>g_K := g_K g + 1\<rparr>) (g_who g (g_K g))"
    "u \<noteq> g_who g (g_K g) \<Longrightarrow> numbers (g\<lparr>g_K := g_K g + 1\<rparr>) u = numbers g u"
proof -
  have u: "[g_K g ..< g_M g] = g_K g # [Suc (g_K g) ..< g_M g]" using assms by (rule upt_conv_Cons)
  show "numbers g (g_who g (g_K g)) = g_K g # numbers (g\<lparr>g_K := g_K g + 1\<rparr>) (g_who g (g_K g))" by (simp add: numbers_def u)
  show "u \<noteq> g_who g (g_K g) \<Longrightarrow> numbers (g\<lparr>g_K := g_K g + 1\<rparr>) u = numbers g u" unfolding numbers_def u by simp
qed

text \<open>The node of the next frame when the main thread writes it.\<close>

lemma next_content:
  assumes ord: "order_inv (end_pfn (pe_cycle e)) F n g s" and inv: "data_inv e F n st0 g own s" and pc: "c_pc (consumer s) \<in> {C_Write, C_Free}"
  shows "node_content e F own (page_data_buf s) (g_K g) (page_flag_buf s (c_consuming (consumer s)) (c_node (consumer s) (c_consuming (consumer s)))) \<and>
     g_K g < g_M g \<and> g_M g \<le> length F \<and> c_consuming (consumer s) = g_who g (g_K g)"
proof -
  let ?c = "consumer s" and ?k = "c_consuming (consumer s)"
  have m: "main_ok (end_pfn (pe_cycle e)) F n g (head_flag s) ?c" "g_M g \<le> length F" using ord by (simp_all add: order_inv_def claims_ok_def)
  then have S: "g_K g < g_M g" "?k = g_who g (g_K g)" "head_flag s ?k = FLAG_READY" "?k < n" using pc unfolding main_ok_def by auto
  have cn: "c_node ?c ?k < PAGE_FLAG_NUM" using ring_here [OF ord S(4)] by (simp add: ring_ok_def)
  have h: "numbers g ?k ! 0 = g_K g" "0 < length (numbers g ?k)" using numbers_head(1) [OF S(1)] S(2) by simp_all
  have d: "\<forall>j<length (numbers g ?k). pf_ready (node_at (page_flag_buf s ?k) (c_node ?c ?k) j) = FLAG_READY \<and> released s g \<noteq> Some (numbers g ?k ! j) \<longrightarrow>
      node_content e F own (page_data_buf s) (numbers g ?k ! j) (node_at (page_flag_buf s ?k) (c_node ?c ?k) j)"
    using data_here [OF inv S(4)] unfolding thread_data_ok_def by blast
  have "released s g = None" using pc by (auto simp: released_def)
  then have "node_content e F own (page_data_buf s) (g_K g) (page_flag_buf s ?k (c_node ?c ?k))"
    using d [rule_format, OF h(2)] h(1) S(3) by (simp add: node_at_0 [OF cn] head_flag_def)
  then show ?thesis using S m(2) by simp
qed

lemma data_write:
  assumes ord: "order_inv (end_pfn (pe_cycle e)) F n g s" and inv: "data_inv e F n st0 g own s" and step: "write_next e s = Some s'" and pc: "c_pc (consumer s) = C_Write"
  shows "data_inv e F n st0 g own s'"
proof -
  let ?c = "consumer s" and ?k = "c_consuming (consumer s)" and ?bufs = "page_data_buf s"
  let ?nd = "page_flag_buf s ?k (c_node ?c ?k)"
  have N: "node_content e F own ?bufs (g_K g) ?nd" "g_K g < g_M g" "g_M g \<le> length F" using next_content [OF ord inv] pc by auto
  then obtain b where b: "pe_read e (of_nat (F ! g_K g)) = Some b" "case page_result (pe_env e) b of
       None \<Rightarrow> pf_zero ?nd
     | Some (fl, data) \<Rightarrow> \<not> pf_zero ?nd \<and> (\<exists>i<length ?bufs. pf_index ?nd = of_nat i \<and> own i = Some (Frame (g_K g)) \<and> pg_flags (?bufs ! i) = fl \<and> pg_buf (?bufs ! i) = data)"
    unfolding node_content_def by blast
  have len: "length ?bufs \<le> 2 ^ 15" using inv by (simp add: data_inv_def)
  have ui: "unat (of_nat i :: 16 word) = i" if "i < length ?bufs" for i
    using that len by (intro of_nat_inverse [OF refl]) simp
  have r: "(if pf_zero ?nd then None else Some (pg_flags (?bufs ! unat (pf_index ?nd)), pg_buf (?bufs ! unat (pf_index ?nd)))) = page_result (pe_env e) b"
    and i: "\<not> pf_zero ?nd \<Longrightarrow> own (unat (pf_index ?nd)) = Some (Frame (g_K g))"
    using b(2) ui by (auto split: option.splits)
  obtain res st where cp: "consume_page (pe_pd_zero e) (page_result (pe_env e) b) (par_ks s) = Some (res, st)"
    and s': "s' = s\<lparr>par_ks := st, consumer := ?c\<lparr>c_pc := (if \<not> res then C_Out else if pf_zero ?nd then C_Release else C_Free), c_index := unat (pf_index ?nd)\<rparr>\<rparr>"
    using step unfolding write_next_def Let_def r by (auto split: if_splits)
  have er: "ks_erase st = ks_erase (par_ks s)"
    using cp by (auto simp: consume_page_def Let_def split: option.splits prod.splits bool.splits)
  have take: "take (Suc (g_K g)) F = take (g_K g) F @ [F ! g_K g]" using N by (intro take_Suc_conv_app_nth) simp
  have D: "consume_frames e (map of_nat (take (g_K g) F)) st0 = Some (True, par_ks s)" using inv pc by (simp add: data_inv_def)
  have out: "res \<Longrightarrow> consume_frames e (map of_nat (take (Suc (g_K g)) F)) st0 = Some (True, st)"
    using consume_frames_snoc [OF D b(1)] cp by (simp add: take)
  have "thread_data_ok e F own ?bufs t (producers s t) (page_flag_buf s t) (c_node ?c t) (numbers g t) (released s' g)" if "t < n" for t
    using data_here [OF inv that] pc unfolding thread_data_ok_def by (auto simp: released_def)
  then show ?thesis using inv out er i N unfolding data_inv_def s' by (simp add: released_def)
qed

lemma data_free:
  assumes ord: "order_inv (end_pfn (pe_cycle e)) F n g s" and inv: "data_inv e F n st0 g own s" and pc: "c_pc (consumer s) = C_Free"
    and s': "s' = (set_used (c_index (consumer s)) False s)\<lparr>consumer := (consumer s)\<lparr>c_pc := C_Release\<rparr>\<rparr>"
  shows "\<exists>own'. data_inv e F n st0 g own' s'"
proof -
  let ?i = "c_index (consumer s)" and ?bufs = "page_data_buf s"
  let ?own = "own(?i := None)" and ?bufs' = "?bufs[?i := (?bufs ! ?i)\<lparr>pg_used := False\<rparr>]"
  have o: "own ?i = Some (Frame (g_K g))" using inv pc by (simp add: data_inv_def)
  have sd: "same_data (\<lambda>o1. o1 \<noteq> Frame (g_K g)) own ?bufs ?own ?bufs'" using o by (auto simp: same_data_def nth_list_update)
  have r: "released s g = None" "released s' g = Some (g_K g)" using pc by (simp_all add: released_def s')
  have "thread_data_ok e F ?own ?bufs' t (producers s t) (page_flag_buf s t) (c_node (consumer s) t) (numbers g t) (Some (g_K g))" if "t < n" for t
    by (rule thread_data_frame [OF data_here [OF inv that] sd]) (simp_all add: r)
  then have "data_inv e F n st0 g ?own s'" using inv pc unfolding data_inv_def r(2) by (auto simp: s' nth_list_update)
  then show ?thesis by blast
qed

lemma data_release:
  assumes ord: "order_inv (end_pfn (pe_cycle e)) F n g s" and inv: "data_inv e F n st0 g own s" and pc: "c_pc (consumer s) = C_Release"
    and k: "k = c_consuming (consumer s)" "cn = c_node (consumer s) k"
    and s': "s' = (set_node k cn (\<lambda>n. n\<lparr>pf_ready := FLAG_UNUSED\<rparr>) s)\<lparr>consumer := (consumer s)\<lparr>c_pc := C_Wait, c_node := (c_node (consumer s))(k := (cn + 1) mod PAGE_FLAG_NUM)\<rparr>\<rparr>"
  shows "data_inv e F n st0 (g\<lparr>g_K := g_K g + 1\<rparr>) own s'"
proof -
  let ?c = "consumer s" and ?g = "g\<lparr>g_K := g_K g + 1\<rparr>" and ?bufs = "page_data_buf s"
  let ?nd' = "(page_flag_buf s k)(cn := (page_flag_buf s k cn)\<lparr>pf_ready := FLAG_UNUSED\<rparr>)"
  have m: "main_ok (end_pfn (pe_cycle e)) F n g (head_flag s) ?c" using ord by (simp add: order_inv_def)
  then have S: "g_K g < g_M g" "k = g_who g (g_K g)" "k < n" using pc k unfolding main_ok_def by auto
  have h: "numbers g k = g_K g # numbers ?g k" "\<And>u. u \<noteq> k \<Longrightarrow> numbers ?g u = numbers g u" unfolding S(2) using numbers_head [OF S(1)] by blast+
  have r: "released s g = Some (g_K g)" "released s' ?g = None" using pc by (simp_all add: released_def s')
  have gt: "j \<in> set (numbers ?g t) \<Longrightarrow> j \<noteq> g_K g" for j t by (auto simp: numbers_def)
  have "thread_data_ok e F own ?bufs t (producers s' t) (page_flag_buf s' t) (c_node (consumer s') t) (numbers ?g t) None" if t: "t < n" for t
  proof (cases "t = k")
    case False
    have "thread_data_ok e F own ?bufs t (producers s t) (page_flag_buf s t) (c_node ?c t) (numbers ?g t) None"
      by (rule thread_data_frame [OF data_here [OF inv t, folded h(2) [OF False]], of "\<lambda>_. True"]) (use gt r in auto)
    then show ?thesis using False by (simp add: s')
  next
    case True
    have d: "thread_data_ok e F own ?bufs k (producers s k) (page_flag_buf s k) cn (numbers g k) (Some (g_K g))" using data_here [OF inv S(3)] r(1) k by simp
    have len: "length (numbers g k) \<le> PAGE_FLAG_NUM" using ring_position(1) [OF ring_numbers [OF ord S(3)]] .
    have cn: "cn < PAGE_FLAG_NUM" using ring_here [OF ord S(3)] k by (simp add: ring_ok_def)
    have nx: "node_at ?nd' ((cn + 1) mod PAGE_FLAG_NUM) j = node_at (page_flag_buf s k) cn (Suc j)" if "j < length (numbers ?g k)" for j
    proof -
      have sj: "Suc j < PAGE_FLAG_NUM" "j < PAGE_FLAG_NUM" using that h(1) len by auto
      then have "node_at ?nd' ((cn + 1) mod PAGE_FLAG_NUM) j = node_at ?nd' cn (Suc j)" using node_at_next [OF sj(2), of ?nd' cn] by simp
      also have "\<dots> = node_at (page_flag_buf s k) cn (Suc j)"
        using node_at_upd [OF sj(1) PAGE_FLAG_NUM_pos, of "page_flag_buf s k" cn] cn by simp
      finally show ?thesis .
    qed
    have "node_content e F own ?bufs (numbers ?g k ! j) (node_at ?nd' ((cn + 1) mod PAGE_FLAG_NUM) j)"
      if j: "j < length (numbers ?g k)" "pf_ready (node_at ?nd' ((cn + 1) mod PAGE_FLAG_NUM) j) = FLAG_READY" for j
    proof -
      have "numbers ?g k ! j \<noteq> g_K g" using gt [of "numbers ?g k ! j" k] nth_mem [OF j(1)] by blast
      then show ?thesis using d j h(1) nx [OF j(1)] unfolding thread_data_ok_def by (auto dest: spec [where x = "Suc j"])
    qed
    moreover have "local_data e ?bufs (producers s k) ?nd'" using d unfolding thread_data_ok_def local_data_def by (auto split: producer_pc.splits option.splits)
    ultimately show ?thesis using d True by (simp add: thread_data_ok_def s')
  qed
  then show ?thesis using inv pc unfolding data_inv_def r(2) by (simp add: s')
qed

lemma data_count:
  assumes inv: "data_inv e F n st0 g own s" and pc: "c_pc (consumer s) = C_Pfn" and i: "c_i (consumer s) = i"
    and ge: "end_pfn (pe_cycle e) \<le> pf_pfn (page_flag_buf s i (c_node (consumer s) i))"
  shows "data_inv e F n st0 (g\<lparr>g_counted := C\<rparr>) own (scan_node e s)"
proof -
  let ?c = "consumer s" and ?s = "scan_node e s"
  let ?x = "(page_flag_buf s i (c_node ?c i))\<lparr>pf_ready := FLAG_UNUSED\<rparr>"
  have s': "page_data_buf ?s = page_data_buf s" "producers ?s = producers s" "par_ks ?s = par_ks s" "c_node (consumer ?s) = c_node ?c" "c_pc (consumer ?s) = C_Scan"
    "page_flag_buf ?s = (page_flag_buf s)(i := (page_flag_buf s i)(c_node ?c i := ?x))"
    using ge i by (simp_all add: scan_node_def Let_def)
  have num: "numbers (g\<lparr>g_counted := C\<rparr>) t = numbers g t" for t by (simp add: numbers_def)
  have r: "released s g = None" "released ?s g' = None" for g' using pc s'(5) by (simp_all add: released_def)
  have "thread_data_ok e F own (page_data_buf s) t (producers s t) (page_flag_buf ?s t) (c_node ?c t) (numbers g t) None" if t: "t < n" for t
  proof (cases "t = i")
    case False
    then show ?thesis using data_here [OF inv t] r s'(6) by simp
  next
    case True
    have d: "thread_data_ok e F own (page_data_buf s) i (producers s i) (page_flag_buf s i) (c_node ?c i) (numbers g i) None" using data_here [OF inv t] True r by simp
    show ?thesis unfolding True s'(6) fun_upd_same
    proof (rule data_nodes [OF d])
      show "local_data e (page_data_buf s) (producers s i) ((page_flag_buf s i)(c_node ?c i := ?x))"
        using d unfolding thread_data_ok_def local_data_def by (auto split: producer_pc.splits option.splits)
    qed (auto simp: node_at_def split: if_splits)
  qed
  then show ?thesis using inv pc unfolding data_inv_def s' r num by simp
qed

lemma data_main:
  assumes ord: "order_inv (end_pfn (pe_cycle e)) F n g s" and inv: "data_inv e F n st0 g own s"
    and step: "write_kdump_pages_parallel_cyclic e b s = Some s'"
  shows "\<exists>own'. data_inv e F n st0 (main_ghost e s g) own' s'"
proof -
  let ?c = "consumer s"
  have g: "c_pc ?c \<noteq> C_Release \<Longrightarrow> c_pc ?c \<noteq> C_Pfn \<Longrightarrow> main_ghost e s g = g" by (simp add: main_ghost_def Let_def)
  have loc: "page_flag_buf s' = page_flag_buf s \<Longrightarrow> producers s' = producers s \<Longrightarrow> page_data_buf s' = page_data_buf s \<Longrightarrow> par_ks s' = par_ks s \<Longrightarrow>
      c_node (consumer s') = c_node ?c \<Longrightarrow> c_pc ?c \<notin> {C_Free, C_Release, C_Out} \<Longrightarrow> c_pc (consumer s') \<notin> {C_Free, C_Release} \<Longrightarrow> \<exists>own'. data_inv e F n st0 g own' s'"
    using data_main_local [OF inv] by blast
  show ?thesis
  proof (cases "c_pc ?c")
    case C_Pfn
    then have s': "s' = scan_node e s" using step by (simp add: write_kdump_pages_parallel_cyclic_def Let_def)
    show ?thesis
    proof (cases "end_pfn (pe_cycle e) \<le> pf_pfn (page_flag_buf s (c_i ?c) (c_node ?c (c_i ?c)))")
      case True
      then have "data_inv e F n st0 (main_ghost e s g) own s'" using data_count [OF inv C_Pfn refl True] C_Pfn by (simp add: main_ghost_def s' Let_def)
      then show ?thesis by blast
    next
      case False
      then have "main_ghost e s g = g" by (simp add: main_ghost_def C_Pfn Let_def)
      moreover have "\<exists>own'. data_inv e F n st0 g own' s'" using False C_Pfn by (intro loc) (simp_all add: s' scan_node_def Let_def)
      ultimately show ?thesis by simp
    qed
  next
    case C_Write
    then have "write_next e s = Some s'" using step by (simp add: write_kdump_pages_parallel_cyclic_def Let_def)
    then show ?thesis using data_write [OF ord inv _ C_Write] g C_Write by auto
  next
    case C_Free
    then have "s' = (set_used (c_index ?c) False s)\<lparr>consumer := ?c\<lparr>c_pc := C_Release\<rparr>\<rparr>" using step by (simp add: write_kdump_pages_parallel_cyclic_def Let_def)
    then show ?thesis using data_free [OF ord inv C_Free] g C_Free by simp
  next
    case C_Release
    then have "data_inv e F n st0 (g\<lparr>g_K := g_K g + 1\<rparr>) own s'" using step
      by (intro data_release [OF ord inv C_Release refl refl]) (simp add: write_kdump_pages_parallel_cyclic_def Let_def)
    then show ?thesis using C_Release by (auto simp: main_ghost_def Let_def)
  next
    case C_Wait
    have "\<exists>own'. data_inv e F n st0 g own' s'" using step C_Wait by (intro loc) (auto simp: write_kdump_pages_parallel_cyclic_def Let_def split: if_splits)
    then show ?thesis using g C_Wait by simp
  next
    case C_Start
    have "\<exists>own'. data_inv e F n st0 g own' s'" using step C_Start by (intro loc) (auto simp: write_kdump_pages_parallel_cyclic_def Let_def)
    then show ?thesis using g C_Start by simp
  next
    case C_Scan
    have "\<exists>own'. data_inv e F n st0 g own' s'" using step C_Scan by (intro loc) (auto simp: write_kdump_pages_parallel_cyclic_def Let_def split: if_splits)
    then show ?thesis using g C_Scan by simp
  next
    case C_Ends
    have "\<exists>own'. data_inv e F n st0 g own' s'" using step C_Ends by (intro loc) (auto simp: write_kdump_pages_parallel_cyclic_def Let_def split: if_splits)
    then show ?thesis using g C_Ends by simp
  next
    case C_Ready
    have "\<exists>own'. data_inv e F n st0 g own' s'" using step C_Ready by (intro loc) (auto simp: write_kdump_pages_parallel_cyclic_def Let_def split: if_splits)
    then show ?thesis using g C_Ready by simp
  next
    case C_Compare
    have "\<exists>own'. data_inv e F n st0 g own' s'" using step C_Compare by (intro loc) (auto simp: write_kdump_pages_parallel_cyclic_def Let_def split: if_splits)
    then show ?thesis using g C_Compare by simp
  qed (use step in \<open>simp_all add: write_kdump_pages_parallel_cyclic_def Let_def\<close>)
qed

text \<open>All reachable states.\<close>

definition par_inv :: "par_env \<Rightarrow> nat \<Rightarrow> (nat \<Rightarrow> bool) \<Rightarrow> nat list \<Rightarrow> kdump_state \<Rightarrow> par_state \<Rightarrow> bool" where
  "par_inv e m dmp F st0 s \<longleftrightarrow> (\<exists>g own. order_inv (end_pfn (pe_cycle e)) F (pe_num_threads e) g s \<and> data_inv e F (pe_num_threads e) st0 g own s) \<and> bits_inv e m dmp s"

lemma consume_page_bitmaps: "consume_page z r st = Some (b, st') \<Longrightarrow> ks_bitmaps st' = ks_bitmaps st"
  by (auto simp: consume_page_def Let_def split: option.splits prod.splits bool.splits)

lemma main_bits:
  assumes "bits_inv e m dmp s" "write_kdump_pages_parallel_cyclic e b s = Some s'"
  shows "bits_inv e m dmp s'"
proof (rule bits_same [OF assms(1)])
  have s': "current_pfn s' = current_pfn s" "producers s' = producers s" "ks_bitmaps (par_ks s') = ks_bitmaps (par_ks s)"
    using assms(2) by (auto simp: write_kdump_pages_parallel_cyclic_def scan_node_def write_next_def Let_def split: consumer_pc.splits if_splits dest: consume_page_bitmaps)
  then show "unat (start_pfn (pe_cycle e)) \<le> unat (current_pfn s')" "ks_bitmaps (par_ks s') = ks_bitmaps (par_ks s)"
    "p_bitmap (producers s' t) = p_bitmap (producers s t)" for t using assms(1) by (simp_all add: bits_inv_def)
qed

lemma par_step_inv:
  assumes F: "frames_ok e dmp F" and inv: "par_inv e m dmp F st0 s" and step: "par_step e s s'"
  shows "par_inv e m dmp F st0 s'"
proof -
  from inv obtain g own where i: "order_inv (end_pfn (pe_cycle e)) F (pe_num_threads e) g s" "data_inv e F (pe_num_threads e) st0 g own s" "bits_inv e m dmp s"
    by (auto simp: par_inv_def)
  from step show ?thesis
  proof cases
    case (thread t)
    from thread_order [OF F i(1,3) refl thread] data_thread [OF i(1,2) thread] show ?thesis unfolding par_inv_def by blast
  next
    case (main timeout)
    from main_order [OF F i(1) refl main] data_main [OF i(1,2) main] main_bits [OF i(3) main] show ?thesis unfolding par_inv_def by blast
  qed
qed

definition threads_ready ::
  "par_env \<Rightarrow> nat \<Rightarrow> (nat \<Rightarrow> bool) \<Rightarrow> (nat \<Rightarrow> nat) \<Rightarrow> (nat \<Rightarrow> nat \<Rightarrow> page_flag) \<Rightarrow> page_data list \<Rightarrow> (nat \<Rightarrow> dump_bitmap) \<Rightarrow> kdump_state \<Rightarrow> bool" where
  "threads_ready e m dmp ptrs nodes bufs tbms st \<longleftrightarrow> start_pfn (pe_cycle e) < end_pfn (pe_cycle e) \<and> unat (end_pfn (pe_cycle e)) + pe_num_threads e < 2 ^ 64 - 1 \<and>
     0 < pe_num_threads e \<and> length bufs = PAGE_DATA_NUM * pe_num_threads e \<and> length bufs \<le> 2 ^ 15 \<and> filter_list (ks_erase st) = [] \<and>
     (\<forall>t<pe_num_threads e. ptrs t < PAGE_FLAG_NUM \<and> (\<forall>k<PAGE_FLAG_NUM. pf_ready (nodes t k) = FLAG_UNUSED) \<and>
        answers m (pe_cycle e) dmp (if fd_bitmap (pe_env e) \<ge> 0 then tbms t else bitmap2 (ks_bitmaps st)) (bmfile (ks_bitmaps st)))"

lemma start_inv:
  assumes "threads_ready e m dmp ptrs nodes bufs tbms st" "F = filter dmp [unat (start_pfn (pe_cycle e)) ..< unat (end_pfn (pe_cycle e))]"
  shows "frames_ok e dmp F \<and> par_inv e m dmp F st (start_threads e ptrs nodes bufs tbms st)"
proof -
  let ?E = "end_pfn (pe_cycle e)" and ?n = "pe_num_threads e" and ?s = "start_threads e ptrs nodes bufs tbms st"
  let ?g = "\<lparr>g_who = (\<lambda>_. 0), g_K = 0, g_M = 0, g_counted = {}\<rparr> :: ghost"
  have F: "frames_ok e dmp F" using assms by (simp add: frames_ok_def threads_ready_def)
  have R: "start_pfn (pe_cycle e) < ?E" "\<not> ?E \<le> start_pfn (pe_cycle e)" "0 < ?n" "length bufs = 5 * ?n" "length bufs \<le> 2 ^ 15" "filter_list (ks_erase st) = []"
    "\<forall>t<?n. ptrs t < PAGE_FLAG_NUM" "\<forall>t<?n. \<forall>k<PAGE_FLAG_NUM. pf_ready (nodes t k) = FLAG_UNUSED"
    using assms(1) by (auto simp: threads_ready_def PAGE_DATA_NUM_def)
  have q: "queue F ?g t = []" "numbers ?g t = []" for t by (simp_all add: queue_def numbers_def)
  have p: "producers ?s t = \<lparr>p_pc = P_Loop, p_pfn = start_pfn (pe_cycle e), p_index = t, p_node = ptrs t, p_buf = [], p_bitmap = tbms t\<rparr>" for t
    by (simp add: start_threads_def)
  have c: "consumer ?s = \<lparr>c_pc = C_Wait, c_i = 0, c_consuming = 0, c_current = 0, c_end_count = 0, c_index = 0, c_node = ptrs\<rparr>" by (simp add: start_threads_def)
  have s: "page_flag_buf ?s = nodes" "current_pfn ?s = start_pfn (pe_cycle e)" "current_pfn_mutex ?s = None" "page_flag_buf_sem ?s = 0"
    "page_data_buf ?s = map (\<lambda>b. b\<lparr>pg_used := False\<rparr>) bufs" "par_ks ?s = st" by (simp_all add: start_threads_def)
  have "ring_ok ?E [] (producers ?s t) (nodes t) (ptrs t) False" if "t < ?n" for t
  proof -
    have "pf_ready (node_at (nodes t) (ptrs t) j) = FLAG_UNUSED" for j using R(8) that PAGE_FLAG_NUM_pos by (simp add: node_at_def)
    then show ?thesis using R(2,7) that unfolding p by (simp add: ring_ok_def nodes_ok_def thread_ok_def thread_pcs)
  qed
  then have "rings_ok ?E F ?n ?g ?s" by (simp add: rings_ok_def q s c)
  moreover have "locks_ok ?n ?s" by (simp add: locks_ok_def p s critical_def)
  moreover have "claims_ok ?E F ?n ?g (current_pfn ?s) (producers ?s)"
    using frame_range [OF F] R(1) unfolding claims_ok_def p s by (auto simp: thread_pcs word_less_nat_alt not_less)
  moreover have "sem_ok ?E ?n ?g ?s"
  proof -
    have "count_threads ?n unposted (producers ?s) = 0" "count_threads ?n (ended ?E) (producers ?s) = 0" by (simp_all add: count_threads_0 p thread_pcs)
    then show ?thesis by (simp add: sem_ok_def s c)
  qed
  moreover have "main_ok ?E F ?n ?g (head_flag ?s) (consumer ?s)" using R(3) by (simp add: main_ok_def c)
  ultimately have "order_inv ?E F ?n ?g ?s" by (simp add: order_inv_def)
  moreover have "data_inv e F ?n st ?g (\<lambda>_. None) ?s"
    using R unfolding data_inv_def thread_data_ok_def p s c q by (auto simp: local_data_def holding_def)
  moreover have "bits_inv e m dmp ?s" using assms(1) unfolding bits_inv_def thread_bitmap_def p s by (auto simp: threads_ready_def)
  ultimately show ?thesis using F unfolding par_inv_def by blast
qed

lemma par_reach_inv:
  assumes "par_reach e s0 s" "frames_ok e dmp F" "par_inv e m dmp F st0 s0"
  shows "par_inv e m dmp F st0 s"
  using assms by (induction rule: par_reach.induct) (auto intro: par_step_inv)

lemma finished_all:
  assumes "order_inv E F n g s" "c_pc (consumer s) = C_Finish" "0 < n"
  shows "g_K g = length F"
proof -
  have c: "g_counted g = {..<n}" using assms(1,2) by (simp add: order_inv_def main_ok_def)
  have r: "queue F g t = [] \<and> ended E (producers s t)" if "t < n" for t
    using ring_here [OF assms(1) that] c that by (auto simp: ring_ok_def thread_ok_def)
  have M: "g_M g = length F" using r [OF assms(3)] assms(1,3) by (auto simp: order_inv_def claims_ok_def)
  have "\<not> g_K g < length F" using next_nonempty [OF assms(1)] assms(2) r by auto
  then show ?thesis using M assms(1) by (auto simp: order_inv_def claims_ok_def)
qed

text \<open>
  C4. Whatever the order of the steps of the threads, the pages come to the file in the order of their frames: in every state that can be
  reached the main thread has written exactly the first frames of the cycle, each with the data of its page, as a writer without threads
  would have done, and when it finishes it has written all of them.
\<close>

theorem parallel_writes_in_order:
  assumes "threads_ready e m dmp ptrs nodes bufs tbms st" "par_reach e (start_threads e ptrs nodes bufs tbms st) s"
  shows "(c_pc (consumer s) \<noteq> C_Out \<longrightarrow>
       (\<exists>k. consume_frames e (take k (frames dmp (unat (start_pfn (pe_cycle e))) (unat (end_pfn (pe_cycle e))))) st = Some (True, par_ks s))) \<and>
     (c_pc (consumer s) = C_Finish \<longrightarrow>
       consume_frames e (frames dmp (unat (start_pfn (pe_cycle e))) (unat (end_pfn (pe_cycle e)))) st = Some (True, par_ks s))"
proof -
  define F where "F = filter dmp [unat (start_pfn (pe_cycle e)) ..< unat (end_pfn (pe_cycle e))]"
  have f: "frames dmp (unat (start_pfn (pe_cycle e))) (unat (end_pfn (pe_cycle e))) = map of_nat F" by (simp add: frames_def F_def)
  from start_inv [OF assms(1) F_def] par_reach_inv [OF assms(2)] obtain g own where
    i: "order_inv (end_pfn (pe_cycle e)) F (pe_num_threads e) g s" "data_inv e F (pe_num_threads e) st g own s" unfolding par_inv_def by blast
  have n: "0 < pe_num_threads e" using assms(1) by (simp add: threads_ready_def)
  have D: "c_pc (consumer s) \<noteq> C_Out \<longrightarrow>
      consume_frames e (map of_nat (take (g_K g + of_bool (c_pc (consumer s) \<in> {C_Free, C_Release})) F)) st = Some (True, par_ks s)"
    using i(2) by (simp add: data_inv_def)
  then show ?thesis using finished_all [OF i(1) _ n] unfolding f take_map by auto
qed

text \<open>A run, from the choices of who goes on: a thread, or the main thread.\<close>

fun par_run :: "par_env \<Rightarrow> nat option list \<Rightarrow> par_state \<Rightarrow> par_state option" where
  "par_run e [] s = Some s"
| "par_run e (w # ws) s = (case (case w of Some t \<Rightarrow> if t < pe_num_threads e then kdump_thread_function_cyclic e t s else None
     | None \<Rightarrow> write_kdump_pages_parallel_cyclic e False s) of None \<Rightarrow> None | Some s' \<Rightarrow> par_run e ws s')"

lemma par_run_reach: "par_run e ws s' = Some s'' \<Longrightarrow> par_reach e s s' \<Longrightarrow> par_reach e s s''"
proof (induction ws arbitrary: s')
  case (Cons w ws)
  from Cons.prems(1) obtain s1 where "par_run e ws s1 = Some s''" "par_step e s' s1"
    by (auto split: option.splits if_splits intro: par_step.intros)
  with Cons show ?case by (blast intro: par_reach.step)
qed simp

definition two_frames :: par_env where
  "two_frames = \<lparr>pe_env = sample_env\<lparr>page_size := 8\<rparr>, pe_cycle = \<lparr>start_pfn = 0, end_pfn = 2, exclude_pfn_start = 0, exclude_pfn_end = 0, exclude_pfn_counter = None\<rparr>,
     pe_pd_zero = \<lparr>pd_offset = 0, pd_size = 8, pd_flags = 0, pd_page_flags = 0\<rparr>, pe_num_threads = 1, pe_read = (\<lambda>_. Some (replicate 8 0))\<rparr>"

definition two_frames_state :: kdump_state where
  "two_frames_state = sample_kdump\<lparr>ks_bitmaps := \<lparr>bitmap1 = new_bitmap, bitmap2 = new_bitmap\<lparr>buf := [2]\<rparr>, bmfile = \<lparr>content = [], capacity = 0\<rparr>\<rparr>,
     ks_header := prepare_cache_data 64 0 0 (replicate 128 0), ks_page := prepare_cache_data 64 0 0 (replicate 128 0), ks_writer := sample_device False []\<rparr>"

definition two_frames_start :: par_state where
  "two_frames_start = start_threads two_frames (\<lambda>_. 0) (\<lambda>_ _. \<lparr>pf_pfn = 0, pf_zero = False, pf_ready = FLAG_UNUSED, pf_index = 0\<rparr>)
     (replicate 5 \<lparr>pg_used = False, pg_flags = 0, pg_buf = []\<rparr>) (\<lambda>_. new_bitmap) two_frames_state"

lemmas two_frames_defs = two_frames_def two_frames_state_def sample_kdump_defs

lemma two_frames_ready:
  "threads_ready two_frames 1 (\<lambda>i. i = 1) (\<lambda>_. 0) (\<lambda>_ _. \<lparr>pf_pfn = 0, pf_zero = False, pf_ready = FLAG_UNUSED, pf_index = 0\<rparr>)
     (replicate 5 \<lparr>pg_used = False, pg_flags = 0, pg_buf = []\<rparr>) (\<lambda>_. new_bitmap) two_frames_state"
proof -
  have "{0 ..< 2 :: nat} = {0, 1}" by auto
  then show ?thesis
    by (simp add: threads_ready_def two_frames_defs PAGE_DATA_NUM_def PAGE_FLAG_NUM_def answers_def bm_ok_def new_bitmap_def pbit_def nbit_def)
qed

lemma two_frames_zero: "page_result (sample_env\<lparr>page_size := 8\<rparr>) (replicate 8 0) = None"
proof -
  have "get64 (replicate 8 0) 0 = 0" unfolding get64_def get_le_def by code_simp
  then show ?thesis by (simp add: page_result_def sample_kdump_defs is_zero_page_def DL_EXCLUDE_ZERO_def)
qed

lemma two_frames_next:
  "next_dumpable f \<lparr>start_pfn = 0, end_pfn = 2, exclude_pfn_start = 0, exclude_pfn_end = 0, exclude_pfn_counter = None\<rparr> 0 (new_bitmap\<lparr>buf := [2]\<rparr>) =
     (1, new_bitmap\<lparr>buf := [2]\<rparr>)"
  "next_dumpable f \<lparr>start_pfn = 0, end_pfn = 2, exclude_pfn_start = 0, exclude_pfn_end = 0, exclude_pfn_counter = None\<rparr> 2 (new_bitmap\<lparr>buf := [2]\<rparr>) =
     (2, new_bitmap\<lparr>buf := [2]\<rparr>)"
  by (code_simp, code_simp)

lemmas two_frames_step = kdump_thread_function_cyclic_def write_kdump_pages_parallel_cyclic_def Let_def set_producer_def set_used_def set_node_def claim_pfn_def
  store_data_def erase_step_def extract_filter_info_def scan_node_def write_next_def PAGE_FLAG_NUM_def

lemma two_frames_sample: "fd_bitmap sample_env = -1" "\<not> (2 :: u64) \<le> 1"
  by (simp add: sample_kdump_defs, code_simp)

lemma two_frames_fields: "filter_list (ks_erase two_frames_state) = []" "bitmap2 (ks_bitmaps two_frames_state) = new_bitmap\<lparr>buf := [2]\<rparr>"
   by (simp_all add: two_frames_state_def sample_kdump_def)

lemma two_frames_write:
  "\<exists>cd. write_cache (ks_header two_frames_state) (pd_bytes \<lparr>pd_offset = 0, pd_size = 8, pd_flags = 0, pd_page_flags = 0\<rparr>) (ks_writer two_frames_state) =
     Some (True, cd, ks_writer two_frames_state)"
  by (simp add: two_frames_state_def prepare_cache_data_def write_cache_def)

lemma two_frames_run:
  "map_option (\<lambda>s. (c_pc (consumer s), ks_num_dumped (par_ks s)))
     (par_run two_frames (Some 0 # Some 0 # Some 0 # Some 0 # Some 0 # Some 0 # Some 0 # Some 0 # Some 0 # Some 0 # Some 0 # Some 0 # Some 0 # Some 0 # Some 0 # Some 0 # Some 0 # Some 0 # Some 0 # Some 0 # Some 0 # Some 0 # Some 0 #
       None # None # None # None # None # None # None # None # None # None # None # None # None # None # None # None # []) two_frames_start) = Some (C_Finish, 1)"
proof -
  obtain cd where w: "write_cache (ks_header two_frames_state) (pd_bytes \<lparr>pd_offset = 0, pd_size = 8, pd_flags = 0, pd_page_flags = 0\<rparr>) (ks_writer two_frames_state) =
     Some (True, cd, ks_writer two_frames_state)" using two_frames_write by blast
  have d: "ks_num_dumped two_frames_state = 0" by (simp add: two_frames_state_def sample_kdump_def)
  show ?thesis unfolding two_frames_start_def start_threads_def
    by (simp add: two_frames_step two_frames_def two_frames_fields two_frames_next two_frames_sample two_frames_zero [simplified] consume_page_def w d)
qed

theorem parallel_writes_in_order_witness:
  "\<exists>s. par_reach two_frames two_frames_start s \<and> c_pc (consumer s) = C_Finish \<and> ks_num_dumped (par_ks s) = 1 \<and>
     consume_frames two_frames [1] two_frames_state = Some (True, par_ks s)"
proof -
  from two_frames_run obtain s where s: "c_pc (consumer s) = C_Finish" "ks_num_dumped (par_ks s) = 1" "par_reach two_frames two_frames_start s"
    by (auto simp del: par_run.simps intro: par_run_reach par_reach.start)
  have f: "frames (\<lambda>i. i = 1) (unat (start_pfn (pe_cycle two_frames))) (unat (end_pfn (pe_cycle two_frames))) = [1]"
    by (simp add: frames_def two_frames_def upt_conv_Cons)
  show ?thesis using parallel_writes_in_order [OF two_frames_ready s(3) [unfolded two_frames_start_def], unfolded f] s by auto
qed

end
