(* ===== verification/Elf_Write.thy ===== *)
theory Elf_Write
  imports Kdump_Roundtrip Vmcore
begin

text \<open>
  Writing of ELF files (\<^verbatim>\<open>src/makedumpfile.c\<close>, \<^verbatim>\<open>write_elf_header\<close>, \<^verbatim>\<open>write_elf_pages_cyclic\<close> and what they call): a run of
  256 or more excluded frames ends a segment, so the number of segments is counted first, space for their headers is reserved,
  and headers and data are then written as two streams. The bitmap of a cycle is made by an argument that stands for
  \<^verbatim>\<open>create_2nd_bitmap\<close>, whose counters of pages by kind are not tracked here; progress messages are left out, allocations succeed.
\<close>

section \<open>State\<close>

text \<open>\<open>ee_maxmem\<close> is \<^verbatim>\<open>MAXMEM\<close> in a build for x86.\<close>

record elf_env = page_info +
  ee_cyclic :: cyclic_info
  ee_flag_cyclic :: bool
  ee_flag_flatten :: bool
  ee_elf :: elf_state
  ee_file :: fstate
  ee_maxmem :: "u64 option"

text \<open>The members of \<^verbatim>\<open>struct DumpInfo\<close> and the counters that change, and the two buffers.\<close>

record elf_out =
  eo_bitmaps :: bitmaps
  eo_header :: cache_data
  eo_page :: cache_data
  eo_writer :: writer
  eo_erase :: erase_state
  eo_off_seg_load :: u64
  eo_offset_load_dumpfile :: u64
  eo_offset_note_dumpfile :: u64
  eo_size_elf_eraseinfo :: u64
  eo_num_dumped :: u64
  eo_pfn_memhole :: u64
  eo_pfn_elf_excluded :: u64

definition PFN_EXCLUDED :: u64 where "PFN_EXCLUDED = 256"
definition PN_XNUM :: int where "PN_XNUM = 0xffff"
definition ERASEINFO_NOTE_NAME :: "u8 list" where "ERASEINFO_NOTE_NAME = map of_char ''ERASEINFO'' @ [0]"

section \<open>Headers\<close>

text \<open>\<^verbatim>\<open>Elf64_Phdr\<close> and \<^verbatim>\<open>Elf32_Phdr\<close> as they are in memory; the members are cut to 32 bits for the latter.\<close>

definition phdr64_bytes :: "Elf_Phdr \<Rightarrow> u8 list" where
  "phdr64_bytes p = le_bytes 4 (unat (p_type p)) @ le_bytes 4 (unat (p_flags p)) @ le_bytes 8 (unat (p_offset p)) @ le_bytes 8 (unat (p_vaddr p)) @
     le_bytes 8 (unat (p_paddr p)) @ le_bytes 8 (unat (p_filesz p)) @ le_bytes 8 (unat (p_memsz p)) @ le_bytes 8 (unat (p_align p))"

definition phdr32_bytes :: "Elf_Phdr \<Rightarrow> u8 list" where
  "phdr32_bytes p = (let cut = (\<lambda>x :: u64. le_bytes 4 (unat (ucast x :: u32))) in
     le_bytes 4 (unat (p_type p)) @ cut (p_offset p) @ cut (p_vaddr p) @ cut (p_paddr p) @ cut (p_filesz p) @ cut (p_memsz p) @
     le_bytes 4 (unat (p_flags p)) @ cut (p_align p))"

definition phdr_bytes :: "elf_state \<Rightarrow> Elf_Phdr \<Rightarrow> u8 list" where
  "phdr_bytes es p = (if memory_elf64 es then phdr64_bytes p else phdr32_bytes p)"

definition write_elf_phdr :: "elf_state \<Rightarrow> cache_data \<Rightarrow> Elf_Phdr \<Rightarrow> writer \<Rightarrow> (bool \<times> cache_data \<times> writer) option" where
  "write_elf_phdr es cd load w = write_cache cd (phdr_bytes es load) w"

section \<open>The data of a segment\<close>

text \<open>\<open>None\<close>: the loop does not end, or a write outside of a buffer.\<close>

function load_loop :: "fstate \<Rightarrow> nat \<Rightarrow> nat \<Rightarrow> u64 \<Rightarrow> int \<Rightarrow> elf_out \<Rightarrow> (bool \<times> elf_out) option" where
  "load_loop f psize at paddr sz st =
     (if \<not> 0 < sz then Some (True, st)
      else if psize = 0 then None
      else (let n = (if int psize \<le> sz then psize else nat sz) in
        case pread f at n of None \<Rightarrow> Some (False, st)
        | Some b \<Rightarrow> (case filter_data_buffer b paddr (of_nat n) (eo_erase st) of None \<Rightarrow> None
          | Some (b', er) \<Rightarrow> (case write_cache (eo_page st) b' (eo_writer st) of None \<Rightarrow> None
            | Some (False, cd, w) \<Rightarrow> Some (False, st\<lparr>eo_erase := er, eo_page := cd, eo_writer := w\<rparr>)
            | Some (True, cd, w) \<Rightarrow>
                load_loop f psize (at + n) (paddr + of_nat n) (sz - int psize) (st\<lparr>eo_erase := er, eo_page := cd, eo_writer := w\<rparr>)))))"
  by pat_completeness auto

termination load_loop
  by (relation "measure (\<lambda>(_, _, _, _, sz, _). nat sz)") auto

declare load_loop.simps [simp del]

definition write_elf_load_segment :: "elf_env \<Rightarrow> u64 \<Rightarrow> u64 \<Rightarrow> u64 \<Rightarrow> elf_out \<Rightarrow> (bool \<times> elf_out) option" where
  "write_elf_load_segment env paddr off_memory sz st =
     (let off = paddr_to_offset2 (pt_loads (ee_elf env)) paddr off_memory in
      if off = 0 then Some (False, st)
      else if sint off < 0 then Some (False, st)
      else load_loop (ee_file env) (unat (page_size env)) (unat off) paddr (sint sz) st)"

section \<open>The number of segments\<close>

text \<open>The frames of a segment, and the bytes of its first and last page when they are not whole.\<close>

definition seg_frames :: "elf_env \<Rightarrow> Elf_Phdr \<Rightarrow> u64 \<times> u64 \<times> u64 \<times> u64" where
  "seg_frames env load =
     (let pfn_start = paddr_to_pfn env (p_paddr load); pfn_end = paddr_to_pfn env (p_paddr load + p_memsz load);
          frac_head = page_size env - (p_paddr load mod page_size env); frac_tail = (p_paddr load + p_memsz load) mod page_size env in
      (if frac_head \<noteq> 0 \<and> frac_head \<noteq> page_size env then pfn_start + 1 else pfn_start,
       if frac_tail \<noteq> 0 then pfn_end + 1 else pfn_end, frac_head, frac_tail))"

text \<open>A cycle of a segment: the bitmap is made in cyclic mode, then the frames are visited.\<close>

definition elf_cycle ::
  "elf_env \<Rightarrow> fill_bitmap \<Rightarrow> u64 \<Rightarrow> ('s \<Rightarrow> bitmaps) \<Rightarrow> (bitmaps \<Rightarrow> 's \<Rightarrow> 's) \<Rightarrow> (cycle \<Rightarrow> u64 \<Rightarrow> 's \<Rightarrow> (bool \<times> 's) option) \<Rightarrow>
   cycle \<Rightarrow> (bool \<times> 's) option \<Rightarrow> cycle \<times> (bool \<times> 's) option" where
  "elf_cycle env mk pfn_start getb setb frame c r = (case r of
     Some (True, s) \<Rightarrow>
       (let visit = (\<lambda>c s. (c, for_pfns (max pfn_start (start_pfn c)) (end_pfn c) (frame c) s)) in
        if ee_flag_cyclic env
        then (case mk c (getb s) of None \<Rightarrow> (c, None)
          | Some (False, c', b) \<Rightarrow> (c', Some (False, setb b s))
          | Some (True, c', b) \<Rightarrow> visit c' (setb b s))
        else visit c s)
   | _ \<Rightarrow> (c, r))"

record count_state =
  cs_bitmaps :: bitmaps
  cs_num_excluded :: u64
  cs_num_new_load :: u32

definition count_frame :: "cycle \<Rightarrow> u64 \<Rightarrow> count_state \<Rightarrow> (bool \<times> count_state) option" where
  "count_frame c pfn s =
     (case is_dumpable (bitmap2 (cs_bitmaps s)) (bmfile (cs_bitmaps s)) pfn (Some c) of (d, bm) \<Rightarrow>
        let s1 = s\<lparr>cs_bitmaps := (cs_bitmaps s)\<lparr>bitmap2 := bm\<rparr>\<rparr> in
        Some (True, if \<not> d then s1\<lparr>cs_num_excluded := cs_num_excluded s1 + 1\<rparr>
          else s1\<lparr>cs_num_new_load := (if PFN_EXCLUDED \<le> cs_num_excluded s1 then cs_num_new_load s1 + 1 else cs_num_new_load s1), cs_num_excluded := 0\<rparr>))"

fun count_loads :: "elf_env \<Rightarrow> fill_bitmap \<Rightarrow> nat list \<Rightarrow> cycle \<Rightarrow> count_state \<Rightarrow> (bool \<times> count_state) option" where
  "count_loads env mk [] c s = Some (True, s)"
| "count_loads env mk (i # is) c s = (case get_phdr_memory (ee_file env) (ee_elf env) i of None \<Rightarrow> Some (False, s)
     | Some load \<Rightarrow>
         if p_type load \<noteq> PT_LOAD then count_loads env mk is c s
         else (case seg_frames env load of (pfn_start, pfn_end, _, _) \<Rightarrow>
           case for_each_cycle (ee_cyclic env) pfn_start pfn_end (elf_cycle env mk pfn_start cs_bitmaps (\<lambda>b. cs_bitmaps_update (\<lambda>_. b)) count_frame) c
               (Some (True, s\<lparr>cs_num_new_load := cs_num_new_load s + 1, cs_num_excluded := 0\<rparr>)) of
             Some (c', Some (True, s')) \<Rightarrow> count_loads env mk is c' s'
           | Some (_, r) \<Rightarrow> r
           | None \<Rightarrow> None))"

definition no_cycle :: cycle where
  "no_cycle = \<lparr>start_pfn = 0, end_pfn = 0, exclude_pfn_start = 0, exclude_pfn_end = 0, exclude_pfn_counter = None\<rparr>"

text \<open>The result is the number of segments, 0 after an error.\<close>

definition get_loads_dumpfile_cyclic :: "elf_env \<Rightarrow> fill_bitmap \<Rightarrow> bitmaps \<Rightarrow> (int \<times> bitmaps) option" where
  "get_loads_dumpfile_cyclic env mk b =
     (let phnum = get_phnum_memory (ee_file env) (ee_elf env) in
      if phnum = 0 then Some (0, b)
      else map_option (\<lambda>(r, s). (if r then sint (cs_num_new_load s) else 0, cs_bitmaps s))
        (count_loads env mk [0 ..< nat phnum] no_cycle \<lparr>cs_bitmaps = b, cs_num_excluded = 0, cs_num_new_load = 0\<rparr>))"

section \<open>The pages\<close>

text \<open>The variables of the loop over the frames of a segment.\<close>

record elf_loop =
  el_load :: Elf_Phdr
  el_paddr :: u64
  el_num_excluded :: u64
  el_memsz :: u64
  el_filesz :: u64

definition emit_load :: "elf_env \<Rightarrow> u64 \<Rightarrow> u64 \<Rightarrow> Elf_Phdr \<Rightarrow> elf_out \<Rightarrow> (bool \<times> elf_out) option" where
  "emit_load env off_memory paddr load st =
     (case write_elf_phdr (ee_elf env) (eo_header st) load (eo_writer st) of None \<Rightarrow> None
      | Some (False, cd, w) \<Rightarrow> Some (False, st\<lparr>eo_header := cd, eo_writer := w\<rparr>)
      | Some (True, cd, w) \<Rightarrow>
          (let st1 = st\<lparr>eo_header := cd, eo_writer := w\<rparr> in
           if p_filesz load \<noteq> 0 then write_elf_load_segment env paddr off_memory (p_filesz load) st1 else Some (True, st1)))"

text \<open>A new segment begins at the frame.\<close>

definition split_load :: "elf_env \<Rightarrow> u64 \<Rightarrow> elf_loop \<Rightarrow> elf_out \<Rightarrow> (bool \<times> elf_loop \<times> elf_out) option" where
  "split_load env off_memory l st0 =
     (let st = st0\<lparr>eo_pfn_elf_excluded := eo_pfn_elf_excluded st0 + el_num_excluded l\<rparr>;
          load = (el_load l)\<lparr>p_memsz := el_memsz l, p_filesz := el_filesz l, p_offset := (if el_filesz l \<noteq> 0 then eo_off_seg_load st else 0)\<rparr> in
      case emit_load env off_memory (el_paddr l) load st of None \<Rightarrow> None
      | Some (False, st1) \<Rightarrow> Some (False, l\<lparr>el_load := load\<rparr>, st1)
      | Some (True, st1) \<Rightarrow>
          (let load1 = load\<lparr>p_paddr := p_paddr load + p_memsz load\<rparr>;
               load2 = (if (case ee_maxmem env of None \<Rightarrow> True | Some m \<Rightarrow> p_paddr load1 < m) then load1\<lparr>p_vaddr := p_vaddr load1 + p_memsz load1\<rparr> else load1) in
           Some (True, \<lparr>el_load = load2, el_paddr = p_paddr load2, el_num_excluded = 0, el_memsz = page_size env, el_filesz = page_size env\<rparr>,
             st1\<lparr>eo_off_seg_load := eo_off_seg_load st1 + p_filesz load2\<rparr>)))"

definition elf_frame ::
  "elf_env \<Rightarrow> u64 \<Rightarrow> u64 \<Rightarrow> u64 \<Rightarrow> cycle \<Rightarrow> u64 \<Rightarrow> elf_loop \<times> elf_out \<Rightarrow> (bool \<times> elf_loop \<times> elf_out) option" where
  "elf_frame env pfn_end frac_tail off_memory c pfn s =
     (case s of (l, st0) \<Rightarrow>
      case is_dumpable (bitmap2 (eo_bitmaps st0)) (bmfile (eo_bitmaps st0)) pfn (Some c) of (d, bm) \<Rightarrow>
        let st = st0\<lparr>eo_bitmaps := (eo_bitmaps st0)\<lparr>bitmap2 := bm\<rparr>, eo_pfn_memhole := (if ee_flag_cyclic env then eo_pfn_memhole st0 - 1 else eo_pfn_memhole st0)\<rparr>;
            bytes = (if pfn = pfn_end - 1 \<and> frac_tail \<noteq> 0 then frac_tail else page_size env) in
        if \<not> d then Some (True, l\<lparr>el_num_excluded := el_num_excluded l + 1, el_memsz := el_memsz l + bytes\<rparr>, st)
        else (let st1 = st\<lparr>eo_num_dumped := eo_num_dumped st + 1\<rparr> in
          if el_num_excluded l = 0 then Some (True, l\<lparr>el_memsz := el_memsz l + bytes, el_filesz := el_filesz l + bytes\<rparr>, st1)
          else if el_num_excluded l < PFN_EXCLUDED
          then Some (True, l\<lparr>el_memsz := el_memsz l + bytes, el_filesz := el_filesz l + (page_size env * el_num_excluded l + bytes), el_num_excluded := 0\<rparr>, st1)
          else split_load env off_memory l st1))"

text \<open>A segment of the input.\<close>

definition elf_segment ::
  "elf_env \<Rightarrow> fill_bitmap \<Rightarrow> Elf_Phdr \<Rightarrow> cycle \<Rightarrow> elf_out \<Rightarrow> (bool \<times> cycle \<times> elf_out) option" where
  "elf_segment env mk load c st =
     (case seg_frames env load of (pfn_start, pfn_end, frac_head, frac_tail) \<Rightarrow>
       let head = (if frac_head \<noteq> 0 \<and> frac_head \<noteq> page_size env then frac_head else 0);
           l0 = \<lparr>el_load = load, el_paddr = p_paddr load, el_num_excluded = 0, el_memsz = head, el_filesz = head\<rparr> in
       case for_each_cycle (ee_cyclic env) pfn_start pfn_end
           (elf_cycle env mk pfn_start (\<lambda>s. eo_bitmaps (snd s)) (\<lambda>b s. (fst s, (snd s)\<lparr>eo_bitmaps := b\<rparr>)) (elf_frame env pfn_end frac_tail (p_offset load)))
           c (Some (True, l0, st)) of
         None \<Rightarrow> None
       | Some (_, None) \<Rightarrow> None
       | Some (c', Some (False, _, st')) \<Rightarrow> Some (False, c', st')
       | Some (c', Some (True, l, st')) \<Rightarrow>
           (let st1 = st'\<lparr>eo_pfn_elf_excluded := eo_pfn_elf_excluded st' + el_num_excluded l\<rparr>;
                final = (el_load l)\<lparr>p_memsz := el_memsz l, p_filesz := el_filesz l, p_offset := eo_off_seg_load st1\<rparr> in
            map_option (\<lambda>(r, st2). (r, c', if r then st2\<lparr>eo_off_seg_load := eo_off_seg_load st2 + p_filesz final\<rparr> else st2))
              (emit_load env (p_offset load) (el_paddr l) final st1)))"

fun elf_segments :: "elf_env \<Rightarrow> fill_bitmap \<Rightarrow> nat list \<Rightarrow> cycle \<Rightarrow> elf_out \<Rightarrow> (bool \<times> elf_out) option" where
  "elf_segments env mk [] c st = Some (True, st)"
| "elf_segments env mk (i # is) c st = (case get_phdr_memory (ee_file env) (ee_elf env) i of None \<Rightarrow> Some (False, st)
     | Some load \<Rightarrow>
         if p_type load \<noteq> PT_LOAD \<or> p_paddr load = NOT_PADDR then elf_segments env mk is c st
         else (case elf_segment env mk load c st of None \<Rightarrow> None
           | Some (False, _, st') \<Rightarrow> Some (False, st')
           | Some (True, c', st') \<Rightarrow> elf_segments env mk is c' st'))"

definition flush_elf :: "elf_out \<Rightarrow> (bool \<times> elf_out) option" where
  "flush_elf st = (case write_cache_bufsz (eo_header st) (eo_writer st) of None \<Rightarrow> None
     | Some (False, cd, w) \<Rightarrow> Some (False, st\<lparr>eo_header := cd, eo_writer := w\<rparr>)
     | Some (True, cd, w) \<Rightarrow> (case write_cache_bufsz (eo_page st) w of None \<Rightarrow> None
       | Some (r, cd', w') \<Rightarrow> Some (r, st\<lparr>eo_header := cd, eo_page := cd', eo_writer := w'\<rparr>)))"

definition write_elf_pages_cyclic :: "elf_env \<Rightarrow> fill_bitmap \<Rightarrow> elf_out \<Rightarrow> (bool \<times> elf_out) option" where
  "write_elf_pages_cyclic env mk st =
     (if \<not> flag_elf_dumpfile (ee_cyclic env) then Some (False, st)
      else (let st1 = st\<lparr>eo_off_seg_load := eo_offset_load_dumpfile st, eo_page := (eo_page st)\<lparr>cd_offset := eo_offset_load_dumpfile st\<rparr>,
                  eo_pfn_memhole := (if ee_flag_cyclic env then max_mapnr env else eo_pfn_memhole st)\<rparr>;
                phnum = get_phnum_memory (ee_file env) (ee_elf env) in
        if phnum = 0 then Some (False, st1)
        else (case elf_segments env mk [0 ..< nat phnum] no_cycle st1 of None \<Rightarrow> None
          | Some (False, st2) \<Rightarrow> Some (False, st2)
          | Some (True, st2) \<Rightarrow> flush_elf st2)))"

section \<open>The ELF header and the notes\<close>

definition elf_then :: "(bool \<times> elf_out) option \<Rightarrow> (elf_out \<Rightarrow> (bool \<times> elf_out) option) \<Rightarrow> (bool \<times> elf_out) option" where
  "elf_then r g = (case r of Some (True, st) \<Rightarrow> g st | _ \<Rightarrow> r)"

definition elf_put :: "u64 \<Rightarrow> u8 list \<Rightarrow> elf_out \<Rightarrow> (bool \<times> elf_out) option" where
  "elf_put off bs st = map_option (\<lambda>(r, w). (r, st\<lparr>eo_writer := w\<rparr>)) (write_buffer off bs (eo_writer st))"

text \<open>The first PT_NOTE header.\<close>

fun find_note :: "elf_env \<Rightarrow> nat list \<Rightarrow> Elf_Phdr option" where
  "find_note env [] = None"
| "find_note env (i # is) = (case get_phdr_memory (ee_file env) (ee_elf env) i of None \<Rightarrow> None
     | Some p \<Rightarrow> if p_type p = PT_NOTE then Some p else find_note env is)"

text \<open>
  The header of the file with its number of program headers. From \<^verbatim>\<open>PN_XNUM\<close> on the number is in a section header, which
  stands behind the program headers (\<open>extended\<close>).
\<close>

definition ehdr_phnum :: "bool \<Rightarrow> int \<Rightarrow> u16" where
  "ehdr_phnum elf64 n = (if elf64 then (if PN_XNUM \<le> n then of_int PN_XNUM else of_int n) else of_int n)"

definition ehdr_out :: "bool \<Rightarrow> u8 list \<Rightarrow> u16 \<Rightarrow> u64 \<Rightarrow> u8 list" where
  "ehdr_out elf64 eh phnum shoff =
     (let eh1 = splice eh (if elf64 then 56 else 44) (le_bytes 2 (unat phnum)) in
      if elf64 \<and> uint phnum = PN_XNUM
      then splice (splice eh1 40 (le_bytes 8 (unat shoff))) 58 (le_bytes 2 64 @ le_bytes 2 1 @ le_bytes 2 0)
      else eh1)"

definition shdr_bytes :: "int \<Rightarrow> u8 list" where
  "shdr_bytes n = replicate 32 0 @ le_bytes 8 1 @ le_bytes 4 0 @ le_bytes 4 (unat (of_int n :: u32)) @ replicate 16 0"

text \<open>The size that erased ranges add to the notes.\<close>

definition eraseinfo_note_size :: "u64 \<Rightarrow> u64" where
  "eraseinfo_note_size sz = (if sz \<noteq> 0 then 12 + roundup 10 4 + roundup sz 4 else 0)"

text \<open>From the number \<open>n\<close> of program headers on.\<close>

definition elf_header_rest :: "elf_env \<Rightarrow> u8 list \<Rightarrow> int \<Rightarrow> elf_out \<Rightarrow> (bool \<times> elf_out) option" where
  "elf_header_rest env eh n st =
     (let e64 = memory_elf64 (ee_elf env); phnum = ehdr_phnum e64 n; mphnum = get_phnum_memory (ee_file env) (ee_elf env) in
      if mphnum = 0 then Some (False, st)
      else (case find_note env [0 ..< nat mphnum] of None \<Rightarrow> Some (False, st)
      | Some note \<Rightarrow>
          (let off0 = (if e64 then 64 else 52);
               off1 = (if e64 then 64 + 56 * of_int n else 52 + 32 * ucast phnum) :: u64;
               extended = (e64 \<and> uint phnum = PN_XNUM);
               off2 = (if extended then off1 + 64 else off1);
               note1 = note\<lparr>p_offset := off2, p_filesz := p_filesz note + eraseinfo_note_size (eo_size_elf_eraseinfo st)\<rparr>;
               st1 = st\<lparr>eo_header := (eo_header st)\<lparr>cd_offset := off0\<rparr>\<rparr> in
           elf_then (map_option (\<lambda>(r, w). (r, st1\<lparr>eo_writer := w\<rparr>))
              (reserve_diskspace (ee_flag_flatten env) (unat (page_size env)) (unat off0) (unat off1) (eo_writer st1))) (\<lambda>st2.
           elf_then (if extended then elf_put off1 (shdr_bytes n) st2 else Some (True, st2)) (\<lambda>st3.
           elf_then (case write_elf_phdr (ee_elf env) (eo_header st3) note1 (eo_writer st3) of None \<Rightarrow> None
              | Some (r, cd, w) \<Rightarrow> Some (r, st3\<lparr>eo_header := cd, eo_writer := w\<rparr>)) (\<lambda>st4.
           elf_then (elf_put 0 (ehdr_out e64 eh phnum off1) st4) (\<lambda>st5.
           if sint (p_offset note) < 0 then Some (False, st5)
           else (case pread (ee_file env) (unat (p_offset note)) (unat (p_filesz note)) of None \<Rightarrow> Some (False, st5)
           | Some b \<Rightarrow> elf_then (elf_put off2 b st5) (\<lambda>st6.
               Some (True, st6\<lparr>eo_offset_load_dumpfile := off2 + p_filesz note1, eo_offset_note_dumpfile := off2\<rparr>))))))))))"

definition write_elf_header :: "elf_env \<Rightarrow> fill_bitmap \<Rightarrow> elf_out \<Rightarrow> (bool \<times> elf_out) option" where
  "write_elf_header env mk st =
     (if \<not> flag_elf_dumpfile (ee_cyclic env) then Some (False, st)
      else (case get_loads_dumpfile_cyclic env mk (eo_bitmaps st) of None \<Rightarrow> None
      | Some (n, b) \<Rightarrow>
          (let st1 = st\<lparr>eo_bitmaps := b\<rparr> in
           if n = 0 then Some (False, st1)
           else (case (if memory_elf64 (ee_elf env) then get_elf64_ehdr (ee_file env) else get_elf32_ehdr (ee_file env)) of
             None \<Rightarrow> Some (False, st1)
           | Some eh \<Rightarrow> (case get_size_eraseinfo (eo_erase st1) of None \<Rightarrow> None
             | Some sz \<Rightarrow> elf_header_rest env eh (n + 1) (st1\<lparr>eo_size_elf_eraseinfo := sz\<rparr>))))))"

section \<open>The account of the erased data\<close>

text \<open>
  \<^verbatim>\<open>write_eraseinfo\<close>: a line for every range of the nodes that were erased. \<^verbatim>\<open>size_str\<close> keeps the text of the range before
  when a size is neither positive nor -1; it is not initialised (\<open>None\<close>) before the first.
\<close>

definition size_str :: "u64 \<Rightarrow> u8 list option \<Rightarrow> u8 list option" where
  "size_str sz old = (if 0 < sint sz then Some (size_text sz) else if sz = -1 then Some nullify_text else old)"

definition erase_line :: "u8 list \<Rightarrow> u8 list \<Rightarrow> u8 list" where
  "erase_line expr txt = map of_char ''erase '' @ expr @ [32] @ txt"

fun write_sizes ::
  "u8 list \<Rightarrow> u64 list \<Rightarrow> u8 list option \<times> u64 \<times> cache_data \<times> writer \<Rightarrow> (bool \<times> u8 list option \<times> u64 \<times> cache_data \<times> writer) option" where
  "write_sizes expr [] s = Some (True, s)"
| "write_sizes expr (sz # szs) (old, n, cd, w) = (case size_str sz old of None \<Rightarrow> None
     | Some txt \<Rightarrow> (case write_cache cd (erase_line expr txt) w of None \<Rightarrow> None
       | Some (False, cd', w') \<Rightarrow> Some (False, Some txt, n, cd', w')
       | Some (True, cd', w') \<Rightarrow> write_sizes expr szs (Some txt, n + of_nat (length (erase_line expr txt)), cd', w')))"

fun write_nodes ::
  "erase_info list \<Rightarrow> u8 list option \<times> u64 \<times> cache_data \<times> writer \<Rightarrow> (bool \<times> u8 list option \<times> u64 \<times> cache_data \<times> writer) option" where
  "write_nodes [] s = Some (True, s)"
| "write_nodes (e # es) s = (if \<not> ei_erased e then write_nodes es s
     else if ei_num_sizes e \<noteq> 0 \<and> (case ei_sizes e of None \<Rightarrow> True | Some l \<Rightarrow> length l < ei_num_sizes e) then None
     else (case write_sizes (ei_symbol_expr e) (take (ei_num_sizes e) (case ei_sizes e of None \<Rightarrow> [] | Some l \<Rightarrow> l)) s of
       Some (True, s') \<Rightarrow> write_nodes es s' | r \<Rightarrow> r))"

definition write_eraseinfo :: "erase_info list \<Rightarrow> cache_data \<Rightarrow> writer \<Rightarrow> (bool \<times> u64 \<times> cache_data \<times> writer) option" where
  "write_eraseinfo tbl cd w = (case write_nodes (tl tbl) (None, 0, cd, w) of None \<Rightarrow> None
     | Some (False, _, n, cd', w') \<Rightarrow> Some (False, n, cd', w')
     | Some (True, _, n, cd', w') \<Rightarrow> map_option (\<lambda>(r, cd2, w2). (r, n, cd2, w2)) (write_cache_bufsz cd' w'))"

text \<open>The result of the last call is not looked at.\<close>

definition write_elf_eraseinfo :: "elf_env \<Rightarrow> elf_out \<Rightarrow> (bool \<times> elf_out) option" where
  "write_elf_eraseinfo env st =
     (let sz = eo_size_elf_eraseinfo st;
          set = (\<lambda>cd w. st\<lparr>eo_header := cd, eo_writer := w\<rparr>);
          cd0 = (eo_header st)\<lparr>cd_offset := eo_offset_note_dumpfile st + roundup (size_pt_note_memory (ee_elf env)) 4\<rparr>;
          nhdr = le_bytes 4 (length ERASEINFO_NOTE_NAME) @ le_bytes 4 (unat (ucast sz :: u32)) @ le_bytes 4 0 in
      if sz = 0 then Some (True, st)
      else (case write_cache cd0 nhdr (eo_writer st) of None \<Rightarrow> None
      | Some (False, cd1, w1) \<Rightarrow> Some (False, set cd1 w1)
      | Some (True, cd1, w1) \<Rightarrow> (case write_cache cd1 (ERASEINFO_NOTE_NAME @ [0, 0]) w1 of None \<Rightarrow> None
        | Some (False, cd2, w2) \<Rightarrow> Some (False, set cd2 w2)
        | Some (True, cd2, w2) \<Rightarrow>
            (case write_eraseinfo (case erase_tbl (eo_erase st) of None \<Rightarrow> [] | Some t \<Rightarrow> t) cd2 w2 of None \<Rightarrow> None
             | Some (False, _, cd3, w3) \<Rightarrow> Some (False, set cd3 w3)
             | Some (True, n, cd3, w3) \<Rightarrow>
                 if n < sz then map_option (\<lambda>(_, cd4, w4). (True, set cd4 w4)) (write_cache_zero cd3 (unat (sz - n)) w3)
                 else Some (True, set cd3 w3)))))"

text \<open>\<^verbatim>\<open>copy_eraseinfo\<close>: the account of the input is copied at once.\<close>

definition copy_eraseinfo :: "fstate \<Rightarrow> elf_state \<Rightarrow> cache_data \<Rightarrow> writer \<Rightarrow> (bool \<times> cache_data \<times> writer) option" where
  "copy_eraseinfo f es cd w =
     (if sint (offset_eraseinfo es) < 0 then Some (False, cd, w)
      else (case pread f (unat (offset_eraseinfo es)) (unat (size_eraseinfo es)) of None \<Rightarrow> Some (False, cd, w)
        | Some b \<Rightarrow> write_cache cd b w))"

end
