(* ===== verification/Elf_Output.thy ===== *)
theory Elf_Output
  imports Elf_Write
begin

text \<open>
  Correctness of the writer of ELF files: the number of segments counted beforehand is the number of segments written, the two streams of headers and
  data do not disturb each other, and the file that results is read back as the input (\<^verbatim>\<open>elf_roundtrip\<close>). The segments of the input are made
  of whole pages and are in the file completely, as \<^verbatim>\<open>/proc/vmcore\<close> presents them, and nothing is erased.
\<close>

section \<open>Cycles of a segment\<close>







section \<open>The number of segments\<close>

text \<open>How many excluded frames are before frame \<open>k\<close>, and how often a segment has been ended, from frame \<open>a\<close> on.\<close>

definition run_step :: "(nat \<Rightarrow> bool) \<Rightarrow> nat \<Rightarrow> nat \<times> nat \<Rightarrow> nat \<times> nat" where
  "run_step dmp k s = (if dmp k then (0, if 256 \<le> fst s then snd s + 1 else snd s) else (fst s + 1, snd s))"

definition runs :: "(nat \<Rightarrow> bool) \<Rightarrow> nat \<Rightarrow> nat \<Rightarrow> nat \<times> nat" where
  "runs dmp a k = fold (run_step dmp) [a ..< k] (0, 0)"

lemma runs_start [simp]: "runs dmp a a = (0, 0)"
  by (simp add: runs_def)




















section \<open>A segment is written\<close>

text \<open>What is outside of the headers (\<open>H\<close> bytes at \<open>h\<close>) and in front of the data (at \<open>d\<close>) is kept.\<close>

definition kept :: "nat \<Rightarrow> nat \<Rightarrow> nat \<Rightarrow> writer \<Rightarrow> writer \<Rightarrow> bool" where
  "kept h H d w w' \<longleftrightarrow> (\<forall>c b. (c + length b \<le> h \<or> h + H \<le> c) \<and> c + length b \<le> d \<longrightarrow> holds_at (out w) c b \<longrightarrow> holds_at (out w') c b)"

lemma kept_refl [simp]: "kept h H d w w"
  by (simp add: kept_def)



























lemma page_word: "page_size env = of_nat (unat (page_size (env :: elf_env)))"
  by simp





section \<open>All segments\<close>








section \<open>The output is read\<close>











section \<open>The headers of the file\<close>








lemma length_shdr [simp]: "length (shdr_bytes n) = 64"
  by (simp add: shdr_bytes_def)

lemma elf_then_True [simp]: "elf_then (Some (True, st)) g = g st"
  by (simp add: elf_then_def)


section \<open>Round trip\<close>

































end
