(* ===== verification/Kernel_Log.thy ===== *)
theory Kernel_Log
  imports Detect_Cycle Writer
begin

text \<open>
  Extraction of the kernel's messages (\<^verbatim>\<open>src/makedumpfile.c\<close>, \<^verbatim>\<open>dump_dmesg\<close>, and \<^verbatim>\<open>src/printk.c\<close>): the plain ring of
  characters of old kernels, the ring of records with the detection of cycles in a damaged ring, and the lockless
  ring of descriptors. The sizes and offsets of the dumped kernel's structures are 64-bit words (-1 is
  \<^verbatim>\<open>NOT_FOUND_STRUCTURE\<close>), symbols are addresses (0 is \<^verbatim>\<open>NOT_FOUND_SYMBOL\<close>); a read behind the end of a buffer
  is \<open>None\<close>, as is a loop that does not end.
\<close>

section \<open>Data\<close>

record log_env =
  lg_readmem :: "u64 \<Rightarrow> nat \<Rightarrow> u8 list option"
  lg_malloc :: "u64 \<Rightarrow> bool"
  char_signed :: bool
  open_files_ok :: bool
  flag_refiltering_log :: bool
  flag_sadump_log :: bool
  elf_info_ok :: bool
  initial_ok :: bool
  open_dump_ok :: bool
  close_ok :: bool
  ftruncate_ok :: bool
  flag_partial_dmesg :: bool
  kernel_version :: nat
  SYMBOL_prb :: u64
  SYMBOL_clear_seq :: u64
  SYMBOL_log_buf :: u64
  SYMBOL_log_buf_len :: u64
  SYMBOL_log_end :: u64
  SYMBOL_log_first_idx :: u64
  SYMBOL_log_next_idx :: u64
  SYMBOL_clear_idx :: u64
  SIZE_printk_log :: u64
  SIZE_printk_ringbuffer :: u64
  SIZE_prb_desc :: u64
  SIZE_printk_info :: u64
  SIZE_latched_seq :: u64
  log_ts_nsec :: u64
  log_len :: u64
  log_text_len :: u64
  log_caller_id :: u64
  ringbuffer_desc_ring :: u64
  ringbuffer_text_data_ring :: u64
  desc_ring_count_bits :: u64
  desc_ring_descs :: u64
  desc_ring_infos :: u64
  desc_ring_head_id :: u64
  desc_ring_tail_id :: u64
  desc_state_var :: u64
  desc_text_blk_lpos :: u64
  blk_lpos_begin :: u64
  blk_lpos_next :: u64
  info_ts_nsec :: u64
  info_text_len :: u64
  info_caller_id :: u64
  data_ring_size_bits :: u64
  data_ring_data :: u64
  atomic_long_counter :: u64
  latched_seq_val :: u64

abbreviation (input) NOT_FOUND_STRUCTURE :: u64 where "NOT_FOUND_STRUCTURE \<equiv> - 1"

text \<open>\<^verbatim>\<open>readmem\<close> returns the number of bytes it has read: a read of no bytes is a failure for its callers.\<close>

definition rd_mem :: "log_env \<Rightarrow> u64 \<Rightarrow> u64 \<Rightarrow> u8 list option" where
  "rd_mem env a n = (if n = 0 then None else lg_readmem env a (unat n))"

text \<open>Fields of a buffer of this program.\<close>

definition field :: "nat \<Rightarrow> u8 list \<Rightarrow> u64 \<Rightarrow> nat option" where
  "field k bs off = (if unat off + k \<le> length bs then Some (get_le k bs (unat off)) else None)"

definition USHORT :: "u8 list \<Rightarrow> u64 \<Rightarrow> u16 option" where "USHORT bs off = map_option of_nat (field 2 bs off)"
definition UINT :: "u8 list \<Rightarrow> u64 \<Rightarrow> u32 option" where "UINT bs off = map_option of_nat (field 4 bs off)"
definition ULONG :: "u8 list \<Rightarrow> u64 \<Rightarrow> u64 option" where "ULONG bs off = map_option of_nat (field 8 bs off)"

section \<open>Printing of a message\<close>

definition BUFSIZE :: nat where "BUFSIZE = 1024"
definition PID_CHARS_DEFAULT :: nat where "PID_CHARS_DEFAULT = 8"

text \<open>\<^verbatim>\<open>"[%5lld.%06ld] "\<close> for a time in nanoseconds, \<^verbatim>\<open>"[%*s] "\<close> for the thread or processor.\<close>

definition time_text :: "u64 \<Rightarrow> u8 list" where
  "time_text ts = [91] @ pad_left 32 5 (decimal_digits (unat (ts div 1000000000))) @ [46] @
     pad_left 48 6 (decimal_digits (unat (ts mod 1000000000 div 1000))) @ [93, 32]"

definition caller_text :: "u32 \<Rightarrow> u8 list" where
  "caller_text cid = [91] @ pad_left 32 PID_CHARS_DEFAULT
     ((if cid AND 0x80000000 \<noteq> 0 then 67 else 84) # decimal_digits (unat (cid AND NOT 0x80000000))) @ [93, 32]"

text \<open>The classes of the C locale.\<close>

definition isprint_u8 :: "u8 \<Rightarrow> bool" where "isprint_u8 c \<longleftrightarrow> 32 \<le> c \<and> c \<le> 126"
definition isspace_u8 :: "u8 \<Rightarrow> bool" where "isspace_u8 c \<longleftrightarrow> c = 32 \<or> 9 \<le> c \<and> c \<le> 13"

definition hex_digit :: "nat \<Rightarrow> u8" where
  "hex_digit d = (if d < 10 then of_nat (48 + d) else of_nat (87 + d))"

text \<open>\<^verbatim>\<open>"\\x%02x"\<close> of a \<^verbatim>\<open>char\<close>, which is sign-extended to \<^verbatim>\<open>int\<close> where the type is signed.\<close>

definition escape_text :: "bool \<Rightarrow> u8 \<Rightarrow> u8 list" where
  "escape_text sg c = [92, 120] @ (if sg \<and> 128 \<le> c then replicate 6 102 else []) @
     [hex_digit (unat c div 16), hex_digit (unat c mod 16)]"

definition char_text :: "bool \<Rightarrow> nat \<Rightarrow> u8 \<Rightarrow> u8 list" where
  "char_text sg indent c = (if c = 10 then 10 # replicate indent 32
     else if isprint_u8 c \<or> isspace_u8 c then [c] else escape_text sg c)"

text \<open>
  The buffer of \<^verbatim>\<open>BUFSIZE\<close> bytes up to \<^verbatim>\<open>bufp\<close>. \<^verbatim>\<open>sprintf\<close> writes a terminator behind its text; a store behind the end of the
  buffer is \<open>None\<close>.
\<close>

definition sprintf_buf :: "u8 list \<Rightarrow> u8 list \<Rightarrow> u8 list option" where
  "sprintf_buf b s = (if length b + length s + 1 \<le> BUFSIZE then Some (b @ s) else None)"

definition store_buf :: "u8 list \<Rightarrow> u8 \<Rightarrow> u8 list option" where
  "store_buf b c = (if length b < BUFSIZE then Some (b @ [c]) else None)"

definition put_char :: "bool \<Rightarrow> nat \<Rightarrow> u8 \<Rightarrow> u8 list \<Rightarrow> u8 list option" where
  "put_char sg indent c b =
     (if c \<noteq> 10 \<and> (isprint_u8 c \<or> isspace_u8 c) then store_buf b c else sprintf_buf b (char_text sg indent c))"

text \<open>The loop over the text at \<open>p\<close>, with the newline and the last write behind it.\<close>

fun print_text :: "bool \<Rightarrow> nat \<Rightarrow> nat \<Rightarrow> u8 list \<Rightarrow> nat \<Rightarrow> nat \<Rightarrow> u8 list \<Rightarrow> writer \<Rightarrow> (bool \<times> writer) option" where
  "print_text sg indent need mem p 0 b w =
     (case store_buf b 10 of None \<Rightarrow> None | Some b' \<Rightarrow> write_and_check_space b' w)"
| "print_text sg indent need mem p (Suc n) b w =
     (case (if length b \<ge> BUFSIZE - need then map_option (\<lambda>(r, w'). (r, [], w')) (write_and_check_space b w) else Some (True, b, w)) of
        None \<Rightarrow> None
      | Some (False, _, w') \<Rightarrow> Some (False, w')
      | Some (True, b', w') \<Rightarrow>
          if \<not> p < length mem then None
          else (case put_char sg indent (mem ! p) b' of None \<Rightarrow> None
             | Some b'' \<Rightarrow> print_text sg indent need mem (Suc p) n b'' w'))"

text \<open>What \<^verbatim>\<open>dump_log_entry\<close> and \<^verbatim>\<open>dump_record\<close> do with the fields of a message: the text is at \<open>p\<close> of \<open>mem\<close>.\<close>

definition print_message :: "bool \<Rightarrow> u64 \<Rightarrow> u32 option \<Rightarrow> u8 list \<Rightarrow> nat \<Rightarrow> u16 \<Rightarrow> writer \<Rightarrow> (bool \<times> writer) option" where
  "print_message sg ts_nsec cid mem p text_len w =
     (case sprintf_buf [] (time_text ts_nsec) of None \<Rightarrow> None
      | Some b1 \<Rightarrow>
        (case (case cid of None \<Rightarrow> Some b1 | Some c \<Rightarrow> sprintf_buf b1 (caller_text c)) of None \<Rightarrow> None
         | Some b2 \<Rightarrow>
             (let indent_len = length b2; buf_need = max 6 (2 + indent_len)
              in print_text sg indent_len buf_need mem p (unat text_len) b2 w)))"

section \<open>The ring of records\<close>

text \<open>\<^verbatim>\<open>OFFSET(printk_log.caller_id) != NOT_FOUND_STRUCTURE\<close>: the outer option is an access outside of the buffer.\<close>

definition caller_id :: "u64 \<Rightarrow> u8 list \<Rightarrow> u64 \<Rightarrow> u32 option option" where
  "caller_id off bs p = (if off \<noteq> NOT_FOUND_STRUCTURE then map_option Some (UINT bs (p + off)) else Some None)"

text \<open>Pointers into \<^verbatim>\<open>log_buffer\<close> are indices.\<close>

definition dump_log_entry :: "log_env \<Rightarrow> u8 list \<Rightarrow> nat \<Rightarrow> writer \<Rightarrow> (bool \<times> writer) option" where
  "dump_log_entry env lb p w =
     (case USHORT lb (of_nat p + log_text_len env) of None \<Rightarrow> None
      | Some text_len \<Rightarrow>
        (case ULONG lb (of_nat p + log_ts_nsec env) of None \<Rightarrow> None
         | Some ts_nsec \<Rightarrow>
           (case caller_id (log_caller_id env) lb (of_nat p) of None \<Rightarrow> None
            | Some cid \<Rightarrow> print_message (char_signed env) ts_nsec cid lb (p + unat (SIZE_printk_log env)) text_len w)))"

definition log_from_ptr :: "log_env \<Rightarrow> u8 list \<Rightarrow> nat \<Rightarrow> nat option" where
  "log_from_ptr env lb p = map_option (\<lambda>msglen. if msglen = 0 then 0 else p) (USHORT lb (of_nat p + log_len env))"

definition log_next :: "log_env \<Rightarrow> u8 list \<Rightarrow> nat \<Rightarrow> nat option" where
  "log_next env lb p = (case USHORT lb (of_nat p + log_len env) of None \<Rightarrow> None
     | Some msglen \<Rightarrow> if msglen = 0 then map_option unat (USHORT lb (log_len env)) else Some (p + unat msglen))"

text \<open>
  The callback for the detection of cycles. It is only called for pointers that the loop below has passed to
  \<^verbatim>\<open>log_next\<close> itself, where it is defined.
\<close>

definition log_next_cb :: "log_env \<Rightarrow> u8 list \<Rightarrow> nat \<Rightarrow> nat" where
  "log_next_cb env lb p = (case log_next env lb p of Some q \<Rightarrow> q | None \<Rightarrow> p)"

text \<open>The second pass over a ring with a cycle: \<^verbatim>\<open>while (len)\<close>.\<close>

partial_function (option) rewrite_loop ::
  "log_env \<Rightarrow> u8 list \<Rightarrow> nat \<Rightarrow> u64 \<Rightarrow> nat \<Rightarrow> bool \<Rightarrow> writer \<Rightarrow> (bool \<times> writer) option" where
  "rewrite_loop env lb start len p in_cycle w =
     (if len = 0 then Some (True, w)
      else (case log_from_ptr env lb p of None \<Rightarrow> None
        | Some lp \<Rightarrow> (case dump_log_entry env lb lp w of None \<Rightarrow> None
           | Some (ok, w') \<Rightarrow>
               if \<not> ok then Some (False, w')
               else (case log_next env lb p of None \<Rightarrow> None
                 | Some p' \<Rightarrow> (let in' = (in_cycle \<or> lp = start)
                     in rewrite_loop env lb start (if in' then len - 1 else len) p' in' w')))))"

text \<open>
  The loop over the records. \<^verbatim>\<open>ftruncate\<close> and \<^verbatim>\<open>lseek\<close> empty the output; whatever comes after that, the
  result is FALSE.
\<close>

definition truncate_out :: "writer \<Rightarrow> writer" where
  "truncate_out w = w\<lparr>out := [], pos := 0\<rparr>"

definition outside_log :: "log_env \<Rightarrow> u8 list \<Rightarrow> nat \<Rightarrow> bool" where
  "outside_log env lb p \<longleftrightarrow> int p > int (length lb) - sint (SIZE_printk_log env)"

partial_function (option) log_loop ::
  "log_env \<Rightarrow> u8 list \<Rightarrow> nat \<Rightarrow> nat \<Rightarrow> nat \<Rightarrow> nat detect_cycle \<Rightarrow> writer \<Rightarrow> (bool \<times> writer) option" where
  "log_loop env lb first_idx next_idx p dc w =
     (if p = next_idx then Some (close_ok env, w)
      else (case log_from_ptr env lb p of None \<Rightarrow> None
        | Some lp \<Rightarrow> (case dump_log_entry env lb lp w of None \<Rightarrow> None
           | Some (ok, w') \<Rightarrow>
               if \<not> ok then Some (False, w')
               else (case log_next env lb p of None \<Rightarrow> None
                 | Some p' \<Rightarrow> (case dc_next (log_next_cb env lb) dc of (r, dc') \<Rightarrow>
                     (case r of
                        None \<Rightarrow>
                          if \<not> ftruncate_ok env then Some (False, w')
                          else (case dc_find_start (log_next_cb env lb) dc' of None \<Rightarrow> None
                            | Some (start, len) \<Rightarrow>
                                map_option (\<lambda>(_, w''). (False, w'')) (rewrite_loop env lb start len first_idx False (truncate_out w')))
                      | Some next_ptr \<Rightarrow>
                          if outside_log env lb next_ptr then Some (False, w')
                          else log_loop env lb first_idx next_idx next_ptr dc' w'))))))"

section \<open>The lockless ring\<close>

record prb_map =
  desc_ring_count :: u64
  descs :: "u8 list"
  infos :: "u8 list"
  text_data_ring_size :: u64
  text_data :: "u8 list"

datatype desc_state = desc_miss | desc_reserved | desc_committed | desc_finalized | desc_reusable

definition DESC_FLAGS_MASK :: u64 where "DESC_FLAGS_MASK = push_bit 62 3"
definition DESC_ID_MASK :: u64 where "DESC_ID_MASK = NOT DESC_FLAGS_MASK"

definition DESC_STATE :: "u64 \<Rightarrow> desc_state" where
  "DESC_STATE sv = (let s = 3 AND drop_bit 62 sv in
     if s = 0 then desc_reserved else if s = 1 then desc_committed else if s = 2 then desc_finalized else desc_reusable)"

definition get_desc_state :: "u64 \<Rightarrow> u64 \<Rightarrow> desc_state" where
  "get_desc_state rid state_val = (if rid \<noteq> state_val AND DESC_ID_MASK then desc_miss else DESC_STATE state_val)"

definition dump_record :: "log_env \<Rightarrow> prb_map \<Rightarrow> u64 \<Rightarrow> writer \<Rightarrow> (bool \<times> writer) option" where
  "dump_record env m rid w =
     (let desc = (rid mod desc_ring_count m) * SIZE_prb_desc env in
      case ULONG (descs m) (desc + desc_state_var env + atomic_long_counter env) of None \<Rightarrow> None
      | Some state_var \<Rightarrow>
        let state = get_desc_state rid state_var in
        if state \<noteq> desc_committed \<and> state \<noteq> desc_finalized then Some (True, w)
        else (case ULONG (descs m) (desc + desc_text_blk_lpos env + blk_lpos_begin env) of None \<Rightarrow> None
          | Some lpos_begin \<Rightarrow>
            (case ULONG (descs m) (desc + desc_text_blk_lpos env + blk_lpos_next env) of None \<Rightarrow> None
             | Some lpos_next \<Rightarrow>
               let begin = lpos_begin mod text_data_ring_size m; next = lpos_next mod text_data_ring_size m in
               if begin = next then Some (True, w)
               else let inf = (rid mod desc_ring_count m) * SIZE_printk_info env in
                 (case USHORT (infos m) (inf + info_text_len env) of None \<Rightarrow> None
                  | Some text_len0 \<Rightarrow>
                    let begin1 = (if begin > next then 0 else begin) + 8;
                        text_len = (if next - begin1 < ucast text_len0 then ucast (next - begin1) else text_len0) in
                    (case ULONG (infos m) (inf + info_ts_nsec env) of None \<Rightarrow> None
                     | Some ts_nsec \<Rightarrow>
                       (case caller_id (info_caller_id env) (infos m) inf of None \<Rightarrow> None
                        | Some cid \<Rightarrow> print_message (char_signed env) ts_nsec cid (text_data m) (unat begin1) text_len w))))))"

text \<open>The loop over the identifiers from the tail to the head, and the record of the head.\<close>

partial_function (option) dump_records :: "log_env \<Rightarrow> prb_map \<Rightarrow> u64 \<Rightarrow> u64 \<Rightarrow> writer \<Rightarrow> (bool \<times> writer) option" where
  "dump_records env m rid head_id w =
     (if rid \<noteq> head_id
      then (case dump_record env m rid w of None \<Rightarrow> None
         | Some (ok, w') \<Rightarrow> if \<not> ok then Some (False, w') else dump_records env m ((rid + 1) AND DESC_ID_MASK) head_id w')
      else dump_record env m rid w)"

text \<open>
  \<^verbatim>\<open>1 << UINT(...)\<close> is a shift of an \<^verbatim>\<open>int\<close>. The descriptor ring is a part of the ring buffer structure, so the offsets
  in it are relative to that structure's buffer.
\<close>

definition shift_int :: "u32 \<Rightarrow> u64 option" where
  "shift_int n = (if unat n < 31 then Some (2 ^ unat n) else None)"

datatype ('a, 'b) ring_setup = Undefined | Failed | Ready 'a 'b

text \<open>Allocation and reading of an array of the ring.\<close>

definition read_array :: "log_env \<Rightarrow> u64 \<Rightarrow> u64 \<Rightarrow> u8 list option" where
  "read_array env kaddr sz = (if \<not> lg_malloc env sz then None else rd_mem env kaddr sz)"

definition clear_tail :: "log_env \<Rightarrow> u64 \<Rightarrow> u64 \<Rightarrow> u64 \<Rightarrow> u64 option" where
  "clear_tail env count head_id tail_id =
     (if flag_partial_dmesg env \<and> SYMBOL_clear_seq env \<noteq> 0
      then (case rd_mem env (SYMBOL_clear_seq env) 8 of None \<Rightarrow> None
        | Some b \<Rightarrow>
          (let clear_seq = get64 b 0 in
           case (if SIZE_latched_seq env \<noteq> NOT_FOUND_STRUCTURE
                 then map_option (\<lambda>b'. get64 b' 0) (rd_mem env (SYMBOL_clear_seq env + latched_seq_val env + (clear_seq AND 1) * 8) 8)
                 else Some clear_seq) of None \<Rightarrow> None
           | Some seq \<Rightarrow> Some (head_id - head_id mod count + seq mod count)))
      else Some tail_id)"

definition some_or :: "'a option \<Rightarrow> 'b \<Rightarrow> ('a \<Rightarrow> 'b) \<Rightarrow> 'b" where
  "some_or x d f = (case x of None \<Rightarrow> d | Some v \<Rightarrow> f v)"

text \<open>The three arrays of the ring, then the identifiers.\<close>

definition prb_arrays :: "log_env \<Rightarrow> u8 list \<Rightarrow> (prb_map \<Rightarrow> (prb_map, u64 \<times> u64) ring_setup) \<Rightarrow> (prb_map, u64 \<times> u64) ring_setup" where
  "prb_arrays env prb k =
     some_or (Option.bind (UINT prb (ringbuffer_desc_ring env + desc_ring_count_bits env)) shift_int) Undefined (\<lambda>count.
     some_or (ULONG prb (ringbuffer_desc_ring env + desc_ring_descs env)) Undefined (\<lambda>kd.
     some_or (read_array env kd (SIZE_prb_desc env * count)) Failed (\<lambda>ds.
     some_or (ULONG prb (ringbuffer_desc_ring env + desc_ring_infos env)) Undefined (\<lambda>ki.
     some_or (read_array env ki (SIZE_printk_info env * count)) Failed (\<lambda>is.
     some_or (Option.bind (UINT prb (ringbuffer_text_data_ring env + data_ring_size_bits env)) shift_int) Undefined (\<lambda>sz.
     some_or (ULONG prb (ringbuffer_text_data_ring env + data_ring_data env)) Undefined (\<lambda>kt.
     some_or (read_array env kt sz) Failed (\<lambda>td.
       k \<lparr>desc_ring_count = count, descs = ds, infos = is, text_data_ring_size = sz, text_data = td\<rparr>))))))))"

definition prb_setup :: "log_env \<Rightarrow> (prb_map, u64 \<times> u64) ring_setup" where
  "prb_setup env =
     some_or (rd_mem env (SYMBOL_prb env) 8) Failed (\<lambda>ka.
     some_or (read_array env (get64 ka 0) (SIZE_printk_ringbuffer env)) Failed (\<lambda>prb.
     prb_arrays env prb (\<lambda>m.
     some_or (ULONG prb (ringbuffer_desc_ring env + desc_ring_tail_id env + atomic_long_counter env)) Undefined (\<lambda>tail_id.
     some_or (ULONG prb (ringbuffer_desc_ring env + desc_ring_head_id env + atomic_long_counter env)) Undefined (\<lambda>head_id.
     some_or (clear_tail env (desc_ring_count m) head_id tail_id) Failed (\<lambda>tail. Ready m (tail, head_id)))))))"

definition dump_lockless_dmesg :: "log_env \<Rightarrow> writer \<Rightarrow> (bool \<times> writer) option" where
  "dump_lockless_dmesg env w =
     (case prb_setup env of Undefined \<Rightarrow> None | Failed \<Rightarrow> Some (False, w)
      | Ready m ids \<Rightarrow>
          if \<not> open_dump_ok env then Some (False, w)
          else (case dump_records env m (fst ids) (snd ids) w of None \<Rightarrow> None
             | Some (ok, w') \<Rightarrow> if \<not> ok then Some (False, w') else Some (close_ok env, w')))"

section \<open>The ring of characters, and the choice of the ring\<close>

definition kernel_ver :: "nat \<Rightarrow> nat \<Rightarrow> nat \<Rightarrow> nat" where
  "kernel_ver x y z = x * 2 ^ 24 + y * 2 ^ 16 + z"

text \<open>A conversion of \<^verbatim>\<open>unsigned long\<close> to \<^verbatim>\<open>int\<close> that is used as a sz.\<close>

definition as_int :: "u64 \<Rightarrow> u64" where
  "as_int x = scast (ucast x :: u32)"

text \<open>The part of the buffer that is written, read from the ring in the order of the messages.\<close>

definition read_old_log :: "log_env \<Rightarrow> u64 \<Rightarrow> u64 \<Rightarrow> u64 \<Rightarrow> u8 list option" where
  "read_old_log env log_buf log_end log_buf_len =
     (if log_end < log_buf_len then rd_mem env log_buf (as_int log_end)
      else (let index = log_end AND (log_buf_len - 1); length_oldlog = as_int (log_buf_len - index) in
        case rd_mem env (log_buf + index) length_oldlog of None \<Rightarrow> None
        | Some old \<Rightarrow> (case rd_mem env log_buf index of None \<Rightarrow> None
           | Some new \<Rightarrow> Some (old @ new))))"

definition dump_old_log :: "log_env \<Rightarrow> u64 \<Rightarrow> u64 \<Rightarrow> u64 \<Rightarrow> writer \<Rightarrow> (bool \<times> writer) option" where
  "dump_old_log env log_buf log_end log_buf_len w =
     (case read_old_log env log_buf log_end log_buf_len of None \<Rightarrow> Some (False, w)
      | Some text \<Rightarrow>
          if \<not> open_dump_ok env then Some (False, w)
          else (case write_and_check_space text w of None \<Rightarrow> None
             | Some (ok, w') \<Rightarrow> Some (ok \<and> close_ok env, w')))"

text \<open>\<open>idx\<close> is \<open>None\<close> where \<^verbatim>\<open>log_first_idx\<close> and \<^verbatim>\<open>log_next_idx\<close> are not initialised.\<close>

definition dump_new_log :: "log_env \<Rightarrow> u64 \<Rightarrow> u64 \<Rightarrow> (u32 \<times> u32) option \<Rightarrow> writer \<Rightarrow> (bool \<times> writer) option" where
  "dump_new_log env log_buf log_buf_len idx w =
     (if SIZE_printk_log env = NOT_FOUND_STRUCTURE \<or> log_len env = NOT_FOUND_STRUCTURE \<or>
         log_text_len env = NOT_FOUND_STRUCTURE \<or> log_ts_nsec env = NOT_FOUND_STRUCTURE then Some (False, w)
      else (case rd_mem env log_buf log_buf_len of None \<Rightarrow> Some (False, w)
        | Some lb \<Rightarrow>
            if \<not> open_dump_ok env then Some (False, w)
            else (case idx of None \<Rightarrow> None
              | Some (first_idx, next_idx) \<Rightarrow>
                  (case dc_init (lg_malloc env 56) (unat first_idx) of
                     None \<Rightarrow> if first_idx = next_idx then Some (close_ok env, w) else None
                   | Some dc \<Rightarrow> log_loop env lb (unat first_idx) (unat next_idx) (unat first_idx) dc w))))"

definition read_u32 :: "log_env \<Rightarrow> u64 \<Rightarrow> u32 option" where
  "read_u32 env a = map_option (\<lambda>b. get32 b 0) (rd_mem env a 4)"

definition read_u64 :: "log_env \<Rightarrow> u64 \<Rightarrow> u64 option" where
  "read_u64 env a = map_option (\<lambda>b. get64 b 0) (rd_mem env a 8)"

text \<open>The indices of the ring of records: failure, not read, or their values.\<close>

definition read_indices :: "log_env \<Rightarrow> (u32 \<times> u32) option option" where
  "read_indices env =
     (if SYMBOL_log_end env = 0
      then (if SYMBOL_log_first_idx env = 0 \<or> SYMBOL_log_next_idx env = 0 then None
        else (case read_u32 env (if flag_partial_dmesg env \<and> SYMBOL_clear_idx env \<noteq> 0 then SYMBOL_clear_idx env else SYMBOL_log_first_idx env) of
            None \<Rightarrow> None
          | Some fi \<Rightarrow> (case read_u32 env (SYMBOL_log_next_idx env) of None \<Rightarrow> None | Some ni \<Rightarrow> Some (Some (fi, ni)))))
      else Some None)"

definition read_log_end :: "log_env \<Rightarrow> u64 option" where
  "read_log_end env =
     (if kernel_version env < kernel_ver 3 5 0
      then (if kernel_version env \<ge> kernel_ver 2 6 25 then map_option ucast (read_u32 env (SYMBOL_log_end env))
            else read_u64 env (SYMBOL_log_end env))
      else Some 0)"

definition dump_dmesg :: "log_env \<Rightarrow> writer \<Rightarrow> (bool \<times> writer) option" where
  "dump_dmesg env w =
     (if \<not> open_files_ok env \<or> (\<not> flag_refiltering_log env \<and> \<not> flag_sadump_log env \<and> \<not> elf_info_ok env) \<or> \<not> initial_ok env then Some (False, w)
      else if SYMBOL_prb env \<noteq> 0 then dump_lockless_dmesg env w
      else if SYMBOL_log_buf env = 0 \<or> SYMBOL_log_buf_len env = 0 then Some (False, w)
      else (case read_indices env of None \<Rightarrow> Some (False, w) | Some idx \<Rightarrow>
        case read_u64 env (SYMBOL_log_buf env) of None \<Rightarrow> Some (False, w) | Some log_buf \<Rightarrow>
        case read_log_end env of None \<Rightarrow> Some (False, w) | Some log_end \<Rightarrow>
        case read_u32 env (SYMBOL_log_buf_len env) of None \<Rightarrow> Some (False, w) | Some len \<Rightarrow>
          (let log_buf_len = scast len :: u64 in
           if \<not> lg_malloc env log_buf_len then Some (False, w)
           else if kernel_version env < kernel_ver 3 5 0 then dump_old_log env log_buf log_end log_buf_len w
           else dump_new_log env log_buf log_buf_len idx w)))"

end
