(* ===== verification/Kernel_Log_Output.thy ===== *)
theory Kernel_Log_Output
  imports Kernel_Log
begin

text \<open>
  Correctness of the extraction of the kernel's messages: what a message prints and that its buffer is large enough, the walk over the
  lockless ring, the two passes over a ring of records with a cycle, and the order of the ring of characters.
\<close>

section \<open>What is printed\<close>

text \<open>The text of a message: a time stamp, the caller, and the characters with indented lines.\<close>

definition head_text :: "u64 \<Rightarrow> u32 option \<Rightarrow> u8 list" where
  "head_text ts cid = time_text ts @ (case cid of None \<Rightarrow> [] | Some c \<Rightarrow> caller_text c)"

definition message_text :: "bool \<Rightarrow> u64 \<Rightarrow> u32 option \<Rightarrow> u8 list \<Rightarrow> u8 list" where
  "message_text sg ts cid cs = head_text ts cid @ concat (map (char_text sg (length (head_text ts cid))) cs) @ [10]"

text \<open>\<open>w'\<close> is \<open>w\<close> after \<open>t\<close> was written.\<close>

definition appends :: "u8 list \<Rightarrow> writer \<Rightarrow> writer \<Rightarrow> bool" where
  "appends t w w' \<longleftrightarrow> (\<exists>rs n. w' = (emit t w)\<lparr>orc := rs, write_bytes := n\<rparr>)"

lemma appends_trans: "appends s w w' \<Longrightarrow> appends t w' w'' \<Longrightarrow> appends (s @ t) w w''"
  by (auto simp: appends_def emit_def splice_splice add.assoc split: if_splits)

lemma ready_appends:
  assumes "ready (length b + n) w" "b \<noteq> []"
  shows "\<exists>w'. write_and_check_space b w = Some (True, w') \<and> ready n w' \<and> appends b w w'"
proof -
  from assms(1) steady_split [of "length b" n "orc w"] obtain xs ys m where
    rs: "orc w = xs @ ys" "progress xs = Some m" "length b \<le> m" "steady n ys" by (auto simp: ready_def)
  from assms(1) have "\<not> flag_dry_run w" "size_limit w = None" by (auto simp: ready_def)
  from write_progress [OF this rs(1-3)] assms(2) obtain rs' where "progress rs' \<noteq> None" and w:
    "write_and_check_space b w = Some (True, (emit b w)\<lparr>orc := rs' @ ys, write_bytes := write_bytes w + length b\<rparr>)" by blast
  with steady_append [OF this(1) rs(4)] assms(1) show ?thesis by (auto simp: ready_def appends_def)
qed

lemma length_time_text: "15 \<le> length (time_text ts)" "length (time_text ts) \<le> 21"
proof -
  have "unat ts div 1000000000 < 100000000000" using unat64_less [of ts] by linarith
  then have "unat (ts div 1000000000) < 10 ^ 11" by (simp add: unat_div)
  from length_decimal_digits [OF _ this] have "length (decimal_digits (unat (ts div 1000000000))) \<le> 11" by simp
  moreover have "unat (ts mod 1000000000) < 1000000000" by (simp add: unat_mod)
  then have "unat (ts mod 1000000000) div 1000 < 10 ^ 6" by simp
  then have "unat (ts mod 1000000000 div 1000) < 10 ^ 6" by (simp add: unat_div)
  from length_decimal_digits [OF _ this] have "length (decimal_digits (unat (ts mod 1000000000 div 1000))) \<le> 6" by simp
  ultimately show "15 \<le> length (time_text ts)" "length (time_text ts) \<le> 21" by (auto simp: time_text_def)
qed

lemma length_caller_text: "length (caller_text c) \<le> 14"
proof -
  have "unat (c AND NOT 0x80000000) < 10 ^ 10" using order_less_trans [OF unat32_less [of "c AND NOT 0x80000000"], of "10 ^ 10"] by simp
  from length_decimal_digits [OF _ this] show ?thesis by (simp add: caller_text_def PID_CHARS_DEFAULT_def)
qed

lemma length_head_text: "15 \<le> length (head_text ts cid)" "length (head_text ts cid) \<le> 35"
  using length_time_text [of ts] length_caller_text [of "the cid"] by (auto simp: head_text_def split: option.splits)

text \<open>The space that is kept free is enough for every character, also for an escape that was sign-extended.\<close>

lemma length_char_text: "15 \<le> indent \<Longrightarrow> length (char_text sg indent c) \<le> 1 + indent" "char_text sg indent c \<noteq> []"
  by (auto simp: char_text_def escape_text_def)

lemma put_char_fits:
  assumes "15 \<le> indent" "length b + indent + 2 < BUFSIZE"
  shows "put_char sg indent c b = Some (b @ char_text sg indent c)" "length (b @ char_text sg indent c) < BUFSIZE"
  using assms length_char_text(1) [of indent sg c]
  by (auto simp: put_char_def store_buf_def sprintf_buf_def char_text_def)

lemma print_text_ok:
  assumes "15 \<le> indent" "indent \<le> 35" "need = indent + 2" "length b < BUFSIZE" "p + n \<le> length mem"
    and "ready (length (b @ concat (map (char_text sg indent) (take n (drop p mem))) @ [10]) + k) w"
  shows "\<exists>w'. print_text sg indent need mem p n b w = Some (True, w') \<and> ready k w' \<and>
     appends (b @ concat (map (char_text sg indent) (take n (drop p mem))) @ [10]) w w'"
  using assms(4-)
proof (induction n arbitrary: p b w)
  case 0
  have "ready (length (b @ [10]) + k) w" using 0(3) by simp
  from ready_appends [OF this] 0(1) show ?case by (auto simp: store_buf_def)
next
  case (Suc n)
  let ?c = "char_text sg indent (mem ! p)"
  let ?T = "concat (map (char_text sg indent) (take n (drop (Suc p) mem))) @ [10]"
  have p: "p < length mem" "Suc p + n \<le> length mem" using Suc.prems(2) by simp_all
  have eq: "concat (map (char_text sg indent) (take (Suc n) (drop p mem))) @ [10] = ?c @ ?T"
    using p(1) by (simp add: Cons_nth_drop_Suc [symmetric])
  show ?case
  proof (cases "length b \<ge> BUFSIZE - (indent + 2)")
    case True
    have ne: "b \<noteq> []" using True assms(2) by (auto simp: BUFSIZE_def)
    have "ready (length b + (length (?c @ ?T) + k)) w" using Suc.prems(3) unfolding eq by (simp add: add.assoc)
    from ready_appends [OF this ne] obtain w1 where w1: "write_and_check_space b w = Some (True, w1)" "ready (length (?c @ ?T) + k) w1" "appends b w w1" by blast
    have f: "put_char sg indent (mem ! p) [] = Some ?c" "length ?c < BUFSIZE"
      using put_char_fits [of indent "[]" sg "mem ! p"] assms(1,2) by (simp_all add: BUFSIZE_def)
    from Suc.IH [OF f(2) p(2) w1(2)] obtain w2 where "print_text sg indent need mem (Suc p) n ?c w1 = Some (True, w2)"
      "ready k w2" "appends (?c @ ?T) w1 w2" by blast
    with w1 f p(1) True appends_trans [OF w1(3), of "?c @ ?T" w2] show ?thesis unfolding eq by (simp add: assms(3))
  next
    case False
    then have l: "length b + indent + 2 < BUFSIZE" by simp
    note f = put_char_fits [OF assms(1) l, of sg "mem ! p"]
    have "ready (length ((b @ ?c) @ ?T) + k) w" using Suc.prems(3) unfolding eq by (simp add: add.assoc)
    from Suc.IH [OF f(2) p(2) this] obtain w2 where "print_text sg indent need mem (Suc p) n (b @ ?c) w = Some (True, w2)"
      "ready k w2" "appends ((b @ ?c) @ ?T) w w2" by blast
    with f p(1) False show ?thesis unfolding eq by (simp add: assms(3))
  qed
qed

lemma print_message_ok:
  assumes "p + unat len \<le> length mem" "ready (length (message_text sg ts cid (take (unat len) (drop p mem))) + k) w"
  shows "\<exists>w'. print_message sg ts cid mem p len w = Some (True, w') \<and> ready k w' \<and>
     appends (message_text sg ts cid (take (unat len) (drop p mem))) w w'"
proof -
  have l: "length (head_text ts cid) < BUFSIZE" using length_head_text(2) [of ts cid] by (simp add: BUFSIZE_def)
  have t: "length (time_text ts) + 1 \<le> BUFSIZE" "length (time_text ts) + length (caller_text c) + 1 \<le> BUFSIZE" for c
    using length_time_text(2) [of ts] length_caller_text [of c] by (simp_all add: BUFSIZE_def)
  have "print_message sg ts cid mem p len w =
      print_text sg (length (head_text ts cid)) (max 6 (2 + length (head_text ts cid))) mem p (unat len) (head_text ts cid) w"
    using t by (cases cid) (simp_all add: print_message_def sprintf_buf_def head_text_def Let_def)
  moreover have "max 6 (2 + length (head_text ts cid)) = length (head_text ts cid) + 2" using length_head_text(1) [of ts cid] by simp
  ultimately show ?thesis using print_text_ok [OF length_head_text refl l assms(1), of sg ts cid k w] assms(2) by (simp add: message_text_def)
qed

section \<open>The records of the lockless ring\<close>

text \<open>A descriptor with what belongs to it, as the kernel has it.\<close>

record ring_desc =
  rd_state :: u64
  rd_begin :: u64
  rd_next :: u64
  rd_ts :: u64
  rd_len :: u16
  rd_cid :: "u32 option"

text \<open>Where the text of a block begins in a ring of \<open>n\<close> bytes (a block that wraps around is at the beginning of the ring) and where it ends.\<close>

definition block_start :: "nat \<Rightarrow> ring_desc \<Rightarrow> nat" where
  "block_start n d = (if unat (rd_next d) mod n < unat (rd_begin d) mod n then 0 else unat (rd_begin d) mod n) + 8"

definition block_chars :: "u8 list \<Rightarrow> ring_desc \<Rightarrow> u8 list" where
  "block_chars text d = (let s = block_start (length text) d
     in take (min (unat (rd_len d)) (unat (rd_next d) mod length text - s)) (drop s text))"

text \<open>A message of the identifier is in the ring and has text: the upper two bits are the state, the others the identifier.\<close>

definition holds_message :: "u8 list \<Rightarrow> ring_desc \<Rightarrow> u64 \<Rightarrow> bool" where
  "holds_message text d i \<longleftrightarrow> unat (rd_state d) mod 2 ^ 62 = unat i \<and> unat (rd_state d) div 2 ^ 62 \<in> {1, 2} \<and>
     unat (rd_begin d) mod length text \<noteq> unat (rd_next d) mod length text"

definition ring_text :: "bool \<Rightarrow> u8 list \<Rightarrow> ring_desc list \<Rightarrow> u64 \<Rightarrow> u8 list" where
  "ring_text sg text ds i = (let d = ds ! (unat i mod length ds) in
     if holds_message text d i then message_text sg (rd_ts d) (rd_cid d) (block_chars text d) else [])"

text \<open>The buffers that were read hold these descriptors.\<close>

definition desc_at :: "log_env \<Rightarrow> prb_map \<Rightarrow> nat \<Rightarrow> ring_desc \<Rightarrow> bool" where
  "desc_at env m i d \<longleftrightarrow> (let o1 = of_nat i * SIZE_prb_desc env; o2 = of_nat i * SIZE_printk_info env in
     ULONG (descs m) (o1 + desc_state_var env + atomic_long_counter env) = Some (rd_state d) \<and>
     ULONG (descs m) (o1 + desc_text_blk_lpos env + blk_lpos_begin env) = Some (rd_begin d) \<and>
     ULONG (descs m) (o1 + desc_text_blk_lpos env + blk_lpos_next env) = Some (rd_next d) \<and>
     USHORT (infos m) (o2 + info_text_len env) = Some (rd_len d) \<and>
     ULONG (infos m) (o2 + info_ts_nsec env) = Some (rd_ts d) \<and>
     caller_id (info_caller_id env) (infos m) o2 = Some (rd_cid d))"

definition ring_holds :: "log_env \<Rightarrow> prb_map \<Rightarrow> ring_desc list \<Rightarrow> bool" where
  "ring_holds env m ds \<longleftrightarrow> ds \<noteq> [] \<and> length ds < 2 ^ 62 \<and> text_data m \<noteq> [] \<and> length (text_data m) < 2 ^ 62 \<and>
     desc_ring_count m = of_nat (length ds) \<and> text_data_ring_size m = of_nat (length (text_data m)) \<and>
     (\<forall>i<length ds. desc_at env m i (ds ! i))"

text \<open>Blocks with text are at least as long as the identifier in front of the text.\<close>

definition blocks_ok :: "u8 list \<Rightarrow> ring_desc list \<Rightarrow> bool" where
  "blocks_ok text ds \<longleftrightarrow> (\<forall>d\<in>set ds. unat (rd_begin d) mod length text \<noteq> unat (rd_next d) mod length text \<longrightarrow>
     block_start (length text) d \<le> unat (rd_next d) mod length text)"

text \<open>What was written, where nothing at all may have been written.\<close>

definition writes :: "u8 list \<Rightarrow> writer \<Rightarrow> writer \<Rightarrow> bool" where
  "writes t w w' \<longleftrightarrow> (if t = [] then w' = w else appends t w w')"

lemma writes_Nil [simp]: "writes [] w w' \<longleftrightarrow> w' = w"
  by (simp add: writes_def)

lemma writes_trans: "writes s w w' \<Longrightarrow> writes t w' w'' \<Longrightarrow> writes (s @ t) w w''"
  by (auto simp: writes_def appends_trans split: if_splits)

lemma message_text_ne [simp]: "message_text sg ts cid cs \<noteq> []"
  by (simp add: message_text_def)

text \<open>At the end of the output the text is appended.\<close>

definition at_end :: "writer \<Rightarrow> bool" where
  "at_end w \<longleftrightarrow> is_stdout w \<or> pos w = length (out w)"

lemma writes_at_end:
  assumes "writes t w w'" "at_end w"
  shows "out w' = out w @ t"
  using assms by (auto simp: writes_def appends_def at_end_def emit_def splice_def split: if_splits)

lemma DESC_ID_MASK_and: "x AND DESC_ID_MASK = take_bit 62 x"
proof -
  have "DESC_ID_MASK = mask 62" by code_simp
  then show ?thesis by (simp add: take_bit_eq_mask)
qed

lemma unat_take_bit62: "unat (take_bit 62 x :: u64) = unat x mod 2 ^ 62"
  by (simp only: unsigned_take_bit_eq) (simp add: take_bit_eq_mod)

lemma unat_drop_bit62: "unat (drop_bit 62 x :: u64) = unat x div 2 ^ 62"
  by (simp only: unsigned_drop_bit_eq) (simp add: drop_bit_eq_div take_bit_nat_eq_self)

lemma get_desc_state_message:
  "get_desc_state i sv \<in> {desc_committed, desc_finalized} \<longleftrightarrow> unat sv mod 2 ^ 62 = unat i \<and> unat sv div 2 ^ 62 \<in> {1, 2}"
proof -
  have i: "i \<noteq> sv AND DESC_ID_MASK \<longleftrightarrow> unat sv mod 2 ^ 62 \<noteq> unat i"
    by (metis DESC_ID_MASK_and unat_take_bit62 word_unat_eq_iff)
  have "unat sv div 4611686018427387904 < 4" using unat64_less [of sv] by linarith
  then have d: "unat (drop_bit 62 sv) < 4" by (simp add: unat_drop_bit62)
  have "(3::u64) = mask 2" by (simp add: mask_eq_exp_minus_1)
  then have "3 AND drop_bit 62 sv = take_bit 2 (drop_bit 62 sv)" by (metis and.commute take_bit_eq_mask)
  moreover have "take_bit 2 (drop_bit 62 sv) = drop_bit 62 sv"
    using d by (intro word_unat_eq_iff [THEN iffD2]) (simp add: unat_mod take_bit_eq_mod)
  ultimately have s: "3 AND drop_bit 62 sv = drop_bit 62 sv" by simp
  have "drop_bit 62 sv = of_nat k \<longleftrightarrow> unat sv div 2 ^ 62 = k" if "k < 4" for k
    using that unat_drop_bit62 [of sv] by (auto simp: word_unat_eq_iff unat_of_nat64)
  from this [of 0] this [of 1] this [of 2] show ?thesis
    using i by (auto simp: get_desc_state_def DESC_STATE_def Let_def s)
qed

lemma unat_mod_of_nat: "0 < n \<Longrightarrow> n < 2 ^ 64 \<Longrightarrow> unat ((x::u64) mod of_nat n) = unat x mod n"
  by (simp add: unat_mod unat_of_nat64)

lemma ucast16_unat:
  "unat (ucast (y :: u16) :: u64) = unat y" "(x :: u64) < ucast (y :: u16) \<Longrightarrow> unat (ucast x :: u16) = unat x"
proof -
  have y: "unat y < 65536" using unsigned_less [of y] by simp
  show 1: "unat (ucast y :: u64) = unat y" using y by (simp add: unsigned_ucast_eq take_bit_nat_eq_self_iff)
  show "unat (ucast x :: u16) = unat x" if "x < ucast y"
    using that y unfolding word_less_nat_alt 1 by (simp add: unsigned_ucast_eq take_bit_nat_eq_self_iff)
qed

text \<open>One record.\<close>

lemma dump_record_ok:
  assumes r: "ring_holds env m ds" "blocks_ok (text_data m) ds"
    and "ready (length (ring_text (char_signed env) (text_data m) ds i) + k) w"
  shows "\<exists>w'. dump_record env m i w = Some (True, w') \<and> ready k w' \<and> writes (ring_text (char_signed env) (text_data m) ds i) w w'"
proof -
  let ?j = "unat i mod length ds" and ?n = "length (text_data m)"
  define d where "d = ds ! ?j"
  have ds: "0 < length ds" "length ds < 2 ^ 64" "0 < ?n" "?n < 2 ^ 62" using r(1) by (auto simp: ring_holds_def)
  have j: "?j < length ds" using ds(1) by simp
  then have mem: "d \<in> set ds" and at: "desc_at env m ?j d" using r(1) by (auto simp: d_def ring_holds_def)
  have idx: "i mod desc_ring_count m = of_nat ?j"
    using r(1) ds(2) word_arith_nat_mod [of i "desc_ring_count m"] by (simp add: ring_holds_def unat_of_nat64)
  define b where "b = rd_begin d mod text_data_ring_size m"
  define e where "e = rd_next d mod text_data_ring_size m"
  have be: "unat b = unat (rd_begin d) mod ?n" "unat e = unat (rd_next d) mod ?n"
    using r(1) unat_mod_of_nat [of ?n] ds(3,4) by (auto simp: b_def e_def ring_holds_def)
  let ?s = "(if b > e then 0 else b) + 8"
  have ms: "get_desc_state i (rd_state d) \<noteq> desc_committed \<and> get_desc_state i (rd_state d) \<noteq> desc_finalized \<longleftrightarrow>
      \<not> (unat (rd_state d) mod 2 ^ 62 = unat i \<and> unat (rd_state d) div 2 ^ 62 \<in> {1, 2})"
    using get_desc_state_message [of i "rd_state d"] by blast
  have eq: "dump_record env m i w = (if \<not> holds_message (text_data m) d i then Some (True, w)
      else print_message (char_signed env) (rd_ts d) (rd_cid d) (text_data m) (unat ?s)
        (if e - ?s < ucast (rd_len d) then ucast (e - ?s) else rd_len d) w)"
    using at ms be unfolding dump_record_def holds_message_def idx Let_def desc_at_def
    by (simp add: b_def [symmetric] e_def [symmetric] word_unat_eq_iff)
  show ?thesis
  proof (cases "holds_message (text_data m) d i")
    case False
    with eq assms(3) show ?thesis by (auto simp: ring_text_def d_def [symmetric])
  next
    case True
    have "unat b < ?n" using be(1) ds(3) by simp
    then have s: "unat ?s = block_start ?n d"
      using be ds(4) by (simp add: block_start_def word_less_nat_alt unat_plus64)
    have "block_start ?n d \<le> unat e" using True r(2) mem be by (auto simp: holds_message_def blocks_ok_def)
    then have "unat (e - ?s) = unat e - block_start ?n d" using s by (simp add: unat_sub word_le_nat_alt)
    then have len: "unat (if e - ?s < ucast (rd_len d) then ucast (e - ?s) else rd_len d :: u16) = min (unat (rd_len d)) (unat e - block_start ?n d)"
      using ucast16_unat(1) [of "rd_len d"] ucast16_unat(2) [of "e - ?s" "rd_len d"] by (auto simp: word_less_nat_alt)
    have "unat e < ?n" using be(2) ds(3) by simp
    have T: "ring_text (char_signed env) (text_data m) ds i = message_text (char_signed env) (rd_ts d) (rd_cid d)
        (take (unat (if e - ?s < ucast (rd_len d) then ucast (e - ?s) else rd_len d :: u16)) (drop (unat ?s) (text_data m)))"
      unfolding len s using True be by (simp add: ring_text_def d_def [symmetric] block_chars_def Let_def)
    have "unat ?s + unat (if e - ?s < ucast (rd_len d) then ucast (e - ?s) else rd_len d :: u16) \<le> ?n"
      unfolding len s using \<open>block_start ?n d \<le> unat e\<close> \<open>unat e < ?n\<close> by simp
    from print_message_ok [OF this assms(3) [unfolded T]] True show ?thesis unfolding T eq by (auto simp: writes_def)
  qed
qed

text \<open>The identifiers from the tail to the head: they are counted modulo \<open>2 ^ 62\<close>.\<close>

definition ring_ids :: "u64 \<Rightarrow> u64 \<Rightarrow> u64 list" where
  "ring_ids tail_id head_id = map (\<lambda>i. of_nat ((unat tail_id + i) mod 2 ^ 62)) [0 ..< Suc ((unat head_id + 2 ^ 62 - unat tail_id) mod 2 ^ 62)]"

definition log_text :: "bool \<Rightarrow> u8 list \<Rightarrow> ring_desc list \<Rightarrow> u64 list \<Rightarrow> u8 list" where
  "log_text sg text ds ids = concat (map (ring_text sg text ds) ids)"

lemma next_id: "a < 2 ^ 62 \<Longrightarrow> ((of_nat a :: u64) + 1) AND DESC_ID_MASK = of_nat (Suc a mod 2 ^ 62)"
proof -
  assume "a < 2 ^ 62"
  then have "unat ((of_nat a :: u64) + 1) = Suc a" by (simp add: unat_plus64 unat_of_nat64)
  then have "unat (((of_nat a :: u64) + 1) AND DESC_ID_MASK) = Suc a mod 2 ^ 62"
    by (simp only: DESC_ID_MASK_and unat_take_bit62)
  then show ?thesis by (simp add: word_unat_eq_iff unat_of_nat64)
qed

lemma dump_records_ok:
  assumes r: "ring_holds env m ds" "blocks_ok (text_data m) ds" and "a < 2 ^ 62" "n < 2 ^ 62"
    and "ready (length (log_text (char_signed env) (text_data m) ds (map (\<lambda>i. of_nat ((a + i) mod 2 ^ 62)) [0 ..< Suc n])) + k) w"
  shows "\<exists>w'. dump_records env m (of_nat a) (of_nat ((a + n) mod 2 ^ 62)) w = Some (True, w') \<and> ready k w' \<and>
     writes (log_text (char_signed env) (text_data m) ds (map (\<lambda>i. of_nat ((a + i) mod 2 ^ 62)) [0 ..< Suc n])) w w'"
  using assms(3-)
proof (induction n arbitrary: a w)
  case 0
  with dump_record_ok [OF r, of "of_nat a" k w] show ?case by (simp add: dump_records.simps log_text_def)
next
  case (Suc n)
  let ?T = "ring_text (char_signed env) (text_data m) ds"
  let ?b = "Suc a mod 2 ^ 62"
  let ?R = "log_text (char_signed env) (text_data m) ds (map (\<lambda>i. of_nat ((?b + i) mod 2 ^ 62)) [0 ..< Suc n])"
  have ids: "map (\<lambda>i. of_nat ((a + i) mod 2 ^ 62) :: u64) [0 ..< Suc (Suc n)] =
      of_nat a # map (\<lambda>i. of_nat ((?b + i) mod 2 ^ 62)) [0 ..< Suc n]"
    using Suc.prems(1) by (simp add: upt_rec [of 0] map_Suc_upt [symmetric] comp_def mod_add_left_eq del: upt_Suc)
  have T: "log_text (char_signed env) (text_data m) ds (map (\<lambda>i. of_nat ((a + i) mod 2 ^ 62)) [0 ..< Suc (Suc n)]) = ?T (of_nat a) @ ?R"
    unfolding ids by (simp add: log_text_def)
  have "ready (length (?T (of_nat a)) + (length ?R + k)) w" using Suc.prems(3) unfolding T by (simp add: add.assoc)
  from dump_record_ok [OF r this] obtain w1 where
    1: "dump_record env m (of_nat a) w = Some (True, w1)" "ready (length ?R + k) w1" "writes (?T (of_nat a)) w w1" by blast
  have h: "(a + Suc n) mod 2 ^ 62 = (?b + n) mod 2 ^ 62" by (simp add: mod_add_left_eq)
  from Suc.IH [OF _ _ 1(2)] Suc.prems(2) obtain w2 where
    2: "dump_records env m (of_nat ?b) (of_nat ((?b + n) mod 2 ^ 62)) w1 = Some (True, w2)" "ready k w2" "writes ?R w1 w2" by auto
  have "(a + Suc n) mod 2 ^ 62 \<noteq> a"
    using Suc.prems(1,2) by (cases "a + Suc n < 2 ^ 62") (simp_all add: le_mod_geq)
  then have "(of_nat a :: u64) \<noteq> of_nat ((a + Suc n) mod 2 ^ 62)"
    using Suc.prems(1) of_nat64_eq [of a "(a + Suc n) mod 2 ^ 62"] by auto
  then have "dump_records env m (of_nat a) (of_nat ((a + Suc n) mod 2 ^ 62)) w =
      dump_records env m (of_nat ?b) (of_nat ((a + Suc n) mod 2 ^ 62)) w1"
    using 1(1) next_id [OF Suc.prems(1)] by (simp add: dump_records.simps [of _ _ "of_nat a"])
  then have "dump_records env m (of_nat a) (of_nat ((a + Suc n) mod 2 ^ 62)) w = Some (True, w2)"
    unfolding h 2(1) .
  with 2(2) writes_trans [OF 1(3) 2(3)] show ?case unfolding T by blast
qed

text \<open>
  C14. The log of a kernel with the lockless ring: when the ring can be read and its blocks are well formed,
  \<^verbatim>\<open>dump_lockless_dmesg\<close> returns TRUE and has appended to the output exactly the messages of the identifiers from the tail to the head
  (modulo \<open>2 ^ 62\<close>), in this order: a line with the time and the caller for each committed record that has text, with
  the characters of its block, wrapped blocks included, and nothing for the other records. The buffer for
  the lines never overflows, and where it is flushed makes no difference.
\<close>

theorem lockless_log_exact:
  assumes "prb_setup env = Ready m (tail_id, head_id)" "open_dump_ok env" "close_ok env"
    and "ring_holds env m ds" "blocks_ok (text_data m) ds" "unat tail_id < 2 ^ 62" "unat head_id < 2 ^ 62"
    and "ready (length (log_text (char_signed env) (text_data m) ds (ring_ids tail_id head_id))) w" "at_end w"
  shows "\<exists>w'. dump_lockless_dmesg env w = Some (True, w') \<and>
     out w' = out w @ log_text (char_signed env) (text_data m) ds (ring_ids tail_id head_id)"
proof -
  let ?n = "(unat head_id + 2 ^ 62 - unat tail_id) mod 2 ^ 62"
  have "(unat tail_id + ?n) mod 2 ^ 62 = (unat tail_id + (unat head_id + 2 ^ 62 - unat tail_id)) mod 2 ^ 62"
    by (simp only: mod_add_right_eq)
  also have "\<dots> = unat head_id" using assms(6,7) by simp
  finally have h: "(unat tail_id + ?n) mod 2 ^ 62 = unat head_id" .
  have "?n < 2 ^ 62" by simp
  from dump_records_ok [OF assms(4-6) this, of 0 w] assms(8) obtain w' where
    "dump_records env m (of_nat (unat tail_id)) (of_nat (unat head_id)) w = Some (True, w')"
    "writes (log_text (char_signed env) (text_data m) ds (ring_ids tail_id head_id)) w w'"
    unfolding h ring_ids_def by auto
  with writes_at_end [OF this(2) assms(9)] assms(1-3) show ?thesis by (simp add: dump_lockless_dmesg_def)
qed

text \<open>A ring with two descriptors and 32 bytes of text; the record of the head is not committed yet.\<close>

definition sample_descs :: "ring_desc list" where
  "sample_descs = [\<lparr>rd_state = 0x4000000000000004, rd_begin = 24, rd_next = 48, rd_ts = 1000002000, rd_len = 3, rd_cid = Some 7\<rparr>,
     \<lparr>rd_state = 5, rd_begin = 0, rd_next = 0, rd_ts = 0, rd_len = 0, rd_cid = Some 0\<rparr>]"

definition sample_log_mem :: "u64 \<Rightarrow> nat \<Rightarrow> u8 list option" where
  "sample_log_mem a n =
     (if a = 0x100 then Some [0, 0x10, 0, 0, 0, 0, 0, 0]
      else if a = 0x1000 then Some [1, 0, 0, 0, 0, 0, 0, 0, 0, 0x20, 0, 0, 0, 0, 0, 0, 0, 0x30, 0, 0, 0, 0, 0, 0, 5, 0, 0, 0, 0, 0, 0, 0,
        4, 0, 0, 0, 0, 0, 0, 0, 5, 0, 0, 0, 0, 0, 0, 0, 0, 0x40, 0, 0, 0, 0, 0, 0]
      else if a = 0x2000 then Some [4, 0, 0, 0, 0, 0, 0, 0x40, 24, 0, 0, 0, 0, 0, 0, 0, 48, 0, 0, 0, 0, 0, 0, 0,
        5, 0, 0, 0, 0, 0, 0, 0, 0, 0, 0, 0, 0, 0, 0, 0, 0, 0, 0, 0, 0, 0, 0, 0]
      else if a = 0x3000 then Some [0xd0, 0xd1, 0x9a, 0x3b, 0, 0, 0, 0, 3, 0, 0, 0, 7, 0, 0, 0, 0, 0, 0, 0, 0, 0, 0, 0, 0, 0, 0, 0, 0, 0, 0, 0]
      else if a = 0x4000 then Some [0, 0, 0, 0, 0, 0, 0, 0, 104, 105, 2, 0, 0, 0, 0, 0, 0, 0, 0, 0, 0, 0, 0, 0, 0, 0, 0, 0, 0, 0, 0, 0]
      else None)"

definition sample_log_env :: log_env where
  "sample_log_env =
     \<lparr>lg_readmem = sample_log_mem, lg_malloc = (\<lambda>_. True), char_signed = True, open_files_ok = True, flag_refiltering_log = False,
      flag_sadump_log = False, elf_info_ok = True, initial_ok = True, open_dump_ok = True, close_ok = True, ftruncate_ok = True,
      flag_partial_dmesg = False, kernel_version = kernel_ver 6 1 0, SYMBOL_prb = 0x100, SYMBOL_clear_seq = 0, SYMBOL_log_buf = 0,
      SYMBOL_log_buf_len = 0, SYMBOL_log_end = 0, SYMBOL_log_first_idx = 0, SYMBOL_log_next_idx = 0, SYMBOL_clear_idx = 0,
      SIZE_printk_log = 16, SIZE_printk_ringbuffer = 56, SIZE_prb_desc = 24, SIZE_printk_info = 16, SIZE_latched_seq = - 1,
      log_ts_nsec = 0, log_len = 8, log_text_len = 10, log_caller_id = - 1,
      ringbuffer_desc_ring = 0, ringbuffer_text_data_ring = 40, desc_ring_count_bits = 0, desc_ring_descs = 8, desc_ring_infos = 16,
      desc_ring_head_id = 24, desc_ring_tail_id = 32, desc_state_var = 0, desc_text_blk_lpos = 8, blk_lpos_begin = 0, blk_lpos_next = 8,
      info_ts_nsec = 0, info_text_len = 8, info_caller_id = 12, data_ring_size_bits = 0, data_ring_data = 8, atomic_long_counter = 0, latched_seq_val = 0\<rparr>"

definition sample_map :: prb_map where
  "sample_map = \<lparr>desc_ring_count = 2, descs = the (sample_log_mem 0x2000 48), infos = the (sample_log_mem 0x3000 32),
     text_data_ring_size = 32, text_data = the (sample_log_mem 0x4000 32)\<rparr>"

definition sample_log_writer :: writer where
  "sample_log_writer = \<lparr>is_stdout = False, flag_dry_run = False, size_limit = None, flag_nospace = False, write_bytes = 0, pos = 0, out = [],
     orc = EINTR # replicate 100 (Wrote 7)\<rparr>"

lemma sample_log_fields:
  "lg_readmem sample_log_env = sample_log_mem"
  "lg_malloc sample_log_env = (\<lambda>_. True)"
  "char_signed sample_log_env = True"
  "open_files_ok sample_log_env = True"
  "flag_refiltering_log sample_log_env = False"
  "flag_sadump_log sample_log_env = False"
  "elf_info_ok sample_log_env = True"
  "initial_ok sample_log_env = True"
  "open_dump_ok sample_log_env = True"
  "close_ok sample_log_env = True"
  "ftruncate_ok sample_log_env = True"
  "flag_partial_dmesg sample_log_env = False"
  "kernel_version sample_log_env = kernel_ver 6 1 0"
  "SYMBOL_prb sample_log_env = 0x100"
  "SYMBOL_clear_seq sample_log_env = 0"
  "SYMBOL_log_buf sample_log_env = 0"
  "SYMBOL_log_buf_len sample_log_env = 0"
  "SYMBOL_log_end sample_log_env = 0"
  "SYMBOL_log_first_idx sample_log_env = 0"
  "SYMBOL_log_next_idx sample_log_env = 0"
  "SYMBOL_clear_idx sample_log_env = 0"
  "SIZE_printk_log sample_log_env = 16"
  "SIZE_printk_ringbuffer sample_log_env = 56"
  "SIZE_prb_desc sample_log_env = 24"
  "SIZE_printk_info sample_log_env = 16"
  "SIZE_latched_seq sample_log_env = - 1"
  "log_ts_nsec sample_log_env = 0"
  "log_len sample_log_env = 8"
  "log_text_len sample_log_env = 10"
  "log_caller_id sample_log_env = - 1"
  "ringbuffer_desc_ring sample_log_env = 0"
  "ringbuffer_text_data_ring sample_log_env = 40"
  "desc_ring_count_bits sample_log_env = 0"
  "desc_ring_descs sample_log_env = 8"
  "desc_ring_infos sample_log_env = 16"
  "desc_ring_head_id sample_log_env = 24"
  "desc_ring_tail_id sample_log_env = 32"
  "desc_state_var sample_log_env = 0"
  "desc_text_blk_lpos sample_log_env = 8"
  "blk_lpos_begin sample_log_env = 0"
  "blk_lpos_next sample_log_env = 8"
  "info_ts_nsec sample_log_env = 0"
  "info_text_len sample_log_env = 8"
  "info_caller_id sample_log_env = 12"
  "data_ring_size_bits sample_log_env = 0"
  "data_ring_data sample_log_env = 8"
  "atomic_long_counter sample_log_env = 0"
  "latched_seq_val sample_log_env = 0"
  by (simp_all add: sample_log_env_def)

lemmas sample_eval = sample_log_fields sample_log_mem_def rd_mem_def read_array_def some_or_def shift_int_def
  USHORT_def UINT_def ULONG_def field_def get64_def get_le_def caller_id_def

lemma sample_setup: "prb_setup sample_log_env = Ready sample_map (4, 5)"
  by (simp add: prb_setup_def prb_arrays_def clear_tail_def sample_map_def sample_eval)

lemma sample_lengths: "length sample_descs = 2" "length (text_data sample_map) = 32" "desc_ring_count sample_map = 2" "text_data_ring_size sample_map = 32"
  by (simp_all add: sample_map_def sample_descs_def sample_log_mem_def)

lemma sample_ring: "ring_holds sample_log_env sample_map sample_descs" "blocks_ok (text_data sample_map) sample_descs"
proof -
  have "desc_at sample_log_env sample_map 0 (sample_descs ! 0)" "desc_at sample_log_env sample_map (Suc 0) (sample_descs ! Suc 0)"
    by (simp_all add: desc_at_def sample_map_def sample_descs_def sample_eval)
  moreover have "sample_descs \<noteq> []" "text_data sample_map \<noteq> []" using sample_lengths by auto
  ultimately show "ring_holds sample_log_env sample_map sample_descs"
    by (auto simp: ring_holds_def sample_lengths less_2_cases_iff)
  show "blocks_ok (text_data sample_map) sample_descs"
    unfolding blocks_ok_def block_start_def sample_lengths by (simp add: sample_descs_def)
qed

lemma sample_text: "log_text True (text_data sample_map) sample_descs (ring_ids 4 5) = map of_char ''[    1.000002] [      T7] hi'' @ [92, 120, 48, 50, 10]"
proof -
  have r: "replicate 4 (32::u8) = [32, 32, 32, 32]" "replicate 5 (48::u8) = [48, 48, 48, 48, 48]" "replicate 6 (32::u8) = [32, 32, 32, 32, 32, 32]"
    by (simp_all add: eval_nat_numeral)
  have "ring_ids 4 5 = [4, 5]" by (simp add: ring_ids_def)
  moreover have "ring_text True (text_data sample_map) sample_descs 5 = []"
    by (simp add: ring_text_def sample_lengths holds_message_def) (simp add: sample_descs_def)
  moreover have "block_chars (text_data sample_map) (sample_descs ! 0) = [104, 105, 2]"
    by (simp add: block_chars_def block_start_def sample_lengths) (simp add: sample_descs_def sample_map_def sample_log_mem_def)
  then have "ring_text True (text_data sample_map) sample_descs 4 = message_text True 1000002000 (Some 7) [104, 105, 2]"
    by (simp add: ring_text_def sample_lengths holds_message_def) (simp add: sample_descs_def)
  ultimately show ?thesis by (simp add: log_text_def message_text_def head_text_def time_text_def caller_text_def pad_left_def decimal_digits.simps
      char_text_def escape_text_def hex_digit_def isprint_u8_def isspace_u8_def PID_CHARS_DEFAULT_def r)
qed

theorem lockless_log_exact_witness:
  "\<exists>w'. dump_lockless_dmesg sample_log_env sample_log_writer = Some (True, w') \<and>
     out w' = map of_char ''[    1.000002] [      T7] hi'' @ [92, 120, 48, 50, 10]"
proof -
  have 1: "open_dump_ok sample_log_env" "close_ok sample_log_env" "char_signed sample_log_env = True" by (simp_all add: sample_log_fields)
  have 2: "unat (4::u64) < 2 ^ 62" "unat (5::u64) < 2 ^ 62" by simp_all
  have "length (map of_char ''[    1.000002] [      T7] hi'' @ [92, 120, 48, 50, 10 :: u8]) = 33" by simp
  moreover have "ready 33 sample_log_writer" "at_end sample_log_writer" "out sample_log_writer = []" by code_simp+
  ultimately show ?thesis using lockless_log_exact [OF sample_setup 1(1,2) sample_ring 2, of sample_log_writer]
    unfolding 1(3) sample_text by (simp only: append_Nil)
qed

text \<open>
  With \<^verbatim>\<open>--partial-dmesg\<close> the walk is to begin at the record of \<^verbatim>\<open>clear_seq\<close>, taken as an offset in the lap of the head. If the
  ring has wrapped around since then, the identifier is ahead of the head, and the loop goes through almost all \<open>2 ^ 62\<close> identifiers.
\<close>

theorem clear_seq_ahead_of_head:
  assumes "flag_partial_dmesg env" "SYMBOL_clear_seq env \<noteq> 0" "SIZE_latched_seq env = NOT_FOUND_STRUCTURE"
    and "rd_mem env (SYMBOL_clear_seq env) 8 = Some b" "count \<noteq> 0" "unat head_id + unat count < 2 ^ 62"
    and "unat head_id mod unat count < unat (get64 b 0) mod unat count"
  shows "\<exists>tail. clear_tail env count head_id tail_id = Some tail \<and>
     length (ring_ids tail head_id) = Suc (2 ^ 62 - (unat (get64 b 0) mod unat count - unat head_id mod unat count))"
proof -
  let ?h = "unat head_id" and ?c = "unat count" and ?s = "unat (get64 b 0) mod unat count"
  let ?t = "head_id - head_id mod count + get64 b 0 mod count"
  have c: "0 < ?c" using assms(5) by (simp add: unat_gt_0)
  then have s: "?s < ?c" by simp
  have "head_id mod count \<le> head_id" by (simp add: word_le_nat_alt unat_mod)
  then have "unat (head_id - head_id mod count) = ?h - ?h mod ?c" by (simp add: unat_sub unat_mod)
  moreover have "?h - ?h mod ?c \<le> ?h" by simp
  ultimately have t: "unat ?t = ?h - ?h mod ?c + ?s"
    using s assms(6) by (subst unat_plus64) (simp_all add: unat_mod)
  have "?h mod ?c \<le> ?h" by simp
  then have "?h + 2 ^ 62 - unat ?t = 2 ^ 62 - (?s - ?h mod ?c)" using t assms(7) by simp
  moreover have "2 ^ 62 - (?s - ?h mod ?c) < (2::nat) ^ 62" using assms(7) by simp
  ultimately have "length (ring_ids ?t head_id) = Suc (2 ^ 62 - (?s - ?h mod ?c))" by (simp add: ring_ids_def)
  then show ?thesis using assms(1-4) by (simp add: clear_tail_def)
qed

theorem clear_seq_ahead_of_head_witness:
  "\<exists>tail. clear_tail (sample_log_env\<lparr>flag_partial_dmesg := True, SYMBOL_clear_seq := 0x200,
       lg_readmem := (\<lambda>a n. Some [3, 0, 0, 0, 0, 0, 0, 0])\<rparr>) 4 9 6 = Some tail \<and> length (ring_ids tail 9) = Suc (2 ^ 62 - 2)"
proof -
  let ?e = "sample_log_env\<lparr>flag_partial_dmesg := True, SYMBOL_clear_seq := 0x200, lg_readmem := (\<lambda>a n. Some [3, 0, 0, 0, 0, 0, 0, 0])\<rparr>"
  have 1: "flag_partial_dmesg ?e" "SYMBOL_clear_seq ?e \<noteq> 0" "SIZE_latched_seq ?e = - 1" "rd_mem ?e (SYMBOL_clear_seq ?e) 8 = Some [3, 0, 0, 0, 0, 0, 0, 0]"
    by (simp_all add: sample_log_fields rd_mem_def)
  have "get64 [3, 0, 0, 0, 0, 0, 0, 0] 0 = 3" by (simp add: get64_def get_le_def)
  then show ?thesis using clear_seq_ahead_of_head [OF 1, of 4 9 6] by simp
qed

section \<open>The ring of records\<close>

text \<open>The text of the entry at \<open>p\<close>, when its fields and its text are inside of the buffer.\<close>

definition entry_text :: "log_env \<Rightarrow> u8 list \<Rightarrow> nat \<Rightarrow> u8 list option" where
  "entry_text env lb p =
     (case (USHORT lb (of_nat p + log_text_len env), ULONG lb (of_nat p + log_ts_nsec env), caller_id (log_caller_id env) lb (of_nat p)) of
        (Some n, Some ts, Some cid) \<Rightarrow>
          if p + unat (SIZE_printk_log env) + unat n \<le> length lb
          then Some (message_text (char_signed env) ts cid (take (unat n) (drop (p + unat (SIZE_printk_log env)) lb))) else None
      | _ \<Rightarrow> None)"

lemma dump_log_entry_ok:
  assumes "entry_text env lb p = Some t" "ready (length t + k) w"
  shows "\<exists>w'. dump_log_entry env lb p w = Some (True, w') \<and> ready k w' \<and> writes t w w'"
proof -
  obtain n ts cid where f: "USHORT lb (of_nat p + log_text_len env) = Some n" "ULONG lb (of_nat p + log_ts_nsec env) = Some ts"
    "caller_id (log_caller_id env) lb (of_nat p) = Some cid" "p + unat (SIZE_printk_log env) + unat n \<le> length lb"
    "t = message_text (char_signed env) ts cid (take (unat n) (drop (p + unat (SIZE_printk_log env)) lb))"
    using assms(1) by (auto simp: entry_text_def split: option.splits if_splits)
  from print_message_ok [OF f(4) assms(2) [unfolded f(5)]] f show ?thesis by (auto simp: dump_log_entry_def writes_def)
qed

text \<open>
  What the record at \<open>p\<close> prints; a record of length 0 stands for the one at the beginning of the buffer. \<open>good\<close>: it and the
  step to the next record are defined.
\<close>

definition printed :: "log_env \<Rightarrow> u8 list \<Rightarrow> nat \<Rightarrow> u8 list option" where
  "printed env lb p = Option.bind (log_from_ptr env lb p) (entry_text env lb)"

definition good :: "log_env \<Rightarrow> u8 list \<Rightarrow> nat \<Rightarrow> bool" where
  "good env lb p \<longleftrightarrow> printed env lb p \<noteq> None \<and> log_next env lb p \<noteq> None"

definition pass_text :: "log_env \<Rightarrow> u8 list \<Rightarrow> nat list \<Rightarrow> u8 list" where
  "pass_text env lb ps = concat (map (\<lambda>p. the (printed env lb p)) ps)"

lemma pass_text_simps [simp]: "pass_text env lb [] = []" "pass_text env lb (p # ps) = the (printed env lb p) @ pass_text env lb ps"
  "pass_text env lb (ps @ qs) = pass_text env lb ps @ pass_text env lb qs"
  by (simp_all add: pass_text_def)

lemma good_step:
  assumes "good env lb p" "ready (length (the (printed env lb p)) + k) w"
  obtains lp w' q where "log_from_ptr env lb p = Some lp" "dump_log_entry env lb lp w = Some (True, w')" "ready k w'"
    "writes (the (printed env lb p)) w w'" "log_next env lb p = Some q"
proof -
  from assms(1) obtain lp t q where f: "log_from_ptr env lb p = Some lp" "entry_text env lb lp = Some t" "log_next env lb p = Some q"
    by (auto simp: good_def printed_def bind_eq_None_conv bind_eq_Some_conv)
  then have "printed env lb p = Some t" by (simp add: printed_def)
  with dump_log_entry_ok [OF f(2), of k w] assms(2) that f show thesis by auto
qed

text \<open>The loop follows the walk of the detection of cycles.\<close>

lemma log_loop_walk:
  assumes "walk (log_next_cb env lb) n dc = (ps, False, dc')" "\<forall>q\<in>set (butlast (p # ps)). good env lb q \<and> q \<noteq> nx"
    and "\<forall>q\<in>set ps. \<not> outside_log env lb q" "ready (length (pass_text env lb (butlast (p # ps))) + k) w"
  shows "\<exists>w'. log_loop env lb fi nx p dc w = log_loop env lb fi nx (last (p # ps)) dc' w' \<and> ready k w' \<and>
     writes (pass_text env lb (butlast (p # ps))) w w'"
  using assms
proof (induction n arbitrary: p dc ps w)
  case 0
  then show ?case by auto
next
  case (Suc n)
  from Suc.prems(1) obtain q dc1 ps' where q: "dc_next (log_next_cb env lb) dc = (Some q, dc1)" "ps = q # ps'"
    "walk (log_next_cb env lb) n dc1 = (ps', False, dc')" by (auto split: prod.splits option.splits)
  let ?r = "pass_text env lb (butlast (q # ps'))"
  have g: "good env lb p" "p \<noteq> nx" using Suc.prems(2) q(2) by auto
  have "ready (length (the (printed env lb p)) + (length ?r + k)) w" using Suc.prems(4) q(2) by (simp add: add.assoc)
  from good_step [OF g(1) this] obtain lp w1 q' where 1: "log_from_ptr env lb p = Some lp" "dump_log_entry env lb lp w = Some (True, w1)"
    "ready (length ?r + k) w1" "writes (the (printed env lb p)) w w1" "log_next env lb p = Some q'" .
  have o: "\<not> outside_log env lb q" using Suc.prems(3) q(2) by simp
  from Suc.IH [OF q(3) _ _ 1(3)] Suc.prems(2,3) q(2) obtain w2 where
    2: "log_loop env lb fi nx q dc1 w1 = log_loop env lb fi nx (last (q # ps')) dc' w2" "ready k w2" "writes ?r w1 w2" by auto
  have "log_loop env lb fi nx p dc w = log_loop env lb fi nx q dc1 w1"
    using g(2) 1 q(1) o by (simp add: log_loop.simps [of _ _ _ _ p])
  with 2 writes_trans [OF 1(4) 2(3)] q(2) show ?case by auto
qed

text \<open>At the report of a cycle the output is emptied and written again.\<close>

lemma log_loop_cycle:
  assumes "walk (log_next_cb env lb) n dc = (ps, True, dc')" "\<forall>q\<in>set (p # ps). good env lb q \<and> q \<noteq> nx"
    and "\<forall>q\<in>set ps. \<not> outside_log env lb q" "ready (length (pass_text env lb (p # ps)) + k) w"
    and "ftruncate_ok env" "dc_find_start (log_next_cb env lb) dc' = Some (start, len)"
  shows "\<exists>w'. log_loop env lb fi nx p dc w = map_option (\<lambda>(_, w''). (False, w'')) (rewrite_loop env lb start len fi False (truncate_out w')) \<and>
     ready k w'"
  using assms(1-4)
proof (induction n arbitrary: p dc ps w)
  case 0
  then show ?case by auto
next
  case (Suc n)
  obtain r dc1 where r: "dc_next (log_next_cb env lb) dc = (r, dc1)" by fastforce
  let ?r = "pass_text env lb ps"
  have g: "good env lb p" "p \<noteq> nx" using Suc.prems(2) by auto
  have "ready (length (the (printed env lb p)) + (length ?r + k)) w" using Suc.prems(4) by (simp add: add.assoc)
  from good_step [OF g(1) this] obtain lp w1 q' where 1: "log_from_ptr env lb p = Some lp" "dump_log_entry env lb lp w = Some (True, w1)"
    "ready (length ?r + k) w1" "log_next env lb p = Some q'" .
  show ?case
  proof (cases r)
    case None
    with Suc.prems(1) r have "ps = []" "dc' = dc1" by simp_all
    moreover have "log_loop env lb fi nx p dc w = map_option (\<lambda>(_, w''). (False, w'')) (rewrite_loop env lb start len fi False (truncate_out w1))"
      using g(2) 1 r None assms(5,6) \<open>dc' = dc1\<close> by (simp add: log_loop.simps [of _ _ _ _ p])
    ultimately show ?thesis using 1(3) by auto
  next
    case (Some q)
    with Suc.prems(1) r obtain ps' where q: "ps = q # ps'" "walk (log_next_cb env lb) n dc1 = (ps', True, dc')" by (auto split: prod.splits)
    have "\<not> outside_log env lb q" using Suc.prems(3) q(1) by simp
    then have "log_loop env lb fi nx p dc w = log_loop env lb fi nx q dc1 w1"
      using g(2) 1 r Some by (simp add: log_loop.simps [of _ _ _ _ p])
    with Suc.IH [OF q(2)] Suc.prems(2,3) 1(3) q(1) show ?thesis by auto
  qed
qed

lemma good_cb: "good env lb p \<Longrightarrow> log_next env lb p = Some (log_next_cb env lb p)"
  by (auto simp: good_def log_next_cb_def)

text \<open>The second pass: once in the cycle, one record is printed for each that is left.\<close>

lemma rewrite_in_cycle:
  assumes "n < 2 ^ 64" "\<forall>i. good env lb (orb (log_next_cb env lb) p i)" "c \<or> n = 0 \<or> log_from_ptr env lb p = Some start"
    and "ready (length (pass_text env lb (map (orb (log_next_cb env lb) p) [0..<n])) + k) w"
  shows "\<exists>w'. rewrite_loop env lb start (of_nat n) p c w = Some (True, w') \<and> writes (pass_text env lb (map (orb (log_next_cb env lb) p) [0..<n])) w w'"
  using assms
proof (induction n arbitrary: p c w)
  case 0
  then show ?case by (simp add: rewrite_loop.simps)
next
  case (Suc n)
  let ?f = "log_next_cb env lb"
  let ?r = "pass_text env lb (map (orb ?f (?f p)) [0..<n])"
  have m: "map (orb ?f p) [0..<Suc n] = p # map (orb ?f (?f p)) [0..<n]"
    by (simp add: upt_rec [of 0] map_Suc_upt [symmetric] comp_def funpow_swap1 del: upt_Suc)
  have g: "good env lb p" using Suc.prems(2) by (metis funpow_0)
  have g': "\<forall>i. good env lb (orb ?f (?f p) i)" using Suc.prems(2) by (metis funpow_swap1 funpow.simps(2) comp_apply)
  have "ready (length (the (printed env lb p)) + (length ?r + k)) w" using Suc.prems(4) unfolding m by (simp add: add.assoc)
  from good_step [OF g this] obtain lp w1 q where 1: "log_from_ptr env lb p = Some lp" "dump_log_entry env lb lp w = Some (True, w1)"
    "ready (length ?r + k) w1" "writes (the (printed env lb p)) w w1" "log_next env lb p = Some q" .
  have q: "q = ?f p" using good_cb [OF g] 1(5) by simp
  from Suc.IH [OF _ g' _ 1(3), of True] Suc.prems(1) obtain w2 where
    2: "rewrite_loop env lb start (of_nat n) (?f p) True w1 = Some (True, w2)" "writes ?r w1 w2" by auto
  have c: "c \<or> lp = start" using Suc.prems(3) 1(1) by auto
  have "(of_nat (Suc n) :: u64) \<noteq> 0" using Suc.prems(1) of_nat64_eq [of "Suc n" 0] by simp
  then have "rewrite_loop env lb start (of_nat (Suc n)) p c w = rewrite_loop env lb start (of_nat n) (?f p) True w1"
    using 1 c q by (simp add: rewrite_loop.simps [of _ _ _ _ p])
  with 2 writes_trans [OF 1(4) 2(2)] show ?case unfolding m by auto
qed

text \<open>Before the cycle the counter does not change.\<close>

lemma rewrite_tail:
  assumes "len \<noteq> 0" "\<forall>i<m. good env lb (orb (log_next_cb env lb) p i) \<and> log_from_ptr env lb (orb (log_next_cb env lb) p i) \<noteq> Some start"
    and "ready (length (pass_text env lb (map (orb (log_next_cb env lb) p) [0..<m])) + k) w"
  shows "\<exists>w'. rewrite_loop env lb start len p False w = rewrite_loop env lb start len (orb (log_next_cb env lb) p m) False w' \<and> ready k w' \<and>
     writes (pass_text env lb (map (orb (log_next_cb env lb) p) [0..<m])) w w'"
  using assms(2,3)
proof (induction m arbitrary: k)
  case 0
  then show ?case by simp
next
  case (Suc m)
  let ?f = "log_next_cb env lb"
  let ?p = "orb ?f p m"
  have "ready (length (pass_text env lb (map (orb ?f p) [0..<m])) + (length (the (printed env lb ?p)) + k)) w"
    using Suc.prems(2) by (simp add: add.assoc)
  from Suc.IH [OF _ this] Suc.prems(1) obtain w1 where
    1: "rewrite_loop env lb start len p False w = rewrite_loop env lb start len ?p False w1" "ready (length (the (printed env lb ?p)) + k) w1"
    "writes (pass_text env lb (map (orb ?f p) [0..<m])) w w1" by auto
  have g: "good env lb ?p" "log_from_ptr env lb ?p \<noteq> Some start" using Suc.prems(1) by auto
  from good_step [OF g(1) 1(2)] obtain lp w2 q where 2: "log_from_ptr env lb ?p = Some lp" "dump_log_entry env lb lp w1 = Some (True, w2)"
    "ready k w2" "writes (the (printed env lb ?p)) w1 w2" "log_next env lb ?p = Some q" .
  have "rewrite_loop env lb start len ?p False w1 = rewrite_loop env lb start len (?f ?p) False w2"
    using 2 g(2) good_cb [OF g(1)] assms(1) by (simp add: rewrite_loop.simps [of _ _ _ _ ?p])
  with 1 2 writes_trans [OF 1(3) 2(4)] show ?case by auto
qed

lemma rewrite_loop_ok:
  assumes r: "rho (log_next_cb env lb) p mu lam" "lam < 2 ^ 64" and g: "\<forall>i. good env lb (orb (log_next_cb env lb) p i)"
    and s: "log_from_ptr env lb (orb (log_next_cb env lb) p mu) = Some (orb (log_next_cb env lb) p mu)"
      "\<forall>i<mu. log_from_ptr env lb (orb (log_next_cb env lb) p i) \<noteq> Some (orb (log_next_cb env lb) p mu)"
    and "ready (length (pass_text env lb (map (orb (log_next_cb env lb) p) [0..<mu + lam]))) w"
  shows "\<exists>w'. rewrite_loop env lb (orb (log_next_cb env lb) p mu) (of_nat lam) p False w = Some (True, w') \<and>
     writes (pass_text env lb (map (orb (log_next_cb env lb) p) [0..<mu + lam])) w w'"
proof -
  let ?f = "log_next_cb env lb"
  let ?s = "orb ?f p mu"
  let ?a = "pass_text env lb (map (orb ?f p) [0..<mu])" and ?b = "pass_text env lb (map (orb ?f ?s) [0..<lam])"
  have "[mu..<mu + lam] = map (\<lambda>i. mu + i) [0..<lam]" using map_add_upt [of mu lam] by (simp add: add.commute)
  then have "map (orb ?f p) [mu..<mu + lam] = map (orb ?f ?s) [0..<lam]" by (simp only: map_map comp_def orb_add)
  then have ab: "pass_text env lb (map (orb ?f p) [0..<mu + lam]) = ?a @ ?b"
    by (simp only: upt_add_eq_append [OF zero_le, of mu lam] map_append pass_text_simps(3))
  have "(of_nat lam :: u64) \<noteq> 0" using r of_nat64_eq [of lam 0] by (auto simp: rho_def)
  moreover have "\<forall>i<mu. good env lb (orb ?f p i) \<and> log_from_ptr env lb (orb ?f p i) \<noteq> Some ?s" using g s(2) by blast
  moreover have "ready (length ?a + (length ?b + 0)) w" using assms(6) unfolding ab by simp
  ultimately obtain w1 where 1: "rewrite_loop env lb ?s (of_nat lam) p False w = rewrite_loop env lb ?s (of_nat lam) ?s False w1"
    "ready (length ?b + 0) w1" "writes ?a w w1" by (metis rewrite_tail)
  have "\<forall>i. good env lb (orb ?f ?s i)" using g by (metis orb_add)
  from rewrite_in_cycle [OF r(2) this _ 1(2)] s(1) obtain w2 where
    "rewrite_loop env lb ?s (of_nat lam) ?s False w1 = Some (True, w2)" "writes ?b w1 w2" by blast
  with 1(1) writes_trans [OF 1(3) this(2)] show ?thesis unfolding ab by auto
qed

text \<open>The ring is used when its structure is known and it can be read.\<close>

definition log_readable :: "log_env \<Rightarrow> u64 \<Rightarrow> u64 \<Rightarrow> u8 list \<Rightarrow> bool" where
  "log_readable env log_buf log_buf_len lb \<longleftrightarrow> SIZE_printk_log env \<noteq> NOT_FOUND_STRUCTURE \<and> log_len env \<noteq> NOT_FOUND_STRUCTURE \<and>
     log_text_len env \<noteq> NOT_FOUND_STRUCTURE \<and> log_ts_nsec env \<noteq> NOT_FOUND_STRUCTURE \<and> rd_mem env log_buf log_buf_len = Some lb \<and>
     open_dump_ok env \<and> lg_malloc env 56"

lemma dump_new_log_loop:
  assumes "log_readable env log_buf log_buf_len lb"
  obtains dc where "dc_init True (unat fi) = Some dc"
    "dump_new_log env log_buf log_buf_len (Some (fi, ni)) w = log_loop env lb (unat fi) (unat ni) (unat fi) dc w"
  using assms by (auto simp: dump_new_log_def log_readable_def dc_init_def)

text \<open>
  C15. A damaged ring of records: if the records that are reached from the first one run into a cycle and
  never reach the end, \<^verbatim>\<open>dump_dmesg\<close> does not loop: it returns FALSE, and the output holds every record of the tail
  and of the cycle exactly once, in order, whatever was written before the cycle was noticed. This needs that the cycle does
  not begin at a marker for the wrap-around (see \<^verbatim>\<open>rewrite_never_done\<close>).
\<close>

theorem record_log_cycle_cut:
  assumes "log_readable env log_buf log_buf_len lb" "ftruncate_ok env" "rho (log_next_cb env lb) (unat fi) mu lam" "4 * (mu + lam + 2) < 2 ^ 64"
    and "\<forall>i<mu + lam. good env lb (orb (log_next_cb env lb) (unat fi) i) \<and> orb (log_next_cb env lb) (unat fi) i \<noteq> unat ni \<and>
       \<not> outside_log env lb (orb (log_next_cb env lb) (unat fi) i)"
    and "log_from_ptr env lb (orb (log_next_cb env lb) (unat fi) mu) = Some (orb (log_next_cb env lb) (unat fi) mu)"
      "\<forall>i<mu. log_from_ptr env lb (orb (log_next_cb env lb) (unat fi) i) \<noteq> Some (orb (log_next_cb env lb) (unat fi) mu)"
    and "ready (length (pass_text env lb (map (orb (log_next_cb env lb) (unat fi)) [0..<2 * (mu + lam + 2) + lam])) +
       length (pass_text env lb (map (orb (log_next_cb env lb) (unat fi)) [0..<mu + lam]))) w"
  shows "\<exists>w'. dump_new_log env log_buf log_buf_len (Some (fi, ni)) w = Some (False, w') \<and>
     out w' = pass_text env lb (map (orb (log_next_cb env lb) (unat fi)) [0..<mu + lam])"
proof -
  let ?f = "log_next_cb env lb"
  let ?o = "orb ?f (unat fi)"
  let ?T = "pass_text env lb (map ?o [0..<mu + lam])"
  have lam: "0 < lam" using assms(3) by (simp add: rho_def)
  have all: "good env lb (?o i) \<and> ?o i \<noteq> unat ni \<and> \<not> outside_log env lb (?o i)" for i
    using assms(5) fold_idx_less [OF lam, of mu i] orb_fold_idx [OF assms(3), of i] by metis
  from dump_new_log_loop [OF assms(1)] obtain dc where dc: "dc_init True (unat fi) = Some dc"
    "dump_new_log env log_buf log_buf_len (Some (fi, ni)) w = log_loop env lb (unat fi) (unat ni) (unat fi) dc w" by blast
  have m: "mu + 2 \<le> mu + lam + 2" "lam \<le> mu + lam + 2" "(2::nat) \<le> 2 * (mu + lam + 2)" "mu \<le> 2 - 2 \<longrightarrow> 0 < lam" using lam by simp_all
  from walk_detects [OF assms(3) m(1,2) assms(4) dc_init_at [OF dc(1)] m(3,4)]
  obtain k dc' q where w: "0 < k" "2 - 2 + 0 + k \<le> 2 * (mu + lam + 2) + lam" "dc_at ?f (unat fi) q lam dc'"
    "\<forall>n \<ge> k. walk ?f n dc = (map ?o [Suc (2 - 2 + 0) ..< 2 - 2 + 0 + k], True, dc')" by blast
  then have k: "0 < k" "k \<le> 2 * (mu + lam + 2) + lam" "dc_at ?f (unat fi) q lam dc'" "walk ?f k dc = (map ?o [1..<k], True, dc')" by simp_all
  have ps: "unat fi # map ?o [1..<k] = map ?o [0..<k]" using k(1) by (simp add: upt_rec [of 0])
  let ?P = "pass_text env lb (map ?o [k..<2 * (mu + lam + 2) + lam])"
  have "pass_text env lb (map ?o [0..<2 * (mu + lam + 2) + lam]) = pass_text env lb (map ?o [0..<k]) @ ?P"
    using k(2) by (metis le_add_diff_inverse map_append pass_text_simps(3) upt_add_eq_append zero_le)
  then have r: "ready (length (pass_text env lb (unat fi # map ?o [1..<k])) + (length ?P + length ?T)) w"
    using assms(8) unfolding ps by (simp add: add.assoc)
  have "\<forall>q\<in>set (unat fi # map ?o [1..<k]). good env lb q \<and> q \<noteq> unat ni" unfolding ps using all by auto
  moreover have "\<forall>q\<in>set (map ?o [1..<k]). \<not> outside_log env lb q" using all by auto
  ultimately obtain w1 where 1: "log_loop env lb (unat fi) (unat ni) (unat fi) dc w =
      map_option (\<lambda>(_, w''). (False, w'')) (rewrite_loop env lb (?o mu) (of_nat lam) (unat fi) False (truncate_out w1))" "ready (length ?P + length ?T) w1"
    using log_loop_cycle [OF k(4) _ _ r assms(2) find_start_at [OF assms(3) k(3)]] by blast
  have t: "ready (length ?T) (truncate_out w1)" "at_end (truncate_out w1)" "out (truncate_out w1) = []"
    using 1(2) by (auto simp: truncate_out_def ready_def steady_def at_end_def)
  have "lam < 2 ^ 64" using assms(4) by simp
  from rewrite_loop_ok [OF assms(3) this _ assms(6,7) t(1)] all obtain w2 where
    2: "rewrite_loop env lb (?o mu) (of_nat lam) (unat fi) False (truncate_out w1) = Some (True, w2)" "writes ?T (truncate_out w1) w2" by blast
  with writes_at_end [OF 2(2) t(2)] show ?thesis unfolding dc(2) 1(1) by (simp add: t(3))
qed

text \<open>
  An intact ring of records: if the records lead from the first index to the next one without meeting a record
  twice, each of them inside of the buffer, then the result is TRUE and the output has their texts in order.
\<close>

theorem record_log_exact:
  assumes "log_readable env log_buf log_buf_len lb" "close_ok env" "n < 2 ^ 62" "orb (log_next_cb env lb) (unat fi) n = unat ni"
    and "inj_on (orb (log_next_cb env lb) (unat fi)) {..n}" "\<forall>i<n. good env lb (orb (log_next_cb env lb) (unat fi) i)"
    and "\<forall>i\<in>{1..n}. \<not> outside_log env lb (orb (log_next_cb env lb) (unat fi) i)"
    and "ready (length (pass_text env lb (map (orb (log_next_cb env lb) (unat fi)) [0..<n]))) w" "at_end w"
  shows "\<exists>w'. dump_new_log env log_buf log_buf_len (Some (fi, ni)) w = Some (True, w') \<and>
     out w' = out w @ pass_text env lb (map (orb (log_next_cb env lb) (unat fi)) [0..<n])"
proof -
  let ?o = "orb (log_next_cb env lb) (unat fi)"
  from dump_new_log_loop [OF assms(1)] obtain dc where dc: "dc_init True (unat fi) = Some dc"
    "dump_new_log env log_buf log_buf_len (Some (fi, ni)) w = log_loop env lb (unat fi) (unat ni) (unat fi) dc w" by blast
  from walk_quiet [OF dc_init_at [OF dc(1)], of n] assms(3,5) obtain dc' where
    wk: "walk (log_next_cb env lb) n dc = (map ?o [1..<Suc n], False, dc')" by auto
  have ps: "unat fi # map ?o [1..<Suc n] = map ?o [0..<Suc n]" by (simp add: upt_rec [of 0] del: upt_Suc)
  have b: "butlast (map ?o [0..<Suc n]) = map ?o [0..<n]" "last (map ?o [0..<Suc n]) = unat ni" using assms(4) by simp_all
  have "\<forall>q\<in>set (map ?o [0..<n]). good env lb q \<and> q \<noteq> unat ni"
    using assms(6) inj_onD [OF assms(5), of _ n] assms(4) by fastforce
  moreover have "\<forall>q\<in>set (map ?o [1..<Suc n]). \<not> outside_log env lb q" using assms(7) by auto
  moreover have "ready (length (pass_text env lb (map ?o [0..<n])) + 0) w" using assms(8) by simp
  ultimately obtain w' where w': "log_loop env lb (unat fi) (unat ni) (unat fi) dc w = log_loop env lb (unat fi) (unat ni) (unat ni) dc' w'"
    "writes (pass_text env lb (map ?o [0..<n])) w w'" using log_loop_walk [OF wk, of "unat fi" "unat ni" 0 w "unat fi"] unfolding ps b by blast
  with writes_at_end [OF w'(2) assms(9)] assms(2) show ?thesis unfolding dc(2) by (simp add: log_loop.simps [of _ _ _ _ "unat ni"])
qed


text \<open>
  A ring of 64 bytes: a record with one letter at 0, a record without text at 32, behind it the marker for the wrap-around.
  The length of the first record says where the log goes on after it.
\<close>

definition sample_lb :: "u8 \<Rightarrow> u8 list" where
  "sample_lb n = [0, 0, 0, 0, 0, 0, 0, 0, n, 0, 1, 0, 0, 0, 0, 0, 97, 0, 0, 0, 0, 0, 0, 0, 0, 0, 0, 0, 0, 0, 0, 0,
     0, 0, 0, 0, 0, 0, 0, 0, 16, 0, 0, 0, 0, 0, 0, 0, 0, 0, 0, 0, 0, 0, 0, 0, 0, 0, 0, 0, 0, 0, 0, 0]"

definition sample_rec_env :: "u8 \<Rightarrow> log_env" where
  "sample_rec_env n = sample_log_env\<lparr>lg_readmem := (\<lambda>a k. Some (sample_lb n))\<rparr>"

lemma sample_rec_fields:
  "lg_readmem (sample_rec_env n) = (\<lambda>a k. Some (sample_lb n))" "lg_malloc (sample_rec_env n) = (\<lambda>_. True)" "char_signed (sample_rec_env n)"
  "open_dump_ok (sample_rec_env n)" "close_ok (sample_rec_env n)" "ftruncate_ok (sample_rec_env n)"
  "SIZE_printk_log (sample_rec_env n) = 16" "log_len (sample_rec_env n) = 8" "log_text_len (sample_rec_env n) = 10"
  "log_ts_nsec (sample_rec_env n) = 0" "log_caller_id (sample_rec_env n) = - 1"
  by (simp_all add: sample_rec_env_def sample_log_env_def)

lemmas sample_rec_eval = sample_rec_fields sample_lb_def USHORT_def ULONG_def UINT_def field_def get_le_def caller_id_def

lemma sample_readable: "log_readable (sample_rec_env n) 0x100 64 (sample_lb n)"
  by (simp add: log_readable_def rd_mem_def sample_rec_fields)

lemma sample_from_ptr:
  "log_from_ptr (sample_rec_env n) (sample_lb n) 32 = Some 32" "log_from_ptr (sample_rec_env n) (sample_lb n) 48 = Some 0"
  by (simp_all add: log_from_ptr_def sample_rec_eval)

lemma sample_next:
  "log_next (sample_rec_env n) (sample_lb n) 32 = Some 48" "log_next (sample_rec_env n) (sample_lb n) 48 = Some (unat n)"
proof -
  have "unat n < 256" using unsigned_less [of n] by simp
  then have "unat (ucast n :: u16) = unat n" by (simp add: unsigned_ucast_eq take_bit_nat_eq_self_iff)
  then show "log_next (sample_rec_env n) (sample_lb n) 32 = Some 48" "log_next (sample_rec_env n) (sample_lb n) 48 = Some (unat n)"
    by (simp_all add: log_next_def sample_rec_eval)
qed

lemma two_steps: "orb f x 2 = f (f x)" "[0..<2] = [0, Suc 0]"
  by (simp_all add: numeral_2_eq_2)

definition sample_stamp :: "u8 list" where
  "sample_stamp = [91, 32, 32, 32, 32, 48, 46, 48, 48, 48, 48, 48, 48, 93, 32]"

lemma sample_printed:
  "printed (sample_rec_env n) (sample_lb n) 32 = Some (sample_stamp @ [10])"
  "printed (sample_rec_env n) (sample_lb n) 48 = Some (sample_stamp @ [97, 10])"
proof -
  have r: "replicate 4 (32::u8) = [32, 32, 32, 32]" "replicate 5 (48::u8) = [48, 48, 48, 48, 48]" by (simp_all add: eval_nat_numeral)
  show "printed (sample_rec_env n) (sample_lb n) 32 = Some (sample_stamp @ [10])"
    "printed (sample_rec_env n) (sample_lb n) 48 = Some (sample_stamp @ [97, 10])"
    by (simp_all add: printed_def sample_from_ptr)
      (simp_all add: entry_text_def sample_rec_eval message_text_def head_text_def time_text_def decimal_digits.simps pad_left_def r sample_stamp_def
       char_text_def isprint_u8_def)
qed

lemma sample_good: "good (sample_rec_env n) (sample_lb n) 32" "good (sample_rec_env n) (sample_lb n) 48"
  by (simp_all add: good_def sample_printed sample_next)

lemma sample_cb: "log_next_cb (sample_rec_env n) (sample_lb n) 32 = 48" "log_next_cb (sample_rec_env n) (sample_lb n) 48 = unat n"
  by (simp_all add: log_next_cb_def sample_next)

lemma sample_inside: "p \<le> 48 \<Longrightarrow> \<not> outside_log (sample_rec_env n) (sample_lb n) p"
  by (simp add: outside_log_def sample_rec_eval)

lemma sample_log_writer_ok: "ready 99 sample_log_writer" "at_end sample_log_writer" "out sample_log_writer = []"
  by code_simp+

lemma sample_ready: "n \<le> 99 \<Longrightarrow> ready n sample_log_writer"
  using sample_log_writer_ok(1) by (auto simp: ready_def steady_def)

text \<open>The log wraps around and ends at 24.\<close>

theorem record_log_exact_witness:
  "\<exists>w'. dump_new_log (sample_rec_env 24) 0x100 64 (Some (32, 24)) sample_log_writer = Some (True, w') \<and>
     out w' = sample_stamp @ [10] @ sample_stamp @ [97, 10]"
proof -
  let ?o = "orb (log_next_cb (sample_rec_env 24) (sample_lb 24)) (unat (32 :: u32))"
  have o: "?o 0 = 32" "?o (Suc 0) = 48" "?o 2 = unat (24 :: u32)" by (simp_all add: sample_cb two_steps)
  have le: "i = 0 \<or> i = Suc 0 \<or> i = 2" if "i \<le> 2" for i :: nat using that by auto
  have "{..2::nat} = {0, Suc 0, 2}" using le by auto
  then have "inj_on ?o {..2}" using o by (simp add: sample_cb)
  moreover have "\<forall>i<2. good (sample_rec_env 24) (sample_lb 24) (?o i)" using o sample_good by (auto simp: less_2_cases_iff)
  moreover have "\<forall>i\<in>{1..2}. \<not> outside_log (sample_rec_env 24) (sample_lb 24) (?o i)"
    using o sample_inside [of 48 24] sample_inside [of 24 24] le by fastforce
  moreover have T: "pass_text (sample_rec_env 24) (sample_lb 24) (map ?o [0..<2]) = sample_stamp @ [10] @ sample_stamp @ [97, 10]"
    using o by (simp add: two_steps sample_printed sample_cb)
  moreover have "ready (length (pass_text (sample_rec_env 24) (sample_lb 24) (map ?o [0..<2]))) sample_log_writer"
    unfolding T by (intro sample_ready) (simp add: sample_stamp_def)
  ultimately show ?thesis
    using record_log_exact [OF sample_readable sample_rec_fields(5), of 2 24 32 24 sample_log_writer] o(3) sample_log_writer_ok by simp
qed

text \<open>After the marker the log goes back to 32: a cycle of two records.\<close>

lemma sample_rho: "rho (log_next_cb (sample_rec_env 32) (sample_lb 32)) 32 0 2"
proof -
  have "{..<0 + 2::nat} = {0, Suc 0}" by auto
  then show ?thesis by (simp add: rho_def sample_cb two_steps)
qed

lemma sample_orb: "orb (log_next_cb (sample_rec_env 32) (sample_lb 32)) 32 i = (if even i then 32 else 48)"
  "orb (log_next_cb (sample_rec_env 32) (sample_lb 32)) 48 i = (if even i then 48 else 32)"
  by (induction i) (simp_all add: sample_cb)

theorem record_log_cycle_cut_witness:
  "\<exists>w'. dump_new_log (sample_rec_env 32) 0x100 64 (Some (32, 0)) (sample_log_writer\<lparr>orc := replicate 500 (Wrote 5)\<rparr>) = Some (False, w') \<and>
     out w' = sample_stamp @ [10] @ sample_stamp @ [97, 10]"
proof -
  let ?w = "sample_log_writer\<lparr>orc := replicate 500 (Wrote 5)\<rparr>"
  let ?o = "orb (log_next_cb (sample_rec_env 32) (sample_lb 32)) (unat (32 :: u32))"
  have T: "pass_text (sample_rec_env 32) (sample_lb 32) (map ?o [0..<0 + 2]) = sample_stamp @ [10] @ sample_stamp @ [97, 10]"
    by (simp add: two_steps sample_printed sample_cb)
  have R: "length (pass_text (sample_rec_env 32) (sample_lb 32) (map ?o [0..<2 * (0 + 2 + 2) + 2])) = 165"
    by (simp add: sample_orb upt_rec sample_printed sample_stamp_def)
  have "ready 500 ?w" by code_simp
  then have w: "ready (length (pass_text (sample_rec_env 32) (sample_lb 32) (map ?o [0..<2 * (0 + 2 + 2) + 2])) +
      length (pass_text (sample_rec_env 32) (sample_lb 32) (map ?o [0..<0 + 2]))) ?w"
    unfolding T R by (auto simp: ready_def steady_def sample_stamp_def)
  have "\<forall>i<0 + 2. good (sample_rec_env 32) (sample_lb 32) (?o i) \<and> ?o i \<noteq> unat (0 :: u32) \<and> \<not> outside_log (sample_rec_env 32) (sample_lb 32) (?o i)"
    by (simp add: sample_orb sample_good sample_inside)
  moreover have "rho (log_next_cb (sample_rec_env 32) (sample_lb 32)) (unat (32 :: u32)) 0 2" using sample_rho by simp
  ultimately show ?thesis
    using record_log_cycle_cut [OF sample_readable sample_rec_fields(6) _ _ _ _ _ w, of 0] sample_from_ptr(1) T by simp
qed


section \<open>The ring of characters\<close>

lemma unat_two_power: "j < 64 \<Longrightarrow> unat (2 ^ j :: u64) = 2 ^ j"
proof -
  assume "j < 64"
  then have "(2::nat) ^ j < 2 ^ 64" by (intro power_strict_increasing) simp_all
  then show ?thesis using unat_of_nat64 [of "2 ^ j"] by simp
qed

lemma as_int_small: "unat x < 2 ^ 31 \<Longrightarrow> as_int x = x"
proof -
  assume x: "unat x < 2 ^ 31"
  then have u: "unat (ucast x :: u32) = unat x" by (simp add: unsigned_ucast_eq take_bit_nat_eq_self_iff)
  have "uint (ucast x :: u32) < 2 ^ 31"
    using x [folded u] by (simp only: unat_eq_nat_uint nat_less_iff uint_ge_0 of_nat_power of_nat_numeral)
  moreover have "- (2 ^ 31) \<le> uint (ucast x :: u32)" by (rule order_trans [OF _ uint_ge_0]) simp
  ultimately have "sint (ucast x :: u32) = uint (ucast x :: u32)" by (simp add: sint_uint signed_take_bit_int_eq_self_iff)
  also have "\<dots> = int (unat x)" using u by (metis uint_nat)
  finally have "as_int x = of_int (int (unat x))" unfolding as_int_def scast_eq by simp
  then show ?thesis by simp
qed

text \<open>
  \<open>c\<close> is the sequence of all characters that the kernel has logged and \<open>ring\<close> its buffer of \<open>L\<close> bytes, into which it writes
  character number \<open>k\<close> at \<open>k mod L\<close>.
\<close>

definition ring_of :: "(nat \<Rightarrow> u8) \<Rightarrow> nat \<Rightarrow> nat \<Rightarrow> (nat \<Rightarrow> u8) \<Rightarrow> bool" where
  "ring_of c L E ring \<longleftrightarrow> (\<forall>k<E. E - L \<le> k \<longrightarrow> ring (k mod L) = c k)"

definition reads_ring :: "log_env \<Rightarrow> u64 \<Rightarrow> nat \<Rightarrow> (nat \<Rightarrow> u8) \<Rightarrow> bool" where
  "reads_ring env log_buf L ring \<longleftrightarrow> (\<forall>i n. 0 < n \<and> i + n \<le> L \<longrightarrow> lg_readmem env (log_buf + of_nat i) n = Some (map ring [i..<i + n]))"

lemma mod_two_laps: "r < L \<Longrightarrow> i < L \<Longrightarrow> (r + i) mod L = (if i < L - r then r + i else i - (L - r))" for L :: nat
  using le_mod_geq [of L "r + i"] by (cases "r + i < L") auto

lemma ring_in_order:
  assumes "ring_of c L E ring" "0 < L" "L \<le> E"
  shows "map ring [E mod L..<L] @ map ring [0..<E mod L] = map c [E - L..<E]"
proof (rule nth_equalityI)
  show "length (map ring [E mod L..<L] @ map ring [0..<E mod L]) = length (map c [E - L..<E])" using assms by simp
  fix i
  assume "i < length (map ring [E mod L..<L] @ map ring [0..<E mod L])"
  then have i: "i < L" using assms(2) by simp
  have r: "E mod L < L" using assms(2) by simp
  have "(E - L + i) mod L = (E + i) mod L" using assms(3) mod_add_self2 [of "E - L + i" L] by simp
  also have "\<dots> = (E mod L + i) mod L" by (simp add: mod_add_left_eq)
  finally have "c (E - L + i) = ring ((E mod L + i) mod L)" using assms(1,3) i unfolding ring_of_def by (metis add_less_cancel_left le_add1 le_add_diff_inverse2)
  moreover have "(E mod L + i) mod L = (if i < L - E mod L then E mod L + i else i - (L - E mod L))"
    using mod_two_laps [OF r i] by simp
  ultimately show "(map ring [E mod L..<L] @ map ring [0..<E mod L]) ! i = map c [E - L..<E] ! i"
    using i r assms(3) by (simp add: nth_append del: mod_less)
qed

text \<open>
  C34. The ring of characters of old kernels: the output is the last \<open>L\<close> characters that were logged, or all of them if there
  are fewer, in the order in which they were logged, unless their number is a multiple of \<open>L\<close>.
\<close>

theorem old_log_in_order:
  assumes "reads_ring env log_buf (2 ^ j) ring" "ring_of c (2 ^ j) (unat log_end) ring" "j < 31" "unat log_end mod 2 ^ j \<noteq> 0"
    and "open_dump_ok env" "close_ok env" "ready (min (unat log_end) (2 ^ j)) w" "at_end w"
  shows "\<exists>w'. dump_old_log env log_buf log_end (2 ^ j) w = Some (True, w') \<and>
     out w' = out w @ map c [unat log_end - 2 ^ j..<unat log_end]"
proof -
  let ?E = "unat log_end" and ?L = "(2 :: nat) ^ j"
  have L: "unat (2 ^ j :: u64) = ?L" "?L < 2 ^ 31" using assms(3) power_strict_increasing [of j 31 "2 :: nat"] by (simp_all add: unat_two_power)
  have rd: "rd_mem env (log_buf + of_nat i) n = Some (map ring [i..<i + unat n])" if "n \<noteq> 0" "i + unat n \<le> ?L" for i n
    using that assms(1) by (auto simp: rd_mem_def reads_ring_def unat_gt_0)
  have "read_old_log env log_buf log_end (2 ^ j) = Some (map c [?E - ?L..<?E])"
  proof (cases "?E < ?L")
    case True
    then have "map ring [0..<?E] = map c [0..<?E]" using assms(2) by (auto simp: ring_of_def)
    moreover have "log_end \<noteq> 0" using assms(4) by auto
    moreover have "as_int log_end = log_end" using True L(2) by (intro as_int_small) linarith
    ultimately show ?thesis using True rd [of log_end 0] L(1) by (simp add: read_old_log_def word_less_nat_alt)
  next
    case False
    define index where "index = log_end AND (2 ^ j - 1)"
    have i: "unat index = ?E mod ?L"
      by (simp only: index_def mask_eq_exp_minus_1 [symmetric] take_bit_eq_mask [symmetric] unsigned_take_bit_eq) (simp add: take_bit_eq_mod)
    have "?E mod ?L < ?L" by simp
    then have n: "unat (2 ^ j - index) = ?L - ?E mod ?L" using i L(1) by (simp add: unat_sub word_le_nat_alt)
    have nz: "2 ^ j - index \<noteq> 0"
    proof
      assume "2 ^ j - index = 0"
      then have "unat (2 ^ j - index) = 0" by simp
      with n \<open>?E mod ?L < ?L\<close> show False by linarith
    qed
    have "as_int (2 ^ j - index) = 2 ^ j - index" using n L(2) by (intro as_int_small) linarith
    moreover have "(of_nat (?E mod ?L) :: u64) = index" unfolding i [symmetric] by simp
    then have "rd_mem env (log_buf + index) (2 ^ j - index) = Some (map ring [?E mod ?L..<?L])"
      using rd [of "2 ^ j - index" "unat index"] n nz i \<open>?E mod ?L < ?L\<close> by simp
    moreover have "index \<noteq> 0" using i assms(4) by auto
    then have "rd_mem env log_buf index = Some (map ring [0..<?E mod ?L])"
      using rd [of index 0] i \<open>?E mod ?L < ?L\<close> by simp
    moreover have "\<not> log_end < 2 ^ j" using False L(1) by (simp add: word_less_nat_alt)
    ultimately show ?thesis using ring_in_order [OF assms(2)] False
      by (simp add: read_old_log_def Let_def index_def [symmetric])
  qed
  moreover have "map c [?E - ?L..<?E] \<noteq> []" using assms(4) diff_less [of ?L ?E] by (cases "?E = 0") (auto simp del: diff_less)
  moreover have "ready (length (map c [?E - ?L..<?E]) + 0) w" using assms(7) by (cases "?E \<le> ?L") (simp_all add: min_def)
  ultimately obtain w' where "dump_old_log env log_buf log_end (2 ^ j) w = Some (True, w')" "appends (map c [?E - ?L..<?E]) w w'"
    using ready_appends [of "map c [?E - ?L..<?E]" 0 w] assms(5,6) by (auto simp: dump_old_log_def)
  then show ?thesis using writes_at_end [of "map c [?E - ?L..<?E]" w w'] assms(8) \<open>map c [?E - ?L..<?E] \<noteq> []\<close> by (simp add: writes_def)
qed

text \<open>Six letters in a ring of four.\<close>

definition sample_char_env :: log_env where
  "sample_char_env = sample_log_env\<lparr>lg_readmem := (\<lambda>a n. Some (map (\<lambda>p. of_nat (97 + (if p < 2 then p + 4 else p))) [unat a - 0x1000..<unat a - 0x1000 + n]))\<rparr>"

theorem old_log_in_order_witness:
  "\<exists>w'. dump_old_log sample_char_env 0x1000 6 4 sample_log_writer = Some (True, w') \<and> out w' = map of_char ''cdef''"
proof -
  let ?ring = "\<lambda>p. of_nat (97 + (if p < 2 then p + 4 else p)) :: u8" and ?c = "\<lambda>k. of_nat (97 + k) :: u8"
  have "unat (0x1000 + of_nat i :: u64) = 0x1000 + i" if "i \<le> 4" for i
    using that by (subst unat_plus64) (simp_all add: unat_of_nat64)
  then have 1: "reads_ring sample_char_env 0x1000 (2 ^ 2) ?ring" by (auto simp: reads_ring_def sample_char_env_def)
  have "k = 2 \<or> k = 3 \<or> k = 4 \<or> k = 5" if "k < 6" "2 \<le> k" for k :: nat using that by linarith
  then have 2: "ring_of ?c (2 ^ 2) (unat (6 :: u64)) ?ring" by (fastforce simp: ring_of_def)
  have 3: "open_dump_ok sample_char_env" "close_ok sample_char_env" by (simp_all add: sample_char_env_def sample_log_env_def)
  have 4: "ready (min (unat (6 :: u64)) (2 ^ 2)) sample_log_writer" by (simp add: sample_ready)
  have "[2..<6] = [2, 3, 4, 5 :: nat]" by (simp add: upt_rec)
  then show ?thesis using old_log_in_order [OF 1 2 _ _ 3 4] sample_log_writer_ok(2,3) by simp
qed

text \<open>
  When the number of characters is a multiple of the size of the ring, the second part to read is empty. \<^verbatim>\<open>readmem\<close> returns 0
  for it, which is taken for an error: the log is not written.
\<close>

theorem old_log_multiple_fails:
  assumes "unat log_end mod 2 ^ j = 0" "j < 31"
  shows "dump_old_log env log_buf log_end (2 ^ j) w = Some (False, w)"
proof -
  have L: "unat (2 ^ j :: u64) = 2 ^ j" using assms(2) by (simp add: unat_two_power)
  have "unat (log_end AND (2 ^ j - 1)) = 0"
    by (simp only: mask_eq_exp_minus_1 [symmetric] take_bit_eq_mask [symmetric] unsigned_take_bit_eq) (simp add: take_bit_eq_mod assms(1))
  then have z: "log_end AND (2 ^ j - 1) = 0" by (simp add: unat_eq_0)
  have "log_end = 0" if "log_end < 2 ^ j" using that assms(1) L by (simp add: word_less_nat_alt unat_eq_0)
  then show ?thesis using z by (auto simp: dump_old_log_def read_old_log_def rd_mem_def as_int_def Let_def split: option.splits)
qed

end
