(* ===== verification/Split.thy ===== *)
theory Split
  imports Bytes "HOL-Library.Multiset" "HOL-Library.Product_Lexorder"
begin

text \<open>
  Splitting a dump into several files and putting the parts together again (\<^verbatim>\<open>src/makedumpfile.c\<close>): the
  table of split blocks, the page ranges of the parts, and the checks on the parts that are reassembled.
\<close>

section \<open>The table of split blocks\<close>

text \<open>\<^verbatim>\<open>struct SplitBlock\<close>; \<open>table\<close> has \<open>entry_size\<close> bytes for each of the \<open>num\<close> blocks.\<close>

record SplitBlock =
  table :: "u8 list"
  num :: nat
  page_per_splitblock :: nat
  entry_size :: nat

function entry_bits :: "nat \<Rightarrow> nat \<Rightarrow> nat \<Rightarrow> nat" where
  "entry_bits pps entry_num cnt = (if 0 < entry_num \<and> entry_num < pps then entry_bits pps (entry_num * 2) (cnt + 1) else cnt)"
  by pat_completeness auto

termination entry_bits
  by (relation "measure (\<lambda>(pps, e, c). pps - e)") auto

declare entry_bits.simps [simp del]

definition calculate_entry_size :: "nat \<Rightarrow> nat" where
  "calculate_entry_size pps = (let cnt = entry_bits pps 1 1
     in if cnt mod 8 \<noteq> 0 then cnt div 8 + 1 else cnt div 8)"

text \<open>The bytes \<^verbatim>\<open>write_into_splitblock_table\<close> stores and the value \<^verbatim>\<open>read_from_splitblock_table\<close> loads.\<close>

fun write_into_splitblock_table :: "nat \<Rightarrow> u64 \<Rightarrow> u8 list" where
  "write_into_splitblock_table 0 value = []"
| "write_into_splitblock_table (Suc i) value = ucast (value AND 0xff) # write_into_splitblock_table i (drop_bit 8 value)"

definition read_from_splitblock_table :: "u8 list \<Rightarrow> u64" where
  "read_from_splitblock_table entry = fold (\<lambda>b value. push_bit 8 value + ucast b) (rev entry) 0"

text \<open>\<^verbatim>\<open>check_splitblock_size\<close> on a size in KiB (0 for none): the size in bytes.\<close>

definition check_splitblock_size :: "u64 \<Rightarrow> u64 \<Rightarrow> u64 option" where
  "check_splitblock_size page_sz sz =
     (if sz \<noteq> 0
      then (let b = push_bit 10 sz in if b = 0 then None else if b mod page_sz \<noteq> 0 then None else Some b)
      else Some (push_bit 30 1))"

definition prepare_splitblock_table :: "u64 \<Rightarrow> u64 \<Rightarrow> u64 \<Rightarrow> SplitBlock option" where
  "prepare_splitblock_table page_sz max_pfn sz = (case check_splitblock_size page_sz sz of None \<Rightarrow> None
     | Some b \<Rightarrow>
         let pps = b div page_sz; n = divideup max_pfn pps; es = calculate_entry_size (unat pps)
         in Some \<lparr>table = replicate (es * unat n) 0, num = unat n, page_per_splitblock = unat pps, entry_size = es\<rparr>)"

text \<open>
  The loop of \<^verbatim>\<open>get_num_dumpable_cyclic_withsplit\<close> over the frames: \<open>dumpable\<close> says for each frame in turn whether
  it is dumped. The state is (num_dumpable, dumpable_pfn_num, pfn_num, pos, table); \<open>None\<close> is a write outside the table.
\<close>

fun split_count :: "nat \<Rightarrow> nat \<Rightarrow> bool list \<Rightarrow> u64 \<times> u64 \<times> nat \<times> nat \<times> u8 list \<Rightarrow> (u64 \<times> u64 \<times> nat \<times> nat \<times> u8 list) option" where
  "split_count pps es [] st = Some st"
| "split_count pps es (d # ds) (nd, dp, pn, pos, tb) =
     (let nd1 = (if d then nd + 1 else nd); dp1 = (if d then dp + 1 else dp)
      in if pn + 1 \<ge> pps
         then if pos + es \<le> length tb
              then split_count pps es ds (nd1, 0, 0, pos + es,
                     take pos tb @ write_into_splitblock_table es dp1 @ drop (pos + es) tb)
              else None
         else split_count pps es ds (nd1, dp1, pn + 1, pos, tb))"

section \<open>The ranges of the parts\<close>

definition block_value :: "SplitBlock \<Rightarrow> nat \<Rightarrow> u64" where
  "block_value sb k = read_from_splitblock_table (take (entry_size sb) (drop (k * entry_size sb) (table sb)))"

function block_loop :: "SplitBlock \<Rightarrow> nat \<Rightarrow> int \<Rightarrow> nat" where
  "block_loop sb cur needed = (if cur < num sb \<and> needed > 0
     then block_loop sb (cur + 1) (needed - uint (block_value sb cur)) else cur)"
  by pat_completeness auto

termination block_loop
  by (relation "measure (\<lambda>(sb, cur, needed). num sb - cur)") auto

declare block_loop.simps [simp del]

text \<open>\<open>needed\<close> is \<^verbatim>\<open>info->num_dumpable / info->num_dumpfile\<close>.\<close>

definition calculate_end_pfn_by_splitblock :: "SplitBlock \<Rightarrow> u64 \<Rightarrow> int \<Rightarrow> u64 \<Rightarrow> nat \<Rightarrow> u64 \<times> nat" where
  "calculate_end_pfn_by_splitblock sb mx needed start_pfn cur =
     (if mx \<le> start_pfn then (mx, cur)
      else let cur' = block_loop sb cur needed;
               end_pfn = of_nat (cur' * page_per_splitblock sb)
           in (if mx < end_pfn then mx else end_pfn, cur'))"

fun split_loop :: "SplitBlock \<Rightarrow> u64 \<Rightarrow> int \<Rightarrow> nat \<Rightarrow> u64 \<Rightarrow> nat \<Rightarrow> (u64 \<times> u64) list" where
  "split_loop sb mx needed 0 endp cur = [(endp, mx)]"
| "split_loop sb mx needed (Suc i) endp cur =
     (let (endp', cur') = calculate_end_pfn_by_splitblock sb mx needed endp cur
      in (endp, endp') # split_loop sb mx needed i endp' cur')"

definition setup_splitting :: "SplitBlock \<Rightarrow> u64 \<Rightarrow> u64 \<Rightarrow> nat \<Rightarrow> (u64 \<times> u64) list option" where
  "setup_splitting sb mx num_dumpable num_dumpfile =
     (if num_dumpfile \<le> 1 then None
      else Some (split_loop sb mx (uint (num_dumpable div of_nat num_dumpfile)) (num_dumpfile - 1) 0 0))"

section \<open>Checking the parts\<close>

record splitting_info =
  name_dumpfile :: string
  split_start :: u64
  split_end :: u64
  offset_eraseinfo :: u64
  size_eraseinfo :: u64

text \<open>The exchange in \<^verbatim>\<open>sort_splitting_info\<close>: the range and the name of two parts.\<close>

definition swap_parts :: "splitting_info list \<Rightarrow> nat \<Rightarrow> nat \<Rightarrow> splitting_info list" where
  "swap_parts xs i j =
     (let a = xs ! i; b = xs ! j;
          xs1 = xs[i := a\<lparr>split_start := split_start b, split_end := split_end b, name_dumpfile := name_dumpfile b\<rparr>]
      in xs1[j := (xs1 ! j)\<lparr>split_start := split_start a, split_end := split_end a, name_dumpfile := name_dumpfile a\<rparr>])"

function sort_inner :: "splitting_info list \<Rightarrow> nat \<Rightarrow> nat \<Rightarrow> splitting_info list" where
  "sort_inner xs i j = (if j < length xs
     then sort_inner (if split_start (xs ! i) < split_start (xs ! j) then xs else swap_parts xs i j) i (Suc j)
     else xs)"
  by pat_completeness auto

lemma length_swap_parts [simp]: "length (swap_parts xs i j) = length xs"
  by (simp add: swap_parts_def Let_def)

termination sort_inner
  by (relation "measure (\<lambda>(xs, i, j). length xs - j)") auto

declare sort_inner.simps [simp del]

definition sort_splitting_info :: "splitting_info list \<Rightarrow> splitting_info list" where
  "sort_splitting_info xs = fold (\<lambda>i ys. sort_inner ys i i) [0 ..< length xs - 1] xs"

fun check_chain :: "u64 \<Rightarrow> u64 \<Rightarrow> splitting_info list \<Rightarrow> bool" where
  "check_chain mx end_pfn [] = (end_pfn = mx)"
| "check_chain mx end_pfn (p # ps) = (end_pfn = split_start p \<and> check_chain mx (split_end p) ps)"

definition check_splitting_info :: "u64 \<Rightarrow> splitting_info list \<Rightarrow> bool" where
  "check_splitting_info mx ps = (case ps of [] \<Rightarrow> False
     | p # qs \<Rightarrow> split_start p = 0 \<and> check_chain mx (split_end p) qs)"

section \<open>The table keeps its values\<close>

lemma entry_bits_enough: "0 < e \<Longrightarrow> e = 2 ^ (c - 1) \<Longrightarrow> 0 < c \<Longrightarrow> pps \<le> 2 ^ (entry_bits pps e c - 1) \<and> 0 < entry_bits pps e c"
proof (induction pps e c rule: entry_bits.induct)
  case (1 pps e c)
  show ?case
  proof (cases "e < pps")
    case True
    have "e * 2 = 2 ^ (c + 1 - 1)" using 1(3,4) by (cases c) simp_all
    with 1 True show ?thesis by (subst (1 2) entry_bits.simps) simp
  qed (use 1 in \<open>subst (1 2) entry_bits.simps, simp\<close>)
qed

lemma entry_size_enough: "pps < 256 ^ calculate_entry_size pps"
proof -
  define c where "c = entry_bits pps 1 1"
  from entry_bits_enough [of 1 1 pps] have c: "pps \<le> 2 ^ (c - 1)" "0 < c" by (simp_all add: c_def)
  then have "pps < 2 ^ c" by (cases c) (auto intro: le_less_trans)
  also have "c \<le> 8 * calculate_entry_size pps"
  proof -
    have "c = 8 * (c div 8) + c mod 8" "c mod 8 < 8" by simp_all
    then show ?thesis unfolding calculate_entry_size_def c_def [symmetric] Let_def by (auto split: if_split)
  qed
  then have "(2 :: nat) ^ c \<le> 2 ^ (8 * calculate_entry_size pps)" by (intro power_increasing) simp_all
  finally show ?thesis by (simp add: power_mult)
qed

lemma length_write [simp]: "length (write_into_splitblock_table n v) = n"
  by (induction n arbitrary: v) simp_all

lemma read_write: "read_from_splitblock_table (write_into_splitblock_table n v) = take_bit (8 * n) v"
proof (induction n arbitrary: v)
  case 0
  then show ?case by (simp add: read_from_splitblock_table_def)
next
  case (Suc n)
  have "read_from_splitblock_table (write_into_splitblock_table (Suc n) v) =
      push_bit 8 (read_from_splitblock_table (write_into_splitblock_table n (drop_bit 8 v))) + ucast (ucast (v AND 0xff) :: u8)"
    by (simp add: read_from_splitblock_table_def)
  also have "\<dots> = push_bit 8 (take_bit (8 * n) (drop_bit 8 v)) + take_bit 8 v"
  proof -
    have "(ucast (ucast (v AND 0xff) :: u8) :: u64) = take_bit 8 v"
    proof -
      have "v AND 0xff = take_bit 8 v" by (simp add: take_bit_eq_mask mask_numeral)
      then show ?thesis by (intro bit_word_eqI) (auto simp: bit_simps)
    qed
    then show ?thesis by (simp add: Suc)
  qed
  also have "\<dots> = take_bit (8 * Suc n) v"
    by (rule bit_word_eqI, subst disjunctive_add) (auto simp: bit_simps)
  finally show ?case .
qed

text \<open>An entry of the computed size holds every number of pages a block can have.\<close>

lemma splitblock_entry_roundtrip:
  assumes "unat v \<le> pps"
  shows "read_from_splitblock_table (write_into_splitblock_table (calculate_entry_size pps) v) = v"
proof -
  have "unat v < 2 ^ (8 * calculate_entry_size pps)"
    using entry_size_enough [of pps] assms by (simp add: power_mult)
  then show ?thesis
    unfolding read_write by (metis take_bit_nat_eq_self unsigned_take_bit_eq word_eq_iff_unsigned)
qed

section \<open>Sorting the parts\<close>

definition range_of :: "splitting_info \<Rightarrow> u64 \<times> u64" where
  "range_of p = (split_start p, split_end p)"

lemma swap_parts_ranges:
  assumes "i < length xs" "j < length xs"
  shows "map range_of (swap_parts xs i j) = (map range_of xs)[i := range_of (xs ! j), j := range_of (xs ! i)]"
  using assms by (intro nth_equalityI) (auto simp: swap_parts_def Let_def range_of_def nth_list_update)

lemma mset_swap_parts:
  assumes "i < length xs" "j < length xs"
  shows "mset (map range_of (swap_parts xs i j)) = mset (map range_of xs)"
  using mset_swap [of j "map range_of xs" i] assms by (simp add: swap_parts_ranges)

lemma swap_parts_start:
  assumes "i < length xs" "j < length xs" "k < length xs"
  shows "split_start (swap_parts xs i j ! k) =
     (if k = j then split_start (xs ! i) else if k = i then split_start (xs ! j) else split_start (xs ! k))"
  using assms by (auto simp: swap_parts_def Let_def nth_list_update)

text \<open>The inner loop brings the smallest start of the rest to place \<open>i\<close>.\<close>

lemma sort_inner_result:
  assumes "i \<le> j" "i < length xs" "\<forall>k. i < k \<and> k < j \<longrightarrow> split_start (xs ! i) \<le> split_start (xs ! k)" "j \<le> length xs"
  shows "length (sort_inner xs i j) = length xs \<and> mset (map range_of (sort_inner xs i j)) = mset (map range_of xs) \<and>
     (\<forall>k<i. split_start (sort_inner xs i j ! k) = split_start (xs ! k)) \<and>
     (\<forall>k. i < k \<and> k < length xs \<longrightarrow> split_start (sort_inner xs i j ! i) \<le> split_start (sort_inner xs i j ! k)) \<and>
     (\<forall>b. (\<forall>k. i \<le> k \<and> k < length xs \<longrightarrow> b \<le> split_start (xs ! k)) \<longrightarrow>
        (\<forall>k. i \<le> k \<and> k < length xs \<longrightarrow> b \<le> split_start (sort_inner xs i j ! k)))"
  using assms
proof (induction "length xs - j" arbitrary: xs j)
  case 0
  then have "j = length xs" by simp
  with 0 show ?case by (subst (1 2 3 4 5 6) sort_inner.simps) auto
next
  case (Suc n)
  then have j: "j < length xs" by simp
  let ?ys = "if split_start (xs ! i) < split_start (xs ! j) then xs else swap_parts xs i j"
  have s: "sort_inner xs i j = sort_inner ?ys i (Suc j)" using j by (subst sort_inner.simps) simp
  have l: "length ?ys = length xs" by simp
  have st: "split_start (?ys ! k) = (if split_start (xs ! i) < split_start (xs ! j) then split_start (xs ! k)
      else if k = j then split_start (xs ! i) else if k = i then split_start (xs ! j) else split_start (xs ! k))"
    if "k < length xs" for k using that j Suc.prems(2) swap_parts_start by simp
  have inv: "\<forall>k. i < k \<and> k < Suc j \<longrightarrow> split_start (?ys ! i) \<le> split_start (?ys ! k)"
  proof (intro allI impI)
    fix k assume k: "i < k \<and> k < Suc j"
    then have "k < length xs" "k = j \<or> k < j" using j by auto
    then show "split_start (?ys ! i) \<le> split_start (?ys ! k)"
      using st [of k] st [of i] Suc.prems(2,3) k by (auto simp: not_less intro: order_trans)
  qed
  have IH: "length (sort_inner ?ys i (Suc j)) = length ?ys \<and> mset (map range_of (sort_inner ?ys i (Suc j))) = mset (map range_of ?ys) \<and>
     (\<forall>k<i. split_start (sort_inner ?ys i (Suc j) ! k) = split_start (?ys ! k)) \<and>
     (\<forall>k. i < k \<and> k < length ?ys \<longrightarrow> split_start (sort_inner ?ys i (Suc j) ! i) \<le> split_start (sort_inner ?ys i (Suc j) ! k)) \<and>
     (\<forall>b. (\<forall>k. i \<le> k \<and> k < length ?ys \<longrightarrow> b \<le> split_start (?ys ! k)) \<longrightarrow>
        (\<forall>k. i \<le> k \<and> k < length ?ys \<longrightarrow> b \<le> split_start (sort_inner ?ys i (Suc j) ! k)))"
    by (rule Suc.hyps(1)) (use Suc.hyps(2) Suc.prems j inv l in auto)
  have m: "mset (map range_of ?ys) = mset (map range_of xs)" using mset_swap_parts [OF Suc.prems(2) j] by simp
  have b: "\<forall>k. i \<le> k \<and> k < length xs \<longrightarrow> b \<le> split_start (?ys ! k)"
    if "\<forall>k. i \<le> k \<and> k < length xs \<longrightarrow> b \<le> split_start (xs ! k)" for b
    using that st j Suc.prems(1,2) by auto
  have pre: "split_start (?ys ! k) = split_start (xs ! k)" if "k < i" for k
    using that st [of k] Suc.prems(1,2) by auto
  show ?case unfolding s using IH unfolding l m using pre b by (intro conjI) (blast, blast, simp, blast, blast)
qed

lemma sort_outer:
  assumes "m < length xs"
  shows "length (fold (\<lambda>i ys. sort_inner ys i i) [0 ..< m] xs) = length xs \<and>
     mset (map range_of (fold (\<lambda>i ys. sort_inner ys i i) [0 ..< m] xs)) = mset (map range_of xs) \<and>
     (\<forall>a k. a < m \<and> a < k \<and> k < length xs \<longrightarrow>
        split_start (fold (\<lambda>i ys. sort_inner ys i i) [0 ..< m] xs ! a) \<le> split_start (fold (\<lambda>i ys. sort_inner ys i i) [0 ..< m] xs ! k))"
  using assms
proof (induction m)
  case (Suc m)
  define ys where "ys = fold (\<lambda>i ys. sort_inner ys i i) [0 ..< m] xs"
  have IH: "length ys = length xs" "mset (map range_of ys) = mset (map range_of xs)"
    "\<And>a k. a < m \<Longrightarrow> a < k \<Longrightarrow> k < length xs \<Longrightarrow> split_start (ys ! a) \<le> split_start (ys ! k)"
    using Suc by (auto simp: ys_def)
  have f: "fold (\<lambda>i ys. sort_inner ys i i) [0 ..< Suc m] xs = sort_inner ys m m" by (simp add: ys_def)
  have m: "m < length ys" using Suc.prems IH(1) by simp
  have R: "length (sort_inner ys m m) = length ys" "mset (map range_of (sort_inner ys m m)) = mset (map range_of ys)"
     "\<And>k. k < m \<Longrightarrow> split_start (sort_inner ys m m ! k) = split_start (ys ! k)"
     "\<And>k. m < k \<Longrightarrow> k < length ys \<Longrightarrow> split_start (sort_inner ys m m ! m) \<le> split_start (sort_inner ys m m ! k)"
     "\<And>b k. (\<forall>k. m \<le> k \<and> k < length ys \<longrightarrow> b \<le> split_start (ys ! k)) \<Longrightarrow> m \<le> k \<Longrightarrow> k < length ys \<Longrightarrow>
        b \<le> split_start (sort_inner ys m m ! k)"
  proof -
    have "\<forall>k. m < k \<and> k < m \<longrightarrow> split_start (ys ! m) \<le> split_start (ys ! k)" by auto
    from sort_inner_result [OF order_refl m this less_imp_le [OF m]]
    show "length (sort_inner ys m m) = length ys" "mset (map range_of (sort_inner ys m m)) = mset (map range_of ys)"
     "\<And>k. k < m \<Longrightarrow> split_start (sort_inner ys m m ! k) = split_start (ys ! k)"
     "\<And>k. m < k \<Longrightarrow> k < length ys \<Longrightarrow> split_start (sort_inner ys m m ! m) \<le> split_start (sort_inner ys m m ! k)"
     "\<And>b k. (\<forall>k. m \<le> k \<and> k < length ys \<longrightarrow> b \<le> split_start (ys ! k)) \<Longrightarrow> m \<le> k \<Longrightarrow> k < length ys \<Longrightarrow>
        b \<le> split_start (sort_inner ys m m ! k)" by blast+
  qed
  have "split_start (sort_inner ys m m ! a) \<le> split_start (sort_inner ys m m ! k)"
    if "a < Suc m" "a < k" "k < length xs" for a k
  proof (cases "a = m")
    case True
    then show ?thesis using R(4) that IH(1) by simp
  next
    case False
    then have a: "a < m" using that by simp
    show ?thesis
    proof (cases "k < m")
      case True
      then show ?thesis using R(3) a IH(3) [OF a that(2,3)] by simp
    next
      case F: False
      have "\<forall>k. m \<le> k \<and> k < length ys \<longrightarrow> split_start (ys ! a) \<le> split_start (ys ! k)" using IH(1,3) a by auto
      from R(5) [OF this] F that IH(1) show ?thesis by (simp add: R(3) [OF a])
    qed
  qed
  then show ?case unfolding f using R(1,2) IH(1,2) by simp
qed simp

lemma sort_splitting_info_sorted:
  "sorted (map split_start (sort_splitting_info xs)) \<and> mset (map range_of (sort_splitting_info xs)) = mset (map range_of xs)"
proof (cases "xs = []")
  case True
  then show ?thesis by (simp add: sort_splitting_info_def)
next
  case False
  then have "length xs - 1 < length xs" by (cases xs) auto
  from sort_outer [OF this] show ?thesis
    unfolding sorted_wrt_iff_nth_less sort_splitting_info_def [symmetric] by auto
qed

section \<open>Splitting and reassembling\<close>

text \<open>Consecutive ranges from \<open>s\<close> to \<open>mx\<close>, none of them empty except at the very end.\<close>

fun good_parts :: "u64 \<Rightarrow> u64 \<Rightarrow> (u64 \<times> u64) list \<Rightarrow> bool" where
  "good_parts mx s [] = (s = mx)"
| "good_parts mx s ((a, b) # ps) = (a = s \<and> a \<le> b \<and> b \<le> mx \<and> (a = b \<longrightarrow> b = mx) \<and> good_parts mx b ps)"

lemma good_parts_bound: "good_parts mx s ps \<Longrightarrow> (a, b) \<in> set ps \<Longrightarrow> s \<le> a \<and> a \<le> b \<and> b \<le> mx"
  by (induction mx s ps rule: good_parts.induct) (auto intro: order_trans)

lemma good_parts_head:
  assumes "good_parts mx s ((c, d) # ps)" "(c, y) \<in> set ps"
  shows "d = mx \<and> y = mx"
proof -
  have g: "c \<le> d" "d \<le> mx" "c = d \<longrightarrow> d = mx" "good_parts mx d ps" using assms(1) by auto
  from good_parts_bound [OF g(4) assms(2)] have "d \<le> c" "c \<le> y" "y \<le> mx" by simp_all
  with g show ?thesis by (meson order_antisym order_trans)
qed

lemma good_parts_unique:
  "good_parts mx s ps \<Longrightarrow> (a, b) \<in> set ps \<Longrightarrow> (a, b') \<in> set ps \<Longrightarrow> b = b'"
proof (induction ps arbitrary: s)
  case (Cons q ps)
  obtain c d where q: "q = (c, d)" by force
  from Cons.prems(1) q have g: "good_parts mx d ps" "good_parts mx s ((c, d) # ps)" by auto
  from Cons.prems(2,3) q consider "(a, b) = (c, d)" "(a, b') = (c, d)" | "(a, b) = (c, d)" "(a, b') \<in> set ps"
    | "(a, b') = (c, d)" "(a, b) \<in> set ps" | "(a, b) \<in> set ps" "(a, b') \<in> set ps" by fastforce
  then show ?case
  proof cases
    case 4
    with Cons.IH [OF g(1)] show ?thesis by blast
  qed (use good_parts_head [OF g(2)] in auto)
qed simp

lemma good_parts_sorted: "good_parts mx s ps \<Longrightarrow> sorted ps"
proof (induction mx s ps rule: good_parts.induct)
  case (2 mx s c d ps)
  have "(c, d) \<le> (x, y)" if "(x, y) \<in> set ps" for x y
    using good_parts_bound [of mx d ps x y] that 2(2) good_parts_unique [OF 2(2), of x y d] by (cases "x = c") auto
  with 2 show ?case by auto
qed simp

lemma good_parts_check: "good_parts mx s (map range_of xs) \<Longrightarrow> check_chain mx s xs"
  by (induction xs arbitrary: s) (auto simp: range_of_def)

text \<open>Whatever the order of the files, sorting restores the ranges.\<close>

lemma sort_restores:
  assumes "good_parts mx 0 ps" "mset (map range_of xs) = mset ps"
  shows "map range_of (sort_splitting_info xs) = ps"
proof -
  let ?ys = "map range_of (sort_splitting_info xs)"
  have s: "sorted (map fst ?ys)" "mset ?ys = mset ps"
    using sort_splitting_info_sorted [of xs] assms(2) by (simp_all add: range_of_def comp_def)
  have mem: "set ?ys = set ps" using s(2) by (metis set_mset_mset)
  have "sorted ?ys" unfolding sorted_wrt_iff_nth_less
  proof (intro allI impI)
    fix i j assume ij: "i < j" "j < length ?ys"
    then have m: "?ys ! i \<in> set ps" "?ys ! j \<in> set ps" unfolding mem [symmetric] by (intro nth_mem; simp)+
    obtain a b c d where e: "?ys ! i = (a, b)" "?ys ! j = (c, d)" by (metis surj_pair)
    have "a \<le> c" using s(1) ij e unfolding sorted_wrt_iff_nth_less by (metis (no_types, lifting) fst_conv length_map nth_map order.strict_trans)
    then show "?ys ! i \<le> ?ys ! j" using good_parts_unique [OF assms(1)] m unfolding e by (cases "a = c") auto
  qed
  then show ?thesis using s(2) good_parts_sorted [OF assms(1)] by (metis properties_for_sort)
qed

text \<open>A table for a memory of \<open>mx\<close> frames.\<close>

definition table_for :: "SplitBlock \<Rightarrow> u64 \<Rightarrow> bool" where
  "table_for sb mx = (0 < page_per_splitblock sb \<and> unat mx + page_per_splitblock sb < 2 ^ 64 \<and>
     num sb = (unat mx + (page_per_splitblock sb - 1)) div page_per_splitblock sb)"

lemma table_covers: "table_for sb mx \<Longrightarrow> unat mx \<le> num sb * page_per_splitblock sb"
proof -
  assume t: "table_for sb mx"
  define p where "p = page_per_splitblock sb"
  have "0 < p" "num sb = (unat mx + (p - 1)) div p" using t by (simp_all add: table_for_def p_def)
  moreover have "unat mx + (p - 1) = (unat mx + (p - 1)) div p * p + (unat mx + (p - 1)) mod p"
    by (rule div_mult_mod_eq [symmetric])
  moreover have "(unat mx + (p - 1)) mod p < p" using \<open>0 < p\<close> by simp
  moreover have "num sb * p = (unat mx + (p - 1)) div p * p" using calculation(2) by (rule arg_cong)
  ultimately have "unat mx + (p - 1) < num sb * p + p" by linarith
  with \<open>0 < p\<close> show ?thesis by (simp add: p_def)
qed

lemma table_blocks: "table_for sb mx \<Longrightarrow> k \<le> num sb \<Longrightarrow> k * page_per_splitblock sb < 2 ^ 64"
proof -
  assume t: "table_for sb mx" and k: "k \<le> num sb"
  define p where "p = page_per_splitblock sb"
  have p: "0 < p" "unat mx + p < 2 ^ 64" "num sb = (unat mx + (p - 1)) div p" using t by (simp_all add: table_for_def p_def)
  have "k * p \<le> (unat mx + (p - 1)) div p * p" unfolding p(3) [symmetric] using k by (rule mult_le_mono1)
  also have "\<dots> \<le> unat mx + (p - 1)" by simp
  finally show ?thesis using p by (simp add: p_def)
qed

lemma block_loop_bounds: "cur \<le> num sb \<Longrightarrow> cur \<le> block_loop sb cur needed \<and> block_loop sb cur needed \<le> num sb"
proof (induction sb cur needed rule: block_loop.induct)
  case (1 sb cur needed)
  then show ?case by (subst (1 2) block_loop.simps) auto
qed

lemma block_loop_progress: "cur < num sb \<Longrightarrow> 0 < needed \<Longrightarrow> cur < block_loop sb cur needed"
  using block_loop_bounds [of "cur + 1" sb "needed - uint (block_value sb cur)"]
  by (subst block_loop.simps) simp

text \<open>The start of a block, cut at the end of memory.\<close>

definition cut :: "SplitBlock \<Rightarrow> u64 \<Rightarrow> nat \<Rightarrow> u64" where
  "cut sb mx cur = (if mx < of_nat (cur * page_per_splitblock sb) then mx else of_nat (cur * page_per_splitblock sb))"

lemma unat_cut:
  assumes "table_for sb mx" "cur \<le> num sb"
  shows "unat (cut sb mx cur) = min (unat mx) (cur * page_per_splitblock sb)"
proof -
  have "unat (of_nat (cur * page_per_splitblock sb) :: u64) = cur * page_per_splitblock sb"
    using table_blocks [OF assms] by (rule unat_of_nat64)
  then show ?thesis by (simp add: cut_def word_less_nat_alt min_def)
qed

lemma split_loop_good:
  assumes "table_for sb mx" "0 < needed" "cur \<le> num sb"
  shows "good_parts mx (cut sb mx cur) (split_loop sb mx needed n (cut sb mx cur) cur)"
  using assms(3)
proof (induction n arbitrary: cur)
  case 0
  have "cut sb mx cur \<le> mx" by (auto simp: cut_def not_less)
  then show ?case by simp
next
  case (Suc n)
  show ?case
  proof (cases "mx \<le> cut sb mx cur")
    case True
    then have c: "cut sb mx cur = mx" by (auto simp: cut_def split: if_splits)
    from Suc.IH [OF Suc.prems] c show ?thesis by (simp add: calculate_end_pfn_by_splitblock_def)
  next
    case False
    define cur' where "cur' = block_loop sb cur needed"
    have lt: "unat (cut sb mx cur) < unat mx" using False by (simp add: word_le_nat_alt)
    then have p: "cur * page_per_splitblock sb < unat mx" using unat_cut [OF assms(1) Suc.prems] by simp
    then have "cur < num sb" using table_covers [OF assms(1)] Suc.prems by (cases "cur = num sb") auto
    then have c': "cur < cur'" "cur' \<le> num sb"
      using block_loop_progress [OF _ assms(2)] block_loop_bounds [OF Suc.prems] by (auto simp: cur'_def)
    have step: "calculate_end_pfn_by_splitblock sb mx needed (cut sb mx cur) cur = (cut sb mx cur', cur')"
      using False by (simp add: calculate_end_pfn_by_splitblock_def cur'_def cut_def Let_def)
    have "cur * page_per_splitblock sb < cur' * page_per_splitblock sb"
      using c'(1) assms(1) by (simp add: table_for_def)
    then have "cut sb mx cur < cut sb mx cur'"
      using unat_cut [OF assms(1) Suc.prems] unat_cut [OF assms(1) c'(2)] p by (simp add: word_less_nat_alt)
    moreover have "cut sb mx cur' \<le> mx" by (auto simp: cut_def not_less)
    ultimately show ?thesis using Suc.IH [OF c'(2)] step by (auto simp: less_imp_le)
  qed
qed

text \<open>The ranges cover every frame exactly once.\<close>

lemma good_parts_cover:
  "good_parts mx s ps \<Longrightarrow> \<forall>pfn<mx. s \<le> pfn \<longrightarrow> (\<exists>!k. k < length ps \<and> fst (ps ! k) \<le> pfn \<and> pfn < snd (ps ! k))"
proof (induction ps arbitrary: s)
  case Nil
  then show ?case by auto
next
  case (Cons q ps)
  obtain a b where q: "q = (a, b)" by force
  from Cons.prems q have g: "a = s" "a \<le> b" "b \<le> mx" "good_parts mx b ps" by auto
  show ?case
  proof (intro allI impI)
    fix pfn assume p: "pfn < mx" "s \<le> pfn"
    show "\<exists>!k. k < length (q # ps) \<and> fst ((q # ps) ! k) \<le> pfn \<and> pfn < snd ((q # ps) ! k)"
    proof (cases "pfn < b")
      case True
      have no: "\<not> (fst (ps ! k) \<le> pfn)" if "k < length ps" for k
        using good_parts_bound [OF g(4), of "fst (ps ! k)" "snd (ps ! k)"] that True by (auto simp: not_le intro: less_le_trans)
      show ?thesis
      proof (rule ex1I [of _ 0])
        fix k assume k: "k < length (q # ps) \<and> fst ((q # ps) ! k) \<le> pfn \<and> pfn < snd ((q # ps) ! k)"
        then show "k = 0" using no [of "k - 1"] by (cases k) auto
      qed (use q g p True in auto)
    next
      case False
      then have "b \<le> pfn" by simp
      with Cons.IH [OF g(4)] p obtain k where k: "k < length ps \<and> fst (ps ! k) \<le> pfn \<and> pfn < snd (ps ! k)"
        and u: "\<And>j. j < length ps \<and> fst (ps ! j) \<le> pfn \<and> pfn < snd (ps ! j) \<Longrightarrow> j = k" by blast
      show ?thesis
      proof (rule ex1I [of _ "Suc k"])
        fix j assume j: "j < length (q # ps) \<and> fst ((q # ps) ! j) \<le> pfn \<and> pfn < snd ((q # ps) ! j)"
        then show "j = Suc k" using False q u [of "j - 1"] by (cases j) auto
      qed (use k in simp)
    qed
  qed
qed

text \<open>
  C17. A dump that was split can be reassembled: with at least one page for each part (and a block table for the memory)
  \<^verbatim>\<open>setup_splitting\<close> gives ranges that cover the memory without gap or overlap, and for the files of such ranges in any
  order \<^verbatim>\<open>sort_splitting_info\<close> restores the order of the ranges and \<^verbatim>\<open>check_splitting_info\<close> accepts them.
\<close>

theorem split_reassemble:
  assumes "table_for sb mx" "1 < n" "n < 2 ^ 64" "n \<le> unat nd"
  shows "\<exists>ps. setup_splitting sb mx nd n = Some ps \<and> length ps = n \<and>
     (\<forall>pfn<mx. \<exists>!k. k < n \<and> fst (ps ! k) \<le> pfn \<and> pfn < snd (ps ! k)) \<and>
     (\<forall>xs. mset (map range_of xs) = mset ps \<longrightarrow>
        map range_of (sort_splitting_info xs) = ps \<and> check_splitting_info mx (sort_splitting_info xs))"
proof -
  let ?need = "uint (nd div of_nat n)"
  let ?ps = "split_loop sb mx ?need (n - 1) 0 0"
  have n: "unat (of_nat n :: u64) = n" using assms(3) by (rule unat_of_nat64)
  have "0 < unat nd div n" using assms(2,4) by (simp add: div_greater_zero_iff)
  then have "0 < unat (nd div of_nat n)" by (simp add: unat_div64 n)
  then have "nd div of_nat n \<noteq> 0" by auto
  then have "?need \<noteq> 0" by (simp add: uint_0_iff)
  then have need: "0 < ?need" using uint_ge_0 [of "nd div of_nat n"] by linarith
  have c0: "cut sb mx 0 = 0" by (simp add: cut_def)
  have g: "good_parts mx 0 ?ps" using split_loop_good [OF assms(1) need, of 0 "n - 1"] by (simp add: c0)
  have len: "length (split_loop sb mx k m e c) = Suc m" for k m e c
    by (induction m arbitrary: e c) (auto split: prod.split)
  have chk: "check_splitting_info mx ys" if "map range_of ys = ?ps" for ys
  proof -
    have "check_chain mx 0 ys" using g that by (intro good_parts_check) simp
    moreover have "ys \<noteq> []" using that len [of ?need "n - 1" 0 0] by auto
    ultimately show ?thesis by (cases ys) (auto simp: check_splitting_info_def)
  qed
  show ?thesis
    using assms(2) good_parts_cover [OF g] sort_restores [OF g] chk len [of ?need "n - 1" 0 0]
    by (auto simp: setup_splitting_def)
qed

definition sample_blocks :: SplitBlock where
  "sample_blocks = \<lparr>table = [2, 2, 1], num = 3, page_per_splitblock = 2, entry_size = 1\<rparr>"

definition sample_part :: "string \<Rightarrow> u64 \<Rightarrow> u64 \<Rightarrow> splitting_info" where
  "sample_part f a b = \<lparr>name_dumpfile = f, split_start = a, split_end = b, offset_eraseinfo = 0, size_eraseinfo = 0\<rparr>"

theorem split_reassemble_witness:
  "setup_splitting sample_blocks 5 5 2 = Some [(0, 2), (2, 5)] \<and>
     check_splitting_info 5 (sort_splitting_info [sample_part ''b'' 2 5, sample_part ''a'' 0 2])"
proof -
  have s: "setup_splitting sample_blocks 5 5 2 = Some [(0, 2), (2, 5)]" by code_simp
  have m: "mset (map range_of [sample_part ''b'' 2 5, sample_part ''a'' 0 2]) = mset [(0, 2), (2, 5)]"
    by (simp add: range_of_def sample_part_def)
  have t: "table_for sample_blocks 5" by (simp add: table_for_def sample_blocks_def)
  from split_reassemble [OF t, of 2 5] obtain ps where "setup_splitting sample_blocks 5 5 2 = Some ps"
    "\<And>xs. mset (map range_of xs) = mset ps \<Longrightarrow> check_splitting_info 5 (sort_splitting_info xs)" by auto
  with s m show ?thesis by simp
qed

section \<open>Fewer pages than parts\<close>

lemma sort_inner_below: "k < i \<Longrightarrow> i \<le> j \<Longrightarrow> k < length xs \<Longrightarrow> sort_inner xs i j ! k = xs ! k"
proof (induction xs i j rule: sort_inner.induct)
  case (1 xs i j)
  then show ?case by (subst sort_inner.simps) (simp add: swap_parts_def Let_def)
qed

lemma sort_inner_equal:
  assumes "i \<le> j" "j < length xs" "\<forall>p\<in>set xs. split_start p = s"
  shows "range_of (sort_inner xs i j ! i) = range_of (last xs)"
  using assms
proof (induction "length xs - j" arbitrary: xs j)
  case (Suc n)
  have "\<not> split_start (xs ! i) < split_start (xs ! j)" using Suc.prems by simp
  then have s: "sort_inner xs i j = sort_inner (swap_parts xs i j) i (Suc j)"
    using Suc.prems(2) by (subst sort_inner.simps) simp
  have r: "map range_of (swap_parts xs i j) = (map range_of xs)[i := range_of (xs ! j), j := range_of (xs ! i)]"
    using Suc.prems by (intro swap_parts_ranges) auto
  have st: "\<forall>p\<in>set (swap_parts xs i j). split_start p = s"
    using Suc.prems swap_parts_start [of i xs j] unfolding all_set_conv_all_nth by auto
  show ?case
  proof (cases "Suc j < length xs")
    case True
    then have ne: "xs \<noteq> []" by auto
    have "range_of (last (swap_parts xs i j)) = last (map range_of (swap_parts xs i j))"
    proof -
      have "swap_parts xs i j \<noteq> []" using True length_swap_parts [of xs i j] by (metis length_0_conv not_less_zero)
      then show ?thesis by (simp add: last_map)
    qed
    also have "\<dots> = range_of (last xs)" unfolding r using True Suc.prems(1) ne by (auto simp: last_list_update last_map)
    finally show ?thesis using s Suc.hyps(1) [of "swap_parts xs i j" "Suc j"] Suc.hyps(2) Suc.prems(1) True st by auto
  next
    case False
    then have j: "j = length xs - 1" using Suc.prems(2) by simp
    have "range_of (swap_parts xs i j ! i) = (map range_of (swap_parts xs i j)) ! i" using Suc.prems by simp
    also have "\<dots> = range_of (xs ! j)" unfolding r using Suc.prems by (auto simp: nth_list_update)
    also have "xs ! j = last xs" using j Suc.prems(2) by (subst last_conv_nth) auto
    finally show ?thesis unfolding s using False by (subst sort_inner.simps) simp
  qed
qed simp

lemma fold_sort_head:
  "ys \<noteq> [] \<Longrightarrow> (\<forall>i\<in>set is. 0 < i) \<Longrightarrow> fold (\<lambda>i ys. sort_inner ys i i) is ys ! 0 = ys ! 0"
proof (induction "is" arbitrary: ys)
  case (Cons i "is")
  have l: "length (sort_inner xs i j) = length xs" for xs i j
    by (induction xs i j rule: sort_inner.induct) (subst sort_inner.simps, simp)
  then have "sort_inner ys i i \<noteq> []" using Cons.prems(1) by (metis length_0_conv)
  with Cons sort_inner_below [of 0 i i ys] show ?case by simp
qed simp

text \<open>
  C39. With fewer dumpable pages than parts the ranges of all parts but the last are empty at frame 0, and when the files
  are given in that order the sort, which also exchanges parts with equal starts, puts the last part first:
  \<^verbatim>\<open>check_splitting_info\<close> rejects a complete set of files.
\<close>

theorem split_few_pages_rejected:
  assumes "1 < n" "n < 2 ^ 64" "unat nd < n" "0 < mx" "map range_of xs = ps" "setup_splitting sb mx nd n = Some ps"
  shows "ps = replicate (n - 1) (0, 0) @ [(0, mx)] \<and> \<not> check_splitting_info mx (sort_splitting_info xs)"
proof -
  have n: "unat (of_nat n :: u64) = n" using assms(2) by (rule unat_of_nat64)
  have "unat (nd div of_nat n) = 0" using assms(3) by (simp add: unat_div64 n)
  then have need: "nd div of_nat n = 0" by (rule unat_eq_zero [THEN iffD1])
  have "\<not> mx \<le> 0" "\<not> mx < 0" using assms(4) by simp_all
  then have "calculate_end_pfn_by_splitblock sb mx 0 0 0 = (0, 0)"
    by (simp add: calculate_end_pfn_by_splitblock_def block_loop.simps [of sb 0 0])
  then have "split_loop sb mx 0 k 0 0 = replicate k (0, 0) @ [(0, mx)]" for k by (induction k) simp_all
  then have ps: "ps = replicate (n - 1) (0, 0) @ [(0, mx)]"
    using assms(1,6) by (simp add: setup_splitting_def need)
  have len: "length xs = n"
  proof -
    have "length (map range_of xs) = n" unfolding assms(5) ps using assms(1) by simp
    then show ?thesis by simp
  qed
  let ?ys = "sort_splitting_info xs"
  have z: "\<forall>p\<in>set xs. split_start p = 0"
  proof
    fix p assume "p \<in> set xs"
    then have "range_of p \<in> set ps" using assms(5) by (metis image_eqI list.set_map)
    then show "split_start p = 0" using ps by (auto simp: range_of_def)
  qed
  have up: "[0 ..< n - 1] = 0 # [1 ..< n - 1]" using assms(1) by (simp add: upt_conv_Cons)
  have ne: "xs \<noteq> []" using len assms(1) by auto
  have "range_of (?ys ! 0) = range_of (sort_inner xs 0 0 ! 0)"
  proof -
    have "length (sort_inner xs 0 0) = length xs" using sort_inner_result [of 0 0 xs] ne by simp
    then have "sort_inner xs 0 0 \<noteq> []" using ne by (metis length_0_conv)
    then have "fold (\<lambda>i ys. sort_inner ys i i) [1 ..< n - 1] (sort_inner xs 0 0) ! 0 = sort_inner xs 0 0 ! 0"
      by (rule fold_sort_head) simp
    then show ?thesis unfolding sort_splitting_info_def len up by simp
  qed
  also have "\<dots> = range_of (last xs)" using sort_inner_equal [of 0 0 xs 0] z ne by simp
  also have "\<dots> = (0, mx)" using ps assms(5) ne by (metis last_map last_snoc)
  finally have hd: "range_of (?ys ! 0) = (0, mx)" .
  have m: "mset (map range_of ?ys) = mset (map range_of xs)" using sort_splitting_info_sorted by blast
  then have ly: "length ?ys = n" using len by (metis length_map size_mset)
  then have "range_of (?ys ! 1) \<in> set (map range_of ?ys)" using assms(1) by simp
  then have "range_of (?ys ! 1) \<in> set (map range_of xs)" using m by (metis mset_eq_setD)
  then have s1: "split_start (?ys ! 1) = 0" using z by (auto simp: range_of_def)
  obtain a b ys' where y: "?ys = a # b # ys'" using ly assms(1) by (cases ?ys; cases "tl ?ys") auto
  have "split_end a = mx" "split_start b = 0" using hd s1 y by (simp_all add: range_of_def)
  then have "\<not> check_splitting_info mx ?ys" using y assms(4) by (auto simp: check_splitting_info_def)
  with ps show ?thesis by simp
qed

theorem split_few_pages_rejected_witness:
  "setup_splitting sample_blocks 5 1 2 = Some [(0, 0), (0, 5)] \<and>
     \<not> check_splitting_info 5 (sort_splitting_info [sample_part ''a'' 0 0, sample_part ''b'' 0 5])"
proof -
  have s: "setup_splitting sample_blocks 5 1 2 = Some [(0, 0), (0, 5)]" by code_simp
  have r: "map range_of [sample_part ''a'' 0 0, sample_part ''b'' 0 5] = [(0, 0), (0, 5)]"
    by (simp add: range_of_def sample_part_def)
  from split_few_pages_rejected [OF _ _ _ _ r s] s show ?thesis by simp
qed

text \<open>
  The exchange leaves the position of the erase information where it was: after sorting two files the ranges
  and names belong to one file and the erase information to the other.
\<close>

lemma sort_mixes_eraseinfo:
  assumes "split_start b < split_start a"
  shows "map (\<lambda>p. (name_dumpfile p, offset_eraseinfo p)) (sort_splitting_info [a, b]) =
     [(name_dumpfile b, offset_eraseinfo a), (name_dumpfile a, offset_eraseinfo b)]"
proof -
  have n: "\<not> split_start a < split_start b" "\<not> split_start a < split_start a" using assms by auto
  have "swap_parts [a, b] 0 0 = [a, b]" by (simp add: swap_parts_def Let_def)
  then show ?thesis using n
    by (simp add: sort_splitting_info_def sort_inner.simps [of _ _ 0] sort_inner.simps [of _ _ "Suc 0"]
        sort_inner.simps [of _ _ "Suc (Suc 0)"] swap_parts_def [of _ _ "Suc 0"] Let_def)
qed

end
