(* ===== verification/Tools.thy ===== *)
theory Tools
  imports Bytes
begin

text \<open>
  The string and number tools of \<^verbatim>\<open>src/tools.c\<close>. A buffer that is changed in place is the list of all its
  characters, the terminators included; a string that is only read is the list of the characters
  before its terminator. An access outside a buffer is \<open>None\<close>. Pointers are indices into the
  buffer, none is NULL.
\<close>

section \<open>Buffers\<close>

type_synonym cbuf = string

abbreviation NULLCHAR :: char where "NULLCHAR \<equiv> CHR 0x00"
abbreviation TAB :: char where "TAB \<equiv> CHR 0x09"
abbreviation LF :: char where "LF \<equiv> CHR 0x0A"
abbreviation DQ :: char where "DQ \<equiv> CHR 0x22"

definition strlen :: "cbuf \<Rightarrow> nat" where
  "strlen b = length (takeWhile (\<lambda>c. c \<noteq> NULLCHAR) b)"

text \<open>The C string at an index.\<close>

definition str_at :: "cbuf \<Rightarrow> nat \<Rightarrow> string" where
  "str_at b i = takeWhile (\<lambda>c. c \<noteq> NULLCHAR) (drop i b)"

text \<open>Reading a character; the loops below stop at a terminator, so that they stay inside a terminated buffer.\<close>

definition rd :: "cbuf \<Rightarrow> nat \<Rightarrow> char" where
  "rd b i = (if i < length b then b ! i else NULLCHAR)"

definition memmove :: "cbuf \<Rightarrow> nat \<Rightarrow> nat \<Rightarrow> nat \<Rightarrow> cbuf option" where
  "memmove b dst src n = (if dst + n \<le> length b \<and> src + n \<le> length b
     then Some (take dst b @ take n (drop src b) @ drop (dst + n) b) else None)"

definition put_char :: "cbuf \<Rightarrow> nat \<Rightarrow> char \<Rightarrow> cbuf option" where
  "put_char b i c = (if i < length b then Some (b[i := c]) else None)"

section \<open>Characters and pure scans\<close>

definition whitespace :: "char \<Rightarrow> bool" where
  "whitespace c = (c = CHR '' '' \<or> c = TAB)"

text \<open>\<^verbatim>\<open>char\<close> is signed, so that a character from 128 on is negative.\<close>

definition ascii :: "char \<Rightarrow> bool" where
  "ascii c = ((of_char c :: nat) \<le> 0x7f)"

definition isprint :: "char \<Rightarrow> bool" where
  "isprint c = (0x20 \<le> (of_char c :: nat) \<and> (of_char c :: nat) \<le> 0x7e)"

definition ascii_string :: "string \<Rightarrow> bool" where
  "ascii_string s = list_all ascii s"

definition printable_string :: "string \<Rightarrow> bool" where
  "printable_string s = list_all isprint s"

definition first_nonspace :: "string \<Rightarrow> nat" where
  "first_nonspace s = length (takeWhile whitespace s)"

definition first_space :: "string \<Rightarrow> nat" where
  "first_space s = length (takeWhile (\<lambda>c. \<not> whitespace c) s)"

definition toupper :: "char \<Rightarrow> char" where
  "toupper c = (if 97 \<le> (of_char c :: nat) \<and> (of_char c :: nat) \<le> 122 then char_of ((of_char c :: nat) - 32) else c)"

text \<open>\<open>upper_case s buf\<close>: \<open>buf\<close> receives the string and its terminator.\<close>

definition upper_case :: "string \<Rightarrow> cbuf \<Rightarrow> cbuf option" where
  "upper_case s buf = (if length s < length buf then Some (map toupper s @ NULLCHAR # drop (length s + 1) buf) else None)"

text \<open>\<^verbatim>\<open>strstr\<close> from index \<open>i\<close> on.\<close>

fun strstr_from :: "nat \<Rightarrow> string \<Rightarrow> string \<Rightarrow> nat option" where
  "strstr_from i [] lookfor = (if lookfor = [] then Some i else None)"
| "strstr_from i (c # cs) lookfor = (if take (length lookfor) (c # cs) = lookfor then Some i else strstr_from (Suc i) cs lookfor)"

lemma strstr_from_ge: "strstr_from i s l = Some k \<Longrightarrow> i \<le> k \<and> k \<le> i + length s"
  by (induction i s l rule: strstr_from.induct) (auto split: if_splits)

text \<open>The loop of \<^verbatim>\<open>strstr_rightmost\<close>: \<open>p\<close> is the position, \<open>lst\<close> the best so far.\<close>

function rightmost_loop :: "string \<Rightarrow> string \<Rightarrow> nat \<Rightarrow> nat option \<Rightarrow> nat option" where
  "rightmost_loop s lookfor p lst =
     (if p < length s
      then (case strstr_from p (drop p s) lookfor of
              None \<Rightarrow> lst
            | Some k \<Rightarrow> rightmost_loop s lookfor (Suc k) (Some k))
      else lst)"
  by pat_completeness auto

termination rightmost_loop
  by (relation "measure (\<lambda>(s, l, p, lst). Suc (length s) - p)") (auto dest: strstr_from_ge)

declare rightmost_loop.simps [simp del]

definition strstr_rightmost :: "string \<Rightarrow> string \<Rightarrow> nat option" where
  "strstr_rightmost s lookfor = rightmost_loop s lookfor 0 None"

section \<open>Changing a string in place\<close>

text \<open>The loops of \<^verbatim>\<open>strip_linefeeds\<close> and \<^verbatim>\<open>strip_ending_whitespace\<close>, downwards from index \<open>p\<close>.\<close>

fun strip_from :: "(char \<Rightarrow> bool) \<Rightarrow> cbuf \<Rightarrow> nat \<Rightarrow> cbuf" where
  "strip_from P b 0 = (if P (b ! 0) then b[0 := NULLCHAR] else b)"
| "strip_from P b (Suc p) = (if P (b ! Suc p) then strip_from P (b[Suc p := NULLCHAR]) p else b)"

definition strip_linefeeds :: "cbuf \<Rightarrow> cbuf" where
  "strip_linefeeds b = (if strlen b = 0 then b else strip_from (\<lambda>c. c = LF) b (strlen b - 1))"

definition strip_ending_whitespace :: "cbuf \<Rightarrow> cbuf" where
  "strip_ending_whitespace b = (if strlen b = 0 then b else strip_from (\<lambda>c. c = CHR '' '' \<or> c = TAB) b (strlen b - 1))"

definition strip_line_end :: "cbuf \<Rightarrow> cbuf" where
  "strip_line_end b = strip_ending_whitespace (strip_linefeeds b)"

definition strip_ending_char :: "cbuf \<Rightarrow> char \<Rightarrow> cbuf" where
  "strip_ending_char b c = (if strlen b = 0 then b else
     if b ! (strlen b - 1) = c then b[strlen b - 1 := NULLCHAR] else b)"

definition shift_string_left :: "cbuf \<Rightarrow> nat \<Rightarrow> cbuf option" where
  "shift_string_left b cnt = (if cnt = 0 then Some b
     else if cnt > strlen b then None
     else case memmove b 0 cnt (strlen b - cnt) of None \<Rightarrow> None
       | Some b1 \<Rightarrow> put_char b1 (strlen b - cnt) NULLCHAR)"

definition strip_beginning_char :: "cbuf \<Rightarrow> char \<Rightarrow> cbuf option" where
  "strip_beginning_char b c = (if strlen b = 0 then Some b
     else if b ! 0 = c then shift_string_left b 1 else Some b)"

definition strip_beginning_whitespace :: "cbuf \<Rightarrow> cbuf option" where
  "strip_beginning_whitespace b = (if strlen b = 0 then Some b
     else let p = first_nonspace (str_at b 0); len = strlen b - p
          in case memmove b 0 p len of None \<Rightarrow> None
             | Some b1 \<Rightarrow> put_char b1 (len + 1) NULLCHAR)"

definition clean_line :: "cbuf \<Rightarrow> cbuf option" where
  "clean_line b = map_option (\<lambda>b1. strip_ending_whitespace (strip_linefeeds b1)) (strip_beginning_whitespace b)"

definition strip_comma :: "cbuf \<Rightarrow> cbuf" where
  "strip_comma b = (case strstr_from 0 (str_at b 0) '','' of None \<Rightarrow> b | Some p \<Rightarrow> b[p := NULLCHAR])"

definition strip_hex :: "cbuf \<Rightarrow> cbuf option" where
  "strip_hex b = (if take 2 (str_at b 0) = ''0x'' then shift_string_left b 2 else Some b)"

definition null_first_space :: "cbuf \<Rightarrow> cbuf" where
  "null_first_space b = (let p = first_space (str_at b 0) in if rd b p \<noteq> NULLCHAR then b[p := NULLCHAR] else b)"

fun replace_char :: "char \<Rightarrow> string \<Rightarrow> char \<Rightarrow> char" where
  "replace_char x [] r = x"
| "replace_char x (c # cs) r = replace_char (if x = c then r else x) cs r"

definition replace_string :: "cbuf \<Rightarrow> string \<Rightarrow> char \<Rightarrow> cbuf" where
  "replace_string b cs r = map (\<lambda>x. replace_char x cs r) (str_at b 0) @ drop (strlen b) b"

definition fixup_percent :: "cbuf \<Rightarrow> cbuf option" where
  "fixup_percent b = (case strstr_from 0 (str_at b 0) ''%'' of None \<Rightarrow> Some b
     | Some p1 \<Rightarrow> (case put_char b (strlen b + 1) NULLCHAR of None \<Rightarrow> None
       | Some b1 \<Rightarrow> (case memmove b1 (p1 + 1) p1 (length (str_at b1 p1)) of None \<Rightarrow> None
         | Some b2 \<Rightarrow> put_char b2 p1 (CHR ''%''))))"

section \<open>Numbers\<close>

text \<open>The loop of \<^verbatim>\<open>decimal\<close>: \<open>count\<close> is zero for no limit, \<open>cnt\<close> what is left of it.\<close>

definition dec_digit :: "char \<Rightarrow> bool" where
  "dec_digit c = (48 \<le> (of_char c :: nat) \<and> (of_char c :: nat) \<le> 57)"

definition hex_letter :: "char \<Rightarrow> bool" where
  "hex_letter c = ((97 \<le> (of_char c :: nat) \<and> (of_char c :: nat) \<le> 102) \<or> (65 \<le> (of_char c :: nat) \<and> (of_char c :: nat) \<le> 70))"

fun decimal_loop :: "nat \<Rightarrow> nat \<Rightarrow> nat \<Rightarrow> string \<Rightarrow> bool" where
  "decimal_loop count cnt digits [] = (digits \<noteq> 0)"
| "decimal_loop count cnt digits (c # cs) =
     (if \<not> (dec_digit c \<or> c = CHR '' '') then False
      else let digits' = (if dec_digit c then digits + 1 else digits)
           in if count \<noteq> 0 \<and> cnt - 1 = 0 then digits' \<noteq> 0 else decimal_loop count (cnt - 1) digits' cs)"

definition decimal :: "cbuf \<Rightarrow> nat \<Rightarrow> bool \<times> cbuf" where
  "decimal b count = (let b1 = (if count = 0 then strip_line_end b else b) in (decimal_loop count count 0 (str_at b1 0), b1))"

fun hexadecimal_loop :: "nat \<Rightarrow> nat \<Rightarrow> nat \<Rightarrow> string \<Rightarrow> bool" where
  "hexadecimal_loop count cnt digits [] = (digits \<noteq> 0)"
| "hexadecimal_loop count cnt digits (c # cs) =
     (if \<not> (hex_letter c \<or> dec_digit c \<or> c = CHR ''x'' \<or> c = CHR ''X'' \<or> c = CHR '' '' \<and> cs = []) then False
      else let digits' = (if hex_letter c \<or> dec_digit c then digits + 1 else digits)
           in if count \<noteq> 0 \<and> cnt - 1 = 0 then digits' \<noteq> 0 else hexadecimal_loop count (cnt - 1) digits' cs)"

definition hexadecimal :: "cbuf \<Rightarrow> nat \<Rightarrow> bool \<times> cbuf" where
  "hexadecimal b count = (let b1 = (if count = 0 then strip_line_end b else b) in (hexadecimal_loop count count 0 (str_at b1 0), b1))"

fun hexadecimal_only_loop :: "nat \<Rightarrow> nat \<Rightarrow> nat \<Rightarrow> string \<Rightarrow> nat" where
  "hexadecimal_only_loop count cnt only [] = only"
| "hexadecimal_only_loop count cnt only (c # cs) =
     (if \<not> (hex_letter c \<or> dec_digit c \<or> c = CHR ''x'' \<or> c = CHR ''X'' \<or> c = CHR '' '' \<and> cs = []) then 0
      else let only' = (if hex_letter c \<or> c = CHR ''x'' \<or> c = CHR ''X'' then only + 1 else only)
           in if count \<noteq> 0 \<and> cnt - 1 = 0 then only' else hexadecimal_only_loop count (cnt - 1) only' cs)"

definition hexadecimal_only :: "cbuf \<Rightarrow> nat \<Rightarrow> nat \<times> cbuf" where
  "hexadecimal_only b count = (let b1 = (if count = 0 then strip_line_end b else b) in (hexadecimal_only_loop count count 0 (str_at b1 0), b1))"

abbreviation BADADDR :: u64 where "BADADDR \<equiv> -1"

text \<open>The value of a digit in \<^verbatim>\<open>htol\<close>; \<open>None\<close> for another character.\<close>

definition hex_value :: "char \<Rightarrow> u64 option" where
  "hex_value c = (let n = (of_char c :: nat) in
     if 97 \<le> n \<and> n \<le> 102 then Some (of_nat (n - 97) + 10)
     else if 65 \<le> n \<and> n \<le> 70 then Some (of_nat (n - 65) + 10)
     else if 48 \<le> n \<and> n \<le> 57 then Some (of_nat (n - 48)) else None)"

fun htol_loop :: "u64 \<Rightarrow> string \<Rightarrow> u64" where
  "htol_loop n [] = n"
| "htol_loop n (c # cs) = (case hex_value c of
      Some j \<Rightarrow> htol_loop (16 * n + j) cs
    | None \<Rightarrow> if c = CHR ''x'' \<or> c = CHR ''X'' \<or> c = CHR ''h'' then htol_loop n cs else BADADDR)"

definition htol :: "string \<Rightarrow> u64" where
  "htol s = (let s' = (if take 2 s = ''0x'' \<or> take 2 s = ''0X'' then drop 2 s else s)
     in if length s' > 16 then BADADDR else htol_loop 0 s')"

text \<open>
  \<^verbatim>\<open>strtoull(ptr, &endptr, 0)\<close> of the C library: blanks, a sign, the prefix of the base, digits. The
  value saturates at \<^verbatim>\<open>ULLONG_MAX\<close>; without digits it is zero and the end is the beginning.
\<close>

definition isspace :: "char \<Rightarrow> bool" where
  "isspace c = (c = CHR '' '' \<or> 9 \<le> (of_char c :: nat) \<and> (of_char c :: nat) \<le> 13)"

definition digit_in :: "nat \<Rightarrow> char \<Rightarrow> nat option" where
  "digit_in base c = (let n = (of_char c :: nat);
        d = (if 48 \<le> n \<and> n \<le> 57 then n - 48 else if 97 \<le> n \<and> n \<le> 122 then n - 87
             else if 65 \<le> n \<and> n \<le> 90 then n - 55 else base)
     in if d < base then Some d else None)"

fun digits_value :: "nat \<Rightarrow> nat \<Rightarrow> string \<Rightarrow> nat \<times> string" where
  "digits_value base v [] = (v, [])"
| "digits_value base v (c # cs) = (case digit_in base c of None \<Rightarrow> (v, c # cs) | Some d \<Rightarrow> digits_value base (base * v + d) cs)"

definition strtoull :: "string \<Rightarrow> u64 \<times> string" where
  "strtoull s =
     (let s1 = dropWhile isspace s;
          neg = (s1 \<noteq> [] \<and> hd s1 = CHR ''-'');
          s2 = (if s1 \<noteq> [] \<and> (hd s1 = CHR ''-'' \<or> hd s1 = CHR ''+'') then tl s1 else s1);
          hex = ((take 2 s2 = ''0x'' \<or> take 2 s2 = ''0X'') \<and> drop 2 s2 \<noteq> [] \<and> digit_in 16 (s2 ! 2) \<noteq> None);
          (base, s3) = (if hex then (16, drop 2 s2) else if s2 \<noteq> [] \<and> hd s2 = CHR ''0'' then (8, s2) else (10, s2))
      in if s3 = [] \<or> digit_in base (hd s3) = None then (0, s)
         else let (v, rest) = digits_value base 0 s3
              in (if v \<ge> 2 ^ 64 then - 1 else if neg then - of_nat v else of_nat v, rest))"

text \<open>How often the \<^verbatim>\<open>switch\<close> of \<^verbatim>\<open>memparse\<close> shifts: its cases fall through.\<close>

definition suffix_shifts :: "char \<Rightarrow> nat" where
  "suffix_shifts c = (if c \<in> set ''Ee'' then 6 else if c \<in> set ''Pp'' then 5 else if c \<in> set ''Tt'' then 4
     else if c \<in> set ''Gg'' then 3 else if c \<in> set ''Mm'' then 2 else if c \<in> set ''Kk'' then 1 else 0)"

definition memparse :: "string \<Rightarrow> u64 \<times> string" where
  "memparse ptr = (let (ret, endptr) = strtoull ptr in
     case endptr of [] \<Rightarrow> (ret, endptr)
     | c # cs \<Rightarrow> if suffix_shifts c = 0 then (ret, endptr)
        else (((\<lambda>r. push_bit 10 r) ^^ suffix_shifts c) ret, cs))"

section \<open>Splitting a line\<close>

abbreviation MAXARGS :: nat where "MAXARGS \<equiv> 100"

text \<open>The first index from \<open>i\<close> on whose character satisfies \<open>P\<close>.\<close>

function scan :: "(char \<Rightarrow> bool) \<Rightarrow> cbuf \<Rightarrow> nat \<Rightarrow> nat" where
  "scan P b i = (if i < length b \<and> \<not> P (b ! i) then scan P b (Suc i) else i)"
  by pat_completeness auto

termination scan
  by (relation "measure (\<lambda>(P, b, i). length b - i)") auto

declare scan.simps [simp del]

lemma scan_ge: "i \<le> scan P b i"
proof (induction P b i rule: scan.induct)
  case (1 P b i)
  then show ?case by (subst scan.simps) force
qed

text \<open>\<^verbatim>\<open>argv[j++] = &str[i]\<close>; the array has \<^verbatim>\<open>MAXARGS\<close> elements.\<close>

definition push_arg :: "nat list \<Rightarrow> nat \<Rightarrow> nat list option" where
  "push_arg argv i = (if length argv < MAXARGS then Some (argv @ [i]) else None)"

lemma rd_inside: "rd b i \<noteq> NULLCHAR \<Longrightarrow> i < length b"
  by (auto simp: rd_def split: if_splits)

text \<open>The main loop, from index \<open>i\<close> with the arguments found so far.\<close>

function parse_loop :: "cbuf \<Rightarrow> nat \<Rightarrow> nat list \<Rightarrow> (nat list \<times> cbuf) option" where
  "parse_loop b i argv =
     (let i1 = scan (\<lambda>c. c = CHR '' '' \<or> c = TAB \<or> c = NULLCHAR) b i in
      if rd b i1 = NULLCHAR then Some (argv, b)
      else
        let b1 = b[i1 := NULLCHAR];
            i2 = scan (\<lambda>c. \<not> (c = CHR '' '' \<or> c = TAB)) b1 (Suc i1);
            str = (rd b1 i2 = DQ);
            b2 = (if str then b1[i2 := CHR '' ''] else b1);
            i3 = (if str then Suc i2 else i2);
            expr = (\<not> str \<and> rd b2 i3 = CHR ''('')
        in if rd b2 i3 \<noteq> NULLCHAR \<and> rd b2 i3 \<noteq> LF
           then (case push_arg argv i3 of None \<Rightarrow> None
             | Some argv' \<Rightarrow>
                 let i4 = (if str then scan (\<lambda>c. c = DQ \<or> c = NULLCHAR) b2 i3 else i3);
                     b3 = (if str \<and> rd b2 i4 = DQ then b2[i4 := CHR '' ''] else b2);
                     i5 = (if expr then scan (\<lambda>c. c = CHR '')'' \<or> c = NULLCHAR) b3 i4 else i4)
                 in parse_loop b3 i5 argv')
           else Some (argv, b2[i3 := NULLCHAR]))"
  by pat_completeness auto

termination parse_loop
proof (relation "measure (\<lambda>(b, i, argv). length b - i)", goal_cases)
  case (2 b i argv i1 b1 i2 str b2 i3 expr argv' i4 b3 i5)
  have "i \<le> i1" "i1 < length b" "Suc i1 \<le> i2" using 2(1,2,3,4) scan_ge rd_inside by blast+
  moreover have "i2 \<le> i3" by (simp add: 2(7))
  moreover have "i3 \<le> i4" by (simp add: 2(11) scan_ge)
  moreover have "i4 \<le> i5" by (simp add: 2(13) scan_ge)
  moreover have "length b3 = length b" by (simp add: 2(3,6,12))
  ultimately show ?case by simp
qed simp

declare parse_loop.simps [simp del]

text \<open>A line that begins with a quotation mark: \<open>k\<close> is the index of the mark.\<close>

function parse_quote :: "cbuf \<Rightarrow> nat \<Rightarrow> nat \<Rightarrow> nat list \<Rightarrow> (nat list \<times> cbuf) option" where
  "parse_quote b i k argv =
     (let i1 = scan (\<lambda>c. c = NULLCHAR \<or> c = DQ) b (Suc i) in
      if rd b i1 = NULLCHAR then map_option (\<lambda>a. (a, b)) (push_arg argv k)
      else case push_arg argv (Suc k) of None \<Rightarrow> None
        | Some argv' \<Rightarrow>
            let b1 = b[i1 := NULLCHAR]; i2 = Suc i1
            in if rd b1 i2 = DQ then parse_quote b1 i2 i2 argv' else parse_loop b1 i2 argv')"
  by pat_completeness auto

termination parse_quote
proof (relation "measure (\<lambda>(b, i, k, argv). length b - i)", goal_cases)
  case (2 b i k argv i1 argv' b1 i2)
  have "Suc i \<le> i1" "i1 < length b" using 2(1,2) scan_ge rd_inside by blast+
  then show ?case by (simp add: 2(4,5))
qed simp

definition parse_line :: "cbuf \<Rightarrow> (nat list \<times> cbuf) option" where
  "parse_line b = (case clean_line b of None \<Rightarrow> None
     | Some b1 \<Rightarrow>
         if strlen b1 = 0 then Some ([], b1)
         else if b1 ! 0 = DQ then parse_quote b1 0 0 []
         else (case push_arg [] 0 of None \<Rightarrow> None | Some argv \<Rightarrow> parse_loop b1 0 argv))"

section \<open>Leading blanks\<close>

lemma str_at_append: "NULLCHAR \<notin> set s \<Longrightarrow> str_at (s @ NULLCHAR # r) 0 = s"
  by (simp add: str_at_def takeWhile_append)

lemma strlen_append: "NULLCHAR \<notin> set s \<Longrightarrow> strlen (s @ NULLCHAR # r) = length s"
  by (simp add: strlen_def takeWhile_append)

lemma first_nonspace_append:
  "\<forall>c\<in>set ws. whitespace c \<Longrightarrow> s = [] \<or> \<not> whitespace (hd s) \<Longrightarrow> first_nonspace (ws @ s) = length ws"
  by (cases s) (auto simp: first_nonspace_def takeWhile_append takeWhile_eq_all_conv [THEN iffD2])

text \<open>
  \<^verbatim>\<open>strip_beginning_whitespace\<close> on blanks followed by text: without blanks the text stays (and a
  zero is written behind its terminator); with blanks the text moves to the front but the terminator
  is written one place too far, so that the result has one character too many, the one that was at that
  place of the line before.
\<close>

theorem strip_beginning_whitespace_result:
  assumes "\<forall>c\<in>set ws. whitespace c" "s = [] \<or> \<not> whitespace (hd s)" "NULLCHAR \<notin> set s" "ws @ s \<noteq> []"
    and "ws = [] \<longrightarrow> slack \<noteq> []"
  shows "\<exists>b. strip_beginning_whitespace (ws @ s @ NULLCHAR # slack) = Some b \<and>
     str_at b 0 = (if ws = [] then s else s @ [(ws @ s) ! length s])"
proof -
  let ?b = "(ws @ s) @ NULLCHAR # slack"
  have "\<not> whitespace NULLCHAR" by (simp add: whitespace_def)
  then have nn: "NULLCHAR \<notin> set (ws @ s)" using assms(1,3) unfolding set_append by blast
  have len: "strlen ?b = length ws + length s" "str_at ?b 0 = ws @ s"
    using strlen_append [OF nn, of slack] str_at_append [OF nn, of slack] by simp_all
  have p: "first_nonspace (ws @ s) = length ws" using assms(1,2) by (rule first_nonspace_append)
  let ?b1 = "s @ drop (length s) ?b"
  have mv: "memmove ?b 0 (length ws) (length s) = Some ?b1"
    by (simp add: memmove_def)
  have run: "strip_beginning_whitespace ?b = put_char ?b1 (length s + 1) NULLCHAR"
    unfolding strip_beginning_whitespace_def len p Let_def using assms(4) mv by auto
  have lb: "length s + 1 < length ?b1" using assms(5) by (cases "ws = []") (cases slack, auto simp: neq_Nil_conv)
  show ?thesis
  proof (cases "ws = []")
    case True
    with assms(5) obtain a sl where "slack = a # sl" by (cases slack) auto
    with run True show ?thesis using assms(3)
      by (auto simp: put_char_def str_at_def takeWhile_append list_update_append)
  next
    case False
    define c where "c = (ws @ s) ! length s"
    have c: "c \<noteq> NULLCHAR" using nn False unfolding c_def
      by (metis add_less_cancel_right length_append length_greater_0_conv nth_mem add_0)
    have "drop (length s) ?b = c # drop (Suc (length s)) ?b"
    proof -
      have "length s < length (ws @ s)" using False by simp
      then have "?b ! length s = c" "length s < length ?b" unfolding c_def by (simp_all only: nth_append if_True length_append)
      then show ?thesis using Cons_nth_drop_Suc [of "length s" ?b] by metis
    qed
    then have b1: "?b1 = s @ c # drop (Suc (length s)) ?b" by simp
    have "drop (Suc (length s)) ?b \<noteq> []" using False by (cases ws) auto
    then obtain d r where d: "drop (Suc (length s)) ?b = d # r" by (cases "drop (Suc (length s)) ?b") blast+
    have "strip_beginning_whitespace ?b = Some (s @ c # NULLCHAR # r)"
      unfolding run b1 d by (simp add: put_char_def list_update_append)
    then show ?thesis using False c assms(3) by (auto simp: str_at_def takeWhile_append c_def [symmetric])
  qed
qed

theorem strip_beginning_whitespace_result_witness:
  "\<exists>b. strip_beginning_whitespace (''  '' @ ''abc'' @ [NULLCHAR]) = Some b \<and> str_at b 0 = ''abcb''"
  using strip_beginning_whitespace_result [of "''  ''" "''abc''" "[]"] by (auto simp: whitespace_def numeral_3_eq_3)

section \<open>Hexadecimal numbers\<close>

definition hex_char :: "nat \<Rightarrow> char" where
  "hex_char d = char_of (if d < 10 then 48 + d else 87 + d)"

text \<open>The last \<open>k\<close> hexadecimal digits of a number, as \<^verbatim>\<open>printf\<close> writes them.\<close>

fun hex_string :: "nat \<Rightarrow> nat \<Rightarrow> string" where
  "hex_string 0 n = []"
| "hex_string (Suc k) n = hex_string k (n div 16) @ [hex_char (n mod 16)]"

lemma length_hex_string [simp]: "length (hex_string k n) = k"
  by (induction k arbitrary: n) simp_all

lemma hex_string_numeral:
  "hex_string (numeral k) n = hex_string (pred_numeral k) (n div 16) @ [hex_char (n mod 16)]"
  unfolding numeral_eq_Suc [of k] by (rule hex_string.simps)

lemma of_char_hex_char: "d < 16 \<Longrightarrow> (of_char (hex_char d) :: nat) = (if d < 10 then 48 + d else 87 + d)"
  by (simp add: hex_char_def)

lemma hex_value_hex_char: "d < 16 \<Longrightarrow> hex_value (hex_char d) = Some (of_nat d)"
proof -
  assume d: "d < 16"
  have "(of_nat (d - 10) + 10 :: u64) = of_nat d" if "10 \<le> d"
    using that of_nat_add [of "d - 10" 10, where 'a = u64] by simp
  with d show ?thesis by (auto simp: hex_value_def Let_def of_char_hex_char)
qed

lemma htol_loop_append:
  "(\<forall>c\<in>set xs. hex_value c \<noteq> None) \<Longrightarrow> htol_loop n (xs @ ys) = htol_loop (htol_loop n xs) ys"
  by (induction xs arbitrary: n) auto

lemma hex_string_digits: "c \<in> set (hex_string k n) \<Longrightarrow> hex_value c \<noteq> None"
  by (induction k arbitrary: n) (auto simp: hex_value_hex_char)

lemma htol_loop_hex_string: "htol_loop 0 (hex_string k n) = of_nat (n mod 16 ^ k)"
proof (induction k arbitrary: n)
  case (Suc k)
  have "htol_loop 0 (hex_string (Suc k) n) = 16 * of_nat (n div 16 mod 16 ^ k) + of_nat (n mod 16)"
    using hex_string_digits by (simp add: htol_loop_append Suc hex_value_hex_char)
  also have "\<dots> = of_nat (16 * (n div 16 mod 16 ^ k) + n mod 16)" by simp
  also have "16 * (n div 16 mod 16 ^ k) + n mod 16 = n mod 16 ^ Suc k" by (simp add: mod_mult2_eq)
  finally show ?case .
qed simp

lemma hex_value_classes: "hex_value c \<noteq> None \<longleftrightarrow> hex_letter c \<or> dec_digit c"
  by (auto simp: hex_value_def hex_letter_def dec_digit_def Let_def)

lemma hexadecimal_loop_digits:
  "\<forall>c\<in>set s. hex_value c \<noteq> None \<Longrightarrow> hexadecimal_loop 0 cnt digits s = (digits \<noteq> 0 \<or> s \<noteq> [])"
proof (induction s arbitrary: cnt digits)
  case (Cons c s)
  then have "hex_letter c \<or> dec_digit c" "\<forall>c\<in>set s. hex_value c \<noteq> None" by (simp_all add: hex_value_classes [symmetric])
  with Cons.IH show ?case by (auto simp: Let_def)
qed simp

lemma hex_no_x: "hex_value c \<noteq> None \<Longrightarrow> c \<noteq> CHR ''x'' \<and> c \<noteq> CHR ''X'' \<and> c \<noteq> NULLCHAR \<and> c \<noteq> LF \<and> c \<noteq> CHR '' '' \<and> c \<noteq> TAB"
  by (auto simp: hex_value_def)

text \<open>Nothing is stripped from a line whose last character is not of the kind.\<close>

lemma strip_from_none: "\<not> P (b ! p) \<Longrightarrow> strip_from P b p = b"
  by (cases p) simp_all

lemma last_at_strlen:
  assumes "NULLCHAR \<notin> set s" "s \<noteq> []"
  shows "(s @ NULLCHAR # r) ! (strlen (s @ NULLCHAR # r) - Suc 0) = last s"
  using assms by (simp add: strlen_append nth_append last_conv_nth)

lemma strip_linefeeds_none:
  "NULLCHAR \<notin> set s \<Longrightarrow> s \<noteq> [] \<Longrightarrow> last s \<noteq> LF \<Longrightarrow> strip_linefeeds (s @ NULLCHAR # r) = s @ NULLCHAR # r"
  by (simp add: strip_linefeeds_def last_at_strlen strip_from_none [where P = "\<lambda>c. c = LF"])

lemma strip_ending_whitespace_none:
  "NULLCHAR \<notin> set s \<Longrightarrow> s \<noteq> [] \<Longrightarrow> \<not> whitespace (last s) \<Longrightarrow> strip_ending_whitespace (s @ NULLCHAR # r) = s @ NULLCHAR # r"
  by (simp add: strip_ending_whitespace_def last_at_strlen whitespace_def strip_from_none [where P = "\<lambda>c. c = CHR '' '' \<or> c = TAB"])

text \<open>
  Hexadecimal numbers are read back exactly: for a number of at most 16 hexadecimal digits, written
  with any number of leading zeros up to 16 digits, \<^verbatim>\<open>hexadecimal\<close> accepts the string and leaves it
  unchanged, and \<^verbatim>\<open>htol\<close> returns the number, with or without the prefix 0x.
\<close>

theorem htol_roundtrip:
  assumes "0 < k" "k \<le> 16" "unat x < 16 ^ k"
  shows "hexadecimal (hex_string k (unat x) @ NULLCHAR # slack) 0 = (True, hex_string k (unat x) @ NULLCHAR # slack)
     \<and> htol (hex_string k (unat x)) = x \<and> htol (''0x'' @ hex_string k (unat x)) = x"
proof -
  define s where "s = hex_string k (unat x)"
  have ne: "s \<noteq> []" "length s = k" using assms(1) by (auto simp: s_def simp flip: length_greater_0_conv)
  have hex: "hex_value c \<noteq> None" if "c \<in> set s" for c using that hex_string_digits by (simp add: s_def)
  have cls: "NULLCHAR \<notin> set s" "last s \<noteq> LF" "\<not> whitespace (last s)" "\<not> (take 2 s = ''0x'' \<or> take 2 s = ''0X'')"
  proof -
    show "NULLCHAR \<notin> set s" using hex hex_no_x by blast
    show "last s \<noteq> LF" "\<not> whitespace (last s)"
      using hex [OF last_in_set [OF ne(1)]] hex_no_x unfolding whitespace_def by blast+
    have "CHR ''x'' \<notin> set (take 2 s)" "CHR ''X'' \<notin> set (take 2 s)" using hex hex_no_x by (blast dest: in_set_takeD)+
    then show "\<not> (take 2 s = ''0x'' \<or> take 2 s = ''0X'')" by auto
  qed
  have strip: "strip_line_end (s @ NULLCHAR # slack) = s @ NULLCHAR # slack"
    by (simp add: strip_line_end_def strip_linefeeds_none strip_ending_whitespace_none cls ne)
  have loop: "htol_loop 0 s = x" using assms(3) by (simp add: s_def htol_loop_hex_string)
  have "hexadecimal (s @ NULLCHAR # slack) 0 = (True, s @ NULLCHAR # slack)"
    using hexadecimal_loop_digits [of s 0 0] hex ne by (simp add: hexadecimal_def strip str_at_append cls)
  moreover have "htol s = x" using cls(4) ne assms(2) by (simp add: htol_def Let_def loop)
  moreover have "htol (''0x'' @ s) = x" using ne assms(2) by (simp add: htol_def Let_def loop)
  ultimately show ?thesis unfolding s_def by blast
qed

theorem htol_roundtrip_witness:
  "hexadecimal (hex_string 16 0xffff800010080000 @ [NULLCHAR]) 0 = (True, ''ffff800010080000'' @ [NULLCHAR]) \<and>
     htol ''ffff800010080000'' = 0xffff800010080000"
proof -
  have "hex_string 16 0xffff800010080000 = ''ffff800010080000''"
    by (simp add: hex_string_numeral hex_char_def char_of_def bit_Suc_0_iff)
  moreover have "unat (0xffff800010080000 :: u64) = 0xffff800010080000" by simp
  ultimately show ?thesis using htol_roundtrip [of 16 "0xffff800010080000" "[]"] by simp
qed

section \<open>Splitting a line into words\<close>

text \<open>The words a blank-separated line consists of: neither blanks nor quotes nor parentheses.\<close>

definition plain :: "string \<Rightarrow> bool" where
  "plain t = (t \<noteq> [] \<and> hd t \<notin> {DQ, CHR ''('', LF} \<and> last t \<noteq> LF \<and> (\<forall>c\<in>set t. \<not> whitespace c \<and> c \<noteq> NULLCHAR))"

definition gap :: "string \<Rightarrow> bool" where
  "gap ws = (ws \<noteq> [] \<and> (\<forall>c\<in>set ws. whitespace c))"

lemma scan_skip:
  "\<forall>c\<in>set xs. \<not> P c \<Longrightarrow> scan P (pre @ xs @ ys) (length pre) = scan P (pre @ xs @ ys) (length pre + length xs)"
proof (induction xs arbitrary: pre)
  case (Cons x xs)
  have "scan P (pre @ (x # xs) @ ys) (length pre) = scan P ((pre @ [x]) @ xs @ ys) (length (pre @ [x]))"
    using Cons.prems by (subst scan.simps) (simp add: nth_append)
  also have "\<dots> = scan P ((pre @ [x]) @ xs @ ys) (length (pre @ [x]) + length xs)" using Cons by (intro Cons.IH) simp
  finally show ?case by simp
qed simp

lemma scan_stop: "P y \<Longrightarrow> scan P (pre @ y # ys) (length pre) = length pre"
  by (subst scan.simps) simp

lemma scan_over:
  assumes "\<forall>c\<in>set xs. \<not> P c" "P y"
  shows "scan P (pre @ xs @ y # ys) (length pre) = length pre + length xs"
  using scan_skip [OF assms(1), of pre "y # ys"] scan_stop [of P y "pre @ xs" ys] assms(2) by simp

text \<open>The rest of a line: gaps and words.\<close>

definition rest_line :: "(string \<times> string) list \<Rightarrow> string" where
  "rest_line rs = concat (map (\<lambda>(ws, t). ws @ t) rs)"

text \<open>What \<^verbatim>\<open>parse_line\<close> makes of it: each gap starts with a terminator.\<close>

definition rest_cut :: "(string \<times> string) list \<Rightarrow> string" where
  "rest_cut rs = concat (map (\<lambda>(ws, t). NULLCHAR # tl ws @ t) rs)"

fun rest_starts :: "nat \<Rightarrow> (string \<times> string) list \<Rightarrow> nat list" where
  "rest_starts i [] = []"
| "rest_starts i ((ws, t) # rs) = (i + length ws) # rest_starts (i + length ws + length t) rs"

lemma parse_loop_end:
  assumes "plain t"
  shows "parse_loop (pre @ t @ NULLCHAR # s) (length pre) argv = Some (argv, pre @ t @ NULLCHAR # s)"
proof -
  have "scan (\<lambda>c. c = CHR '' '' \<or> c = TAB \<or> c = NULLCHAR) (pre @ t @ NULLCHAR # s) (length pre) = length pre + length t"
    using assms by (intro scan_over) (auto simp: plain_def whitespace_def)
  then show ?thesis by (subst parse_loop.simps) (simp add: Let_def rd_def nth_append)
qed

lemma parse_loop_word:
  assumes t: "plain t" and g: "gap ws" and u: "plain u" and a: "length argv < MAXARGS"
  shows "parse_loop (pre @ t @ ws @ u @ r) (length pre) argv =
     parse_loop ((pre @ t @ NULLCHAR # tl ws) @ u @ r) (length (pre @ t @ NULLCHAR # tl ws))
       (argv @ [length (pre @ t @ NULLCHAR # tl ws)])"
proof -
  obtain w ws' where ws: "ws = w # ws'" "whitespace w" "\<forall>c\<in>set ws'. whitespace c" using g by (cases ws) (auto simp: gap_def)
  obtain c u' where c: "u = c # u'" "c \<notin> {DQ, CHR ''('', LF, NULLCHAR}" "\<not> whitespace c" using u by (cases u) (auto simp: plain_def)
  let ?b = "pre @ t @ w # (ws' @ u @ r)" and ?i1 = "length pre + length t"
  have s1: "scan (\<lambda>c. c = CHR '' '' \<or> c = TAB \<or> c = NULLCHAR) ?b (length pre) = ?i1"
    using t ws(2) by (intro scan_over) (auto simp: plain_def whitespace_def)
  have r1: "rd ?b ?i1 \<noteq> NULLCHAR" using ws(2) by (auto simp: rd_def nth_append whitespace_def)
  let ?pre = "pre @ t @ [NULLCHAR]"
  have b1: "?b[?i1 := NULLCHAR] = ?pre @ ws' @ c # u' @ r" by (simp add: list_update_append c(1))
  have s2: "scan (\<lambda>c. \<not> (c = CHR '' '' \<or> c = TAB)) (?pre @ ws' @ c # u' @ r) (Suc ?i1) = length ?pre + length ws'"
    using scan_over [of ws' "\<lambda>c. \<not> (c = CHR '' '' \<or> c = TAB)" c ?pre "u' @ r"] ws(3) c(3) by (simp add: whitespace_def)
  have r2: "rd (?pre @ ws' @ c # u' @ r) (length ?pre + length ws') = c" by (simp add: rd_def nth_append)
  have "parse_loop ?b (length pre) argv =
      parse_loop (?pre @ ws' @ c # u' @ r) (length ?pre + length ws') (argv @ [length ?pre + length ws'])"
    by (subst parse_loop.simps, simp only: Let_def s1 r1 b1 s2 r2 if_False)
      (use c(2) a in \<open>simp add: r2 [simplified] push_arg_def\<close>)
  then show ?thesis by (simp add: ws(1) c(1) add.assoc)
qed

lemma parse_loop_words:
  assumes "plain t" "\<forall>(ws, u)\<in>set rs. gap ws \<and> plain u" "length argv + length rs \<le> MAXARGS"
  shows "parse_loop (pre @ t @ rest_line rs @ NULLCHAR # s) (length pre) argv =
     Some (argv @ rest_starts (length pre + length t) rs, pre @ t @ rest_cut rs @ NULLCHAR # s)"
  using assms
proof (induction rs arbitrary: pre t argv)
  case Nil
  then show ?case by (simp add: rest_line_def rest_cut_def parse_loop_end)
next
  case (Cons q rs)
  obtain ws u where q: "q = (ws, u)" by force
  from Cons.prems q have g: "gap ws" "plain u" "\<forall>(ws, u)\<in>set rs. gap ws \<and> plain u" "length argv < MAXARGS" by auto
  from g(1) obtain w ws' where ws: "ws = w # ws'" by (cases ws) (auto simp: gap_def)
  let ?pre = "pre @ t @ NULLCHAR # tl ws"
  have "parse_loop (pre @ t @ rest_line (q # rs) @ NULLCHAR # s) (length pre) argv =
      parse_loop (?pre @ u @ rest_line rs @ NULLCHAR # s) (length ?pre) (argv @ [length ?pre])"
    using parse_loop_word [OF Cons.prems(1) g(1,2,4), of pre "rest_line rs @ NULLCHAR # s"]
    by (simp add: q rest_line_def)
  also have "\<dots> = Some ((argv @ [length ?pre]) @ rest_starts (length ?pre + length u) rs, ?pre @ u @ rest_cut rs @ NULLCHAR # s)"
    using Cons.prems(3) by (intro Cons.IH g) simp
  finally show ?case using ws by (simp add: q rest_cut_def add.assoc)
qed

text \<open>The strings the argument vector points to.\<close>

lemma plain_no_null: "plain t \<Longrightarrow> NULLCHAR \<notin> set t"
  by (auto simp: plain_def)

lemma str_at_word: "plain t \<Longrightarrow> str_at (pre @ t @ NULLCHAR # r) (length pre) = t"
  by (simp add: str_at_def takeWhile_append plain_no_null takeWhile_eq_all_conv [THEN iffD2])

lemma rest_strings:
  assumes "\<forall>(ws, u)\<in>set rs. gap ws \<and> plain u"
  shows "map (str_at (pre @ rest_cut rs @ NULLCHAR # s)) (rest_starts (length pre) rs) = map snd rs"
  using assms
proof (induction rs arbitrary: pre)
  case (Cons q rs)
  obtain ws u where q: "q = (ws, u)" by force
  from Cons.prems q have g: "gap ws" "plain u" "\<forall>(ws, u)\<in>set rs. gap ws \<and> plain u" by auto
  from g(1) obtain w ws' where ws: "ws = w # ws'" by (cases ws) (auto simp: gap_def)
  let ?pre = "pre @ NULLCHAR # tl ws"
  have e: "pre @ rest_cut (q # rs) @ NULLCHAR # s = ?pre @ u @ rest_cut rs @ NULLCHAR # s" by (simp add: q rest_cut_def)
  obtain r where r: "rest_cut rs @ NULLCHAR # s = NULLCHAR # r"
    by (cases rs) (auto simp: rest_cut_def)
  have "map (str_at (pre @ rest_cut (q # rs) @ NULLCHAR # s)) (rest_starts (length pre + length ws + length u) rs) = map snd rs"
    using Cons.IH [OF g(3), of "?pre @ u"] ws unfolding e by (simp add: add.assoc)
  moreover have "str_at (pre @ rest_cut (q # rs) @ NULLCHAR # s) (length pre + length ws) = u"
    unfolding e r using str_at_word [OF g(2), of ?pre r] ws by simp
  ultimately show ?case by (simp add: q)
qed simp

text \<open>Cleaning a line that ends with linefeeds.\<close>

lemma strip_from_run:
  assumes "s \<noteq> []" "last s \<noteq> LF"
  shows "strip_from (\<lambda>c. c = LF) (s @ replicate k LF @ r) (length s + k - 1) = s @ replicate k NULLCHAR @ r"
proof (induction k arbitrary: r)
  case 0
  have "(s @ r) ! (length s - 1) = last s" using assms(1) by (simp add: nth_append last_conv_nth)
  then show ?case using assms(2) by (simp add: strip_from_none)
next
  case (Suc k)
  obtain n where n: "length s = Suc n" using assms(1) by (cases s) auto
  let ?b = "s @ replicate (Suc k) LF @ r"
  have "?b ! (Suc n + k) = LF" by (simp add: nth_append n nth_Cons' del: replicate_Suc)
  moreover have "?b[Suc n + k := NULLCHAR] = s @ replicate k LF @ NULLCHAR # r"
  proof -
    have "(replicate (Suc k) LF)[k := NULLCHAR] = replicate k LF @ [NULLCHAR]" by (induction k) simp_all
    then show ?thesis by (simp add: list_update_append n del: replicate_Suc)
  qed
  ultimately have "strip_from (\<lambda>c. c = LF) ?b (Suc (n + k)) =
      strip_from (\<lambda>c. c = LF) (s @ replicate k LF @ NULLCHAR # r) (n + k)" by (simp del: replicate_Suc)
  also have "\<dots> = s @ replicate k NULLCHAR @ NULLCHAR # r" using Suc [of "NULLCHAR # r"] n by simp
  finally show ?case using n by (simp add: replicate_app_Cons_same)
qed

lemma clean_line_plain:
  assumes "s \<noteq> []" "NULLCHAR \<notin> set s" "\<not> whitespace (hd s)" "last s \<noteq> LF" "\<not> whitespace (last s)"
  shows "\<exists>r'. clean_line (s @ replicate k LF @ NULLCHAR # a # r) = Some (s @ NULLCHAR # r')"
proof -
  let ?s = "s @ replicate k LF"
  have nn: "NULLCHAR \<notin> set ?s" using assms(2) by (auto dest!: in_set_replicate [THEN iffD1])
  have "first_nonspace ?s = 0" using assms(1,3) by (cases s) (auto simp: first_nonspace_def)
  then have 1: "strip_beginning_whitespace (?s @ NULLCHAR # a # r) = Some (?s @ NULLCHAR # NULLCHAR # r)"
    using assms(1) by (simp add: strip_beginning_whitespace_def strlen_append [OF nn, simplified] str_at_append [OF nn, simplified]
        Let_def memmove_def put_char_def list_update_append)
  have len: "strlen (s @ replicate k LF @ NULLCHAR # NULLCHAR # r) = length s + k"
    using strlen_append [OF nn, of "NULLCHAR # r"] by simp
  have "strip_linefeeds (s @ replicate k LF @ NULLCHAR # NULLCHAR # r) = s @ replicate k NULLCHAR @ NULLCHAR # NULLCHAR # r"
    using strip_from_run [OF assms(1,4), of k "NULLCHAR # NULLCHAR # r"] assms(1) by (simp add: strip_linefeeds_def len)
  also have "\<dots> = s @ NULLCHAR # (replicate k NULLCHAR @ NULLCHAR # r)" by (simp add: replicate_app_Cons_same)
  finally have "clean_line (?s @ NULLCHAR # a # r) = Some (s @ NULLCHAR # (replicate k NULLCHAR @ NULLCHAR # r))"
    unfolding clean_line_def 1 by (simp add: strip_ending_whitespace_none assms)
  then show ?thesis by auto
qed

lemma line_ends:
  assumes "plain t" "\<forall>(ws, u)\<in>set rs. gap ws \<and> plain u"
  shows "t @ rest_line rs \<noteq> [] \<and> NULLCHAR \<notin> set (t @ rest_line rs) \<and> \<not> whitespace (hd (t @ rest_line rs)) \<and>
     last (t @ rest_line rs) \<noteq> LF \<and> \<not> whitespace (last (t @ rest_line rs))"
proof -
  have nw: "\<not> whitespace NULLCHAR" by (simp add: whitespace_def)
  have "last (t @ rest_line rs) \<noteq> LF \<and> \<not> whitespace (last (t @ rest_line rs))" using assms
  proof (induction rs rule: rev_induct)
    case Nil
    then show ?case by (auto simp: plain_def rest_line_def)
  next
    case (snoc q rs)
    then obtain ws u where "q = (ws, u)" "plain u" by (cases q) auto
    then show ?case by (auto simp: rest_line_def plain_def)
  qed
  moreover have "NULLCHAR \<notin> set (rest_line rs)"
    using assms(2) nw unfolding rest_line_def gap_def plain_def by (induction rs) auto
  moreover have "t \<noteq> []" "NULLCHAR \<notin> set t" "\<not> whitespace (hd t)" using assms(1) by (auto simp: plain_def)
  ultimately show ?thesis by simp
qed

text \<open>
  \<^verbatim>\<open>parse_line\<close> splits a line into its words: for a line of at most \<^verbatim>\<open>MAXARGS\<close> words without
  quotation marks and parentheses, separated by any blanks and ended by any number of linefeeds,
  the argument vector points to exactly the words, in order.
\<close>

theorem parse_line_words:
  assumes "plain t" "\<forall>(ws, u)\<in>set rs. gap ws \<and> plain u" "length rs < MAXARGS"
  shows "\<exists>argv b. parse_line (t @ rest_line rs @ replicate k LF @ NULLCHAR # a # slack) = Some (argv, b) \<and>
     map (str_at b) argv = t # map snd rs"
proof -
  let ?s = "t @ rest_line rs"
  have ends: "?s \<noteq> []" "NULLCHAR \<notin> set ?s" "\<not> whitespace (hd ?s)" "last ?s \<noteq> LF" "\<not> whitespace (last ?s)"
    using line_ends [OF assms(1,2)] by simp_all
  from clean_line_plain [OF ends, of k a slack] obtain r where r:
    "clean_line (t @ rest_line rs @ replicate k LF @ NULLCHAR # a # slack) = Some (t @ rest_line rs @ NULLCHAR # r)" by auto
  have nq: "(t @ rest_line rs @ NULLCHAR # r) ! 0 \<noteq> DQ" using assms(1) by (cases t) (auto simp: plain_def)
  have len: "strlen (t @ rest_line rs @ NULLCHAR # r) \<noteq> 0" using strlen_append [OF ends(2), of r] ends(1) by simp
  have "parse_line (t @ rest_line rs @ replicate k LF @ NULLCHAR # a # slack) =
      Some (0 # rest_starts (length t) rs, t @ rest_cut rs @ NULLCHAR # r)"
    using parse_loop_words [OF assms(1,2), of "[0]" "[]" r] assms(3) nq len
    by (simp add: parse_line_def r push_arg_def)
  moreover have "str_at (t @ rest_cut rs @ NULLCHAR # r) 0 = t"
  proof -
    obtain r' where "rest_cut rs @ NULLCHAR # r = NULLCHAR # r'" by (cases rs) (auto simp: rest_cut_def)
    then show ?thesis using str_at_word [OF assms(1), of "[]" r'] by simp
  qed
  ultimately show ?thesis using rest_strings [OF assms(2), of t r] by auto
qed

theorem parse_line_words_witness:
  "\<exists>argv b. parse_line (''ffff80001008 T stext'' @ [LF, NULLCHAR, NULLCHAR]) = Some (argv, b) \<and>
     map (str_at b) argv = [''ffff80001008'', ''T'', ''stext'']"
  using parse_line_words [of "''ffff80001008''" "[('' '', ''T''), ('' '', ''stext'')]" 1 NULLCHAR "[]"]
  by (simp add: plain_def gap_def whitespace_def rest_line_def)

section \<open>Sizes with a suffix\<close>

fun dec_string :: "nat \<Rightarrow> nat \<Rightarrow> string" where
  "dec_string 0 n = []"
| "dec_string (Suc k) n = dec_string k (n div 10) @ [char_of (48 + n mod 10)]"

lemma digit_in_dec: "d < 10 \<Longrightarrow> digit_in 10 (char_of (48 + d)) = Some d"
  by (simp add: digit_in_def Let_def)

lemma digits_value_append:
  "\<forall>c\<in>set xs. digit_in base c \<noteq> None \<Longrightarrow>
     digits_value base v (xs @ ys) = digits_value base (fst (digits_value base v xs)) ys"
  by (induction xs arbitrary: v) auto

lemma dec_string_digits: "c \<in> set (dec_string k n) \<Longrightarrow> digit_in 10 c \<noteq> None"
  by (induction k arbitrary: n) (auto simp: digit_in_dec)

lemma digits_value_dec_string: "fst (digits_value 10 0 (dec_string k n)) = n mod 10 ^ k"
proof (induction k arbitrary: n)
  case (Suc k)
  have "fst (digits_value 10 0 (dec_string (Suc k) n)) = 10 * (n div 10 mod 10 ^ k) + n mod 10"
    using dec_string_digits by (simp add: digits_value_append Suc digit_in_dec)
  then show ?case by (simp add: mod_mult2_eq)
qed simp

lemma digit_in_10: "digit_in 10 c \<noteq> None \<Longrightarrow> 48 \<le> (of_char c :: nat) \<and> (of_char c :: nat) \<le> 57"
  by (auto simp: digit_in_def Let_def split: if_splits)

lemma suffix_no_digit: "suffix_shifts c \<noteq> 0 \<Longrightarrow> digit_in 10 c = None"
proof -
  assume a: "suffix_shifts c \<noteq> 0"
  have "c \<in> set ''EePpTtGgMmKk''"
  proof (rule ccontr)
    assume "c \<notin> set ''EePpTtGgMmKk''"
    then have "suffix_shifts c = 0" by (simp add: suffix_shifts_def)
    with a show False by simp
  qed
  moreover have "\<forall>c\<in>set ''EePpTtGgMmKk''. digit_in 10 c = None" by code_simp
  ultimately show ?thesis by blast
qed

lemma strtoull_decimal:
  assumes s: "s = dec_string k n" and k: "s \<noteq> []" "hd s \<noteq> CHR ''0''" and n: "n < 10 ^ k" "n < 2 ^ 64"
    and r: "r = [] \<or> digit_in 10 (hd r) = None"
  shows "strtoull (s @ r) = (of_nat n, r)"
proof -
  obtain c cs where c: "s = c # cs" using k(1) by (cases s) auto
  have d: "digit_in 10 c \<noteq> None" using dec_string_digits [of c k n] c s by simp
  have v: "48 \<le> (of_char c :: nat)" "(of_char c :: nat) \<le> 57" using digit_in_10 [OF d] by simp_all
  have ne: "c \<noteq> CHR '' ''" "c \<noteq> CHR ''-''" "c \<noteq> CHR ''+''" "\<not> isspace c" using v by (auto simp: isspace_def)
  have "c \<noteq> CHR ''0''" using k(2) c by simp
  with c have x: "take 2 (s @ r) \<noteq> ''0x''" "take 2 (s @ r) \<noteq> ''0X''" by (auto simp: numeral_2_eq_2)
  have "\<forall>c\<in>set s. digit_in 10 c \<noteq> None" using dec_string_digits s by blast
  then have "digits_value 10 0 (s @ r) = digits_value 10 n r"
    using digits_value_append digits_value_dec_string [of k n] n(1) s by simp
  also have "\<dots> = (n, r)" using r by (cases r) auto
  finally have dv: "digits_value 10 0 (s @ r) = (n, r)" .
  have hd: "hd (s @ r) = c" "s @ r \<noteq> []" "dropWhile isspace (s @ r) = s @ r" using c ne(4) by simp_all
  show ?thesis unfolding strtoull_def Let_def hd(3)
    using hd(1,2) ne x d dv n(2) k(1) \<open>c \<noteq> CHR ''0''\<close> by auto
qed

text \<open>
  \<^verbatim>\<open>memparse\<close> reads a decimal number (without a leading zero, below \<open>2 ^ 64\<close>) with a suffix
  K, M, G, T, P or E as the number times that power of 1024, modulo \<open>2 ^ 64\<close>: a product that does not fit
  is cut off without a message. The end pointer is behind the suffix; without a suffix the
  value is the number.
\<close>

theorem memparse_suffix:
  assumes "s = dec_string k n" "s \<noteq> []" "hd s \<noteq> CHR ''0''" "n < 10 ^ k" "n < 2 ^ 64" "suffix_shifts c \<noteq> 0"
  shows "memparse (s @ c # r) = (of_nat (n * 1024 ^ suffix_shifts c), r) \<and> memparse s = (of_nat n, [])"
proof -
  have "((\<lambda>r. push_bit 10 r) ^^ j) (of_nat n) = (of_nat (n * 1024 ^ j) :: u64)" for j
    by (induction j) (simp_all add: push_bit_eq_mult)
  then show ?thesis
    using strtoull_decimal [OF assms(1-5), of "c # r"] strtoull_decimal [OF assms(1-5), of "[]"]
      suffix_no_digit [OF assms(6)] assms(6) by (simp add: memparse_def)
qed

theorem memparse_suffix_witness:
  "memparse ''512M@16'' = (536870912, ''@16'') \<and> suffix_shifts (CHR ''M'') = 2"
proof -
  have d: "''512'' = dec_string 3 512" by code_simp
  have m: "suffix_shifts (CHR ''M'') = 2" by (simp add: suffix_shifts_def)
  show ?thesis using memparse_suffix [OF d, of "CHR ''M''" "''@16''"] m by simp
qed

end
