(* ===== verification/Paging.thy ===== *)
theory Paging
  imports Prelude
begin

text \<open>
  Page tables as the translation functions of \<^verbatim>\<open>src/arch\<close> walk them: a reference walk over radix tables
  of 64-bit entries with pages at any level, and the laws every translation through such a
  walk has. The architecture theories show that their functions are instances of the walk.
\<close>

section \<open>The reference walk\<close>

text \<open>\<^verbatim>\<open>readmem(PADDR, addr, &val, 8)\<close>: the 8 bytes at a physical address.\<close>

type_synonym mem64 = "u64 \<Rightarrow> u64 option"

text \<open>What an entry says: nothing, the next table, or the base address of a page.\<close>

datatype entry = Absent | Table u64 | Page u64

definition table_index :: "nat \<Rightarrow> nat \<Rightarrow> u64 \<Rightarrow> u64" where
  "table_index sh bits va = take_bit bits (drop_bit sh va)"

text \<open>
  A level is the shift of its index and the width of the index in bits; the entry of a
  level is decoded by \<open>dec\<close>. A page at a level covers the bits below the shift of the level.
\<close>

fun walk :: "mem64 \<Rightarrow> (nat \<Rightarrow> u64 \<Rightarrow> entry) \<Rightarrow> (nat \<times> nat) list \<Rightarrow> u64 \<Rightarrow> u64 \<Rightarrow> u64 option" where
  "walk rm dec [] tbl va = None"
| "walk rm dec ((sh, bits) # ls) tbl va =
     (case rm (tbl + table_index sh bits va * 8) of None \<Rightarrow> None
      | Some e \<Rightarrow> (case dec sh e of
           Absent \<Rightarrow> None
         | Table t \<Rightarrow> walk rm dec ls t va
         | Page b \<Rightarrow> Some (b + take_bit sh va)))"

text \<open>The page the walk ends in: the shift of its level and its base.\<close>

fun walk_leaf :: "mem64 \<Rightarrow> (nat \<Rightarrow> u64 \<Rightarrow> entry) \<Rightarrow> (nat \<times> nat) list \<Rightarrow> u64 \<Rightarrow> u64 \<Rightarrow> (nat \<times> u64) option" where
  "walk_leaf rm dec [] tbl va = None"
| "walk_leaf rm dec ((sh, bits) # ls) tbl va =
     (case rm (tbl + table_index sh bits va * 8) of None \<Rightarrow> None
      | Some e \<Rightarrow> (case dec sh e of
           Absent \<Rightarrow> None
         | Table t \<Rightarrow> walk_leaf rm dec ls t va
         | Page b \<Rightarrow> Some (sh, b)))"

lemma walk_walk_leaf: "walk rm dec ls tbl va = map_option (\<lambda>(sh, b). b + take_bit sh va) (walk_leaf rm dec ls tbl va)"
  by (induction ls arbitrary: tbl) (auto split: option.splits entry.splits)

text \<open>The translation of an address as \<^verbatim>\<open>unsigned long long\<close>: \<^verbatim>\<open>NOT_PADDR\<close> is all ones.\<close>

definition paddr_of :: "u64 option \<Rightarrow> u64" where
  "paddr_of r = (case r of None \<Rightarrow> -1 | Some pa \<Rightarrow> pa)"

lemma paddr_of_simps [simp]: "paddr_of None = -1" "paddr_of (Some pa) = pa"
  by (simp_all add: paddr_of_def)

section \<open>Laws\<close>

text \<open>
  The interface of an entry format: no level covers less than a page of \<open>2 ^ page_shift\<close> bytes, and the base
  of a page is aligned to what its level covers.
\<close>

locale page_format =
  fixes dec :: "nat \<Rightarrow> u64 \<Rightarrow> entry"
    and levels :: "(nat \<times> nat) list"
    and page_shift :: nat
  assumes levels_page: "l \<in> set levels \<Longrightarrow> page_shift \<le> fst l"
    and page_aligned: "l \<in> set levels \<Longrightarrow> dec (fst l) e = Page b \<Longrightarrow> take_bit (fst l) b = 0"
begin

lemma same_above: "drop_bit n va' = drop_bit n va \<Longrightarrow> n \<le> m \<Longrightarrow> drop_bit m va' = drop_bit m (va :: u64)"
proof -
  assume "drop_bit n va' = drop_bit n va" "n \<le> m"
  then have "drop_bit (m - n) (drop_bit n va') = drop_bit (m - n) (drop_bit n va)" by simp
  with \<open>n \<le> m\<close> show ?thesis by (simp add: drop_bit_drop_bit)
qed

text \<open>The offset below a level, split at the page size.\<close>

lemma take_bit_split: "n \<le> m \<Longrightarrow> take_bit m (va :: u64) = push_bit n (take_bit (m - n) (drop_bit n va)) + take_bit n va"
  by (rule bit_word_eqI, subst disjunctive_add)
    (auto simp: bit_simps)

lemma same_page_offset:
  assumes "drop_bit page_shift va' = drop_bit page_shift va" "page_shift \<le> sh"
  shows "take_bit sh va' = take_bit sh (va :: u64) - take_bit page_shift va + take_bit page_shift va'"
  using assms by (simp add: take_bit_split [of page_shift sh])

lemma walk_same_page:
  assumes "set ls \<subseteq> set levels" "drop_bit page_shift va' = drop_bit page_shift va"
  shows "walk rm dec ls tbl va' =
     map_option (\<lambda>pa. pa - take_bit page_shift va + take_bit page_shift va') (walk rm dec ls tbl va)"
  using assms(1)
proof (induction ls arbitrary: tbl)
  case (Cons l ls)
  obtain sh bits where l: "l = (sh, bits)" by force
  then have sh: "page_shift \<le> sh" using Cons.prems levels_page [of l] by simp
  have "table_index sh bits va' = table_index sh bits va"
    by (simp add: table_index_def same_above [OF assms(2) sh])
  with Cons l show ?case
    by (auto simp: same_page_offset [OF assms(2) sh] split: option.splits entry.splits)
qed simp

text \<open>A translated address keeps its offset in the page.\<close>

lemma aligned_offset:
  assumes "take_bit sh b = 0" "page_shift \<le> sh"
  shows "take_bit page_shift (b + take_bit sh va) = take_bit page_shift (va :: u64)"
proof -
  have low: "\<not> bit b n" if "n < sh" for n
    using assms(1) that by (metis bit_0_eq bit_take_bit_iff bot_apply bot_bool_def)
  then have "b + take_bit sh va = b OR take_bit sh va" by (intro disjunctive_add) (auto simp: bit_take_bit_iff not_le)
  then show ?thesis using low assms(2) by (intro bit_word_eqI) (auto simp: bit_simps)
qed

lemma walk_offset:
  assumes "set ls \<subseteq> set levels" "walk rm dec ls tbl va = Some pa"
  shows "take_bit page_shift pa = take_bit page_shift va"
  using assms
proof (induction ls arbitrary: tbl)
  case (Cons l ls)
  obtain sh bits where l: "l = (sh, bits)" by force
  then have m: "(sh, bits) \<in> set levels" using Cons.prems(1) by simp
  then have sh: "page_shift \<le> sh" using levels_page by fastforce
  from Cons.prems(2) l obtain e where e: "rm (tbl + table_index sh bits va * 8) = Some e" by (auto split: option.splits)
  show ?case
  proof (cases "dec sh e")
    case (Page b)
    then have "take_bit sh b = 0" using page_aligned [OF m] by simp
    from aligned_offset [OF this sh] Page e l Cons.prems(2) show ?thesis by auto
  qed (use Cons l e in auto)
qed simp

end

end
