(* ===== verification/Arch_X86_64.thy ===== *)
theory Arch_X86_64
  imports Bitmap_Create Paging
begin

text \<open>
  Address translation of \<^verbatim>\<open>src/arch/x86_64.c\<close>: the page table walk with four or five levels and large
  pages, the walk of the Xen hypervisor, and the versions, offsets and limits it depends on.
  \<^verbatim>\<open>readmem\<close> is an argument of the definitions.
\<close>

section \<open>Data\<close>

text \<open>
  The \<^verbatim>\<open>NUMBER()\<close> and \<^verbatim>\<open>SYMBOL()\<close> entries and the members of \<^verbatim>\<open>struct DumpInfo\<close> the functions use. A
  number that was not found is -1, a symbol 0.
\<close>

record x86_info = page_info +
  num_pgtable_l5_enabled :: u64
  num_sme_mask :: u64
  num_phys_base :: u64
  num_KERNEL_IMAGE_SIZE :: u64
  num_MAX_PHYSMEM_BITS :: u64
  sym_init_level4_pgt :: u64
  sym_init_top_pgt :: u64
  sym_pgd_l4 :: u64
  has_vmcoreinfo :: bool
  name_vmlinux :: bool
  sym_phys_base :: u64
  kernel_version :: nat
  phys_base :: u64
  kaslr_offset :: u64
  page_offset :: u64
  max_physmem_bits :: u64
  section_size_bits :: u64
  vmemmap_start :: u64
  vmemmap_end :: u64
  xen_phys_start :: u64
  xen_virt_start :: u64
  directmap_virt_end :: u64

abbreviation (input) NOT_FOUND_NUMBER :: u64 where "NOT_FOUND_NUMBER \<equiv> -1"
abbreviation (input) NOT_FOUND_SYMBOL :: u64 where "NOT_FOUND_SYMBOL \<equiv> 0"

definition START_KERNEL_map :: u64 where "START_KERNEL_map = 0xffffffff80000000"

definition ENTRY_MASK :: u64 where "ENTRY_MASK = NOT 0xfff0000000000fff"

definition PUD_SIZE :: u64 where "PUD_SIZE = push_bit 30 1"
definition PUD_MASK :: u64 where "PUD_MASK = NOT (PUD_SIZE - 1)"
definition PMD_SIZE :: u64 where "PMD_SIZE = push_bit 21 1"
definition PMD_MASK :: u64 where "PMD_MASK = NOT (PMD_SIZE - 1)"

definition pgd5_index :: "u64 \<Rightarrow> u64" where "pgd5_index a = drop_bit 48 a AND (512 - 1)"
definition pgd_index :: "u64 \<Rightarrow> u64" where "pgd_index a = drop_bit 39 a AND (512 - 1)"
definition p4d_index :: "u64 \<Rightarrow> u64" where "p4d_index a = drop_bit 39 a AND (512 - 1)"
definition pud_index :: "u64 \<Rightarrow> u64" where "pud_index a = drop_bit 30 a AND (512 - 1)"
definition pmd_index :: "u64 \<Rightarrow> u64" where "pmd_index a = drop_bit 21 a AND (512 - 1)"
definition pte_index :: "u64 \<Rightarrow> u64" where "pte_index a = drop_bit 12 a AND (512 - 1)"

definition PAGE_PRESENT :: "u64 \<Rightarrow> bool" where "PAGE_PRESENT e = (e AND 0x001 \<noteq> 0)"
definition PAGE_PSE :: "u64 \<Rightarrow> bool" where "PAGE_PSE e = (e AND 0x080 \<noteq> 0)"

section \<open>Version-dependent values\<close>

definition check_5level_paging :: "('a) x86_info_scheme \<Rightarrow> bool" where
  "check_5level_paging i = (num_pgtable_l5_enabled i \<noteq> NOT_FOUND_NUMBER \<and> num_pgtable_l5_enabled i \<noteq> 0)"

definition KERNEL_VERSION :: "nat \<Rightarrow> nat \<Rightarrow> nat \<Rightarrow> nat" where
  "KERNEL_VERSION x y z = x * 2 ^ 24 + y * 2 ^ 16 + z"

text \<open>\<^verbatim>\<open>get_kaslr_offset_x86_64\<close> once \<^verbatim>\<open>kaslr_offset\<close> has been read from the vmcoreinfo file.\<close>

definition get_kaslr_offset_x86_64 :: "('a) x86_info_scheme \<Rightarrow> u64 \<Rightarrow> u64" where
  "get_kaslr_offset_x86_64 i vaddr =
     (if kaslr_offset i = 0 \<or> vaddr = 0 then 0
      else let kernel_image_size = (if num_KERNEL_IMAGE_SIZE i \<noteq> NOT_FOUND_NUMBER then num_KERNEL_IMAGE_SIZE i
                                    else 1024 * 1024 * 1024)
           in if START_KERNEL_map \<le> vaddr \<and> vaddr < START_KERNEL_map + kernel_image_size then kaslr_offset i else 0)"

text \<open>\<open>rv\<close> reads the 8 bytes at a virtual address, \<open>pob\<close> is the address of \<^verbatim>\<open>page_offset_base\<close>.\<close>

definition page_offset_pt_load :: "pt_load_segment list \<Rightarrow> u64" where
  "page_offset_pt_load ps = fold (\<lambda>p po. if virt_start p \<noteq> 0 \<and> virt_start p < START_KERNEL_map \<and> phys_start p \<noteq> NOT_PADDR
     then virt_start p - phys_start p else po) ps 0"

definition get_page_offset_x86_64 ::
  "(u64 \<Rightarrow> u64 option) \<Rightarrow> u64 \<Rightarrow> pt_load_segment list \<Rightarrow> ('a) x86_info_scheme \<Rightarrow> bool \<times> ('a) x86_info_scheme" where
  "get_page_offset_x86_64 rv pob ps i =
     (if kaslr_offset i \<noteq> 0 \<and> name_vmlinux i
      then (case rv (pob + kaslr_offset i) of None \<Rightarrow> (False, i) | Some x \<Rightarrow> (True, i\<lparr>page_offset := x\<rparr>))
      else if page_offset_pt_load ps \<noteq> 0 then (True, i\<lparr>page_offset := page_offset_pt_load ps\<rparr>)
      else (True, i\<lparr>page_offset :=
         (if kernel_version i < KERNEL_VERSION 2 6 27 then 0xffff810000000000
          else if check_5level_paging i then 0xff10000000000000 else 0xffff880000000000)\<rparr>))"

definition get_phys_base_x86_64 :: "pt_load_segment list \<Rightarrow> ('a) x86_info_scheme \<Rightarrow> bool \<times> ('a) x86_info_scheme" where
  "get_phys_base_x86_64 ps i =
     (if num_phys_base i \<noteq> NOT_FOUND_NUMBER then (True, i\<lparr>phys_base := num_phys_base i\<rparr>)
      else if \<not> has_vmcoreinfo i \<and> name_vmlinux i \<and> sym_phys_base i = NOT_FOUND_SYMBOL then (True, i\<lparr>phys_base := 0\<rparr>)
      else (True, i\<lparr>phys_base :=
        (case find (\<lambda>p. START_KERNEL_map \<le> virt_start p \<and> phys_start p \<noteq> NOT_PADDR) ps of
           None \<Rightarrow> 0
         | Some p \<Rightarrow> phys_start p - (virt_start p AND NOT START_KERNEL_map))\<rparr>))"

definition get_versiondep_info_x86_64 ::
  "(u64 \<Rightarrow> u64 option) \<Rightarrow> u64 \<Rightarrow> pt_load_segment list \<Rightarrow> ('a) x86_info_scheme \<Rightarrow> bool \<times> ('a) x86_info_scheme" where
  "get_versiondep_info_x86_64 rv pob ps i =
     (let i1 = i\<lparr>max_physmem_bits :=
            (if num_MAX_PHYSMEM_BITS i \<noteq> NOT_FOUND_NUMBER then num_MAX_PHYSMEM_BITS i
             else if kernel_version i < KERNEL_VERSION 2 6 26 then 40
             else if kernel_version i < KERNEL_VERSION 2 6 31 then 44
             else if check_5level_paging i then 52 else 46)\<rparr>
      in case get_page_offset_x86_64 rv pob ps i1 of
           (False, i2) \<Rightarrow> (False, i2)
         | (True, i2) \<Rightarrow>
             if kernel_version i < KERNEL_VERSION 2 6 31
             then (True, i2\<lparr>vmemmap_start := 0xffffe20000000000, vmemmap_end := 0xffffe2ffffffffff\<rparr>)
             else if check_5level_paging i
             then (True, i2\<lparr>vmemmap_start := 0xffd4000000000000, vmemmap_end := 0xffd5ffffffffffff\<rparr>)
             else (True, i2\<lparr>vmemmap_start := 0xffffea0000000000, vmemmap_end := 0xffffeaffffffffff\<rparr>))"

section \<open>The page table walk\<close>

text \<open>The part of \<^verbatim>\<open>__vtop4_x86_64\<close> from the PUD on.\<close>

definition vtop_pte :: "('a) x86_info_scheme \<Rightarrow> mem64 \<Rightarrow> u64 \<Rightarrow> u64 \<Rightarrow> u64 \<Rightarrow> u64" where
  "vtop_pte i rm entry_mask vaddr pmd_pte =
     (let pte_paddr = (pmd_pte AND entry_mask) + pte_index vaddr * 8
      in case rm pte_paddr of None \<Rightarrow> NOT_PADDR
         | Some pte \<Rightarrow> if \<not> PAGE_PRESENT pte then NOT_PADDR
             else (pte AND entry_mask) + PAGEOFFSET i vaddr)"

definition vtop_pmd :: "('a) x86_info_scheme \<Rightarrow> mem64 \<Rightarrow> u64 \<Rightarrow> u64 \<Rightarrow> u64 \<Rightarrow> u64" where
  "vtop_pmd i rm entry_mask vaddr pud_pte =
     (let pmd_paddr = (pud_pte AND entry_mask) + pmd_index vaddr * 8
      in case rm pmd_paddr of None \<Rightarrow> NOT_PADDR
         | Some pmd_pte \<Rightarrow> if \<not> PAGE_PRESENT pmd_pte then NOT_PADDR
             else if PAGE_PSE pmd_pte then (pmd_pte AND entry_mask AND PMD_MASK) + (vaddr AND NOT PMD_MASK)
             else vtop_pte i rm entry_mask vaddr pmd_pte)"

definition vtop_pud :: "('a) x86_info_scheme \<Rightarrow> mem64 \<Rightarrow> u64 \<Rightarrow> u64 \<Rightarrow> u64 \<Rightarrow> u64" where
  "vtop_pud i rm entry_mask vaddr pud_table =
     (let pud_paddr = pud_table + pud_index vaddr * 8
      in case rm pud_paddr of None \<Rightarrow> NOT_PADDR
         | Some pud_pte \<Rightarrow> if \<not> PAGE_PRESENT pud_pte then NOT_PADDR
             else if PAGE_PSE pud_pte then (pud_pte AND entry_mask AND PUD_MASK) + (vaddr AND NOT PUD_MASK)
             else vtop_pmd i rm entry_mask vaddr pud_pte)"

definition vtop4_x86_64_pagetable :: "('a) x86_info_scheme \<Rightarrow> mem64 \<Rightarrow> u64 \<Rightarrow> u64 \<Rightarrow> u64" where
  "vtop4_x86_64_pagetable i rm vaddr pagetable =
     (let page_dir = (if xen_memory i then ptom_xen i rm pagetable else pagetable)
      in if xen_memory i \<and> page_dir = NOT_PADDR then NOT_PADDR
         else let entry_mask = (if num_sme_mask i \<noteq> NOT_FOUND_NUMBER then ENTRY_MASK AND NOT (num_sme_mask i) else ENTRY_MASK)
         in if check_5level_paging i
            then (case rm (page_dir + pgd5_index vaddr * 8) of None \<Rightarrow> NOT_PADDR
                  | Some pgd \<Rightarrow> if \<not> PAGE_PRESENT pgd then NOT_PADDR
                     else (case rm ((pgd AND entry_mask) + p4d_index vaddr * 8) of None \<Rightarrow> NOT_PADDR
                           | Some p4d_pte \<Rightarrow> if \<not> PAGE_PRESENT p4d_pte then NOT_PADDR
                              else vtop_pud i rm entry_mask vaddr (p4d_pte AND entry_mask)))
            else (case rm (page_dir + pgd_index vaddr * 8) of None \<Rightarrow> NOT_PADDR
                  | Some pgd \<Rightarrow> if \<not> PAGE_PRESENT pgd then NOT_PADDR
                     else vtop_pud i rm entry_mask vaddr (pgd AND entry_mask)))"

definition vtop4_x86_64 :: "('a) x86_info_scheme \<Rightarrow> mem64 \<Rightarrow> u64 \<Rightarrow> u64" where
  "vtop4_x86_64 i rm vaddr =
     (let init_level4_pgt = (if sym_init_level4_pgt i \<noteq> NOT_FOUND_SYMBOL then sym_init_level4_pgt i else sym_init_top_pgt i)
      in if init_level4_pgt = NOT_FOUND_SYMBOL then NOT_PADDR
         else vtop4_x86_64_pagetable i rm vaddr (init_level4_pgt - START_KERNEL_map + phys_base i))"

section \<open>The Xen hypervisor\<close>

definition is_xen_vaddr :: "u64 \<Rightarrow> bool" where
  "is_xen_vaddr x = (0xffff800000000000 \<le> x \<and> x < 0xffff880000000000)"

definition is_direct :: "('a) x86_info_scheme \<Rightarrow> u64 \<Rightarrow> bool" where
  "is_direct i x = (0xffff830000000000 \<le> x \<and> x < directmap_virt_end i)"

definition is_xen_text :: "('a) x86_info_scheme \<Rightarrow> u64 \<Rightarrow> bool" where
  "is_xen_text i x = (xen_virt_start i \<le> x \<and> x < xen_virt_start i + push_bit 30 1)"

text \<open>
  The address of the hypervisor's top-level table is translated by the same function; the recursion
  ends because that address is in the text or the direct mapping. \<open>fuel\<close> bounds the depth,
  \<open>None\<close> is a recursion that has not ended.
\<close>

fun kvtop_xen_x86_64 :: "nat \<Rightarrow> ('a) x86_info_scheme \<Rightarrow> mem64 \<Rightarrow> u64 \<Rightarrow> u64 option" where
  "kvtop_xen_x86_64 0 i rm kvaddr = None"
| "kvtop_xen_x86_64 (Suc fuel) i rm kvaddr =
     (if \<not> is_xen_vaddr kvaddr then Some NOT_PADDR
      else if is_xen_text i kvaddr then Some (kvaddr - xen_virt_start i + xen_phys_start i)
      else if is_direct i kvaddr then Some (kvaddr - 0xffff830000000000)
      else (case kvtop_xen_x86_64 fuel i rm (sym_pgd_l4 i) of
          None \<Rightarrow> None
        | Some dirp \<Rightarrow>
            if dirp = NOT_PADDR then Some NOT_PADDR
            else (case rm (dirp + pgd_index kvaddr * 8) of None \<Rightarrow> Some NOT_PADDR
              | Some entry \<Rightarrow> if \<not> PAGE_PRESENT entry then Some NOT_PADDR
                  else Some (vtop_pud i rm ENTRY_MASK kvaddr (entry AND ENTRY_MASK)))))"

section \<open>The walk as an instance of the reference walk\<close>

definition x86_levels :: "bool \<Rightarrow> (nat \<times> nat) list" where
  "x86_levels five = (if five then [(48, 9), (39, 9), (30, 9), (21, 9), (12, 9)] else [(39, 9), (30, 9), (21, 9), (12, 9)])"

text \<open>The entry format: large pages of 1 GiB and 2 MiB at the third and second level from below.\<close>

definition x86_entry :: "u64 \<Rightarrow> nat \<Rightarrow> u64 \<Rightarrow> entry" where
  "x86_entry m sh e =
     (if \<not> bit e 0 then Absent
      else if sh = 12 then Page (e AND m)
      else if sh \<le> 30 \<and> bit e 7 then Page (e AND m AND NOT (mask sh))
      else Table (e AND m))"

definition x86_mask :: "('a) x86_info_scheme \<Rightarrow> u64" where
  "x86_mask i = (if num_sme_mask i \<noteq> NOT_FOUND_NUMBER then ENTRY_MASK AND NOT (num_sme_mask i) else ENTRY_MASK)"

lemma index_take_bit: "drop_bit sh a AND (512 - 1) = table_index sh 9 (a :: u64)"
  by (simp add: table_index_def take_bit_eq_mask mask_numeral) 

lemmas x86_index = pgd5_index_def pgd_index_def p4d_index_def pud_index_def pmd_index_def pte_index_def

lemma PAGE_PRESENT_bit: "PAGE_PRESENT e = bit e 0"
  by (simp add: PAGE_PRESENT_def bit_0 and_one_eq even_iff_mod_2_eq_zero)

lemma PAGE_PSE_bit: "PAGE_PSE e = bit e 7"
proof -
  have "(e AND 0x080 \<noteq> 0) = (e AND push_bit 7 1 \<noteq> 0)" by simp
  also have "\<dots> = bit e 7" by (simp only: bit_iff_and_push_bit_not_eq_0)
  finally show ?thesis by (simp add: PAGE_PSE_def)
qed

lemma PUD_MASK_mask: "PUD_MASK = NOT (mask 30)" and PMD_MASK_mask: "PMD_MASK = NOT (mask 21)"
  by (simp_all add: PUD_MASK_def PUD_SIZE_def PMD_MASK_def PMD_SIZE_def mask_eq_exp_minus_1)

lemma PAGEOFFSET_4k: "page_size i = 4096 \<Longrightarrow> PAGEOFFSET i va = take_bit 12 va"
  by (simp add: PAGEOFFSET_def take_bit_eq_mask mask_numeral)

lemma ENTRY_MASK_low: "take_bit 12 ENTRY_MASK = 0"
  by (simp add: ENTRY_MASK_def)

lemma x86_mask_low: "take_bit 12 (x86_mask i) = 0"
  by (simp add: x86_mask_def ENTRY_MASK_low)

lemma paddr_of_NOT_PADDR [simp]: "paddr_of None = NOT_PADDR"
  by (simp add: NOT_PADDR_def)

declare paddr_of_simps(1) [simp del]

lemma vtop_pud_walk:
  assumes "page_size i = 4096"
  shows "vtop_pud i rm m va tbl = paddr_of (walk rm (x86_entry m) [(30, 9), (21, 9), (12, 9)] tbl va)"
proof -
  have m: "NOT PUD_MASK = mask 30" "NOT PMD_MASK = mask 21" by (simp_all add: PUD_MASK_mask PMD_MASK_mask)
  show ?thesis
    by (simp add: vtop_pud_def vtop_pmd_def vtop_pte_def Let_def x86_index index_take_bit [simplified]
        PAGE_PRESENT_bit PAGE_PSE_bit PAGEOFFSET_4k [OF assms] x86_entry_def m PUD_MASK_mask PMD_MASK_mask
        take_bit_eq_mask [symmetric] split: option.split)
qed

lemma vtop4_walk:
  assumes "page_size i = 4096"
  shows "vtop4_x86_64_pagetable i rm va pt =
     (let page_dir = (if xen_memory i then ptom_xen i rm pt else pt)
      in if xen_memory i \<and> page_dir = NOT_PADDR then NOT_PADDR
         else paddr_of (walk rm (x86_entry (x86_mask i)) (x86_levels (check_5level_paging i)) page_dir va))"
  by (simp add: vtop4_x86_64_pagetable_def Let_def x86_mask_def [symmetric] x86_levels_def vtop_pud_walk [OF assms]
      x86_index index_take_bit [simplified] PAGE_PRESENT_bit x86_entry_def del: walk.simps
      add: walk.simps(2) [of _ _ 48] walk.simps(2) [of _ _ 39] split: option.split)

text \<open>A sample: a table at 0x1000 and a page of 1 GiB at 0x40000000.\<close>

definition sample_x86 :: x86_info where
  "sample_x86 = page_info.extend sample_page_info
     (x86_info.fields (-1) (-1) (-1) (-1) (-1) 0 0 0 True False 0 0 0 0 0 0 0 0 0 0 0 0)"

definition sample_tables :: mem64 where
  "sample_tables a = (if a = 0x1000 then Some 0x2001 else if a = 0x2008 then Some 0x80000081 else None)"

lemma sample_x86_facts: "page_size sample_x86 = 4096" "xen_memory sample_x86 = False" "check_5level_paging sample_x86 = False"
  "num_sme_mask sample_x86 = -1"
  by (simp_all add: sample_x86_def page_info.defs x86_info.defs sample_page_info_def check_5level_paging_def)

text \<open>
  C22. \<^verbatim>\<open>__vtop4_x86_64\<close> implements the radix page table walk: with pages of 4096 bytes it returns what the
  reference walk over four levels (five with five-level paging) gives from the top-level table,
  pages of 1 GiB and 2 MiB included, with the address bits of the entries taken from the entry mask
  without the memory encryption bit; \<^verbatim>\<open>NOT_PADDR\<close> exactly when the walk ends at an absent or unreadable entry
  or the table itself has no machine address under Xen.
\<close>

theorem vtop4_refines_walk:
  assumes "page_size i = 4096"
  shows "vtop4_x86_64_pagetable i rm va pt =
     (let page_dir = (if xen_memory i then ptom_xen i rm pt else pt)
      in if xen_memory i \<and> page_dir = NOT_PADDR then NOT_PADDR
         else paddr_of (walk rm (x86_entry (x86_mask i)) (x86_levels (check_5level_paging i)) page_dir va))"
  using assms by (rule vtop4_walk)

lemma sample_walk:
  "walk sample_tables (x86_entry (x86_mask sample_x86)) (x86_levels False) 0x1000 0x40000123 = Some 0x80000123"
  by (simp add: x86_levels_def sample_tables_def x86_entry_def x86_mask_def sample_x86_facts ENTRY_MASK_def table_index_def mask_numeral
      mask_eq_exp_minus_1)

theorem vtop4_refines_walk_witness:
  "page_size sample_x86 = 4096 \<and> vtop4_x86_64_pagetable sample_x86 sample_tables 0x40000123 0x1000 = 0x80000123"
  using vtop4_refines_walk [of sample_x86 sample_tables "0x40000123" "0x1000"] sample_walk
  by (simp add: sample_x86_facts)

lemma x86_entry_aligned:
  assumes "take_bit 12 m = 0" "x86_entry m sh e = Page b" "12 \<le> sh"
  shows "take_bit sh b = 0"
proof (cases "sh = 12")
  case True
  with assms show ?thesis by (auto simp: x86_entry_def split: if_splits)
next
  case False
  with assms have "b = e AND m AND NOT (mask sh)" by (auto simp: x86_entry_def split: if_splits)
  then show ?thesis by (auto intro!: bit_word_eqI simp: bit_simps)
qed

interpretation x86: page_format "x86_entry (x86_mask i)" "x86_levels five" 12 for i five
proof unfold_locales
  fix l e b
  assume l: "l \<in> set (x86_levels five)"
  show "12 \<le> fst l" using l by (auto simp: x86_levels_def split: if_splits)
  assume "x86_entry (x86_mask i) (fst l) e = Page b"
  with x86_entry_aligned [OF x86_mask_low] \<open>12 \<le> fst l\<close> show "take_bit (fst l) b = 0" by blast
qed

text \<open>
  Translation works page by page: two addresses in one page of 4096 bytes that has a translation
  have physical addresses in one page, with the offsets unchanged. (Reading a structure that does
  not cross a page boundary therefore needs one translation.)
\<close>

theorem vtop4_same_page:
  assumes "page_size i = 4096" "drop_bit 12 va' = drop_bit 12 va" "vtop4_x86_64_pagetable i rm va pt \<noteq> NOT_PADDR"
  shows "vtop4_x86_64_pagetable i rm va' pt = vtop4_x86_64_pagetable i rm va pt - take_bit 12 va + take_bit 12 va' \<and>
     take_bit 12 (vtop4_x86_64_pagetable i rm va pt) = take_bit 12 va"
proof -
  let ?dir = "if xen_memory i then ptom_xen i rm pt else pt"
  let ?w = "walk rm (x86_entry (x86_mask i)) (x86_levels (check_5level_paging i)) ?dir"
  have v: "vtop4_x86_64_pagetable i rm x pt = (if xen_memory i \<and> ?dir = NOT_PADDR then NOT_PADDR else paddr_of (?w x))" for x
    using vtop4_walk [OF assms(1)] by (simp add: Let_def)
  from assms(3) v [of va] obtain pa where pa: "?w va = Some pa" "\<not> (xen_memory i \<and> ?dir = NOT_PADDR)"
    by (cases "?w va") (auto split: if_splits)
  have "?w va' = Some (pa - take_bit 12 va + take_bit 12 va')"
    using x86.walk_same_page [OF order_refl assms(2), of rm i "check_5level_paging i" ?dir] pa(1) by simp
  moreover have "take_bit 12 pa = take_bit 12 va" using x86.walk_offset [OF order_refl pa(1)] .
  ultimately show ?thesis using pa by (simp add: v)
qed

theorem vtop4_same_page_witness:
  "vtop4_x86_64_pagetable sample_x86 sample_tables 0x40000456 0x1000 = 0x80000456"
proof -
  have v: "vtop4_x86_64_pagetable sample_x86 sample_tables 0x40000123 0x1000 = 0x80000123"
    using vtop4_walk [of sample_x86 sample_tables "0x40000123" "0x1000"] sample_walk by (simp add: sample_x86_facts)
  show ?thesis
    using vtop4_same_page [of sample_x86 "0x40000456" "0x40000123" sample_tables "0x1000"] unfolding v
    by (simp add: sample_x86_facts NOT_PADDR_def)
qed

definition pgd_l4_direct :: "('a) x86_info_scheme \<Rightarrow> bool" where
  "pgd_l4_direct i = (is_xen_vaddr (sym_pgd_l4 i) \<longrightarrow> is_xen_text i (sym_pgd_l4 i) \<or> is_direct i (sym_pgd_l4 i))"

text \<open>
  \<^verbatim>\<open>kvtop_xen_x86_64\<close> calls itself for the address of the top-level table: if that address is in the
  text, in the direct mapping or outside the hypervisor's range, two calls are enough for every
  address; otherwise the recursion never ends for an address that needs the table.
\<close>

theorem kvtop_xen_termination:
  "(if pgd_l4_direct i
    then kvtop_xen_x86_64 (Suc (Suc n)) i rm va = kvtop_xen_x86_64 2 i rm va \<and> kvtop_xen_x86_64 2 i rm va \<noteq> None
    else kvtop_xen_x86_64 n i rm (sym_pgd_l4 i) = None)"
proof (cases "pgd_l4_direct i")
  case True
  then have "kvtop_xen_x86_64 (Suc m) i rm (sym_pgd_l4 i) = kvtop_xen_x86_64 1 i rm (sym_pgd_l4 i)
      \<and> kvtop_xen_x86_64 1 i rm (sym_pgd_l4 i) \<noteq> None" for m by (auto simp: pgd_l4_direct_def)
  then show ?thesis using True by (auto simp: numeral_2_eq_2 split: option.split)
next
  case False
  then have "kvtop_xen_x86_64 n i rm (sym_pgd_l4 i) = None" by (induction n) (auto simp: pgd_l4_direct_def)
  with False show ?thesis by simp
qed

end
