(* ===== verification/Arch_Arm64.thy ===== *)
theory Arch_Arm64
  imports Elf_Info Paging Tools
begin

text \<open>
  Address translation of \<^verbatim>\<open>src/arch/arm64.c\<close>: page sizes of 4, 16 and 64 KiB, two to four levels of
  tables with folded levels, sections, 52-bit physical addresses; the linear and image mappings, and
  how the address space is derived from the kernel's symbols.
\<close>

section \<open>Data\<close>

text \<open>
  The static variables of the file, the \<^verbatim>\<open>NUMBER()\<close> and \<^verbatim>\<open>SYMBOL()\<close> entries and the members of
  \<^verbatim>\<open>struct DumpInfo\<close> the functions use; the page size is \<open>2 ^ pgshift\<close>.
\<close>

record arm64_info =
  pgshift :: nat
  lpa_52_bit_support_available :: bool
  pgtable_level :: nat
  va_bits :: nat
  vabits_actual :: nat
  flipped_va :: bool
  kimage_voffset :: u64
  a_phys_base :: u64
  a_page_offset :: u64
  a_max_physmem_bits :: u64
  a_section_size_bits :: u64
  num_PHYS_OFFSET :: u64
  num_VA_BITS :: u64
  num_TCR_EL1_T1SZ :: u64
  num_MAX_PHYSMEM :: u64
  num_kimage_voffset :: u64
  sym_swapper_pg_dir :: u64
  sym_stext :: u64
  sym_mem_section :: u64

definition LEVEL_SHIFT :: "arm64_info \<Rightarrow> nat \<Rightarrow> nat" where
  "LEVEL_SHIFT i n = (pgshift i - 3) * (4 - n) + 3"

definition PMD_SHIFT :: "arm64_info \<Rightarrow> nat" where "PMD_SHIFT i = LEVEL_SHIFT i 2"
definition PUD_SHIFT :: "arm64_info \<Rightarrow> nat" where "PUD_SHIFT i = LEVEL_SHIFT i 1"
definition PGDIR_SHIFT :: "arm64_info \<Rightarrow> nat" where "PGDIR_SHIFT i = LEVEL_SHIFT i (4 - pgtable_level i)"
definition SIZE_OF :: "nat \<Rightarrow> u64" where "SIZE_OF sh = push_bit sh 1"
definition PTRS_PER_PTE :: "arm64_info \<Rightarrow> u64" where "PTRS_PER_PTE i = push_bit (pgshift i - 3) 1"
definition PTRS_PER_PGD :: "arm64_info \<Rightarrow> u64" where "PTRS_PER_PGD i = push_bit (va_bits i - PGDIR_SHIFT i) 1"

definition PTE_ADDR_LOW :: "arm64_info \<Rightarrow> u64" where
  "PTE_ADDR_LOW i = push_bit (pgshift i) (push_bit (48 - pgshift i) 1 - 1)"

definition PTE_ADDR_HIGH :: u64 where "PTE_ADDR_HIGH = push_bit 12 0xf"

definition get_pte_addr_mask_arm64 :: "arm64_info \<Rightarrow> u64" where
  "get_pte_addr_mask_arm64 i = (if lpa_52_bit_support_available i then PTE_ADDR_LOW i OR PTE_ADDR_HIGH else PTE_ADDR_LOW i)"

text \<open>\<^verbatim>\<open>__pte_to_phys\<close>; \<^verbatim>\<open>pgd_page_paddr\<close>, \<^verbatim>\<open>pud_page_paddr\<close> and \<^verbatim>\<open>pmd_page_paddr\<close> are the same function of the entry.\<close>

definition pte_to_phys :: "arm64_info \<Rightarrow> u64 \<Rightarrow> u64" where
  "pte_to_phys i pte = (if lpa_52_bit_support_available i
     then (pte AND PTE_ADDR_LOW i) OR push_bit 36 (pte AND PTE_ADDR_HIGH)
     else pte AND get_pte_addr_mask_arm64 i)"

definition pgd_index :: "arm64_info \<Rightarrow> u64 \<Rightarrow> u64" where
  "pgd_index i va = drop_bit (PGDIR_SHIFT i) va AND (PTRS_PER_PGD i - 1)"
definition pud_index :: "arm64_info \<Rightarrow> u64 \<Rightarrow> u64" where
  "pud_index i va = drop_bit (PUD_SHIFT i) va AND (PTRS_PER_PTE i - 1)"
definition pmd_index :: "arm64_info \<Rightarrow> u64 \<Rightarrow> u64" where
  "pmd_index i va = drop_bit (PMD_SHIFT i) va AND (PTRS_PER_PTE i - 1)"
definition pte_index :: "arm64_info \<Rightarrow> u64 \<Rightarrow> u64" where
  "pte_index i va = drop_bit (pgshift i) va AND (PTRS_PER_PTE i - 1)"

section \<open>The address space\<close>

definition is_linear_addr :: "arm64_info \<Rightarrow> u64 \<Rightarrow> bool" where
  "is_linear_addr i a = (if flipped_va i then a AND push_bit (vabits_actual i - 1) 1 = 0
     else a AND push_bit (vabits_actual i - 1) 1 \<noteq> 0)"

definition pa :: "arm64_info \<Rightarrow> u64 \<Rightarrow> u64" where
  "pa i vaddr = (if kimage_voffset i = -1 \<or> is_linear_addr i vaddr
     then (vaddr AND NOT (a_page_offset i)) + a_phys_base i else vaddr - kimage_voffset i)"

definition calculate_plat_config :: "arm64_info \<Rightarrow> bool \<times> arm64_info" where
  "calculate_plat_config i =
     (let sz = (2 :: nat) ^ pgshift i in
      if (sz = 16384 \<and> va_bits i = 36) \<or> (sz = 65536 \<and> va_bits i = 42) then (True, i\<lparr>pgtable_level := 2\<rparr>)
      else if (sz = 65536 \<and> va_bits i = 48) \<or> (sz = 65536 \<and> va_bits i = 52) \<or> (sz = 4096 \<and> va_bits i = 39) \<or>
              (sz = 16384 \<and> va_bits i = 47) then (True, i\<lparr>pgtable_level := 3\<rparr>)
      else if sz \<noteq> 65536 \<and> va_bits i = 48 then (True, i\<lparr>pgtable_level := 4\<rparr>)
      else (False, i))"

definition get_kvbase_arm64 :: "arm64_info \<Rightarrow> u64" where
  "get_kvbase_arm64 i = (if flipped_va i then a_page_offset i else push_bit (va_bits i) (-1))"

definition get_phys_base_arm64 :: "pt_load_segment list \<Rightarrow> arm64_info \<Rightarrow> bool \<times> arm64_info" where
  "get_phys_base_arm64 ps i =
     (if num_PHYS_OFFSET i \<noteq> -1 then (True, i\<lparr>a_phys_base := num_PHYS_OFFSET i\<rparr>)
      else if ps \<noteq> [] \<and> a_page_offset i \<noteq> 0
      then (case find (\<lambda>p. virt_start p \<noteq> 0 \<and> a_page_offset i \<le> virt_start p \<and> phys_start p \<noteq> NOT_PADDR) ps of
              None \<Rightarrow> (False, i)
            | Some p \<Rightarrow> (True, i\<lparr>a_phys_base := phys_start p - (virt_start p AND NOT (a_page_offset i))\<rparr>))
      else (False, i))"

text \<open>\<^verbatim>\<open>get_stext_symbol\<close> on the lines of \<^verbatim>\<open>/proc/kallsyms\<close> (as \<^verbatim>\<open>fgets\<close> leaves them in the buffer); \<open>None\<close> is an access outside the buffer.\<close>

fun get_stext_symbol :: "cbuf list \<Rightarrow> u64 option" where
  "get_stext_symbol [] = Some 0"
| "get_stext_symbol (buf # bufs) = (case parse_line buf of None \<Rightarrow> None
     | Some (kallsyms, b) \<Rightarrow>
         if length kallsyms \<noteq> 3 then Some 0
         else let (hex, b1) = hexadecimal (drop (kallsyms ! 0) b) 0;
                  b2 = take (kallsyms ! 0) b @ b1
              in if hex \<and> str_at b2 (kallsyms ! 2) = ''_stext'' then Some (htol (str_at b2 (kallsyms ! 0)))
                 else get_stext_symbol bufs)"

definition get_va_bits_from_stext_arm64 :: "cbuf list \<Rightarrow> arm64_info \<Rightarrow> (bool \<times> arm64_info) option" where
  "get_va_bits_from_stext_arm64 kallsyms i = (case get_stext_symbol kallsyms of None \<Rightarrow> None
     | Some stext \<Rightarrow>
         let above = (\<lambda>n. stext AND push_bit n (-1) = push_bit n (-1))
         in Some (if stext = 0 then (False, i)
            else if above 48 then (True, i\<lparr>va_bits := 48\<rparr>)
            else if above 47 then (True, i\<lparr>va_bits := 47\<rparr>)
            else if above 42 then (True, i\<lparr>va_bits := 42\<rparr>)
            else if above 39 then (True, i\<lparr>va_bits := 39\<rparr>)
            else if above 36 then (True, i\<lparr>va_bits := 36\<rparr>)
            else (False, i)))"

definition get_page_offset_arm64 :: "arm64_info \<Rightarrow> arm64_info" where
  "get_page_offset_arm64 i =
     (let vabits_min = (if va_bits i > 48 then 48 else va_bits i);
          page_end = - push_bit (vabits_min - 1) 1
      in if page_end < sym_stext i then i\<lparr>flipped_va := True, a_page_offset := - push_bit (vabits_actual i) 1\<rparr>
         else i\<lparr>flipped_va := False, a_page_offset := - push_bit (vabits_actual i - 1) 1\<rparr>)"

definition get_versiondep_info_arm64 :: "cbuf list \<Rightarrow> arm64_info \<Rightarrow> (bool \<times> arm64_info) option" where
  "get_versiondep_info_arm64 kallsyms i =
     (case (if num_VA_BITS i \<noteq> -1 then Some (True, i\<lparr>va_bits := unat (num_VA_BITS i)\<rparr>) else get_va_bits_from_stext_arm64 kallsyms i) of
        None \<Rightarrow> None
      | Some (False, i1) \<Rightarrow> Some (False, i1)
      | Some (True, i1) \<Rightarrow>
          let actual = (if num_TCR_EL1_T1SZ i \<noteq> -1 then 64 - unat (num_TCR_EL1_T1SZ i)
                        else if va_bits i1 = 52 \<and> sym_mem_section i \<noteq> 0
                        then (if sym_mem_section i AND push_bit (va_bits i1 - 1) 1 \<noteq> 0 then 48 else 52)
                        else va_bits i1)
          in Some (True, get_page_offset_arm64 (i1\<lparr>vabits_actual := actual\<rparr>)))"

definition get_machdep_info_arm64 :: "cbuf list \<Rightarrow> arm64_info \<Rightarrow> (bool \<times> arm64_info) option" where
  "get_machdep_info_arm64 kallsyms i =
     (case (if va_bits i = 0 then map_option snd (get_versiondep_info_arm64 kallsyms i) else Some i) of
        None \<Rightarrow> None
      | Some i1 \<Rightarrow>
          let i2 = (if num_MAX_PHYSMEM i1 \<noteq> -1
                    then i1\<lparr>a_max_physmem_bits := num_MAX_PHYSMEM i1,
                            lpa_52_bit_support_available := (num_MAX_PHYSMEM i1 = 52 \<or> lpa_52_bit_support_available i1)\<rparr>
                    else i1\<lparr>a_max_physmem_bits := (if va_bits i1 = 52 then 52 else 48)\<rparr>)
          in (case calculate_plat_config i2 of
                (False, i3) \<Rightarrow> Some (False, i3)
              | (True, i3) \<Rightarrow> Some (True, i3\<lparr>kimage_voffset := num_kimage_voffset i3, a_section_size_bits := 30\<rparr>)))"

section \<open>The page table walk\<close>

definition is_pud_sect :: "u64 \<Rightarrow> bool" where "is_pud_sect pud = (pud AND 3 = 1)"
definition is_pmd_sect :: "u64 \<Rightarrow> bool" where "is_pmd_sect pmd = (pmd AND 3 = 1)"

definition pud_offset :: "arm64_info \<Rightarrow> u64 \<Rightarrow> u64 \<Rightarrow> u64 \<Rightarrow> u64" where
  "pud_offset i pgda pgdv va = (if pgtable_level i > 3 then pte_to_phys i pgdv + pud_index i va * 8 else pgda)"

definition pmd_offset :: "arm64_info \<Rightarrow> u64 \<Rightarrow> u64 \<Rightarrow> u64 \<Rightarrow> u64" where
  "pmd_offset i puda pudv va = (if pgtable_level i > 2 then pte_to_phys i pudv + pmd_index i va * 8 else puda)"

definition pte_offset :: "arm64_info \<Rightarrow> u64 \<Rightarrow> u64 \<Rightarrow> u64" where
  "pte_offset i pmdv va = pte_to_phys i pmdv + pte_index i va * 8"

definition vaddr_to_paddr_arm64 :: "arm64_info \<Rightarrow> mem64 \<Rightarrow> u64 \<Rightarrow> u64" where
  "vaddr_to_paddr_arm64 i rm vaddr =
     (if sym_swapper_pg_dir i = 0 then NOT_PADDR
      else let swapper_phys = pa i (sym_swapper_pg_dir i);
               pgda = swapper_phys + pgd_index i vaddr * 8
      in case rm pgda of None \<Rightarrow> NOT_PADDR
       | Some pgdv \<Rightarrow>
      let puda = pud_offset i pgda pgdv vaddr
      in case rm puda of None \<Rightarrow> NOT_PADDR
       | Some pudv \<Rightarrow>
      if is_pud_sect pudv
      then (pte_to_phys i pudv AND NOT (SIZE_OF (PUD_SHIFT i) - 1)) + (vaddr AND (SIZE_OF (PUD_SHIFT i) - 1))
      else let pmda = pmd_offset i puda pudv vaddr
      in case rm pmda of None \<Rightarrow> NOT_PADDR
       | Some pmdv \<Rightarrow>
      if is_pmd_sect pmdv
      then (pte_to_phys i pmdv AND NOT (SIZE_OF (PMD_SHIFT i) - 1)) + (vaddr AND (SIZE_OF (PMD_SHIFT i) - 1))
      else case rm (pte_offset i pmdv vaddr) of None \<Rightarrow> NOT_PADDR
       | Some ptev \<Rightarrow>
      if ptev AND 1 = 0 then NOT_PADDR
      else pte_to_phys i ptev + (vaddr AND (SIZE_OF (pgshift i) - 1)))"

section \<open>The walk as an instance of the reference walk\<close>



lemma SIZE_OF_mask: "SIZE_OF sh - 1 = mask sh"
  by (simp add: SIZE_OF_def mask_eq_exp_minus_1)

lemma arm64_index:
  "pgd_index i va = table_index (PGDIR_SHIFT i) (va_bits i - PGDIR_SHIFT i) va"
  "pud_index i va = table_index (PUD_SHIFT i) (pgshift i - 3) va"
  "pmd_index i va = table_index (PMD_SHIFT i) (pgshift i - 3) va"
  "pte_index i va = table_index (pgshift i) (pgshift i - 3) va"
  by (simp_all add: pgd_index_def pud_index_def pmd_index_def pte_index_def PTRS_PER_PGD_def PTRS_PER_PTE_def
      table_index_def take_bit_eq_mask mask_eq_exp_minus_1)








definition sample_arm64 :: arm64_info where
  "sample_arm64 = \<lparr>pgshift = 12, lpa_52_bit_support_available = False, pgtable_level = 4, va_bits = 48, vabits_actual = 48,
     flipped_va = False, kimage_voffset = -1, a_phys_base = 0, a_page_offset = 0xffff800000000000, a_max_physmem_bits = 48,
     a_section_size_bits = 30, num_PHYS_OFFSET = -1, num_VA_BITS = 48, num_TCR_EL1_T1SZ = -1, num_MAX_PHYSMEM = -1,
     num_kimage_voffset = -1, sym_swapper_pg_dir = 0xffff800000001000, sym_stext = 0, sym_mem_section = 0\<rparr>"




text \<open>
  With two levels of tables (16 KiB pages and 36 bits, 64 KiB pages and 42 bits) the folded PUD is tested for a
  section first, with the size of a PUD: for an address mapped by a section of the second level the bits from
  the section size up to the PUD size are taken from the virtual address and not from the entry.
\<close>

theorem arm64_two_level_section:
  assumes "pgtable_level i = 2" "sym_swapper_pg_dir i \<noteq> 0" "is_pmd_sect e"
    and "rm (pa i (sym_swapper_pg_dir i) + pgd_index i va * 8) = Some e"
  shows "vaddr_to_paddr_arm64 i rm va = (pte_to_phys i e AND NOT (mask (PUD_SHIFT i))) + take_bit (PUD_SHIFT i) va \<and>
     PGDIR_SHIFT i = PMD_SHIFT i"
  using assms
  by (simp add: vaddr_to_paddr_arm64_def Let_def pud_offset_def is_pud_sect_def is_pmd_sect_def SIZE_OF_mask
      take_bit_eq_mask PGDIR_SHIFT_def PMD_SHIFT_def)

text \<open>The section of 512 MiB at 0x80000000 is translated to an address behind the virtual one.\<close>

theorem arm64_two_level_section_witness:
  "vaddr_to_paddr_arm64 (sample_arm64\<lparr>pgshift := 16, va_bits := 42, pgtable_level := 2\<rparr>)
     (\<lambda>a. if a = 0x1008 then Some 0x80000701 else None) 0x20000123 = 0x20000123"
proof -
  let ?i = "sample_arm64\<lparr>pgshift := 16, va_bits := 42, pgtable_level := 2\<rparr>"
  have sh: "PUD_SHIFT ?i = 42" "PMD_SHIFT ?i = 29" "PGDIR_SHIFT ?i = 29"
    by (simp_all add: PMD_SHIFT_def PUD_SHIFT_def PGDIR_SHIFT_def LEVEL_SHIFT_def)
  have p: "pa ?i (sym_swapper_pg_dir ?i) = 0x1000" by (simp add: pa_def sample_arm64_def)
  have x: "pgd_index ?i 0x20000123 = 1" by (simp add: arm64_index sh table_index_def)
  have e: "pte_to_phys ?i 0x80000701 = 0x80000000"
    by (simp add: pte_to_phys_def get_pte_addr_mask_arm64_def PTE_ADDR_LOW_def sample_arm64_def)
  show ?thesis
    using arm64_two_level_section [of ?i "0x80000701" "\<lambda>a. if a = 0x1008 then Some 0x80000701 else None" "0x20000123"]
    unfolding p x e sh by (simp add: is_pmd_sect_def sample_arm64_def mask_eq_exp_minus_1)
qed

text \<open>
  C36. The configuration \<^verbatim>\<open>calculate_plat_config\<close> accepts is well formed for each of the three page sizes: two to four levels, and the
  virtual address bits end inside the index of the top-level table, so that the indices of the levels and the page
  offset cover the virtual address exactly; nothing else of the state changes.
\<close>

theorem calculate_plat_config_wf:
  assumes "pgshift i \<in> {12, 14, 16}" "calculate_plat_config i = (True, i')"
  shows "pgtable_level i' \<in> {2, 3, 4} \<and> i' = i\<lparr>pgtable_level := pgtable_level i'\<rparr> \<and>
     PGDIR_SHIFT i' < va_bits i' \<and> va_bits i' \<le> PGDIR_SHIFT i' + (pgshift i' - 3) \<and>
     PGDIR_SHIFT i' = pgshift i' + (pgtable_level i' - 1) * (pgshift i' - 3)"
  using assms
  by (auto simp: calculate_plat_config_def Let_def PGDIR_SHIFT_def LEVEL_SHIFT_def split: if_splits)

theorem calculate_plat_config_wf_witness:
  "calculate_plat_config sample_arm64 = (True, sample_arm64) \<and> PGDIR_SHIFT sample_arm64 < va_bits sample_arm64"
proof -
  have "calculate_plat_config sample_arm64 = (True, sample_arm64)"
    by (simp add: calculate_plat_config_def sample_arm64_def)
  with calculate_plat_config_wf [OF _ this] show ?thesis by (simp add: sample_arm64_def)
qed

end
