(* ===== verification/Arch_Riscv64.thy ===== *)
theory Arch_Riscv64
  imports Elf_Info Paging
begin

text \<open>
  Address translation of \<^verbatim>\<open>src/arch/riscv64.c\<close> (three, four or five levels) and of
  \<^verbatim>\<open>src/arch/loongarch64.c\<close> (three levels), with the values they take from the vmcoreinfo.
\<close>

section \<open>RISC-V: data\<close>

text \<open>The \<^verbatim>\<open>NUMBER()\<close> and \<^verbatim>\<open>SYMBOL()\<close> entries and the members of \<^verbatim>\<open>struct DumpInfo\<close> the functions use. Not found is -1, for a symbol 0.\<close>

record riscv_info =
  num_va_bits :: u64
  num_page_offset :: u64
  num_phys_ram_base :: u64
  num_vmalloc_start :: u64
  num_vmalloc_end :: u64
  num_vmemmap_start :: u64
  num_vmemmap_end :: u64
  num_modules_vaddr :: u64
  num_modules_end :: u64
  num_kernel_link_addr :: u64
  num_va_kernel_pa_offset :: u64
  num_max_physmem_bits :: u64
  num_section_size_bits :: u64
  sym_swapper :: u64
  r_pgshift :: nat
  r_phys_base :: u64
  r_page_offset :: u64
  r_max_physmem_bits :: u64
  r_section_size_bits :: u64

definition PTE_PFN_PROT_MASK :: u64 where "PTE_PFN_PROT_MASK = 0x3FFFFFFFFFFFFF"

definition pgd_index_l3 :: "u64 \<Rightarrow> u64" where "pgd_index_l3 a = drop_bit 30 a AND (512 - 1)"
definition pgd_index_l4 :: "u64 \<Rightarrow> u64" where "pgd_index_l4 a = drop_bit 39 a AND (512 - 1)"
definition pgd_index_l5 :: "u64 \<Rightarrow> u64" where "pgd_index_l5 a = drop_bit 48 a AND (512 - 1)"
definition p4d_index :: "u64 \<Rightarrow> u64" where "p4d_index a = drop_bit 39 a AND (512 - 1)"
definition pud_index :: "u64 \<Rightarrow> u64" where "pud_index a = drop_bit 30 a AND (512 - 1)"
definition pmd_index :: "u64 \<Rightarrow> u64" where "pmd_index a = drop_bit 21 a AND (512 - 1)"
definition pte_index :: "riscv_info \<Rightarrow> u64 \<Rightarrow> u64" where "pte_index i a = drop_bit (r_pgshift i) a AND (512 - 1)"

definition PAGE_PRESENT :: "u64 \<Rightarrow> bool" where "PAGE_PRESENT e = (e AND 1 \<noteq> 0)"
definition PAGE_LEAF :: "u64 \<Rightarrow> bool" where "PAGE_LEAF e = (e AND 0xe \<noteq> 0)"

section \<open>RISC-V: operations\<close>

definition get_phys_base_riscv64 :: "riscv_info \<Rightarrow> bool \<times> riscv_info" where
  "get_phys_base_riscv64 i =
     (True, i\<lparr>r_phys_base := (if num_phys_ram_base i \<noteq> -1 then num_phys_ram_base i else 0x80200000)\<rparr>)"

definition get_machdep_info_riscv64 :: "riscv_info \<Rightarrow> bool \<times> riscv_info" where
  "get_machdep_info_riscv64 i =
     (if num_va_bits i = -1 \<or> num_page_offset i = -1 \<or> num_vmalloc_start i = -1 \<or> num_vmalloc_end i = -1 \<or>
         num_vmemmap_start i = -1 \<or> num_vmemmap_end i = -1 \<or> num_modules_vaddr i = -1 \<or> num_modules_end i = -1 \<or>
         num_kernel_link_addr i = -1 \<or> num_va_kernel_pa_offset i = -1
      then (False, i)
      else (True, i\<lparr>r_max_physmem_bits := (if num_max_physmem_bits i \<noteq> -1 then num_max_physmem_bits i else 56),
                    r_section_size_bits := (if num_section_size_bits i \<noteq> -1 then num_section_size_bits i else 27),
                    r_page_offset := num_page_offset i\<rparr>))"

definition VTOP :: "riscv_info \<Rightarrow> u64 \<Rightarrow> u64" where
  "VTOP i x = (if num_kernel_link_addr i \<le> x then x - num_va_kernel_pa_offset i
     else x - r_page_offset i + r_phys_base i)"

text \<open>
  One level of \<^verbatim>\<open>vtop_riscv64\<close>: read the entry, mask it, test it; the result is the entry and the address in
  it, \<open>None\<close> the jump to \<^verbatim>\<open>invalid\<close>.
\<close>

definition read_entry :: "riscv_info \<Rightarrow> mem64 \<Rightarrow> u64 \<Rightarrow> (u64 \<times> u64) option" where
  "read_entry i rm a = (case rm a of None \<Rightarrow> None
     | Some v \<Rightarrow> let pt_val = v AND PTE_PFN_PROT_MASK
        in if \<not> PAGE_PRESENT pt_val then None
           else Some (pt_val, push_bit (r_pgshift i) (drop_bit 10 pt_val)))"

text \<open>The label \<^verbatim>\<open>out\<close>.\<close>

definition vtop_out :: "riscv_info \<Rightarrow> u64 \<Rightarrow> u64 \<Rightarrow> u64" where
  "vtop_out i vaddr pt_phys = pt_phys + (vaddr AND (push_bit (r_pgshift i) 1 - 1))"

definition vtop_pte :: "riscv_info \<Rightarrow> mem64 \<Rightarrow> u64 \<Rightarrow> u64 \<Rightarrow> u64" where
  "vtop_pte i rm vaddr pt_phys = (case read_entry i rm (pt_phys + pte_index i vaddr * 8) of
     None \<Rightarrow> NOT_PADDR | Some (v, p) \<Rightarrow> vtop_out i vaddr p)"

definition vtop_pmd :: "riscv_info \<Rightarrow> mem64 \<Rightarrow> u64 \<Rightarrow> u64 \<Rightarrow> u64" where
  "vtop_pmd i rm vaddr pt_phys = (case read_entry i rm (pt_phys + pmd_index vaddr * 8) of
     None \<Rightarrow> NOT_PADDR | Some (v, p) \<Rightarrow> if PAGE_LEAF v then vtop_out i vaddr p else vtop_pte i rm vaddr p)"

definition vtop_pud :: "riscv_info \<Rightarrow> mem64 \<Rightarrow> u64 \<Rightarrow> u64 \<Rightarrow> u64" where
  "vtop_pud i rm vaddr pt_phys = (case read_entry i rm (pt_phys + pud_index vaddr * 8) of
     None \<Rightarrow> NOT_PADDR | Some (v, p) \<Rightarrow> if PAGE_LEAF v then vtop_out i vaddr p else vtop_pmd i rm vaddr p)"

definition vtop_p4d :: "riscv_info \<Rightarrow> mem64 \<Rightarrow> u64 \<Rightarrow> u64 \<Rightarrow> u64" where
  "vtop_p4d i rm vaddr pt_phys = (case read_entry i rm (pt_phys + p4d_index vaddr * 8) of
     None \<Rightarrow> NOT_PADDR | Some (v, p) \<Rightarrow> if PAGE_LEAF v then vtop_out i vaddr p else vtop_pud i rm vaddr p)"

definition vtop_riscv64 :: "riscv_info \<Rightarrow> mem64 \<Rightarrow> u64 \<Rightarrow> u64 \<Rightarrow> u64 \<Rightarrow> u64" where
  "vtop_riscv64 i rm pgd vaddr bits =
     (let idx = (if bits = 57 then pgd_index_l5 vaddr else if bits = 48 then pgd_index_l4 vaddr else pgd_index_l3 vaddr)
      in case read_entry i rm (pgd + idx * 8) of
           None \<Rightarrow> NOT_PADDR
         | Some (v, p) \<Rightarrow> if PAGE_LEAF v then vtop_out i vaddr p
             else if bits = 57 then vtop_p4d i rm vaddr p
             else if bits = 48 then vtop_pud i rm vaddr p
             else vtop_pmd i rm vaddr p)"

definition vaddr_to_paddr_riscv64 :: "riscv_info \<Rightarrow> mem64 \<Rightarrow> u64 \<Rightarrow> u64" where
  "vaddr_to_paddr_riscv64 i rm vaddr =
     (if r_page_offset i \<le> vaddr \<and> \<not> (num_modules_vaddr i \<le> vaddr \<and> vaddr \<le> num_modules_end i) then VTOP i vaddr
      else if sym_swapper i = 0 then NOT_PADDR
      else vtop_riscv64 i rm (VTOP i (sym_swapper i)) vaddr (num_va_bits i))"

definition paddr_to_vaddr_riscv64 :: "riscv_info \<Rightarrow> u64 \<Rightarrow> u64" where
  "paddr_to_vaddr_riscv64 i x = x + r_page_offset i - r_phys_base i"

section \<open>LoongArch\<close>

record loong_info =
  l_pgshift :: nat
  l_sym_swapper :: u64
  num_l_max_physmem_bits :: u64
  num_l_section_size_bits :: u64
  l_phys_base :: u64
  l_page_offset :: u64
  l_max_physmem_bits :: nat
  l_section_size_bits :: u64

definition get_phys_base_loongarch64 :: "loong_info \<Rightarrow> bool \<times> loong_info" where
  "get_phys_base_loongarch64 i = (True, i\<lparr>l_phys_base := 0\<rparr>)"

definition get_machdep_info_loongarch64 :: "loong_info \<Rightarrow> bool \<times> loong_info" where
  "get_machdep_info_loongarch64 i =
     (True, i\<lparr>l_max_physmem_bits := (if num_l_max_physmem_bits i \<noteq> -1 then unat (num_l_max_physmem_bits i) else 48),
              l_section_size_bits := (if num_l_section_size_bits i \<noteq> -1 then num_l_section_size_bits i else 29)\<rparr>)"

definition get_versiondep_info_loongarch64 :: "loong_info \<Rightarrow> bool \<times> loong_info" where
  "get_versiondep_info_loongarch64 i = (True, i\<lparr>l_page_offset := 0x9000000000000000\<rparr>)"

definition PMD_SHIFT :: "loong_info \<Rightarrow> nat" where "PMD_SHIFT i = (l_pgshift i - 3) * 2 + 3"
definition PGDIR_SHIFT :: "loong_info \<Rightarrow> nat" where "PGDIR_SHIFT i = (l_pgshift i - 3) * 3 + 3"
definition PTRS_PER_PTE :: "loong_info \<Rightarrow> u64" where "PTRS_PER_PTE i = push_bit (l_pgshift i - 3) 1"

definition page_paddr :: "loong_info \<Rightarrow> u64 \<Rightarrow> u64" where
  "page_paddr i e = e AND NOT (push_bit (l_pgshift i) 1 - 1)"

definition pgd_offset :: "loong_info \<Rightarrow> u64 \<Rightarrow> u64 \<Rightarrow> u64" where
  "pgd_offset i pgdir va = pgdir + (drop_bit (PGDIR_SHIFT i) va AND (PTRS_PER_PTE i - 1)) * 8"
definition pmd_offset :: "loong_info \<Rightarrow> u64 \<Rightarrow> u64 \<Rightarrow> u64" where
  "pmd_offset i pgd va = page_paddr i pgd + (drop_bit (PMD_SHIFT i) va AND (PTRS_PER_PTE i - 1)) * 8"
definition pte_offset :: "loong_info \<Rightarrow> u64 \<Rightarrow> u64 \<Rightarrow> u64" where
  "pte_offset i pmd va = page_paddr i pmd + (drop_bit (l_pgshift i) va AND (PTRS_PER_PTE i - 1)) * 8"

text \<open>\<open>rv\<close> is \<^verbatim>\<open>readmem(VADDR, ...)\<close>.\<close>

definition vaddr_to_paddr_loongarch64 :: "loong_info \<Rightarrow> mem64 \<Rightarrow> u64 \<Rightarrow> u64" where
  "vaddr_to_paddr_loongarch64 i rv vaddr =
     (if 0x8000000000000000 \<le> vaddr \<and> vaddr < 0xc000000000000000 then vaddr AND (push_bit (l_max_physmem_bits i) 1 - 1)
      else if l_sym_swapper i = 0 then NOT_PADDR
      else case rv (pgd_offset i (l_sym_swapper i) vaddr) of None \<Rightarrow> NOT_PADDR
       | Some pgdv \<Rightarrow>
      case rv (pmd_offset i pgdv vaddr) of None \<Rightarrow> NOT_PADDR
       | Some pmdv \<Rightarrow>
      if pmdv AND 0x40 \<noteq> 0
      then (pmdv AND NOT (push_bit (PMD_SHIFT i) 1 - 1)) + (vaddr AND (push_bit (PMD_SHIFT i) 1 - 1))
      else case rv (pte_offset i pmdv vaddr) of None \<Rightarrow> NOT_PADDR
       | Some ptev \<Rightarrow>
      if ptev AND 0x80 = 0 then NOT_PADDR
      else page_paddr i ptev + (vaddr AND (push_bit (l_pgshift i) 1 - 1)))"

section \<open>RISC-V and the reference walk\<close>

definition riscv_levels :: "u64 \<Rightarrow> (nat \<times> nat) list" where
  "riscv_levels bits = (if bits = 57 then [(48, 9), (39, 9)] else if bits = 48 then [(39, 9)] else []) @ [(30, 9), (21, 9), (12, 9)]"

definition riscv_phys :: "u64 \<Rightarrow> u64" where
  "riscv_phys e = push_bit 12 (drop_bit 10 (e AND PTE_PFN_PROT_MASK))"

definition riscv_entry :: "nat \<Rightarrow> u64 \<Rightarrow> entry" where
  "riscv_entry sh e =
     (if \<not> PAGE_PRESENT (e AND PTE_PFN_PROT_MASK) then Absent
      else if sh = 12 \<or> PAGE_LEAF (e AND PTE_PFN_PROT_MASK) then Page (riscv_phys e)
      else Table (riscv_phys e))"

lemma index9: "drop_bit sh a AND (512 - 1) = table_index sh 9 (a :: u64)"
  by (simp add: table_index_def take_bit_eq_mask mask_numeral)

lemmas riscv_index = pgd_index_l3_def pgd_index_l4_def pgd_index_l5_def p4d_index_def pud_index_def pmd_index_def pte_index_def

lemma vtop_riscv64_leaf:
  assumes "r_pgshift i = 12"
  shows "vtop_riscv64 i rm pgd va bits =
     paddr_of (map_option (\<lambda>(sh, b). b + take_bit 12 va) (walk_leaf rm riscv_entry (riscv_levels bits) pgd va))"
proof -
  have o: "vtop_out i va p = p + take_bit 12 va" for p
    by (simp add: vtop_out_def assms take_bit_eq_mask mask_numeral)
  let ?r = "\<lambda>w. paddr_of (map_option (\<lambda>(sh, b). b + take_bit 12 va) w)"
  have rd: "read_entry i rm a = (case rm a of None \<Rightarrow> None
      | Some e \<Rightarrow> if PAGE_PRESENT (e AND PTE_PFN_PROT_MASK) then Some (e AND PTE_PFN_PROT_MASK, riscv_phys e) else None)" for a
    by (simp add: read_entry_def assms riscv_phys_def Let_def split: option.split)
  note d = rd o assms riscv_index index9 [simplified] riscv_entry_def NOT_PADDR_def
  have pte: "vtop_pte i rm va p = ?r (walk_leaf rm riscv_entry [(12, 9)] p va)" for p
    by (cases "rm (p + table_index 12 9 va * 8)") (simp_all add: vtop_pte_def d)
  have pmd: "vtop_pmd i rm va p = ?r (walk_leaf rm riscv_entry [(21, 9), (12, 9)] p va)" for p
    by (cases "rm (p + table_index 21 9 va * 8)") (simp_all add: vtop_pmd_def d pte walk_leaf.simps(2) [of _ _ 21] del: walk_leaf.simps)
  have pud: "vtop_pud i rm va p = ?r (walk_leaf rm riscv_entry [(30, 9), (21, 9), (12, 9)] p va)" for p
    by (cases "rm (p + table_index 30 9 va * 8)") (simp_all add: vtop_pud_def d pmd walk_leaf.simps(2) [of _ _ 30] del: walk_leaf.simps)
  have p4d: "vtop_p4d i rm va p = ?r (walk_leaf rm riscv_entry [(39, 9), (30, 9), (21, 9), (12, 9)] p va)" for p
    by (cases "rm (p + table_index 39 9 va * 8)") (simp_all add: vtop_p4d_def d pud walk_leaf.simps(2) [of _ _ 39] del: walk_leaf.simps)
  define sh where "sh = (if bits = 57 then 48 else if bits = 48 then 39 else (30 :: nat))"
  show ?thesis
    by (cases "rm (pgd + table_index sh 9 va * 8)")
      (simp_all add: riscv_levels_def vtop_riscv64_def Let_def d sh_def pmd pud p4d walk_leaf.simps(2) [of _ _ 48]
        walk_leaf.simps(2) [of _ _ 39 9 "[(30, 9), (21, 9), (12, 9)]"]
        walk_leaf.simps(2) [of _ _ 30 9 "[(21, 9), (12, 9)]"] del: walk_leaf.simps split: if_splits)
qed

text \<open>
  \<^verbatim>\<open>vtop_riscv64\<close> finds the right page but adds only the offset in a page of 4096 bytes to its address: it agrees
  with the reference walk for pages of the last level, and for a larger page exactly when the bits of the
  address between 12 and the size of that page are zero.
\<close>

theorem riscv_large_page_offset:
  assumes "r_pgshift i = 12" "walk_leaf rm riscv_entry (riscv_levels bits) pgd va = Some (sh, b)"
  shows "vtop_riscv64 i rm pgd va bits = b + take_bit 12 va \<and>
     (vtop_riscv64 i rm pgd va bits = paddr_of (walk rm riscv_entry (riscv_levels bits) pgd va) \<longleftrightarrow>
        take_bit sh va = take_bit 12 va)"
  using assms by (auto simp: vtop_riscv64_leaf walk_walk_leaf)

definition sample_riscv :: riscv_info where
  "sample_riscv = \<lparr>num_va_bits = 39, num_page_offset = 0, num_phys_ram_base = -1, num_vmalloc_start = 0, num_vmalloc_end = 0,
     num_vmemmap_start = 0, num_vmemmap_end = 0, num_modules_vaddr = 0, num_modules_end = 0, num_kernel_link_addr = 0,
     num_va_kernel_pa_offset = 0, num_max_physmem_bits = -1, num_section_size_bits = -1, sym_swapper = 0x1000,
     r_pgshift = 12, r_phys_base = 0, r_page_offset = 0, r_max_physmem_bits = 56, r_section_size_bits = 27\<rparr>"

text \<open>A page of 2 MiB at 0x80000000 mapped at 0: the address 0x3456 is translated to 0x80000456.\<close>

theorem riscv_large_page_offset_witness:
  "vtop_riscv64 sample_riscv (\<lambda>a. if a = 0x1000 then Some 0x801 else if a = 0x2000 then Some 0x2000000f else None) 0x1000 0x3456 39 = 0x80000456"
  (is "vtop_riscv64 _ ?rm _ _ _ = _")
proof -
  have "walk_leaf ?rm riscv_entry (riscv_levels 39) 0x1000 0x3456 = Some (21, 0x80000000)"
    by (simp add: riscv_levels_def riscv_entry_def riscv_phys_def PTE_PFN_PROT_MASK_def PAGE_PRESENT_def PAGE_LEAF_def table_index_def)
  from riscv_large_page_offset [OF _ this, of sample_riscv] show ?thesis by (simp add: sample_riscv_def)
qed

section \<open>LoongArch and the reference walk\<close>

definition loong_entry :: "loong_info \<Rightarrow> nat \<Rightarrow> u64 \<Rightarrow> entry" where
  "loong_entry i sh e =
     (if sh = l_pgshift i then if e AND 0x80 = 0 then Absent else Page (e AND NOT (mask sh))
      else if sh = PMD_SHIFT i \<and> e AND 0x40 \<noteq> 0 then Page (e AND NOT (mask sh))
      else Table (e AND NOT (mask (l_pgshift i))))"

definition loong_levels :: "loong_info \<Rightarrow> (nat \<times> nat) list" where
  "loong_levels i = [(PGDIR_SHIFT i, l_pgshift i - 3), (PMD_SHIFT i, l_pgshift i - 3), (l_pgshift i, l_pgshift i - 3)]"

lemma loong_format:
  assumes "3 < l_pgshift i"
  shows "page_format (loong_entry i) (loong_levels i) (l_pgshift i)"
proof
  fix l e b
  assume l: "l \<in> set (loong_levels i)"
  then show "l_pgshift i \<le> fst l" using assms by (auto simp: loong_levels_def PMD_SHIFT_def PGDIR_SHIFT_def)
  assume "loong_entry i (fst l) e = Page b"
  then have "b = e AND NOT (mask (fst l))" by (auto simp: loong_entry_def split: if_splits)
  then show "take_bit (fst l) b = 0" by (auto intro!: bit_word_eqI simp: bit_simps)
qed

text \<open>
  C24. \<^verbatim>\<open>vaddr_to_paddr_loongarch64\<close> outside the direct mapping is the page table walk over three levels with
  huge pages at the second one, and an address it translates keeps its offset in the page.
\<close>

theorem loongarch_refines_walk:
  assumes "3 < l_pgshift i" "l_sym_swapper i \<noteq> 0" "\<not> (0x8000000000000000 \<le> va \<and> va < 0xc000000000000000)"
  shows "vaddr_to_paddr_loongarch64 i rv va = paddr_of (walk rv (loong_entry i) (loong_levels i) (l_sym_swapper i) va) \<and>
     (vaddr_to_paddr_loongarch64 i rv va \<noteq> NOT_PADDR \<longrightarrow>
        take_bit (l_pgshift i) (vaddr_to_paddr_loongarch64 i rv va) = take_bit (l_pgshift i) va)"
proof -
  let ?w = "walk rv (loong_entry i) (loong_levels i) (l_sym_swapper i) va"
  have sh: "PMD_SHIFT i \<noteq> l_pgshift i" "PGDIR_SHIFT i \<noteq> l_pgshift i" "PGDIR_SHIFT i \<noteq> PMD_SHIFT i"
    using assms(1) by (auto simp: PMD_SHIFT_def PGDIR_SHIFT_def)
  have w: "vaddr_to_paddr_loongarch64 i rv va = paddr_of ?w"
    unfolding vaddr_to_paddr_loongarch64_def if_not_P [OF assms(3)] if_not_P [OF assms(2)] using sh
    by (simp add: loong_levels_def loong_entry_def pgd_offset_def pmd_offset_def
        pte_offset_def page_paddr_def PTRS_PER_PTE_def table_index_def take_bit_eq_mask mask_eq_exp_minus_1 NOT_PADDR_def
        split: option.split)
  moreover have "take_bit (l_pgshift i) p = take_bit (l_pgshift i) va" if "?w = Some p" for p
    using page_format.walk_offset [OF loong_format [OF assms(1)] order_refl that] .
  ultimately show ?thesis by (cases ?w) (simp_all add: NOT_PADDR_def)
qed

definition sample_loong :: loong_info where
  "sample_loong = \<lparr>l_pgshift = 14, l_sym_swapper = 0x9000000000004000, num_l_max_physmem_bits = -1, num_l_section_size_bits = -1,
     l_phys_base = 0, l_page_offset = 0x9000000000000000, l_max_physmem_bits = 48, l_section_size_bits = 29\<rparr>"

theorem loongarch_refines_walk_witness:
  "vaddr_to_paddr_loongarch64 sample_loong
     (\<lambda>a. if a = 0x9000000000004000 then Some 0x9000000000008000 else if a = 0x9000000000008008 then Some 0x80000040 else None)
     0x2001234 = 0x80001234" (is "vaddr_to_paddr_loongarch64 _ ?rv _ = _")
proof -
  have "walk ?rv (loong_entry sample_loong) (loong_levels sample_loong) 0x9000000000004000 0x2001234 = Some 0x80001234"
    by (simp add: loong_levels_def loong_entry_def sample_loong_def PMD_SHIFT_def PGDIR_SHIFT_def table_index_def
        mask_eq_exp_minus_1)
  with loongarch_refines_walk [of sample_loong "0x2001234" ?rv] show ?thesis by (simp add: sample_loong_def)
qed

end
