(* ===== verification/Arch_S390x.thy ===== *)
theory Arch_S390x
  imports Elf_Info Paging
begin

text \<open>
  Address translation of \<^verbatim>\<open>src/arch/s390x.c\<close>: region, segment and page tables of a variable number of levels,
  the legacy mapping and the mapping of kernels with separate virtual and real addresses.
\<close>

section \<open>Data\<close>

text \<open>\<open>vr\<close> says which functions \<^verbatim>\<open>s390_ops\<close> holds.\<close>

record s390_info =
  vr :: bool
  identity_map_base :: u64
  kvbase :: u64
  kaslr_offset_phys :: u64
  s_vmemmap_start :: u64
  amode31_start :: u64
  amode31_end :: u64
  s_page_size :: u64
  s_page_offset :: u64
  s_section_size_bits :: nat
  s_max_physmem_bits :: nat
  kernel_start :: u64
  vmalloc_start :: u64
  num_physmem_bits :: u64
  len_mem_section :: u64
  size_mem_section :: u64
  s_sym_stext :: u64
  sym_high_memory :: u64
  s_sym_swapper :: u64
  segments :: "pt_load_segment list"

definition TABLE_LEVEL :: "u64 \<Rightarrow> nat" where "TABLE_LEVEL x = unat (drop_bit 2 (x AND 0x0c))"
definition TABLE_LENGTH :: "u64 \<Rightarrow> u64" where "TABLE_LENGTH x = x AND 0x03"
definition REGION_ENTRY_ORIGIN :: u64 where "REGION_ENTRY_ORIGIN = NOT 0xfff"
definition SEGMENT_ENTRY_ORIGIN :: u64 where "SEGMENT_ENTRY_ORIGIN = NOT 0x7ff"
definition RSG_TABLE_LEVEL :: "u64 \<Rightarrow> nat" where "RSG_TABLE_LEVEL x = unat (drop_bit 2 (x AND 0x0c))"
definition RSG_TABLE_LENGTH :: "u64 \<Rightarrow> u64" where "RSG_TABLE_LENGTH x = x AND 0x03"

definition rsg_index :: "u64 \<Rightarrow> nat \<Rightarrow> u64" where
  "rsg_index x y = drop_bit (11 * y + 20) x AND 0x7ff"
definition s_pte_index :: "u64 \<Rightarrow> u64" where
  "s_pte_index x = drop_bit 12 x AND 0xff"
definition rsg_offset :: "u64 \<Rightarrow> nat \<Rightarrow> u64" where "rsg_offset x y = rsg_index x y * 8"
definition s_pte_offset :: "u64 \<Rightarrow> u64" where "s_pte_offset x = s_pte_index x * 8"

section \<open>Initialisation\<close>

text \<open>\<^verbatim>\<open>NR_MEM_SECTIONS()\<close> for a number of bits of physical addresses.\<close>

definition nr_mem_sections :: "s390_info \<Rightarrow> u64" where
  "nr_mem_sections i = push_bit (s_max_physmem_bits i - s_section_size_bits i) 1"

definition set_s390x_max_physmem_bits :: "s390_info \<Rightarrow> bool \<times> s390_info" where
  "set_s390x_max_physmem_bits i =
     (let fits = (\<lambda>j. len_mem_section i = nr_mem_sections j div (s_page_size i div size_mem_section i) \<or>
                      len_mem_section i = nr_mem_sections j div 1);
          i42 = i\<lparr>s_max_physmem_bits := 42\<rparr>; i46 = i\<lparr>s_max_physmem_bits := 46\<rparr>
      in if num_physmem_bits i \<noteq> -1 then (True, i\<lparr>s_max_physmem_bits := unat (num_physmem_bits i)\<rparr>)
         else if fits i42 then (True, i42)
         else if fits i46 then (True, i46)
         else (False, i46))"

text \<open>\<open>rm\<close> reads 8 bytes of physical memory. Entry \<open>n\<close> of \<^verbatim>\<open>struct os_info\<close> starts at byte 32 + 20 n.\<close>

definition os_info_val :: "mem64 \<Rightarrow> u64 \<Rightarrow> nat \<Rightarrow> u64 option" where
  "os_info_val rm addr n = rm (addr + of_nat (32 + 20 * n))"

definition s390x_init_vm :: "mem64 \<Rightarrow> s390_info \<Rightarrow> bool \<times> s390_info" where
  "s390x_init_vm rm i = (case rm 0x0e18 of None \<Rightarrow> (False, i)
     | Some addr \<Rightarrow>
         if addr = 0 then (True, i)
         else (case (os_info_val rm addr 4, os_info_val rm addr 5, os_info_val rm addr 6, os_info_val rm addr 7,
                     os_info_val rm addr 8, os_info_val rm addr 9) of
             (Some ib, Some kb, Some kp, Some vm, Some as, Some ae) \<Rightarrow>
               if kb = 0 then (True, i)
               else (True, i\<lparr>identity_map_base := ib, kvbase := kb, kaslr_offset_phys := kp, s_vmemmap_start := vm,
                             amode31_start := as, amode31_end := ae, vr := True\<rparr>)
           | _ \<Rightarrow> (False, i)))"

section \<open>The table walk\<close>

definition is_vmalloc_addr_s390x :: "s390_info \<Rightarrow> u64 \<Rightarrow> bool" where
  "is_vmalloc_addr_s390x i vaddr = (vmalloc_start i \<noteq> 0 \<and> vmalloc_start i \<le> vaddr)"

definition rsg_table_entry_bad :: "u64 \<Rightarrow> nat \<Rightarrow> bool" where
  "rsg_table_entry_bad entry level =
     (let mask0 = NOT 0x20 AND NOT 0x0c AND NOT 0x03 AND NOT 0x400 AND NOT 0x100;
          m = (if level \<noteq> 0 then mask0 AND NOT REGION_ENTRY_ORIGIN else mask0 AND NOT SEGMENT_ENTRY_ORIGIN)
      in entry AND m \<noteq> 0)"

definition kl_rsg_table_deref_s390x :: "mem64 \<Rightarrow> u64 \<Rightarrow> u64 \<Rightarrow> u64 \<Rightarrow> nat \<Rightarrow> u64" where
  "kl_rsg_table_deref_s390x rm vaddr table len level =
     (let offset = rsg_offset vaddr level
      in if (len + 1) * 4096 \<le> offset then 0
         else case rm (table + offset) of None \<Rightarrow> 0
           | Some entry \<Rightarrow>
               if rsg_table_entry_bad entry level then 0
               else if RSG_TABLE_LEVEL entry \<noteq> level \<and> entry AND 0x20 \<noteq> 0 then 0
               else entry)"

text \<open>The result of \<^verbatim>\<open>readmem\<close> is not tested: without it the entry is indeterminate, here \<open>None\<close>.\<close>

definition kl_pg_table_deref_s390x :: "mem64 \<Rightarrow> u64 \<Rightarrow> u64 \<Rightarrow> u64 option" where
  "kl_pg_table_deref_s390x rm vaddr table =
     map_option (\<lambda>entry. if entry AND (0x800 OR 0x400) \<noteq> 0 then 0 else entry) (rm (table + s_pte_offset vaddr))"

text \<open>The end of \<^verbatim>\<open>vtop_s390x\<close>: a large segment or a page table.\<close>

definition vtop_segment :: "mem64 \<Rightarrow> u64 \<Rightarrow> u64 \<Rightarrow> u64 option" where
  "vtop_segment rm vaddr entry =
     (let table = entry AND REGION_ENTRY_ORIGIN
      in if entry AND 0x400 \<noteq> 0 then Some ((table AND NOT 0xfffff) + (vaddr AND 0xfffff))
         else map_option (\<lambda>e. if e = 0 then NOT_PADDR else (e AND REGION_ENTRY_ORIGIN) + (vaddr AND 0xfff))
                (kl_pg_table_deref_s390x rm vaddr (entry AND SEGMENT_ENTRY_ORIGIN)))"

text \<open>The loop over the region and segment tables, from \<open>level\<close> down.\<close>

fun rsg_walk :: "mem64 \<Rightarrow> u64 \<Rightarrow> u64 \<Rightarrow> u64 \<Rightarrow> nat \<Rightarrow> u64 option" where
  "rsg_walk rm vaddr table len level =
     (let entry = kl_rsg_table_deref_s390x rm vaddr table len level;
          table' = entry AND REGION_ENTRY_ORIGIN
      in if entry = 0 then Some NOT_PADDR
         else if entry AND 0x400 \<noteq> 0 \<and> level = 1 then Some ((table' AND NOT 0x7fffffff) + (vaddr AND 0x7fffffff))
         else case level of 0 \<Rightarrow> vtop_segment rm vaddr entry
           | Suc level' \<Rightarrow> rsg_walk rm vaddr table' (RSG_TABLE_LENGTH entry) level')"

declare rsg_walk.simps [simp del]

text \<open>\<^verbatim>\<open>vtop_s390x\<close> with the physical address of \<^verbatim>\<open>swapper_pg_dir\<close>.\<close>

definition vtop_table :: "mem64 \<Rightarrow> u64 \<Rightarrow> u64 \<Rightarrow> u64 option" where
  "vtop_table rm table vaddr = (case rm table of None \<Rightarrow> Some NOT_PADDR
     | Some entry \<Rightarrow>
         if drop_bit (31 + 11 * TABLE_LEVEL entry) vaddr \<noteq> 0 then Some NOT_PADDR
         else rsg_walk rm vaddr table (TABLE_LENGTH entry) (TABLE_LEVEL entry))"

text \<open>
  \<^verbatim>\<open>vaddr_to_paddr_s390x\<close> and \<^verbatim>\<open>vtop_s390x\<close> call each other for the address of \<^verbatim>\<open>swapper_pg_dir\<close>; \<open>fuel\<close>
  bounds the depth. \<open>None\<close>: no result (the recursion has not ended, or it depends on an indeterminate entry).
\<close>

fun vaddr_to_paddr_s390x :: "nat \<Rightarrow> s390_info \<Rightarrow> mem64 \<Rightarrow> u64 \<Rightarrow> u64 option" where
  "vaddr_to_paddr_s390x 0 i rm vaddr = None"
| "vaddr_to_paddr_s390x (Suc fuel) i rm vaddr =
     (let vtop = (\<lambda>va. if s_sym_swapper i = 0 then Some NOT_PADDR
             else case vaddr_to_paddr_s390x fuel i rm (s_sym_swapper i) of None \<Rightarrow> None
               | Some table \<Rightarrow> vtop_table rm table va)
      in if vr i
         then (if vaddr < 0x2000 then Some vaddr
               else if vaddr < amode31_end i \<and> amode31_start i \<le> vaddr then Some vaddr
               else if vaddr < s_vmemmap_start i then Some (vaddr - identity_map_base i)
               else if kvbase i \<le> vaddr then Some (vaddr - kvbase i + kaslr_offset_phys i)
               else vtop vaddr)
         else let paddr = vaddr_to_paddr_general (segments i) vaddr
              in if paddr \<noteq> NOT_PADDR then Some paddr
                 else if sym_high_memory i = 0 then Some NOT_PADDR
                 else if is_vmalloc_addr_s390x i vaddr then vtop vaddr
                 else Some (vaddr - 0))"

definition paddr_to_vaddr_s390x :: "s390_info \<Rightarrow> u64 \<Rightarrow> u64" where
  "paddr_to_vaddr_s390x i paddr = (if vr i then identity_map_base i + paddr
     else paddr_to_vaddr_general (s_page_offset i) paddr)"

text \<open>\<open>rv\<close> is \<^verbatim>\<open>readmem(VADDR, ...)\<close>.\<close>

definition get_machdep_info_s390x :: "mem64 \<Rightarrow> mem64 \<Rightarrow> s390_info \<Rightarrow> bool \<times> s390_info" where
  "get_machdep_info_s390x rm rv i = (case s390x_init_vm rm i of
     (False, i1) \<Rightarrow> (False, i1)
   | (True, i1) \<Rightarrow> (case set_s390x_max_physmem_bits (i1\<lparr>s_section_size_bits := 28\<rparr>) of
        (False, i2) \<Rightarrow> (False, i2)
      | (True, i2) \<Rightarrow>
          let i3 = i2\<lparr>s_page_offset := s_page_size i2 - 1\<rparr>
          in if s_sym_stext i3 = 0 then (False, i3)
             else let i4 = i3\<lparr>kernel_start := s_sym_stext i3\<rparr>
             in if sym_high_memory i4 = 0 then (True, i4)
                else case rv (sym_high_memory i4) of None \<Rightarrow> (False, i4)
                  | Some v \<Rightarrow> (True, i4\<lparr>vmalloc_start := v\<rparr>)))"

text \<open>\<^verbatim>\<open>phys_addr_callback\<close> on the ranges of \<^verbatim>\<open>/proc/iomem\<close>, as (base, length): whether the address was found.\<close>

definition phys_addr_callback :: "u64 \<Rightarrow> u64 \<times> u64 \<Rightarrow> bool" where
  "phys_addr_callback addr r = (fst r \<le> addr \<and> addr < fst r + snd r)"

definition is_iomem_phys_addr_s390x :: "(u64 \<times> u64) list \<Rightarrow> u64 \<Rightarrow> bool" where
  "is_iomem_phys_addr_s390x ram addr = (find (phys_addr_callback addr) ram \<noteq> None)"

section \<open>Properties\<close>

text \<open>With separate address spaces the identity mapping is inverted by the translation.\<close>

lemma s390x_identity_roundtrip:
  assumes "vr i" "0x2000 \<le> identity_map_base i + p" "amode31_end i \<le> identity_map_base i + p"
    "identity_map_base i + p < s_vmemmap_start i"
  shows "vaddr_to_paddr_s390x (Suc n) i rm (paddr_to_vaddr_s390x i p) = Some p"
  using assms by (simp add: paddr_to_vaddr_s390x_def not_less [symmetric])

text \<open>
  An entry marked invalid is followed when its type matches the level: the two conditions that should
  each reject an entry are joined by \<^verbatim>\<open>&&\<close>.
\<close>

lemma s390x_invalid_entry_followed:
  assumes "rm (table + rsg_offset vaddr level) = Some entry" "rsg_offset vaddr level < (len + 1) * 4096"
    "\<not> rsg_table_entry_bad entry level" "RSG_TABLE_LEVEL entry = level"
  shows "kl_rsg_table_deref_s390x rm vaddr table len level = entry"
  using assms by (simp add: kl_rsg_table_deref_s390x_def Let_def not_le [symmetric])

text \<open>A large segment maps a megabyte linearly.\<close>

lemma s390x_large_segment:
  assumes "entry AND 0x400 \<noteq> 0"
  shows "vtop_segment rm vaddr entry = Some ((entry AND NOT (mask 20)) + take_bit 20 vaddr)"
proof -
  have "(NOT 0xfff :: u64) AND NOT 0xfffff = NOT (mask 20)" by (simp add: mask_eq_exp_minus_1)
  then show ?thesis using assms
    unfolding vtop_segment_def Let_def REGION_ENTRY_ORIGIN_def and.assoc
    by (simp add: take_bit_eq_mask mask_eq_exp_minus_1)
qed

end
