(* ===== verification/Spec2Isabelle.thy ===== *)
theory Spec2Isabelle
  imports Cache Detect_Cycle Bitmap Page_Filter Mem_Map Readmem Writer Erase Kdump_Roundtrip Parallel_Data Elf_Output Kernel_Log_Output Split Tools Arch_X86_64 Arch_Arm64 Arch_Riscv64 Arch_S390x
begin

text \<open>
  A verification of \<^bold>\<open>makedumpfile\<close>, which reads the memory image of a crashed Linux kernel, leaves out the pages
  that are not wanted and writes a smaller dump.

  \<^bold>\<open>How the program works.\<close> The ELF headers of the image give a table of segments (\<^verbatim>\<open>src/elf_info.c\<close>).
  A first bitmap marks the page frames that exist, a second one the frames to dump; filtering walks over the
  page descriptors of the dumped kernel and clears bits of the second bitmap. When the bitmaps do not fit into memory this
  happens in cycles over the frames. The dumped frames are then written, possibly as a stream in a flattened format, possibly
  split into several files. Addresses of the dumped kernel are translated by the functions of the architecture.

  \<^bold>\<open>Theories.\<close>
  \<^item> \<^verbatim>\<open>Prelude\<close>, \<^verbatim>\<open>Bytes\<close>, \<^verbatim>\<open>File_IO\<close>: the C integers as words, rounding macros, loops over frames (\<open>for_pfns\<close>), fields of byte lists,
    files with positioned reads and writes.
  \<^item> \<^verbatim>\<open>Cache\<close> (\<^verbatim>\<open>cache.c\<close>): the page cache at the level of the links of its lists; it refines an LRU cache over three
    lists, keeps its entries partitioned, and a page that was added is found.
  \<^item> \<^verbatim>\<open>Detect_Cycle\<close> (\<^verbatim>\<open>detect_cycle.c\<close>): Brent's algorithm finds every cycle and reports none that does not exist.
  \<^item> \<^verbatim>\<open>Cyclic\<close>, \<^verbatim>\<open>Bitmap\<close>, \<^verbatim>\<open>Bitmap_Create\<close> (\<^verbatim>\<open>makedumpfile.c\<close>): the iteration over cycles covers every frame once; the
    bitmaps in memory and in a file behave as a set of frames (locale \<open>bit_store\<close>, interpreted for both
    bitmaps); filling them from the segments and excluding ranges is exact.
  \<^item> \<^verbatim>\<open>Page_Filter\<close> (\<^verbatim>\<open>makedumpfile.c\<close>, \<^verbatim>\<open>__exclude_unnecessary_pages\<close>): the decision for a page, the buffer of page descriptors, blocks that
    reach over the end of a cycle; after filtering exactly the excludable frames are cleared.
  \<^item> \<^verbatim>\<open>Elf_Info\<close> (\<^verbatim>\<open>elf_info.c\<close>): headers, notes, segments, address translation through segments, cutting out reserved memory.
  \<^item> \<^verbatim>\<open>Writer\<close> (\<^verbatim>\<open>makedumpfile.c\<close>, \<^verbatim>\<open>write_and_check_space\<close> to \<^verbatim>\<open>rearrange_dumpdata\<close>): partial and interrupted writes, the size limit, the
    write-behind buffer, and the flattened format, which is lossless.
  \<^item> \<^verbatim>\<open>Mem_Map\<close> (\<^verbatim>\<open>makedumpfile.c\<close>, \<^verbatim>\<open>get_nodes_online\<close> to \<^verbatim>\<open>get_mem_map\<close>): where the page descriptors of the dumped kernel are for the flat,
    discontiguous and sparse memory models; the maps tile the frames, and a frame is found from its descriptor.
  \<^item> \<^verbatim>\<open>Vmcore\<close>, \<^verbatim>\<open>Readmem\<close> (\<^verbatim>\<open>makedumpfile.c\<close>, \<^verbatim>\<open>readpage_elf\<close> to \<^verbatim>\<open>readmem\<close>): a page assembled from the segments of an ELF file, with or without
    \<^verbatim>\<open>mmap\<close>, and reads of any length through the page cache, which return the bytes of the memory.
  \<^item> \<^verbatim>\<open>Erase\<close> (\<^verbatim>\<open>erase_info.c\<close>): the ordered list of ranges to erase is the union of what was inserted; exactly these bytes
    of a page are overwritten.
  \<^item> \<^verbatim>\<open>Kdump_Read\<close>, \<^verbatim>\<open>Kdump_Write\<close>, \<^verbatim>\<open>Kdump_Roundtrip\<close> (\<^verbatim>\<open>makedumpfile.c\<close>, \<^verbatim>\<open>diskdump_mod.h\<close>): reader and writer of the pages and bitmaps of the
    kdump-compressed format; what the cyclic writer has written is read back page for page.
  \<^item> \<^verbatim>\<open>Parallel\<close>, \<^verbatim>\<open>Parallel_Data\<close> (\<^verbatim>\<open>makedumpfile.c\<close>, \<^verbatim>\<open>kdump_thread_function_cyclic\<close>): the writer with threads as a step relation over all
    interleavings; in every reachable state the frames written are the next ones in order, each with its own page.
  \<^item> \<^verbatim>\<open>Elf_Write\<close>, \<^verbatim>\<open>Elf_Output\<close> (\<^verbatim>\<open>makedumpfile.c\<close>, \<^verbatim>\<open>write_elf_header\<close>, \<^verbatim>\<open>write_elf_pages_cyclic\<close>): the writer of ELF files; the file is recognised as
    an ELF dump, its headers are read back, and every dumped frame reads as in the input.
  \<^item> \<^verbatim>\<open>Kernel_Log\<close>, \<^verbatim>\<open>Kernel_Log_Output\<close> (\<^verbatim>\<open>makedumpfile.c\<close>, \<^verbatim>\<open>dump_dmesg\<close>; \<^verbatim>\<open>printk.c\<close>): the kernel's messages from its three kinds of rings; exactly
    the messages in the ring are printed, in order, and a damaged ring is cut where it runs into a cycle.
  \<^item> \<^verbatim>\<open>Split\<close> (\<^verbatim>\<open>makedumpfile.c\<close>): the ranges of a split dump and the check of the parts before they are put together.
  \<^item> \<^verbatim>\<open>Tools\<close> (\<^verbatim>\<open>tools.c\<close>): strings changed in place, numbers, splitting of lines.
  \<^item> \<^verbatim>\<open>Paging\<close>, \<^verbatim>\<open>Arch_X86_64\<close>, \<^verbatim>\<open>Arch_Arm64\<close>, \<^verbatim>\<open>Arch_Riscv64\<close>, \<^verbatim>\<open>Arch_S390x\<close> (\<^verbatim>\<open>arch/\<close>): a reference page table walk (locale
    \<open>page_format\<close>: page offsets are kept, a page is translated as a whole), and the translation functions as
    instances of it (\<^verbatim>\<open>arch/loongarch64.c\<close> is in \<^verbatim>\<open>Arch_Riscv64\<close>).

  \<^bold>\<open>State and effects.\<close> The members of \<^verbatim>\<open>struct DumpInfo\<close> and the static variables a component uses are the fields of a record
  that its operations take and return. Failure is a boolean result as in the source, or \<open>None\<close> for what the source
  does not define: an access outside a buffer, a call that has not returned, a loop that does not end. Reading the dumped
  kernel's memory (\<^verbatim>\<open>readmem\<close>, whose model is in \<^verbatim>\<open>Readmem\<close>) and the results of \<^verbatim>\<open>write\<close> are arguments of the components that use them; where a theorem needs more of them than a value
  or a failure, it says so in a hypothesis. Structures in files have the layout of a little-endian 64-bit host; the flattened format is
  big-endian as in the source. \<^verbatim>\<open>unsigned long\<close> and \<^verbatim>\<open>unsigned long long\<close> are 64-bit words that wrap around.

  \<^bold>\<open>Bounds and fuel.\<close> Loops are recursive functions with a termination proof, except the page loop of the filter
  (\<^theory_text>\<open>partial_function\<close>, shown to return by the exactness theorem) and the translations of Xen and s390x that call themselves for the address of the
  top-level table: there the fuel is the depth of the recursion, and two calls are enough exactly when that address needs no table.

  \<^bold>\<open>Errors found.\<close> Some theorems describe what the code does where it does not do what it should: the frames counted twice
  in \<^verbatim>\<open>create_bitmap_from_memhole\<close>, the offset after \<^verbatim>\<open>exclude_segment\<close> of the beginning of a segment, the bitmap block number that
  overflows, leading blanks in \<^verbatim>\<open>strip_beginning_whitespace\<close>, large pages on riscv64 and on arm64 with two levels, memory maps of Xen and of
  overlapping sections, cycles in the kernel log that begin at a marker for the wrap-around, and a split dump with fewer pages than parts.

  \<^bold>\<open>Not modelled.\<close> Option parsing, reports and the opening of files; DWARF and vmcoreinfo (results are fields); the header of a
  kdump-compressed file; the compression libraries (arguments with the law that decompression inverts compression); the
  filter language of \<^verbatim>\<open>erase_info.c\<close> and eppic; sadump; the remaining architectures. Messages are left out everywhere.
\<close>

end
